(* ===== verification/Nta_Prelude.thy ===== *)
theory Nta_Prelude
  imports Complex_Main "HOL-Library.Word" "HOL-Library.Monad_Syntax"
begin

text \<open>
  Shared vocabulary of the development: the machine integers the code uses, the C strings
  (\<open>char list\<close> up to the terminating NUL) with the library calls the code makes on them,
  the process environment, bounds-checked byte reads, and the generic lemmas on lists and
  words that the component theories share.
\<close>

unbundle bit_operations_syntax

named_theorems nta_defs
  \<comment> \<open>definitions of small operations, unfolded together by the component proofs\<close>

section \<open>Types\<close>

type_synonym u8 = "8 word"
type_synonym u16 = "16 word"
type_synonym u32 = "32 word"
type_synonym u64 = "64 word"
type_synonym bytes = "8 word list"
type_synonym time_t = int
type_synonym env = "string \<Rightarrow> string option"

definition INT_MAX :: int where "INT_MAX = 2147483647"

section \<open>Byte reads\<close>

text \<open>
  A read of a packet buffer. Out of range it is \<open>None\<close>, so that a definition which reads
  past the captured length has no value: memory safety of the analyzer is the statement
  that it never is \<open>None\<close>.
\<close>

definition byte_at :: "bytes \<Rightarrow> nat \<Rightarrow> u8 option" where
  "byte_at p i = (if i < length p then Some (p ! i) else None)"

lemma byte_at_in [simp]: "i < length p \<Longrightarrow> byte_at p i = Some (p ! i)"
  by (simp add: byte_at_def)

text \<open>\<open>ntohs\<close> of a 16-bit field of a packed header: the two bytes in wire order.\<close>

definition be16 :: "u8 \<Rightarrow> u8 \<Rightarrow> u16" where
  "be16 hi lo = push_bit 8 (ucast hi) OR ucast lo"

definition be16_at :: "bytes \<Rightarrow> nat \<Rightarrow> u16 option" where
  "be16_at p i = do { hi \<leftarrow> byte_at p i; lo \<leftarrow> byte_at p (i + 1); Some (be16 hi lo) }"

lemma be16_at_in [simp]:
  "i + 1 < length p \<Longrightarrow> be16_at p i = Some (be16 (p ! i) (p ! (i + 1)))"
  by (simp add: be16_at_def)

section \<open>Words\<close>

text \<open>Comparisons with \<open>1\<close> that the simplifier needs to evaluate index arithmetic.\<close>

lemma word_numeral_le_one [simp]:
  "(numeral n :: 'a::len word) \<le> 1 \<longleftrightarrow> uint (numeral n :: 'a word) \<le> 1"
  by (simp add: word_le_def)

lemma word_one_le_numeral [simp]:
  "1 \<le> (numeral n :: 'a::len word) \<longleftrightarrow> 1 \<le> uint (numeral n :: 'a word)"
  by (simp add: word_le_def)

section \<open>C strings\<close>

text \<open>
  \<open>strncpy (dst, src, sizeof dst - 1)\<close> into a zeroed field and \<open>snprintf (dst, n, "%s", src)\<close>
  both keep the first \<open>n - 1\<close> characters and a terminating NUL.
\<close>

definition cstr_copy :: "nat \<Rightarrow> string \<Rightarrow> string" where
  "cstr_copy n s = take (n - 1) s"

lemma cstr_copy_id [simp]: "length s < n \<Longrightarrow> cstr_copy n s = s"
  by (simp add: cstr_copy_def)

lemma length_cstr_copy: "0 < n \<Longrightarrow> length (cstr_copy n s) < n"
  by (auto simp: cstr_copy_def)

text \<open>\<open>strncat (dst, src, cap - strlen dst - 1)\<close> on a buffer of \<open>cap\<close> bytes.\<close>

definition strncat_cap :: "nat \<Rightarrow> string \<Rightarrow> string \<Rightarrow> string" where
  "strncat_cap cap dst src = dst @ take (cap - length dst - 1) src"

lemma length_strncat_cap:
  "length dst < cap \<Longrightarrow> length (strncat_cap cap dst src) < cap"
  by (auto simp: strncat_cap_def)

lemma strncat_cap_fits:
  "length dst + length src < cap \<Longrightarrow> strncat_cap cap dst src = dst @ src"
  by (simp add: strncat_cap_def)

text \<open>\<open>strstr\<close> as a test: does the needle occur somewhere in the haystack?\<close>

fun has_prefix :: "'a list \<Rightarrow> 'a list \<Rightarrow> bool" where
  "has_prefix [] ys = True"
| "has_prefix (x # xs) [] = False"
| "has_prefix (x # xs) (y # ys) = (x = y \<and> has_prefix xs ys)"

fun strstr :: "'a list \<Rightarrow> 'a list \<Rightarrow> bool" where
  "strstr [] n = (n = [])"
| "strstr (c # h) n = (has_prefix n (c # h) \<or> strstr h n)"

lemma has_prefix_iff: "has_prefix xs ys \<longleftrightarrow> (\<exists>zs. ys = xs @ zs)"
  by (induction xs ys rule: has_prefix.induct) auto

lemma has_prefix_append [simp]: "has_prefix xs (xs @ ys)"
  by (auto simp: has_prefix_iff)

lemma strstr_iff: "strstr h n \<longleftrightarrow> (\<exists>us vs. h = us @ n @ vs)"
proof (induction h)
  case (Cons c h)
  show ?case
  proof
    assume "strstr (c # h) n"
    then consider zs where "c # h = n @ zs" | us vs where "h = us @ n @ vs"
      using Cons by (auto simp: has_prefix_iff)
    then show "\<exists>us vs. c # h = us @ n @ vs"
    proof cases
      case 1
      then have "c # h = [] @ n @ zs" by simp
      then show ?thesis by blast
    next
      case 2
      then have "c # h = (c # us) @ n @ vs" by simp
      then show ?thesis by blast
    qed
  next
    assume "\<exists>us vs. c # h = us @ n @ vs"
    then obtain us vs where e: "c # h = us @ n @ vs" by blast
    show "strstr (c # h) n"
    proof (cases us)
      case Nil
      with e have "c # h = n @ vs" by simp
      then have "has_prefix n (c # h)" by (auto simp: has_prefix_iff)
      then show ?thesis by simp
    next
      case (Cons u us')
      with e have "h = us' @ n @ vs" by simp
      with Cons.IH show ?thesis by auto
    qed
  qed
qed simp

text \<open>\<open>strchr\<close> and the split the code makes at the first occurrence of a character.\<close>

fun split_at_char :: "char \<Rightarrow> string \<Rightarrow> (string \<times> string) option" where
  "split_at_char c [] = None"
| "split_at_char c (x # xs) =
     (if x = c then Some ([], xs)
      else map_option (\<lambda>(a, b). (x # a, b)) (split_at_char c xs))"

lemma split_at_char_Some:
  "split_at_char c s = Some (a, b) \<longleftrightarrow> s = a @ c # b \<and> c \<notin> set a"
proof (induction s arbitrary: a)
  case (Cons x xs)
  show ?case
    by (cases a) (auto simp: Cons.IH)
qed simp

lemma split_at_char_None: "split_at_char c s = None \<longleftrightarrow> c \<notin> set s"
  by (induction s) auto

section \<open>Numbers in strings\<close>

definition is_digit :: "char \<Rightarrow> bool" where
  "is_digit c \<longleftrightarrow> 48 \<le> (of_char c :: nat) \<and> (of_char c :: nat) \<le> 57"

definition digit_val :: "char \<Rightarrow> nat" where
  "digit_val c = of_char c - 48"

text \<open>\<open>isspace\<close> of the C locale.\<close>

definition isspace :: "char \<Rightarrow> bool" where
  "isspace c \<longleftrightarrow> (of_char c :: nat) = 32 \<or> (9 \<le> (of_char c :: nat) \<and> (of_char c :: nat) \<le> 13)"

definition digits_val :: "string \<Rightarrow> nat" where
  "digits_val ds = foldl (\<lambda>n c. 10 * n + digit_val c) 0 ds"

text \<open>
  \<open>strtol (s, &end, 10)\<close> on a 64-bit \<open>long\<close>: the value, saturated at the ends of the range,
  and whether a number was found at all (\<open>end != s\<close>). \<open>atoi\<close> is that value converted to
  \<open>int\<close>, which keeps the low 32 bits.
\<close>

definition clamp_long :: "int \<Rightarrow> int" where
  "clamp_long n = max (- (2 ^ 63)) (min (2 ^ 63 - 1) n)"

definition to_int32 :: "int \<Rightarrow> int" where
  "to_int32 n = sint (word_of_int n :: 32 word)"

definition strtol :: "string \<Rightarrow> int \<times> bool" where
  "strtol s =
     (let s1 = dropWhile isspace s;
          neg = (case s1 of c # _ \<Rightarrow> c = CHR ''-'' | [] \<Rightarrow> False);
          s2 = (case s1 of c # r \<Rightarrow> if c = CHR ''-'' \<or> c = CHR ''+'' then r else s1 | [] \<Rightarrow> []);
          ds = takeWhile is_digit s2
      in if ds = [] then (0, False)
         else (clamp_long (if neg then - int (digits_val ds) else int (digits_val ds)), True))"

definition atoi :: "string \<Rightarrow> int" where
  "atoi s = to_int32 (fst (strtol s))"

lemma to_int32_id: "- (2 ^ 31) \<le> n \<Longrightarrow> n < 2 ^ 31 \<Longrightarrow> to_int32 n = n"
  by (simp add: to_int32_def signed_of_int signed_take_bit_int_eq_self)

lemma atoi_no_digits: "takeWhile is_digit s = [] \<Longrightarrow> (\<forall>c \<in> set (take 1 s). \<not> isspace c \<and>
    c \<noteq> CHR ''-'' \<and> c \<noteq> CHR ''+'') \<Longrightarrow> atoi s = 0"
  by (cases s) (auto simp: atoi_def strtol_def to_int32_def Let_def)

text \<open>\<open>"%d"\<close> of a non-negative number.\<close>

fun dec_digits :: "nat \<Rightarrow> string" where
  "dec_digits n =
     (if n < 10 then [char_of (48 + n)] else dec_digits (n div 10) @ [char_of (48 + n mod 10)])"

declare dec_digits.simps [simp del]

lemma is_digit_char_of [simp]: "n < (10::nat) \<Longrightarrow> is_digit (char_of (48 + n))"
  by (simp add: is_digit_def)

lemma digit_val_char_of [simp]: "n < (10::nat) \<Longrightarrow> digit_val (char_of (48 + n)) = n"
  by (simp add: digit_val_def)

lemma dec_digits_nonempty [simp]: "dec_digits n \<noteq> []"
  by (subst dec_digits.simps) simp

lemma dec_digits_all: "list_all is_digit (dec_digits n)"
proof (induction n rule: dec_digits.induct)
  case (1 n)
  then show ?case by (subst dec_digits.simps) auto
qed

lemma digits_val_snoc [simp]: "digits_val (ds @ [c]) = 10 * digits_val ds + digit_val c"
  by (simp add: digits_val_def)

lemma digits_val_dec_digits [simp]: "digits_val (dec_digits n) = n"
proof (induction n rule: dec_digits.induct)
  case (1 n)
  show ?case
  proof (cases "n < 10")
    case True
    then show ?thesis by (subst dec_digits.simps) (simp add: digits_val_def)
  next
    case False
    then show ?thesis using "1.IH" by (subst dec_digits.simps) simp
  qed
qed

section \<open>Environment\<close>

text \<open>\<open>env_or\<close> of the agent and of every server module: an empty variable counts as unset.\<close>

definition env_or :: "env \<Rightarrow> string \<Rightarrow> string \<Rightarrow> string" where
  "env_or e k fb = (case e k of Some (c # cs) \<Rightarrow> c # cs | _ \<Rightarrow> fb)"

section \<open>Lists\<close>

lemma list_all_update: "list_all P xs \<Longrightarrow> P x \<Longrightarrow> list_all P (xs[i := x])"
  unfolding list_all_iff using set_update_subset_insert [of xs i x] by auto

lemma list_all_nthD: "list_all P xs \<Longrightarrow> i < length xs \<Longrightarrow> P (xs ! i)"
  by (simp add: list_all_length)

lemma length_filter_mono: "(\<And>x. P x \<Longrightarrow> Q x) \<Longrightarrow> length (filter P xs) \<le> length (filter Q xs)"
  by (induction xs) auto

text \<open>The first index that satisfies a predicate: the scan loops of the code.\<close>

fun find_index :: "('a \<Rightarrow> bool) \<Rightarrow> 'a list \<Rightarrow> nat option" where
  "find_index P [] = None"
| "find_index P (x # xs) = (if P x then Some 0 else map_option Suc (find_index P xs))"

lemma find_index_SomeD:
  "find_index P xs = Some i \<Longrightarrow> i < length xs \<and> P (xs ! i) \<and> (\<forall>j < i. \<not> P (xs ! j))"
proof (induction xs arbitrary: i)
  case (Cons x xs)
  show ?case
  proof (cases "P x")
    case True
    with Cons.prems show ?thesis by simp
  next
    case False
    with Cons.prems obtain k where k: "find_index P xs = Some k" and i: "i = Suc k" by auto
    from Cons.IH [OF k] False i show ?thesis by (simp add: All_less_Suc2)
  qed
qed simp

lemma find_index_None: "find_index P xs = None \<longleftrightarrow> (\<forall>x \<in> set xs. \<not> P x)"
  by (induction xs) auto

section \<open>Transition systems\<close>

text \<open>A transition system with an inductive invariant.\<close>

locale step_system =
  fixes step :: "'s \<Rightarrow> 's \<Rightarrow> bool" and inv :: "'s \<Rightarrow> bool"
  assumes step_inv: "step s t \<Longrightarrow> inv s \<Longrightarrow> inv t"
begin

lemma steps_inv: "step\<^sup>*\<^sup>* s t \<Longrightarrow> inv s \<Longrightarrow> inv t"
  by (induction rule: rtranclp_induct) (auto intro: step_inv)

end

end
