(* ===== verification/Nta_Ringbuf.thy ===== *)
theory Nta_Ringbuf
  imports Nta_Prelude
begin

text \<open>
  The ring buffer of \<open>src/agent/core/ringbuf.c\<close> that connects the agent's threads:
  \<open>next_pow2\<close> on 64-bit words, \<open>rb_init\<close>, \<open>rb_push\<close>, \<open>rb_pop\<close>, \<open>rb_size\<close> and
  \<open>rb_overflow\<close>. The byte buffer of \<open>capacity * slot_size\<close> bytes is a list of \<open>capacity\<close>
  typed slots; the free-running 64-bit indices wrap as in the code.

  \<open>rb_list\<close> is the abstraction (the queued items, oldest first) and \<open>bounded_fifo\<close> the
  contract that the pipeline relies on, proved for any run of operations and interpreted
  on the code's operations as \<open>rb\<close>.
\<close>

section \<open>State and operations\<close>

record 'a ringbuf =
  capacity :: u64
  rb_mask :: u64
  slots :: "'a list"
  head :: u64
  tail :: u64
  overflow_count :: u64

definition next_pow2 :: "u64 \<Rightarrow> u64" where
  "next_pow2 n =
     (if n < 2 then 2
      else let n = n - 1;
               n = n OR drop_bit 1 n;
               n = n OR drop_bit 2 n;
               n = n OR drop_bit 4 n;
               n = n OR drop_bit 8 n;
               n = n OR drop_bit 16 n;
               n = n OR drop_bit 32 n
           in n + 1)"

text \<open>\<open>calloc_ok\<close> is whether the allocation succeeds; \<open>zero\<close> is the zeroed slot.\<close>

definition rb_init :: "bool \<Rightarrow> 'a \<Rightarrow> 'a ringbuf \<Rightarrow> u64 \<Rightarrow> 'a ringbuf \<times> int" where
  "rb_init calloc_ok zero rb n =
     (let cap = next_pow2 n
      in if \<not> calloc_ok then (rb\<lparr>slots := []\<rparr>, - 1)
         else (\<lparr>capacity = cap, rb_mask = cap - 1, slots = replicate (unat cap) zero,
                head = 0, tail = 0, overflow_count = 0\<rparr>, 0))"

definition rb_destroy :: "'a ringbuf \<Rightarrow> 'a ringbuf" where
  "rb_destroy rb = rb\<lparr>slots := []\<rparr>"

definition rb_push :: "'a ringbuf \<Rightarrow> 'a \<Rightarrow> 'a ringbuf \<times> int" where
  "rb_push rb item =
     (if head rb - tail rb \<ge> capacity rb
      then (rb\<lparr>overflow_count := overflow_count rb + 1\<rparr>, - 1)
      else (rb\<lparr>slots := (slots rb)[unat (head rb AND rb_mask rb) := item],
               head := head rb + 1\<rparr>, 0))"

text \<open>The item popped, or \<open>None\<close> for the return value \<open>-1\<close> (empty).\<close>

definition rb_pop :: "'a ringbuf \<Rightarrow> 'a ringbuf \<times> 'a option" where
  "rb_pop rb =
     (if tail rb = head rb then (rb, None)
      else (rb\<lparr>tail := tail rb + 1\<rparr>, Some (slots rb ! unat (tail rb AND rb_mask rb))))"

definition rb_size :: "'a ringbuf \<Rightarrow> u64" where
  "rb_size rb = head rb - tail rb"

definition rb_overflow :: "'a ringbuf \<Rightarrow> u64" where
  "rb_overflow rb = overflow_count rb"

section \<open>Well-formedness and abstraction\<close>

definition rb_wf :: "'a ringbuf \<Rightarrow> bool" where
  "rb_wf rb \<longleftrightarrow>
     (\<exists>k \<in> {1..<64::nat}. capacity rb = 2 ^ k) \<and> rb_mask rb = capacity rb - 1 \<and>
     length (slots rb) = unat (capacity rb) \<and> head rb - tail rb \<le> capacity rb"

definition rb_list :: "'a ringbuf \<Rightarrow> 'a list" where
  "rb_list rb =
     map (\<lambda>i. slots rb ! unat ((tail rb + of_nat i) AND rb_mask rb)) [0..<unat (head rb - tail rb)]"

lemma length_rb_list [simp]: "length (rb_list rb) = unat (head rb - tail rb)"
  by (simp add: rb_list_def)

section \<open>Index arithmetic\<close>

lemma unat_and_mask: "unat (w AND (2 ^ k - 1) :: u64) = unat w mod 2 ^ k"
proof -
  have "w AND (2 ^ k - 1) = take_bit k w"
    by (simp add: take_bit_eq_mask mask_eq_exp_minus_1)
  moreover have "unat (take_bit k w) = take_bit k (unat w)" by (rule unsigned_take_bit_eq)
  ultimately show ?thesis by (simp only: take_bit_eq_mod)
qed

lemma unat_add_mod_pow:
  assumes "k \<le> 64"
  shows "unat (w + of_nat i :: u64) mod 2 ^ k = (unat w + i) mod 2 ^ k"
proof -
  have "(2::nat) ^ k dvd 2 ^ 64" using assms by (rule le_imp_power_dvd)
  moreover have "unat (w + of_nat i) = (unat w + i mod 2 ^ 64) mod 2 ^ 64"
    by (simp add: unat_word_ariths unat_of_nat)
  ultimately show ?thesis
    by (simp only: mod_mod_cancel mod_add_eq mod_add_right_eq)
qed

lemma slot_index:
  assumes "k \<le> 64"
  shows "unat ((w + of_nat i) AND (2 ^ k - 1) :: u64) = (unat w + i) mod 2 ^ k"
  by (simp only: unat_and_mask unat_add_mod_pow [OF assms])

lemma mod_add_inj:
  assumes "i < m" "j < m" "(a + i) mod m = (a + j) mod (m::nat)"
  shows "i = j"
proof -
  have le: "x = y" if "x \<le> y" "y < m" "(a + y) mod m = (a + x) mod m" for x y
  proof -
    have "m dvd (a + y) - (a + x)" using that by (simp only: mod_eq_dvd_iff_nat add_left_mono)
    then have "m dvd y - x" by simp
    with that show ?thesis by (auto dest: dvd_imp_le)
  qed
  show ?thesis using le [of i j] le [of j i] assms by (cases "i \<le> j") auto
qed

lemma unat_suc_diff: "(h::u64) - t \<noteq> - 1 \<Longrightarrow> unat (h + 1 - t) = Suc (unat (h - t))"
proof -
  assume a: "h - t \<noteq> - 1"
  have e: "h + 1 - t = 1 + (h - t)" by (simp add: algebra_simps)
  have "1 + (h - t) \<noteq> 0"
    using a by (metis add.commute add_eq_0_iff)
  then show ?thesis unfolding e by (rule unatSuc)
qed

lemma unat_pred_diff: "(h::u64) \<noteq> t \<Longrightarrow> Suc (unat (h - (t + 1))) = unat (h - t)"
proof -
  assume a: "h \<noteq> t"
  have "unat ((h - t) - 1) = unat (h - t) - 1"
    using a by (intro unat_minus_one) simp
  moreover have "unat (h - t) \<noteq> 0" using a by (simp add: unat_eq_0)
  moreover have "h - (t + 1) = (h - t) - 1" by (simp add: algebra_simps)
  ultimately show ?thesis by (simp only: Suc_pred neq0_conv Suc_diff_1)
qed

lemma unat_two_power: "k < 64 \<Longrightarrow> unat (2 ^ k :: u64) = 2 ^ k"
proof -
  assume "k < 64"
  then have "(2::nat) ^ k < 2 ^ 64" by (rule power_strict_increasing) simp
  then have "unat (of_nat (2 ^ k) :: u64) = 2 ^ k" by (simp only: unat_of_nat len_num1) simp
  then show ?thesis by simp
qed

text \<open>Well-formedness with its exponent, and the slot of the \<open>i\<close>-th queued item.\<close>

lemma rb_wfE:
  assumes "rb_wf rb"
  obtains k where "1 \<le> k" "k < 64" "capacity rb = 2 ^ k" "unat (capacity rb) = 2 ^ k"
    "rb_mask rb = 2 ^ k - 1" "length (slots rb) = 2 ^ k" "unat (head rb - tail rb) \<le> 2 ^ k"
proof -
  from assms obtain k where k: "1 \<le> k" "k < 64" "capacity rb = 2 ^ k" "rb_mask rb = 2 ^ k - 1"
    "length (slots rb) = unat (capacity rb)" "head rb - tail rb \<le> capacity rb"
    by (auto simp: rb_wf_def)
  then have u: "unat (capacity rb) = 2 ^ k" by (simp add: unat_two_power)
  with k have "unat (head rb - tail rb) \<le> 2 ^ k" by (simp add: word_le_nat_alt)
  with k u that show thesis by simp
qed

lemma rb_list_nth:
  assumes "capacity rb = 2 ^ k" "k < 64" "rb_mask rb = 2 ^ k - 1" "i < unat (head rb - tail rb)"
  shows "rb_list rb ! i = slots rb ! ((unat (tail rb) + i) mod 2 ^ k)"
  using assms by (simp add: rb_list_def slot_index)

text \<open>Writing the slot at \<open>head\<close> leaves the queued slots alone while the ring is not full.\<close>

lemma slot_update_frame:
  fixes h t :: u64
  assumes k: "k < 64" and len: "length xs = 2 ^ k" and n: "unat (h - t) < 2 ^ k" and i: "i < unat (h - t)"
  shows "xs[unat (h AND (2 ^ k - 1)) := x] ! ((unat t + i) mod 2 ^ k) = xs ! ((unat t + i) mod 2 ^ k)"
proof -
  have h: "h = t + of_nat (unat (h - t))" by simp
  have "unat (h AND (2 ^ k - 1)) = (unat t + unat (h - t)) mod 2 ^ k"
    using k slot_index [of k t "unat (h - t)"] h by simp
  moreover have "(unat t + i) mod 2 ^ k \<noteq> (unat t + unat (h - t)) mod 2 ^ k"
    using mod_add_inj [of i "2 ^ k" "unat (h - t)" "unat t"] i n by auto
  ultimately show ?thesis by simp
qed

lemma slot_update_new:
  fixes h t :: u64
  assumes k: "k < 64" and len: "length xs = 2 ^ k"
  shows "xs[unat (h AND (2 ^ k - 1)) := x] ! ((unat t + unat (h - t)) mod 2 ^ k) = x"
proof -
  have h: "h = t + of_nat (unat (h - t))" by simp
  have "unat (h AND (2 ^ k - 1)) = (unat t + unat (h - t)) mod 2 ^ k"
    using k slot_index [of k t "unat (h - t)"] h by simp
  then show ?thesis using len by simp
qed

section \<open>Operations against the abstraction\<close>

lemma rb_push_full:
  "rb_wf rb \<Longrightarrow> length (rb_list rb) = unat (capacity rb) \<Longrightarrow>
   rb_push rb x = (rb\<lparr>overflow_count := overflow_count rb + 1\<rparr>, - 1)"
  by (simp add: rb_push_def word_le_nat_alt)

lemma rb_push_ok:
  assumes wf: "rb_wf rb" and room: "length (rb_list rb) < unat (capacity rb)"
  obtains rb' where "rb_push rb x = (rb', 0)" "rb_wf rb'" "rb_list rb' = rb_list rb @ [x]"
    "capacity rb' = capacity rb" "overflow_count rb' = overflow_count rb"
proof -
  obtain k where k: "1 \<le> k" "k < 64" "capacity rb = 2 ^ k" "unat (capacity rb) = 2 ^ k"
    "rb_mask rb = 2 ^ k - 1" "length (slots rb) = 2 ^ k" "unat (head rb - tail rb) \<le> 2 ^ k"
    using wf by (rule rb_wfE)
  define n where "n = unat (head rb - tail rb)"
  have n: "n < 2 ^ k" using room k by (simp add: n_def)
  let ?rb = "rb\<lparr>slots := (slots rb)[unat (head rb AND rb_mask rb) := x], head := head rb + 1\<rparr>"
  have p: "rb_push rb x = (?rb, 0)"
    using room k by (simp add: rb_push_def word_le_nat_alt)
  have "head rb - tail rb \<noteq> - 1"
  proof
    assume a: "head rb - tail rb = - 1"
    have "(2::nat) ^ k \<le> 2 ^ 63" using k by (intro power_increasing) simp_all
    with n show False by (simp add: n_def a unsigned_minus_1_eq_mask mask_eq_exp_minus_1)
  qed
  then have n': "unat (head ?rb - tail ?rb) = Suc n" by (simp add: n_def unat_suc_diff)
  have wf': "rb_wf ?rb"
    using wf k n n' by (auto simp: rb_wf_def word_le_nat_alt)
  have "rb_list ?rb = rb_list rb @ [x]"
  proof (rule nth_equalityI)
    show "length (rb_list ?rb) = length (rb_list rb @ [x])" using n' by (simp add: n_def)
  next
    fix i assume "i < length (rb_list ?rb)"
    then have i: "i < Suc n" using n' by simp
    have r: "rb_list ?rb ! i = slots ?rb ! ((unat (tail rb) + i) mod 2 ^ k)"
      using rb_list_nth [of ?rb k i] k i n' by simp
    show "rb_list ?rb ! i = (rb_list rb @ [x]) ! i"
    proof (cases "i < n")
      case True
      then show ?thesis
        using r slot_update_frame [of k "slots rb" "head rb" "tail rb" i x] rb_list_nth [of rb k i] k n
        by (simp add: n_def nth_append)
    next
      case False
      with i have "i = n" by simp
      then show ?thesis
        using r slot_update_new [of k "slots rb" "head rb" x "tail rb"] k by (simp add: n_def nth_append)
    qed
  qed
  with p wf' that show thesis by simp
qed

lemma rb_pop_empty: "rb_list rb = [] \<Longrightarrow> rb_pop rb = (rb, None)"
  by (simp add: rb_pop_def flip: length_0_conv) (simp add: unat_eq_0)

lemma rb_pop_ok:
  assumes wf: "rb_wf rb" and ne: "rb_list rb = x # xs"
  obtains rb' where "rb_pop rb = (rb', Some x)" "rb_wf rb'" "rb_list rb' = xs"
    "capacity rb' = capacity rb" "overflow_count rb' = overflow_count rb"
proof -
  obtain k where k: "1 \<le> k" "k < 64" "capacity rb = 2 ^ k" "unat (capacity rb) = 2 ^ k"
    "rb_mask rb = 2 ^ k - 1" "length (slots rb) = 2 ^ k" "unat (head rb - tail rb) \<le> 2 ^ k"
    using wf by (rule rb_wfE)
  have "length (rb_list rb) = Suc (length xs)" using ne by simp
  then have n: "unat (head rb - tail rb) = Suc (length xs)" by simp
  then have hd: "head rb \<noteq> tail rb" by auto
  let ?rb = "rb\<lparr>tail := tail rb + 1\<rparr>"
  have n': "unat (head ?rb - tail ?rb) = length xs"
    using unat_pred_diff [OF hd] n by simp
  have x: "slots rb ! unat (tail rb AND rb_mask rb) = x"
    using rb_list_nth [of rb k 0] k n ne by (simp add: unat_and_mask)
  have wf': "rb_wf ?rb" using wf k n n' by (auto simp: rb_wf_def word_le_nat_alt)
  have "rb_list ?rb = xs"
  proof (rule nth_equalityI)
    show "length (rb_list ?rb) = length xs" using n' by simp
  next
    fix i assume "i < length (rb_list ?rb)"
    then have i: "i < length xs" using n' by simp
    have "rb_list ?rb ! i = slots rb ! unat (((tail rb + 1) + of_nat i) AND (2 ^ k - 1))"
      using i n' k by (simp add: rb_list_def)
    also have "(tail rb + 1) + of_nat i = tail rb + of_nat (Suc i)" by simp
    also have "slots rb ! unat ((tail rb + of_nat (Suc i)) AND (2 ^ k - 1)) = rb_list rb ! Suc i"
      using i n k by (simp add: rb_list_def del: of_nat_Suc upt_Suc)
    finally show "rb_list ?rb ! i = xs ! i" using ne by simp
  qed
  with wf' x hd that [of ?rb] show thesis by (auto simp: rb_pop_def)
qed

section \<open>Rounding the capacity\<close>

text \<open>Each step of the smear doubles the window of higher bits a bit position collects.\<close>

definition smeared :: "nat \<Rightarrow> u64 \<Rightarrow> u64 \<Rightarrow> bool" where
  "smeared m w v \<longleftrightarrow> (\<forall>i. bit v i \<longleftrightarrow> (\<exists>j < m. bit w (i + j)))"

lemma smeared_start: "smeared 1 w w"
  by (simp add: smeared_def)

lemma smeared_step: "smeared m w v \<Longrightarrow> smeared (2 * m) w (v OR drop_bit m v)"
proof -
  assume a: "smeared m w v"
  have "(\<exists>j < m. bit w (i + j)) \<or> (\<exists>j < m. bit w (m + i + j)) \<longleftrightarrow> (\<exists>j < 2 * m. bit w (i + j))" for i
  proof
    assume "(\<exists>j < m. bit w (i + j)) \<or> (\<exists>j < m. bit w (m + i + j))"
    then show "\<exists>j < 2 * m. bit w (i + j)"
    proof
      assume "\<exists>j < m. bit w (m + i + j)"
      then obtain j where "j < m" "bit w (i + (m + j))" by (auto simp: ac_simps)
      then show ?thesis by (intro exI [of _ "m + j"]) simp
    next
      assume "\<exists>j < m. bit w (i + j)"
      then obtain j where "j < m" "bit w (i + j)" by blast
      then show ?thesis by (intro exI [of _ j]) simp
    qed
  next
    assume "\<exists>j < 2 * m. bit w (i + j)"
    then obtain j where j: "j < 2 * m" "bit w (i + j)" by blast
    show "(\<exists>j < m. bit w (i + j)) \<or> (\<exists>j < m. bit w (m + i + j))"
    proof (cases "j < m")
      case False
      then have "j - m < m" "m + i + (j - m) = i + j" using j by simp_all
      with j show ?thesis by metis
    qed (use j in blast)
  qed
  with a show ?thesis by (simp add: smeared_def bit_or_iff bit_drop_bit_eq)
qed

lemma smeared_top:
  assumes v: "smeared 64 w v" and p: "bit w p" and top: "\<And>j. p < j \<Longrightarrow> \<not> bit w j"
  shows "v = mask (Suc p)"
proof (rule bit_word_eqI)
  fix i assume i: "i < LENGTH(64)"
  have p64: "p < 64" using bit_imp_le_length [OF p] by simp
  show "bit v i \<longleftrightarrow> bit (mask (Suc p) :: u64) i"
  proof (cases "i \<le> p")
    case True
    then have "\<exists>j < 64. bit w (i + j)" using p p64 by (intro exI [of _ "p - i"]) simp
    with v True i show ?thesis by (simp add: smeared_def bit_mask_iff)
  next
    case False
    then have "\<not> (\<exists>j < 64. bit w (i + j))" using top by force
    with v False show ?thesis by (simp add: smeared_def bit_mask_iff)
  qed
qed

lemma top_bit:
  assumes "(w::u64) \<noteq> 0"
  obtains p where "p < 64" "bit w p" "\<And>j. p < j \<Longrightarrow> \<not> bit w j" "2 ^ p \<le> unat w" "unat w < 2 ^ Suc p"
proof -
  have "\<exists>i. bit w i" using assms by (auto simp: bit_eq_iff)
  then obtain i where "bit w i" by blast
  moreover have "\<forall>j. bit w j \<longrightarrow> j < 64" using bit_imp_le_length [of w] by auto
  ultimately obtain p where p: "bit w p" "\<And>j. bit w j \<Longrightarrow> j \<le> p"
    using ex_has_greatest_nat [of "bit w" i "\<lambda>j. j" 64] by blast
  have p64: "p < 64" using bit_imp_le_length [OF p(1)] by simp
  have "take_bit (Suc p) w = w"
    by (rule bit_word_eqI) (use p(2) in \<open>auto simp: bit_take_bit_iff less_Suc_eq_le\<close>)
  then have "unat w = take_bit (Suc p) (unat w)"
    by (metis unsigned_take_bit_eq)
  then have lt: "unat w < 2 ^ Suc p" by (metis take_bit_nat_less_exp)
  have "odd (unat w div 2 ^ p)"
    using p(1) by (simp add: bit_unsigned_iff flip: bit_iff_odd)
  then have "unat w div 2 ^ p \<noteq> 0" by (metis even_zero)
  then have "2 ^ p \<le> unat w" by (simp add: div_eq_0_iff)
  with p p64 lt that show thesis by (metis leD)
qed

lemma next_pow2_top:
  assumes n: "2 \<le> n" and p: "bit (n - 1) p" and top: "\<And>j. p < j \<Longrightarrow> \<not> bit (n - 1) j"
  shows "next_pow2 n = 2 ^ Suc p"
proof -
  define v1 where "v1 = (n - 1) OR drop_bit 1 (n - 1)"
  define v2 where "v2 = v1 OR drop_bit 2 v1"
  define v4 where "v4 = v2 OR drop_bit 4 v2"
  define v8 where "v8 = v4 OR drop_bit 8 v4"
  define v16 where "v16 = v8 OR drop_bit 16 v8"
  define v32 where "v32 = v16 OR drop_bit 32 v16"
  have "smeared 2 (n - 1) v1" using smeared_step [OF smeared_start] by (simp add: v1_def)
  from smeared_step [OF this] have "smeared 4 (n - 1) v2" by (simp add: v2_def)
  from smeared_step [OF this] have "smeared 8 (n - 1) v4" by (simp add: v4_def)
  from smeared_step [OF this] have "smeared 16 (n - 1) v8" by (simp add: v8_def)
  from smeared_step [OF this] have "smeared 32 (n - 1) v16" by (simp add: v16_def)
  from smeared_step [OF this] have "smeared 64 (n - 1) v32" by (simp add: v32_def)
  then have "v32 = mask (Suc p)" using p top by (rule smeared_top)
  then have "v32 + 1 = 2 ^ Suc p" by (simp add: mask_eq_exp_minus_1)
  moreover have "next_pow2 n = v32 + 1"
    using leD [OF n] by (simp add: next_pow2_def Let_def v1_def v2_def v4_def v8_def v16_def v32_def)
  ultimately show ?thesis by simp
qed

lemma next_pow2_small: "n < 2 \<Longrightarrow> next_pow2 n = 2"
  by (simp add: next_pow2_def)

lemma next_pow2_bounds:
  assumes "n \<le> 2 ^ 63"
  obtains k where "1 \<le> k" "k < 64" "next_pow2 n = 2 ^ k" "unat n \<le> 2 ^ k"
    "k = 1 \<or> 2 ^ (k - 1) < unat n"
proof (cases "n < 2")
  case True
  then have "unat n \<le> 2 ^ 1" by (simp add: word_less_nat_alt)
  with True that [of 1] show thesis by (simp add: next_pow2_small)
next
  case False
  then have n: "2 \<le> n" by simp
  have ne: "n - 1 \<noteq> 0"
  proof
    assume "n - 1 = 0"
    then have "n = 1" by simp
    with n show False by (simp add: word_le_nat_alt)
  qed
  obtain p where p: "p < 64" "bit (n - 1) p" "\<And>j. p < j \<Longrightarrow> \<not> bit (n - 1) j"
    "2 ^ p \<le> unat (n - 1)" "unat (n - 1) < 2 ^ Suc p"
    by (rule top_bit [OF ne]) blast
  have "n \<noteq> 0" using n by (auto simp: word_le_nat_alt)
  then have un: "unat (n - 1) = unat n - 1" "2 \<le> unat n"
    using n by (simp_all add: unat_minus_one word_le_nat_alt)
  have n63: "unat n \<le> 2 ^ 63"
    using assms by (simp add: word_le_nat_alt)
  have "p < 63"
  proof (rule ccontr)
    assume "\<not> p < 63"
    with p(1) have "p = 63" by simp
    with p(4) un n63 show False by simp
  qed
  moreover have "unat n \<le> 2 ^ Suc p" "2 ^ p < unat n" using p(4,5) un by linarith+
  ultimately show thesis using that [of "Suc p"] next_pow2_top [OF n p(2,3)] by simp
qed

section \<open>The contract of a bounded queue\<close>

datatype 'a fifo_op = Push 'a | Pop

text \<open>A run of operations: the final state, the items accepted and the items popped.\<close>

primrec fifo_run ::
  "('s \<Rightarrow> 'a \<Rightarrow> 's \<times> int) \<Rightarrow> ('s \<Rightarrow> 's \<times> 'a option) \<Rightarrow> 's \<Rightarrow> 'a fifo_op list \<Rightarrow> 's \<times> 'a list \<times> 'a list"
where
  "fifo_run push pop s [] = (s, [], [])"
| "fifo_run push pop s (c # cs) =
     (case c of
        Push x \<Rightarrow>
          (let (s1, r) = push s x; (s2, acc, out) = fifo_run push pop s1 cs
           in (s2, if r = 0 then x # acc else acc, out))
      | Pop \<Rightarrow>
          (let (s1, r) = pop s; (s2, acc, out) = fifo_run push pop s1 cs
           in (s2, acc, case r of None \<Rightarrow> out | Some y \<Rightarrow> y # out)))"

definition n_pushes :: "'a fifo_op list \<Rightarrow> nat" where
  "n_pushes cs = length (filter (\<lambda>c. c \<noteq> Pop) cs)"

locale bounded_fifo =
  fixes inv :: "'s \<Rightarrow> bool" and cap :: "'s \<Rightarrow> nat" and items :: "'s \<Rightarrow> 'a list"
    and push :: "'s \<Rightarrow> 'a \<Rightarrow> 's \<times> int" and pop :: "'s \<Rightarrow> 's \<times> 'a option"
    and dropped :: "'s \<Rightarrow> u64"
  assumes bounded: "inv s \<Longrightarrow> length (items s) \<le> cap s"
    and push_accepts: "inv s \<Longrightarrow> length (items s) < cap s \<Longrightarrow>
      \<exists>s'. push s x = (s', 0) \<and> inv s' \<and> items s' = items s @ [x] \<and> cap s' = cap s \<and>
        dropped s' = dropped s"
    and push_drops: "inv s \<Longrightarrow> length (items s) = cap s \<Longrightarrow>
      \<exists>s'. push s x = (s', - 1) \<and> inv s' \<and> items s' = items s \<and> cap s' = cap s \<and>
        dropped s' = dropped s + 1"
    and pop_nothing: "inv s \<Longrightarrow> items s = [] \<Longrightarrow> pop s = (s, None)"
    and pop_oldest: "inv s \<Longrightarrow> items s = x # xs \<Longrightarrow>
      \<exists>s'. pop s = (s', Some x) \<and> inv s' \<and> items s' = xs \<and> cap s' = cap s \<and> dropped s' = dropped s"
begin

lemma push_result:
  assumes "inv s" "push s x = (s', r)"
  shows "inv s' \<and> cap s' = cap s \<and>
    ((r = 0 \<and> items s' = items s @ [x] \<and> dropped s' = dropped s) \<or>
     (r = - 1 \<and> items s' = items s \<and> dropped s' = dropped s + 1))"
proof -
  consider "length (items s) < cap s" | "length (items s) = cap s"
    using bounded [OF assms(1)] by linarith
  then show ?thesis
    by cases (use push_accepts [OF assms(1), of x] push_drops [OF assms(1), of x] assms(2) in auto)
qed

lemma pop_result:
  assumes "inv s" "pop s = (s', r)"
  shows "inv s' \<and> cap s' = cap s \<and> dropped s' = dropped s \<and>
    ((r = None \<and> items s = [] \<and> s' = s) \<or> (\<exists>x. r = Some x \<and> items s = x # items s'))"
proof (cases "items s")
  case Nil
  with pop_nothing [OF assms(1)] assms show ?thesis by simp
next
  case (Cons y ys)
  with pop_oldest [OF assms(1) Cons] assms(2) show ?thesis by auto
qed

lemma run_fifo:
  "inv s \<Longrightarrow> fifo_run push pop s cs = (s', acc, out) \<Longrightarrow>
   inv s' \<and> items s @ acc = out @ items s' \<and> cap s' = cap s \<and>
   dropped s' + of_nat (length acc) = dropped s + of_nat (n_pushes cs)"
proof (induction cs arbitrary: s s' acc out)
  case Nil
  then show ?case by (simp add: n_pushes_def)
next
  case (Cons c cs)
  show ?case
  proof (cases c)
    case (Push x)
    consider "length (items s) < cap s" | "length (items s) = cap s"
      using bounded [OF Cons.prems(1)] by linarith
    then show ?thesis
    proof cases
      case 1
      from push_accepts [OF Cons.prems(1) 1, of x] obtain s1 where s1: "push s x = (s1, 0)" "inv s1"
        "items s1 = items s @ [x]" "cap s1 = cap s" "dropped s1 = dropped s" by blast
      with Cons.prems(2) Push obtain acc' where a: "fifo_run push pop s1 cs = (s', acc', out)"
        "acc = x # acc'" by (auto simp: split_beta prod_eq_iff)
      from Cons.IH [OF s1(2) a(1)] s1 a(2) Push show ?thesis
        by (simp add: n_pushes_def algebra_simps)
    next
      case 2
      from push_drops [OF Cons.prems(1) 2, of x] obtain s1 where s1: "push s x = (s1, - 1)" "inv s1"
        "items s1 = items s" "cap s1 = cap s" "dropped s1 = dropped s + 1" by blast
      with Cons.prems(2) Push have a: "fifo_run push pop s1 cs = (s', acc, out)"
        by (auto simp: split_beta prod_eq_iff)
      from Cons.IH [OF s1(2) a] s1 Push show ?thesis
        by (simp add: n_pushes_def algebra_simps)
    qed
  next
    case Pop
    show ?thesis
    proof (cases "items s")
      case Nil
      from pop_nothing [OF Cons.prems(1) Nil] Cons.prems(2) Pop
      have a: "fifo_run push pop s cs = (s', acc, out)" by (auto simp: split_beta prod_eq_iff)
      from Cons.IH [OF Cons.prems(1) a] Pop Nil show ?thesis by (auto simp: n_pushes_def)
    next
      case (Cons y ys)
      from pop_oldest [OF Cons.prems(1) this] obtain s1 where s1: "pop s = (s1, Some y)" "inv s1"
        "items s1 = ys" "cap s1 = cap s" "dropped s1 = dropped s" by blast
      with Cons.prems(2) Pop obtain out' where a: "fifo_run push pop s1 cs = (s', acc, out')"
        "out = y # out'" by (auto simp: split_beta prod_eq_iff)
      from Cons.IH [OF s1(2) a(1)] s1 a(2) Cons Pop show ?thesis by (simp add: n_pushes_def)
    qed
  qed
qed

end

interpretation rb: bounded_fifo rb_wf "\<lambda>rb. unat (capacity rb)" rb_list rb_push rb_pop overflow_count
proof unfold_locales
  fix rb :: "'a ringbuf" and x
  assume wf: "rb_wf rb"
  then show "length (rb_list rb) \<le> unat (capacity rb)"
    by (simp add: rb_wf_def word_le_nat_alt)
  show "\<exists>s'. rb_push rb x = (s', 0) \<and> rb_wf s' \<and> rb_list s' = rb_list rb @ [x] \<and>
      unat (capacity s') = unat (capacity rb) \<and> overflow_count s' = overflow_count rb"
    if "length (rb_list rb) < unat (capacity rb)"
    using rb_push_ok [OF wf that, of x] by metis
  show "\<exists>s'. rb_push rb x = (s', - 1) \<and> rb_wf s' \<and> rb_list s' = rb_list rb \<and>
      unat (capacity s') = unat (capacity rb) \<and> overflow_count s' = overflow_count rb + 1"
    if "length (rb_list rb) = unat (capacity rb)"
    using rb_push_full [OF wf that, of x] wf by (simp add: rb_wf_def rb_list_def)
  show "rb_pop rb = (rb, None)" if "rb_list rb = []"
    using that by (rule rb_pop_empty)
  show "\<exists>s'. rb_pop rb = (s', Some y) \<and> rb_wf s' \<and> rb_list s' = ys \<and>
      unat (capacity s') = unat (capacity rb) \<and> overflow_count s' = overflow_count rb"
    if "rb_list rb = y # ys" for y ys
    using rb_pop_ok [OF wf that] by metis
qed

section \<open>Properties\<close>

lemma rb_init_wf:
  assumes "n \<le> 2 ^ 63" and "rb_init True zero rb0 n = (rb, r)"
  shows "rb_wf rb \<and> rb_list rb = [] \<and> capacity rb = next_pow2 n \<and> overflow_count rb = 0 \<and> r = 0"
proof -
  from assms(1) obtain k where k: "1 \<le> k" "k < 64" "next_pow2 n = 2 ^ k" by (rule next_pow2_bounds)
  with assms(2) show ?thesis
    by (auto simp: rb_init_def rb_wf_def rb_list_def Let_def)
qed

text \<open>
  For a requested capacity up to \<open>2^63\<close>, \<open>next_pow2\<close> is the least power of two that is
  at least the request and at least 2: the bit-smearing loop rounds exactly.
\<close>

theorem next_pow2_least:
  assumes "n \<le> 2 ^ 63"
  shows "\<exists>k \<in> {1..<64::nat}. next_pow2 n = 2 ^ k \<and> unat n \<le> 2 ^ k \<and>
    (\<forall>j \<in> {1..<64::nat}. unat n \<le> 2 ^ j \<longrightarrow> k \<le> j)"
proof -
  from assms obtain k where k: "1 \<le> k" "k < 64" "next_pow2 n = 2 ^ k" "unat n \<le> 2 ^ k"
    "k = 1 \<or> 2 ^ (k - 1) < unat n" by (rule next_pow2_bounds)
  have "k \<le> j" if "1 \<le> j" "unat n \<le> 2 ^ j" for j
  proof (rule ccontr)
    assume "\<not> k \<le> j"
    then have "j \<le> k - 1" "k \<noteq> 1" using that by auto
    then have "(2::nat) ^ j \<le> 2 ^ (k - 1)" by (intro power_increasing) simp_all
    with that k(5) \<open>k \<noteq> 1\<close> show False by linarith
  qed
  with k show ?thesis by (intro bexI [of _ k]) auto
qed

theorem next_pow2_least_witness: "(5::u64) \<le> 2 ^ 63 \<and> next_pow2 5 = 8 \<and> (\<exists>k \<in> {1..<64::nat}.
    next_pow2 5 = 2 ^ k \<and> unat (5::u64) \<le> 2 ^ k \<and> (\<forall>j \<in> {1..<64::nat}. unat (5::u64) \<le> 2 ^ j \<longrightarrow> k \<le> j))"
proof -
  have h: "(5::u64) \<le> 2 ^ 63" by (simp add: word_le_nat_alt)
  show ?thesis using h next_pow2_least [OF h] by (simp add: next_pow2_def)
qed

text \<open>
  C12. From a fresh ring buffer, for every sequence of pushes and pops: the accepted items come
  out in the order they were pushed, none lost or duplicated; every refused push is counted by
  the overflow counter (modulo \<open>2^64\<close>); and the queue never exceeds the rounded capacity.
\<close>

theorem rb_run_fifo:
  assumes "n \<le> 2 ^ 63" and "rb_init True zero rb0 n = (rb, r)"
    and "fifo_run rb_push rb_pop rb cs = (rb', acc, out)"
  shows "acc = out @ rb_list rb' \<and>
    overflow_count rb' + of_nat (length acc) = of_nat (n_pushes cs) \<and>
    length (rb_list rb') \<le> unat (next_pow2 n)"
proof -
  from rb_init_wf [OF assms(1,2)] have wf: "rb_wf rb" and e: "rb_list rb = []" "capacity rb = next_pow2 n"
    "overflow_count rb = 0" by auto
  from rb.run_fifo [OF wf assms(3)] e have f: "rb_wf rb'" "acc = out @ rb_list rb'"
    "unat (capacity rb') = unat (next_pow2 n)"
    "overflow_count rb' + of_nat (length acc) = of_nat (n_pushes cs)" by auto
  with rb.bounded [OF f(1)] show ?thesis by simp
qed

theorem rb_run_fifo_witness:
  "case rb_init True (0::nat) \<lparr>capacity = 0, rb_mask = 0, slots = [], head = 0, tail = 0, overflow_count = 0\<rparr> 2 of
     (rb, r) \<Rightarrow> (case fifo_run rb_push rb_pop rb [Push 1, Push 2, Push 3, Pop, Push 4] of
       (rb', acc, out) \<Rightarrow> acc = [1, 2, 4] \<and> out = [1] \<and> overflow_count rb' = 1 \<and> acc = out @ rb_list rb')"
proof -
  define rb0 :: "nat ringbuf" where
    "rb0 = \<lparr>capacity = 0, rb_mask = 0, slots = [], head = 0, tail = 0, overflow_count = 0\<rparr>"
  obtain rb r where i: "rb_init True 0 rb0 2 = (rb, r)" by (cases "rb_init True 0 rb0 2")
  obtain rb' acc out where f: "fifo_run rb_push rb_pop rb [Push 1, Push 2, Push 3, Pop, Push 4] = (rb', acc, out)"
    by (cases "fifo_run rb_push rb_pop rb [Push 1, Push 2, Push 3, Pop, Push 4]")
  have h: "(2::u64) \<le> 2 ^ 63" by (simp add: word_le_nat_alt)
  have r2: "replicate 2 (0::nat) = [0, 0]" by (simp add: numeral_2_eq_2)
  have "rb = \<lparr>capacity = 2, rb_mask = 1, slots = [0, 0], head = 0, tail = 0, overflow_count = 0\<rparr>"
    using i by (simp add: rb_init_def next_pow2_def r2)
  with f have "acc = [1, 2, 4]" "out = [1]" "overflow_count rb' = 1"
    by (auto simp: rb_push_def rb_pop_def)
  with rb_run_fifo [OF h i f] show ?thesis
    unfolding rb0_def [symmetric] i prod.case f by blast
qed

end
