(* ===== verification/Nta_Spsc.thy ===== *)
theory Nta_Spsc
  imports Nta_Ringbuf
begin

text \<open>
  The same ring buffer under concurrency: one producer thread and one consumer thread, whose
  calls of \<open>rb_push\<close> and \<open>rb_pop\<close> (\<open>src/agent/core/ringbuf.c\<close>) interleave at the
  granularity of the shared accesses: loading the indices, writing or reading the slot,
  publishing the new index. Between two accesses of one thread the other may run any number
  of calls, so the index a thread loaded from the other side may be stale when it is used.
  The interleaving order is the one that release stores and acquire loads give: a published
  index makes the slot accesses before it visible.

  The ghost lists \<open>sent\<close> and \<open>recvd\<close> record the items whose index was published by the
  producer and by the consumer.
\<close>

datatype 'a producer =
    P_idle
  | P_loaded 'a u64 u64   \<comment> \<open>item, loaded head, loaded tail\<close>
  | P_written 'a u64      \<comment> \<open>the slot is written, head not yet published\<close>

datatype 'a consumer =
    C_idle
  | C_loaded u64 u64      \<comment> \<open>loaded tail, loaded head\<close>
  | C_read u64 'a         \<comment> \<open>the slot is copied out, tail not yet published\<close>

record 'a spsc =
  ring :: "'a ringbuf"
  producer_pc :: "'a producer"
  consumer_pc :: "'a consumer"
  sent :: "'a list"
  recvd :: "'a list"

inductive spsc_step :: "'a spsc \<Rightarrow> 'a spsc \<Rightarrow> bool" where
  push_load: "producer_pc s = P_idle \<Longrightarrow>
    spsc_step s (s\<lparr>producer_pc := P_loaded x (head (ring s)) (tail (ring s))\<rparr>)"
| push_full: "producer_pc s = P_loaded x h t \<Longrightarrow> h - t \<ge> capacity (ring s) \<Longrightarrow>
    spsc_step s (s\<lparr>producer_pc := P_idle,
      ring := (ring s)\<lparr>overflow_count := overflow_count (ring s) + 1\<rparr>\<rparr>)"
| push_write: "producer_pc s = P_loaded x h t \<Longrightarrow> \<not> h - t \<ge> capacity (ring s) \<Longrightarrow>
    spsc_step s (s\<lparr>producer_pc := P_written x h,
      ring := (ring s)\<lparr>slots := (slots (ring s))[unat (h AND rb_mask (ring s)) := x]\<rparr>\<rparr>)"
| push_publish: "producer_pc s = P_written x h \<Longrightarrow>
    spsc_step s (s\<lparr>producer_pc := P_idle, ring := (ring s)\<lparr>head := h + 1\<rparr>, sent := sent s @ [x]\<rparr>)"
| pop_load: "consumer_pc s = C_idle \<Longrightarrow>
    spsc_step s (s\<lparr>consumer_pc := C_loaded (tail (ring s)) (head (ring s))\<rparr>)"
| pop_empty: "consumer_pc s = C_loaded t h \<Longrightarrow> t = h \<Longrightarrow>
    spsc_step s (s\<lparr>consumer_pc := C_idle\<rparr>)"
| pop_read: "consumer_pc s = C_loaded t h \<Longrightarrow> t \<noteq> h \<Longrightarrow>
    spsc_step s (s\<lparr>consumer_pc := C_read t (slots (ring s) ! unat (t AND rb_mask (ring s)))\<rparr>)"
| pop_publish: "consumer_pc s = C_read t x \<Longrightarrow>
    spsc_step s (s\<lparr>consumer_pc := C_idle, ring := (ring s)\<lparr>tail := t + 1\<rparr>, recvd := recvd s @ [x]\<rparr>)"

definition spsc_start :: "'a ringbuf \<Rightarrow> 'a spsc" where
  "spsc_start rb = \<lparr>ring = rb, producer_pc = P_idle, consumer_pc = C_idle, sent = [], recvd = []\<rparr>"

inductive spsc_reach :: "'a ringbuf \<Rightarrow> 'a spsc \<Rightarrow> bool" for rb where
  start: "spsc_reach rb (spsc_start rb)"
| step: "spsc_reach rb s \<Longrightarrow> spsc_step s s' \<Longrightarrow> spsc_reach rb s'"

section \<open>One thread alone runs the sequential operation\<close>

lemma push_alone:
  assumes "producer_pc s = P_idle"
  shows "\<exists>s'. spsc_step\<^sup>*\<^sup>* s s' \<and> ring s' = fst (rb_push (ring s) x) \<and> producer_pc s' = P_idle \<and>
    sent s' = (if snd (rb_push (ring s) x) = 0 then sent s @ [x] else sent s)"
proof -
  let ?h = "head (ring s)" and ?t = "tail (ring s)"
  let ?s1 = "s\<lparr>producer_pc := P_loaded x ?h ?t\<rparr>"
  have 1: "spsc_step s ?s1" using assms by (rule push_load)
  show ?thesis
  proof (cases "capacity (ring s) \<le> ?h - ?t")
    case True
    let ?s2 = "?s1\<lparr>producer_pc := P_idle,
      ring := (ring ?s1)\<lparr>overflow_count := overflow_count (ring ?s1) + 1\<rparr>\<rparr>"
    have "spsc_step ?s1 ?s2" by (rule push_full) (use True in simp_all)
    with 1 have "spsc_step\<^sup>*\<^sup>* s ?s2" by simp
    with True show ?thesis by (intro exI [of _ ?s2] conjI) (simp_all add: rb_push_def)
  next
    case False
    let ?s2 = "?s1\<lparr>producer_pc := P_written x ?h,
      ring := (ring ?s1)\<lparr>slots := (slots (ring ?s1))[unat (?h AND rb_mask (ring ?s1)) := x]\<rparr>\<rparr>"
    let ?s3 = "?s2\<lparr>producer_pc := P_idle, ring := (ring ?s2)\<lparr>head := ?h + 1\<rparr>, sent := sent ?s2 @ [x]\<rparr>"
    have 2: "spsc_step ?s1 ?s2" by (rule push_write) (use False in simp_all)
    have 3: "spsc_step ?s2 ?s3" by (rule push_publish) simp
    from 1 2 3 have "spsc_step\<^sup>*\<^sup>* s ?s3" by (meson r_into_rtranclp rtranclp.rtrancl_into_rtrancl)
    with False show ?thesis by (intro exI [of _ ?s3] conjI) (simp_all add: rb_push_def)
  qed
qed

section \<open>Invariant\<close>

fun prod_inv :: "'a ringbuf \<Rightarrow> 'a producer \<Rightarrow> bool" where
  "prod_inv rb P_idle = True"
| "prod_inv rb (P_loaded x h t) =
     (h = head rb \<and> head rb - tail rb \<le> h - t \<and> h - t \<le> capacity rb)"
| "prod_inv rb (P_written x h) =
     (h = head rb \<and> head rb - tail rb < capacity rb \<and> slots rb ! unat (h AND rb_mask rb) = x)"

fun cons_inv :: "'a ringbuf \<Rightarrow> 'a consumer \<Rightarrow> bool" where
  "cons_inv rb C_idle = True"
| "cons_inv rb (C_loaded t h) = (t = tail rb \<and> h - t \<le> head rb - tail rb)"
| "cons_inv rb (C_read t x) = (t = tail rb \<and> (\<exists>xs. rb_list rb = x # xs))"

definition spsc_inv :: "'a spsc \<Rightarrow> bool" where
  "spsc_inv s \<longleftrightarrow> rb_wf (ring s) \<and> sent s = recvd s @ rb_list (ring s) \<and>
     prod_inv (ring s) (producer_pc s) \<and> cons_inv (ring s) (consumer_pc s)"

lemma head_slot_in_range: "rb_wf rb \<Longrightarrow> unat (w AND rb_mask rb) < length (slots rb)"
  by (erule rb_wfE) (simp add: unat_and_mask)

lemma rb_list_write:
  assumes "rb_wf rb" and "head rb - tail rb < capacity rb"
  shows "rb_list (rb\<lparr>slots := (slots rb)[unat (head rb AND rb_mask rb) := x]\<rparr>) = rb_list rb"
proof -
  obtain k where k: "1 \<le> k" "k < 64" "capacity rb = 2 ^ k" "unat (capacity rb) = 2 ^ k"
    "rb_mask rb = 2 ^ k - 1" "length (slots rb) = 2 ^ k" "unat (head rb - tail rb) \<le> 2 ^ k"
    using assms(1) by (rule rb_wfE)
  have n: "unat (head rb - tail rb) < 2 ^ k" using assms(2) k by (simp add: word_less_nat_alt)
  show ?thesis
  proof (rule nth_equalityI)
    fix i assume "i < length (rb_list (rb\<lparr>slots := (slots rb)[unat (head rb AND rb_mask rb) := x]\<rparr>))"
    then show "rb_list (rb\<lparr>slots := (slots rb)[unat (head rb AND rb_mask rb) := x]\<rparr>) ! i = rb_list rb ! i"
      using k n by (simp add: rb_list_nth slot_update_frame)
  qed simp
qed

text \<open>Publishing the written slot is the sequential push of that item.\<close>

lemma rb_list_publish:
  assumes "rb_wf rb" and "head rb - tail rb < capacity rb"
    and "slots rb ! unat (head rb AND rb_mask rb) = x"
  shows "rb_wf (rb\<lparr>head := head rb + 1\<rparr>)" and "rb_list (rb\<lparr>head := head rb + 1\<rparr>) = rb_list rb @ [x]"
proof -
  have "(slots rb)[unat (head rb AND rb_mask rb) := x] = slots rb"
    using assms(3) by (metis list_update_id)
  then have p: "rb_push rb x = (rb\<lparr>head := head rb + 1\<rparr>, 0)"
    using assms(2) by (simp add: rb_push_def not_le [symmetric])
  have "length (rb_list rb) < unat (capacity rb)"
    using assms(2) by (simp add: word_less_nat_alt)
  from rb_push_ok [OF assms(1) this, of x] p
  show "rb_wf (rb\<lparr>head := head rb + 1\<rparr>)" and "rb_list (rb\<lparr>head := head rb + 1\<rparr>) = rb_list rb @ [x]"
    by (metis prod.inject)+
qed

lemma rb_list_consume:
  assumes "rb_wf rb" and "rb_list rb = x # xs"
  shows "rb_wf (rb\<lparr>tail := tail rb + 1\<rparr>)" and "rb_list (rb\<lparr>tail := tail rb + 1\<rparr>) = xs"
proof -
  have "tail rb \<noteq> head rb" using assms(2) by (auto simp: rb_list_def)
  then have p: "rb_pop rb = (rb\<lparr>tail := tail rb + 1\<rparr>, Some (slots rb ! unat (tail rb AND rb_mask rb)))"
    by (simp add: rb_pop_def)
  from rb_pop_ok [OF assms] p
  show "rb_wf (rb\<lparr>tail := tail rb + 1\<rparr>)" and "rb_list (rb\<lparr>tail := tail rb + 1\<rparr>) = xs"
    by (metis prod.inject)+
qed

lemma rb_list_first:
  assumes "rb_wf rb" and "head rb \<noteq> tail rb"
  shows "\<exists>xs. rb_list rb = slots rb ! unat (tail rb AND rb_mask rb) # xs"
proof -
  have "rb_list rb \<noteq> []" using assms(2) by (simp add: rb_list_def unat_eq_0)
  then obtain x xs where l: "rb_list rb = x # xs" by (cases "rb_list rb") auto
  from rb_pop_ok [OF assms(1) l] have "slots rb ! unat (tail rb AND rb_mask rb) = x"
    using assms(2) by (metis rb_pop_def option.inject prod.inject)
  with l show ?thesis by simp
qed

section \<open>Every step keeps the invariant\<close>

lemma spsc_step_inv: "spsc_step s s' \<Longrightarrow> spsc_inv s \<Longrightarrow> spsc_inv s'"
proof (induction rule: spsc_step.induct)
  case (push_load s x)
  then show ?case by (auto simp: spsc_inv_def rb_wf_def)
next
  case (push_full s x h t)
  then have "rb_list ((ring s)\<lparr>overflow_count := overflow_count (ring s) + 1\<rparr>) = rb_list (ring s)"
    by (simp add: rb_list_def)
  with push_full show ?case
    by (cases "consumer_pc s") (auto simp: spsc_inv_def rb_wf_def)
next
  case (push_write s x h t)
  let ?rb = "(ring s)\<lparr>slots := (slots (ring s))[unat (h AND rb_mask (ring s)) := x]\<rparr>"
  from push_write have wf: "rb_wf (ring s)" and h: "h = head (ring s)"
    and lt: "head (ring s) - tail (ring s) < capacity (ring s)"
    by (auto simp: spsc_inv_def not_le intro: le_less_trans)
  have l: "rb_list ?rb = rb_list (ring s)" using rb_list_write [OF wf lt, of x] h by simp
  have w: "rb_wf ?rb" using wf by (simp add: rb_wf_def)
  have "slots ?rb ! unat (h AND rb_mask ?rb) = x" using head_slot_in_range [OF wf, of h] by simp
  with push_write l w h lt show ?case
    by (cases "consumer_pc s") (auto simp: spsc_inv_def)
next
  case (push_publish s x h)
  then have wf: "rb_wf (ring s)" and h: "h = head (ring s)"
    and lt: "head (ring s) - tail (ring s) < capacity (ring s)"
    and x: "slots (ring s) ! unat (head (ring s) AND rb_mask (ring s)) = x"
    by (auto simp: spsc_inv_def)
  note pub = rb_list_publish [OF wf lt x]
  have "h' - tail (ring s) \<le> head (ring s) + 1 - tail (ring s)"
    if "h' - tail (ring s) \<le> head (ring s) - tail (ring s)" for h' :: u64
  proof -
    have "head (ring s) - tail (ring s) \<noteq> - 1" using lt by auto
    from unat_suc_diff [OF this] that show ?thesis by (simp add: word_le_nat_alt)
  qed
  with push_publish pub h show ?case
    by (cases "consumer_pc s") (auto simp: spsc_inv_def)
next
  case (pop_load s)
  then show ?case by (auto simp: spsc_inv_def)
next
  case (pop_empty s t h)
  then show ?case by (auto simp: spsc_inv_def)
next
  case (pop_read s t h)
  then have "head (ring s) \<noteq> tail (ring s)" by (auto simp: spsc_inv_def word_le_nat_alt unat_eq_0)
  with pop_read rb_list_first [of "ring s"] show ?case by (auto simp: spsc_inv_def)
next
  case (pop_publish s t x)
  then obtain xs where wf: "rb_wf (ring s)" and t: "t = tail (ring s)"
    and l: "rb_list (ring s) = x # xs" by (auto simp: spsc_inv_def)
  have ne: "head (ring s) \<noteq> tail (ring s)" using l by (auto simp: rb_list_def)
  have lt: "head (ring s) - (tail (ring s) + 1) < head (ring s) - tail (ring s)"
    using unat_pred_diff [OF ne] by (simp add: word_less_nat_alt)
  with pop_publish rb_list_consume [OF wf l] t l show ?case
    by (cases "producer_pc s") (auto simp: spsc_inv_def)
qed

lemma spsc_start_inv: "rb_wf rb \<Longrightarrow> rb_list rb = [] \<Longrightarrow> spsc_inv (spsc_start rb)"
  by (simp add: spsc_inv_def spsc_start_def)

lemma spsc_reach_inv: "spsc_reach rb s \<Longrightarrow> rb_wf rb \<Longrightarrow> rb_list rb = [] \<Longrightarrow> spsc_inv s"
  by (induction rule: spsc_reach.induct) (auto intro: spsc_start_inv spsc_step_inv)

section \<open>Properties\<close>

text \<open>
  Under every interleaving of one producer and one consumer, on an initially empty ring: what
  the consumer has received followed by what is queued is exactly what the producer has
  published, in order; the queue holds at most \<open>capacity\<close> items; and an item the consumer
  has copied out is the oldest one not yet received, so no slot is overwritten before it is read.
\<close>

theorem spsc_fifo:
  assumes "rb_wf rb" and "rb_list rb = []" and "spsc_reach rb s"
  shows "sent s = recvd s @ rb_list (ring s) \<and>
    length (rb_list (ring s)) \<le> unat (capacity (ring s)) \<and>
    (case consumer_pc s of C_read t x \<Rightarrow> \<exists>rest. sent s = recvd s @ x # rest | _ \<Rightarrow> True)"
proof -
  from assms have inv: "spsc_inv s" by (blast intro: spsc_reach_inv)
  then have wf: "rb_wf (ring s)" and "sent s = recvd s @ rb_list (ring s)" by (auto simp: spsc_inv_def)
  with rb.bounded [OF wf] inv show ?thesis
    by (auto simp: spsc_inv_def split: consumer.splits)
qed

text \<open>The witness: an item is pushed and copied out while the producer starts its second push.\<close>

definition ring2 :: "nat ringbuf" where
  "ring2 = \<lparr>capacity = 2, rb_mask = 1, slots = [0, 0], head = 0, tail = 0, overflow_count = 0\<rparr>"

lemma ring2_wf: "rb_wf ring2" and ring2_empty: "rb_list ring2 = []"
proof -
  have "\<exists>k \<in> {1..<64::nat}. (2::u64) = 2 ^ k" by (intro bexI [of _ 1]) simp_all
  then show "rb_wf ring2" by (simp add: rb_wf_def ring2_def)
qed (simp add: rb_list_def ring2_def)

theorem spsc_fifo_witness:
  "\<exists>s. spsc_reach ring2 s \<and> consumer_pc s = C_read 0 7 \<and> producer_pc s = P_loaded 8 1 0 \<and>
     sent s = [7] \<and> sent s = recvd s @ rb_list (ring s)"
proof -
  let ?s0 = "spsc_start ring2"
  let ?s1 = "?s0\<lparr>producer_pc := P_loaded 7 (head (ring ?s0)) (tail (ring ?s0))\<rparr>"
  let ?s2 = "?s1\<lparr>producer_pc := P_written 7 0,
    ring := (ring ?s1)\<lparr>slots := (slots (ring ?s1))[unat (0 AND rb_mask (ring ?s1)) := 7]\<rparr>\<rparr>"
  let ?s3 = "?s2\<lparr>producer_pc := P_idle, ring := (ring ?s2)\<lparr>head := 0 + 1\<rparr>, sent := sent ?s2 @ [7]\<rparr>"
  let ?s4 = "?s3\<lparr>producer_pc := P_loaded 8 (head (ring ?s3)) (tail (ring ?s3))\<rparr>"
  let ?s5 = "?s4\<lparr>consumer_pc := C_loaded (tail (ring ?s4)) (head (ring ?s4))\<rparr>"
  let ?s6 = "?s5\<lparr>consumer_pc := C_read 0 (slots (ring ?s5) ! unat (0 AND rb_mask (ring ?s5)))\<rparr>"
  have "spsc_step ?s0 ?s1" by (rule push_load) (simp add: spsc_start_def)
  moreover have "spsc_step ?s1 ?s2"
    by (rule push_write [where h = 0 and t = 0]) (simp_all add: spsc_start_def ring2_def)
  moreover have "spsc_step ?s2 ?s3" by (rule push_publish) simp
  moreover have "spsc_step ?s3 ?s4" by (rule push_load) simp
  moreover have "spsc_step ?s4 ?s5" by (rule pop_load) (simp add: spsc_start_def)
  moreover have "spsc_step ?s5 ?s6" by (rule pop_read [where h = 1]) (simp_all add: spsc_start_def ring2_def)
  ultimately have r: "spsc_reach ring2 ?s6" by (meson spsc_reach.intros)
  from spsc_fifo [OF ring2_wf ring2_empty r] r show ?thesis
    by (intro exI [of _ ?s6]) (simp add: spsc_start_def ring2_def)
qed

end
