(* ===== verification/Nta_Relacq.thy ===== *)
theory Nta_Relacq
  imports Nta_Ringbuf
begin

text \<open>
  The ring buffer under the memory orders the code asks for (\<open>src/agent/core/ringbuf.c\<close>): an atomic
  index is the list of the values stored to it, a thread may load any value not older than one it
  knows of, and what it knows of besides its own accesses comes only from the release stores its
  acquire loads read. The slots are ordinary memory: an access that is not ordered after a conflicting
  access of the other thread is a data race, which the state records. A third thread, the metrics
  thread of \<open>src/agent/core/pipeline.c\<close>, calls \<open>rb_size\<close> meanwhile.

  Loads never read values of stores that come later in the run. For this code C11 gives no more: its
  stores are releases, and its relaxed loads read the loading thread's own last store.
\<close>

section \<open>Views\<close>

text \<open>
  What a thread knows: the newest value of each index it is bound to, and how many steps of the
  producer and of the consumer, counted by their release stores, happened before.
\<close>

record view =
  seen_head :: nat
  seen_tail :: nat
  hb_prod :: nat
  hb_cons :: nat

definition no_view :: view where
  "no_view = \<lparr>seen_head = 0, seen_tail = 0, hb_prod = 0, hb_cons = 0\<rparr>"

definition view_join :: "view \<Rightarrow> view \<Rightarrow> view" where
  "view_join v w = \<lparr>seen_head = max (seen_head v) (seen_head w), seen_tail = max (seen_tail v) (seen_tail w),
     hb_prod = max (hb_prod v) (hb_prod w), hb_cons = max (hb_cons v) (hb_cons w)\<rparr>"

datatype memory_order = Relaxed | Acquire | Release

record stored =
  st_val :: u64
  st_view :: view

definition load_view :: "memory_order \<Rightarrow> stored \<Rightarrow> view \<Rightarrow> view" where
  "load_view ord m v = (if ord = Acquire then view_join v (st_view m) else v)"

definition store_of :: "memory_order \<Rightarrow> u64 \<Rightarrow> view \<Rightarrow> stored" where
  "store_of ord w v = \<lparr>st_val = w, st_view = (if ord = Release then v else no_view)\<rparr>"

section \<open>Threads\<close>

datatype 'a ra_producer =
    RP_idle
  | RP_head 'a u64        \<comment> \<open>item, loaded head\<close>
  | RP_loaded 'a u64 u64  \<comment> \<open>item, loaded head, loaded tail\<close>
  | RP_written 'a u64     \<comment> \<open>the slot is written, head not yet stored\<close>

datatype 'a ra_consumer =
    RC_idle
  | RC_tail u64           \<comment> \<open>loaded tail\<close>
  | RC_loaded u64 u64     \<comment> \<open>loaded tail, loaded head\<close>
  | RC_read u64 'a        \<comment> \<open>the slot is copied out, tail not yet stored\<close>

datatype ra_observer =
    RO_idle
  | RO_head u64           \<comment> \<open>loaded head\<close>
  | RO_size u64           \<comment> \<open>the size returned\<close>

record 'a ra_ring =
  ra_capacity :: u64
  ra_mask :: u64
  ra_slots :: "'a list"
  head_stores :: "stored list"
  tail_stores :: "stored list"
  ra_overflow :: u64
  slot_w :: "nat list"    \<comment> \<open>for each slot the producer's clock at the last write\<close>
  slot_r :: "nat list"    \<comment> \<open>for each slot the consumer's clock at the last read\<close>
  race :: bool
  p_view :: view
  c_view :: view
  o_view :: view
  p_pc :: "'a ra_producer"
  c_pc :: "'a ra_consumer"
  o_pc :: ra_observer
  ra_sent :: "'a list"
  ra_recvd :: "'a list"

definition ra_start :: "'a ringbuf \<Rightarrow> 'a ra_ring" where
  "ra_start rb = \<lparr>ra_capacity = capacity rb, ra_mask = rb_mask rb, ra_slots = slots rb,
     head_stores = [\<lparr>st_val = head rb, st_view = no_view\<rparr>], tail_stores = [\<lparr>st_val = tail rb, st_view = no_view\<rparr>],
     ra_overflow = overflow_count rb, slot_w = replicate (length (slots rb)) 0, slot_r = replicate (length (slots rb)) 0,
     race = False, p_view = no_view\<lparr>hb_prod := 1\<rparr>, c_view = no_view\<lparr>hb_cons := 1\<rparr>, o_view = no_view,
     p_pc = RP_idle, c_pc = RC_idle, o_pc = RO_idle, ra_sent = [], ra_recvd = []\<rparr>"

text \<open>The slot of an index, and the conditions for an access of it without a race.\<close>

definition ra_slot :: "'a ra_ring \<Rightarrow> u64 \<Rightarrow> nat" where
  "ra_slot s w = unat (w AND ra_mask s)"

definition write_ordered :: "'a ra_ring \<Rightarrow> nat \<Rightarrow> view \<Rightarrow> bool" where
  "write_ordered s i v \<longleftrightarrow> slot_w s ! i \<le> hb_prod v \<and> slot_r s ! i \<le> hb_cons v"

definition read_ordered :: "'a ra_ring \<Rightarrow> nat \<Rightarrow> view \<Rightarrow> bool" where
  "read_ordered s i v \<longleftrightarrow> slot_w s ! i \<le> hb_prod v"

inductive push_step :: "'a ra_ring \<Rightarrow> 'a ra_ring \<Rightarrow> bool" where
  push_head: "p_pc s = RP_idle \<Longrightarrow> seen_head (p_view s) \<le> i \<Longrightarrow> i < length (head_stores s) \<Longrightarrow>
    push_step s (s\<lparr>p_pc := RP_head x (st_val (head_stores s ! i)),
      p_view := load_view Relaxed (head_stores s ! i) ((p_view s)\<lparr>seen_head := i\<rparr>)\<rparr>)"
| push_tail: "p_pc s = RP_head x h \<Longrightarrow> seen_tail (p_view s) \<le> i \<Longrightarrow> i < length (tail_stores s) \<Longrightarrow>
    push_step s (s\<lparr>p_pc := RP_loaded x h (st_val (tail_stores s ! i)),
      p_view := load_view Acquire (tail_stores s ! i) ((p_view s)\<lparr>seen_tail := i\<rparr>)\<rparr>)"
| push_full: "p_pc s = RP_loaded x h t \<Longrightarrow> h - t \<ge> ra_capacity s \<Longrightarrow>
    push_step s (s\<lparr>p_pc := RP_idle, ra_overflow := ra_overflow s + 1\<rparr>)"
| push_write: "p_pc s = RP_loaded x h t \<Longrightarrow> \<not> h - t \<ge> ra_capacity s \<Longrightarrow> i = ra_slot s h \<Longrightarrow>
    push_step s (s\<lparr>p_pc := RP_written x h, race := (race s \<or> \<not> write_ordered s i (p_view s)),
      ra_slots := (ra_slots s)[i := x], slot_w := (slot_w s)[i := hb_prod (p_view s)]\<rparr>)"
| push_store: "p_pc s = RP_written x h \<Longrightarrow> v = (p_view s)\<lparr>seen_head := length (head_stores s)\<rparr> \<Longrightarrow>
    push_step s (s\<lparr>p_pc := RP_idle, head_stores := head_stores s @ [store_of Release (h + 1) v],
      p_view := v\<lparr>hb_prod := hb_prod v + 1\<rparr>, ra_sent := ra_sent s @ [x]\<rparr>)"

inductive pop_step :: "'a ra_ring \<Rightarrow> 'a ra_ring \<Rightarrow> bool" where
  pop_tail: "c_pc s = RC_idle \<Longrightarrow> seen_tail (c_view s) \<le> i \<Longrightarrow> i < length (tail_stores s) \<Longrightarrow>
    pop_step s (s\<lparr>c_pc := RC_tail (st_val (tail_stores s ! i)),
      c_view := load_view Relaxed (tail_stores s ! i) ((c_view s)\<lparr>seen_tail := i\<rparr>)\<rparr>)"
| pop_head: "c_pc s = RC_tail t \<Longrightarrow> seen_head (c_view s) \<le> i \<Longrightarrow> i < length (head_stores s) \<Longrightarrow>
    pop_step s (s\<lparr>c_pc := RC_loaded t (st_val (head_stores s ! i)),
      c_view := load_view Acquire (head_stores s ! i) ((c_view s)\<lparr>seen_head := i\<rparr>)\<rparr>)"
| pop_empty: "c_pc s = RC_loaded t h \<Longrightarrow> t = h \<Longrightarrow> pop_step s (s\<lparr>c_pc := RC_idle\<rparr>)"
| pop_read: "c_pc s = RC_loaded t h \<Longrightarrow> t \<noteq> h \<Longrightarrow> i = ra_slot s t \<Longrightarrow>
    pop_step s (s\<lparr>c_pc := RC_read t (ra_slots s ! i), race := (race s \<or> \<not> read_ordered s i (c_view s)),
      slot_r := (slot_r s)[i := hb_cons (c_view s)]\<rparr>)"
| pop_store: "c_pc s = RC_read t x \<Longrightarrow> v = (c_view s)\<lparr>seen_tail := length (tail_stores s)\<rparr> \<Longrightarrow>
    pop_step s (s\<lparr>c_pc := RC_idle, tail_stores := tail_stores s @ [store_of Release (t + 1) v],
      c_view := v\<lparr>hb_cons := hb_cons v + 1\<rparr>, ra_recvd := ra_recvd s @ [x]\<rparr>)"

text \<open>\<open>rb_size\<close>: the head is loaded first; the size is returned and the thread is free again.\<close>

inductive size_step :: "'a ra_ring \<Rightarrow> 'a ra_ring \<Rightarrow> bool" where
  size_head: "o_pc s = RO_idle \<or> o_pc s = RO_size d \<Longrightarrow> seen_head (o_view s) \<le> i \<Longrightarrow> i < length (head_stores s) \<Longrightarrow>
    size_step s (s\<lparr>o_pc := RO_head (st_val (head_stores s ! i)),
      o_view := load_view Acquire (head_stores s ! i) ((o_view s)\<lparr>seen_head := i\<rparr>)\<rparr>)"
| size_tail: "o_pc s = RO_head h \<Longrightarrow> seen_tail (o_view s) \<le> i \<Longrightarrow> i < length (tail_stores s) \<Longrightarrow>
    size_step s (s\<lparr>o_pc := RO_size (h - st_val (tail_stores s ! i)),
      o_view := load_view Acquire (tail_stores s ! i) ((o_view s)\<lparr>seen_tail := i\<rparr>)\<rparr>)"

definition ra_step :: "'a ra_ring \<Rightarrow> 'a ra_ring \<Rightarrow> bool" where
  "ra_step s t \<longleftrightarrow> push_step s t \<or> pop_step s t \<or> size_step s t"

section \<open>Invariant\<close>

text \<open>\<open>H\<close> and \<open>T\<close> count the stores to the two indices, that is the items sent and received.\<close>

definition view_ok :: "nat \<Rightarrow> nat \<Rightarrow> view \<Rightarrow> bool" where
  "view_ok H T v \<longleftrightarrow> seen_head v \<le> H \<and> seen_tail v \<le> T \<and> hb_prod v \<le> Suc H \<and> hb_cons v \<le> Suc T"

definition heads_ok :: "nat \<Rightarrow> nat \<Rightarrow> nat \<Rightarrow> stored list \<Rightarrow> bool" where
  "heads_ok cap H T ms \<longleftrightarrow> length ms = Suc H \<and>
     (\<forall>i \<le> H. st_val (ms ! i) = of_nat i \<and> view_ok H T (st_view (ms ! i)) \<and> seen_head (st_view (ms ! i)) = i \<and>
        i \<le> hb_prod (st_view (ms ! i)) \<and> i \<le> seen_tail (st_view (ms ! i)) + cap)"

definition tails_ok :: "nat \<Rightarrow> nat \<Rightarrow> stored list \<Rightarrow> bool" where
  "tails_ok H T ms \<longleftrightarrow> length ms = Suc T \<and>
     (\<forall>i \<le> T. st_val (ms ! i) = of_nat i \<and> view_ok H T (st_view (ms ! i)) \<and> seen_tail (st_view (ms ! i)) = i \<and>
        i \<le> hb_cons (st_view (ms ! i)))"

text \<open>The last \<open>cap\<close> items written are in their slots, each with the clock of its write.\<close>

definition written_ok :: "nat \<Rightarrow> 'a list \<Rightarrow> 'a list \<Rightarrow> nat list \<Rightarrow> bool" where
  "written_ok cap xs sl ws \<longleftrightarrow> length sl = cap \<and> length ws = cap \<and> (\<forall>i < cap. ws ! i \<le> length xs) \<and>
     (\<forall>n < length xs. length xs \<le> n + cap \<longrightarrow> ws ! (n mod cap) = Suc n \<and> sl ! (n mod cap) = xs ! n)"

text \<open>The last read of a slot, if any, was of one of the first \<open>R\<close> items.\<close>

definition reads_ok :: "nat \<Rightarrow> nat \<Rightarrow> nat list \<Rightarrow> bool" where
  "reads_ok cap R rs \<longleftrightarrow> length rs = cap \<and> (\<forall>i < cap. rs ! i = 0 \<or> (\<exists>n < R. n mod cap = i \<and> rs ! i = Suc n))"

definition producer_view :: "nat \<Rightarrow> nat \<Rightarrow> nat \<Rightarrow> view \<Rightarrow> bool" where
  "producer_view cap H T v \<longleftrightarrow> view_ok H T v \<and> seen_head v = H \<and> hb_prod v = Suc H \<and> seen_tail v \<le> hb_cons v \<and>
     H \<le> seen_tail v + cap"

definition consumer_view :: "nat \<Rightarrow> nat \<Rightarrow> view \<Rightarrow> bool" where
  "consumer_view H T v \<longleftrightarrow> view_ok H T v \<and> seen_tail v = T \<and> hb_cons v = Suc T \<and> seen_head v \<le> hb_prod v \<and>
     T \<le> seen_head v"

fun producer_at :: "nat \<Rightarrow> nat \<Rightarrow> view \<Rightarrow> 'a ra_producer \<Rightarrow> bool" where
  "producer_at cap H v RP_idle = True"
| "producer_at cap H v (RP_head x h) = (h = of_nat H)"
| "producer_at cap H v (RP_loaded x h t) = (h = of_nat H \<and> t = of_nat (seen_tail v))"
| "producer_at cap H v (RP_written x h) = (h = of_nat H \<and> H < seen_tail v + cap)"

fun consumer_at :: "'a list \<Rightarrow> nat \<Rightarrow> view \<Rightarrow> 'a ra_consumer \<Rightarrow> bool" where
  "consumer_at xs T v RC_idle = True"
| "consumer_at xs T v (RC_tail t) = (t = of_nat T)"
| "consumer_at xs T v (RC_loaded t h) = (t = of_nat T \<and> h = of_nat (seen_head v))"
| "consumer_at xs T v (RC_read t x) = (t = of_nat T \<and> T < seen_head v \<and> x = xs ! T)"

text \<open>What the observer may hold: a head not older than its tail by more than the capacity.\<close>

fun observer_at :: "nat \<Rightarrow> nat \<Rightarrow> nat \<Rightarrow> view \<Rightarrow> ra_observer \<Rightarrow> bool" where
  "observer_at cap H T v RO_idle = True"
| "observer_at cap H T v (RO_head h) = (\<exists>i. h = of_nat i \<and> i \<le> H \<and> i \<le> seen_tail v + cap)"
| "observer_at cap H T v (RO_size d) = (\<exists>i j. d = of_nat i - of_nat j \<and> i \<le> H \<and> j \<le> T \<and> i \<le> j + cap)"

fun in_slot :: "'a ra_producer \<Rightarrow> 'a list" where
  "in_slot (RP_written x h) = [x]"
| "in_slot p = []"

fun copied_out :: "'a ra_consumer \<Rightarrow> nat" where
  "copied_out (RC_read t x) = 1"
| "copied_out c = 0"

definition ra_inv :: "nat \<Rightarrow> 'a ra_ring \<Rightarrow> bool" where
  "ra_inv k s \<longleftrightarrow> k < 64 \<and> ra_capacity s = 2 ^ k \<and> ra_mask s = 2 ^ k - 1 \<and> \<not> race s \<and>
     length (ra_recvd s) \<le> length (ra_sent s) \<and> ra_recvd s = take (length (ra_recvd s)) (ra_sent s) \<and>
     heads_ok (2 ^ k) (length (ra_sent s)) (length (ra_recvd s)) (head_stores s) \<and>
     tails_ok (length (ra_sent s)) (length (ra_recvd s)) (tail_stores s) \<and>
     written_ok (2 ^ k) (ra_sent s @ in_slot (p_pc s)) (ra_slots s) (slot_w s) \<and>
     reads_ok (2 ^ k) (length (ra_recvd s) + copied_out (c_pc s)) (slot_r s) \<and>
     producer_view (2 ^ k) (length (ra_sent s)) (length (ra_recvd s)) (p_view s) \<and>
     producer_at (2 ^ k) (length (ra_sent s)) (p_view s) (p_pc s) \<and>
     consumer_view (length (ra_sent s)) (length (ra_recvd s)) (c_view s) \<and>
     consumer_at (ra_sent s) (length (ra_recvd s)) (c_view s) (c_pc s) \<and>
     view_ok (length (ra_sent s)) (length (ra_recvd s)) (o_view s) \<and>
     observer_at (2 ^ k) (length (ra_sent s)) (length (ra_recvd s)) (o_view s) (o_pc s)"

section \<open>Views grow\<close>

lemma view_ok_mono: "view_ok H T v \<Longrightarrow> H \<le> H' \<Longrightarrow> T \<le> T' \<Longrightarrow> view_ok H' T' v"
  by (auto simp: view_ok_def)

lemma view_ok_join: "view_ok H T v \<Longrightarrow> view_ok H T w \<Longrightarrow> view_ok H T (view_join v w)"
  by (auto simp: view_ok_def view_join_def)

lemma view_join_sel [simp]:
  "seen_head (view_join v w) = max (seen_head v) (seen_head w)"
  "seen_tail (view_join v w) = max (seen_tail v) (seen_tail w)"
  "hb_prod (view_join v w) = max (hb_prod v) (hb_prod w)"
  "hb_cons (view_join v w) = max (hb_cons v) (hb_cons w)"
  by (simp_all add: view_join_def)

lemma load_view_simps [simp]:
  "load_view Relaxed m v = v" "load_view Acquire m v = view_join v (st_view m)"
  by (simp_all add: load_view_def)

lemma store_of_simps [simp]: "st_val (store_of ord w v) = w" "st_view (store_of Release w v) = v"
  by (simp_all add: store_of_def)

lemma heads_ok_mono: "heads_ok cap H T ms \<Longrightarrow> T \<le> T' \<Longrightarrow> heads_ok cap H T' ms"
  by (auto simp: heads_ok_def intro: view_ok_mono)

lemma tails_ok_mono: "tails_ok H T ms \<Longrightarrow> H \<le> H' \<Longrightarrow> tails_ok H' T ms"
  by (auto simp: tails_ok_def intro: view_ok_mono)

lemma producer_view_mono: "producer_view cap H T v \<Longrightarrow> T \<le> T' \<Longrightarrow> producer_view cap H T' v"
  by (auto simp: producer_view_def intro: view_ok_mono)

lemma consumer_view_mono: "consumer_view H T v \<Longrightarrow> H \<le> H' \<Longrightarrow> consumer_view H' T v"
  by (auto simp: consumer_view_def intro: view_ok_mono)

lemma consumer_at_mono: "consumer_at xs T v c \<Longrightarrow> view_ok (length xs) T v \<Longrightarrow> consumer_at (xs @ ys) T v c"
  by (cases c) (auto simp: view_ok_def nth_append)

lemma observer_at_mono: "observer_at cap H T v c \<Longrightarrow> H \<le> H' \<Longrightarrow> T \<le> T' \<Longrightarrow> observer_at cap H' T' v c"
  by (cases c) fastforce+

text \<open>A store at the end of the list of values.\<close>

lemma heads_ok_store:
  assumes "heads_ok cap H T ms" "producer_view cap H T v" "H < seen_tail v + cap"
  shows "heads_ok cap (Suc H) T (ms @ [store_of Release (of_nat H + 1) (v\<lparr>seen_head := length ms\<rparr>)])"
  using assms
  by (auto simp: heads_ok_def producer_view_def nth_append le_Suc_eq view_ok_def add.commute)

lemma tails_ok_store:
  assumes "tails_ok H T ms" "consumer_view H T v" "T < seen_head v"
  shows "tails_ok H (Suc T) (ms @ [store_of Release (of_nat T + 1) (v\<lparr>seen_tail := length ms\<rparr>)])"
  using assms
  by (auto simp: tails_ok_def consumer_view_def nth_append le_Suc_eq view_ok_def add.commute)

section \<open>Slots\<close>

lemma same_slot: "m < n \<Longrightarrow> m mod cap = n mod cap \<Longrightarrow> m + cap \<le> (n::nat)"
proof -
  assume "m < n" "m mod cap = n mod cap"
  then have "cap dvd n - m" by (metis mod_eq_dvd_iff_nat less_imp_le)
  with \<open>m < n\<close> show ?thesis by (auto dest: dvd_imp_le)
qed

lemma written_ok_write:
  assumes "written_ok cap xs sl ws" "0 < cap"
  shows "written_ok cap (xs @ [x]) (sl[length xs mod cap := x]) (ws[length xs mod cap := Suc (length xs)])"
proof -
  have "length xs mod cap < cap" using assms(2) by simp
  moreover have "length xs mod cap \<noteq> m mod cap" if "m < length xs" "Suc (length xs) \<le> m + cap" for m
    using same_slot [of m "length xs" cap] that by auto
  ultimately show ?thesis using assms
    by (auto simp: written_ok_def nth_append nth_list_update less_Suc_eq le_Suc_eq)
qed

lemma reads_ok_read:
  assumes "reads_ok cap R rs" "0 < cap"
  shows "reads_ok cap (Suc R) (rs[R mod cap := Suc R])"
  using assms by (auto simp: reads_ok_def nth_list_update less_Suc_eq)

text \<open>Before a write to the slot of item \<open>n\<close>, its last reader took an item the producer knows to be read.\<close>

lemma reads_ok_ordered:
  assumes "reads_ok cap R rs" "0 < cap" "R \<le> n" "n < t + cap"
  shows "rs ! (n mod cap) \<le> t"
proof -
  have "n mod cap < cap" using assms(2) by simp
  with assms(1) consider "rs ! (n mod cap) = 0" | m where "m < R" "m mod cap = n mod cap" "rs ! (n mod cap) = Suc m"
    by (auto simp: reads_ok_def)
  then show ?thesis
  proof cases
    case (2 m)
    then have "m + cap \<le> n" using same_slot [of m n cap] assms(3) by simp
    with 2(3) assms(4) show ?thesis by simp
  qed simp
qed

text \<open>Indices, as words.\<close>

lemma ra_slot_of_nat: "ra_mask s = 2 ^ k - 1 \<Longrightarrow> k < 64 \<Longrightarrow> ra_slot s (of_nat n) = n mod 2 ^ k"
  using slot_index [of k 0 n] by (simp add: ra_slot_def)

lemma word_diff_small: "m \<le> n \<Longrightarrow> n \<le> m + 2 ^ k \<Longrightarrow> k < 64 \<Longrightarrow> unat (of_nat n - of_nat m :: u64) = n - m"
proof -
  assume a: "m \<le> n" "n \<le> m + 2 ^ k" "k < 64"
  have "(2::nat) ^ k < 2 ^ 64" using a(3) by (rule power_strict_increasing) simp
  with a have "n - m < 2 ^ 64" by simp
  moreover have "(of_nat n - of_nat m :: u64) = of_nat (n - m)" using a(1) by (simp add: of_nat_diff)
  ultimately show ?thesis by (simp add: unat_of_nat)
qed

lemma room_iff:
  "m \<le> n \<Longrightarrow> n \<le> m + 2 ^ k \<Longrightarrow> k < 64 \<Longrightarrow> (2 ^ k :: u64) \<le> of_nat n - of_nat m \<longleftrightarrow> m + 2 ^ k \<le> n"
  using word_diff_small [of m n k] unat_two_power [of k] by (auto simp: word_le_nat_alt)

lemma heads_okD:
  "heads_ok cap H T ms \<Longrightarrow> i < length ms \<Longrightarrow>
   st_val (ms ! i) = of_nat i \<and> view_ok H T (st_view (ms ! i)) \<and> seen_head (st_view (ms ! i)) = i \<and>
   i \<le> hb_prod (st_view (ms ! i)) \<and> i \<le> seen_tail (st_view (ms ! i)) + cap \<and> i \<le> H"
  by (simp add: heads_ok_def)

lemma tails_okD:
  "tails_ok H T ms \<Longrightarrow> i < length ms \<Longrightarrow>
   st_val (ms ! i) = of_nat i \<and> view_ok H T (st_view (ms ! i)) \<and> seen_tail (st_view (ms ! i)) = i \<and>
   i \<le> hb_cons (st_view (ms ! i)) \<and> i \<le> T"
  by (simp add: tails_ok_def)

text \<open>An acquire load of the other thread's index.\<close>

lemma producer_acquires:
  assumes "producer_view cap H T v" "tails_ok H T ms" "seen_tail v \<le> i" "i < length ms"
  shows "producer_view cap H T (view_join (v\<lparr>seen_tail := i\<rparr>) (st_view (ms ! i)))"
    and "seen_tail (view_join (v\<lparr>seen_tail := i\<rparr>) (st_view (ms ! i))) = i" and "st_val (ms ! i) = of_nat i"
  using assms(1,3) tails_okD [OF assms(2,4)] by (simp_all add: producer_view_def view_ok_def max_def)

lemma consumer_acquires:
  assumes "consumer_view H T v" "heads_ok cap H T ms" "seen_head v \<le> i" "i < length ms"
  shows "consumer_view H T (view_join (v\<lparr>seen_head := i\<rparr>) (st_view (ms ! i)))"
    and "seen_head (view_join (v\<lparr>seen_head := i\<rparr>) (st_view (ms ! i))) = i" and "st_val (ms ! i) = of_nat i"
  using assms(1,3) heads_okD [OF assms(2,4)] by (simp_all add: consumer_view_def view_ok_def max_def)

text \<open>A load of the thread's own index gives its last store.\<close>

lemma own_head:
  assumes "producer_view cap H T v" "heads_ok cap H T ms" "seen_head v \<le> i" "i < length ms"
  shows "v\<lparr>seen_head := i\<rparr> = v" and "st_val (ms ! i) = of_nat H"
  using assms(1,3) heads_okD [OF assms(2,4)] by (auto simp: producer_view_def)

lemma own_tail:
  assumes "consumer_view H T v" "tails_ok H T ms" "seen_tail v \<le> i" "i < length ms"
  shows "v\<lparr>seen_tail := i\<rparr> = v" and "st_val (ms ! i) = of_nat T"
  using assms(1,3) tails_okD [OF assms(2,4)] by (auto simp: consumer_view_def)

section \<open>Every step keeps the invariant\<close>

lemma push_step_inv: "push_step s t \<Longrightarrow> ra_inv k s \<Longrightarrow> ra_inv k t"
proof (induction rule: push_step.induct)
  case (push_head s i x)
  then have inv: "producer_view (2 ^ k) (length (ra_sent s)) (length (ra_recvd s)) (p_view s)"
    "heads_ok (2 ^ k) (length (ra_sent s)) (length (ra_recvd s)) (head_stores s)" by (simp_all add: ra_inv_def)
  from push_head own_head [OF inv push_head(2,3)] show ?case by (simp add: ra_inv_def)
next
  case (push_tail s x h i)
  then have inv: "producer_view (2 ^ k) (length (ra_sent s)) (length (ra_recvd s)) (p_view s)"
    "tails_ok (length (ra_sent s)) (length (ra_recvd s)) (tail_stores s)" by (simp_all add: ra_inv_def)
  from push_tail producer_acquires [OF inv push_tail(2,3)] show ?case by (simp add: ra_inv_def)
next
  case (push_full s x h t)
  then show ?case by (simp add: ra_inv_def)
next
  case (push_write s x h t i)
  let ?H = "length (ra_sent s)" and ?v = "p_view s"
  from push_write have k: "k < 64" "ra_capacity s = 2 ^ k" "ra_mask s = 2 ^ k - 1" and h: "h = of_nat ?H" "t = of_nat (seen_tail ?v)"
    and v: "producer_view (2 ^ k) ?H (length (ra_recvd s)) ?v" and le: "length (ra_recvd s) \<le> ?H"
    by (auto simp: ra_inv_def)
  from v le have t: "seen_tail ?v \<le> ?H" "?H \<le> seen_tail ?v + 2 ^ k" "hb_prod ?v = Suc ?H" "seen_tail ?v \<le> hb_cons ?v"
    by (auto simp: producer_view_def view_ok_def)
  have room: "?H < seen_tail ?v + 2 ^ k" using push_write(2) room_iff [OF t(1,2) k(1)] by (simp add: h k not_le)
  have i: "i = ?H mod 2 ^ k" using push_write(3) ra_slot_of_nat [OF k(3,1)] by (simp add: h)
  have w: "written_ok (2 ^ k) (ra_sent s) (ra_slots s) (slot_w s)"
    and r: "reads_ok (2 ^ k) (length (ra_recvd s) + copied_out (c_pc s)) (slot_r s)"
    using push_write by (simp_all add: ra_inv_def)
  have "length (ra_recvd s) + copied_out (c_pc s) \<le> ?H"
    using push_write(4) by (cases "c_pc s") (auto simp: ra_inv_def consumer_view_def view_ok_def)
  from reads_ok_ordered [OF r _ this room] have "slot_r s ! i \<le> hb_cons ?v" using t(4) by (simp add: i)
  moreover have "slot_w s ! i \<le> hb_prod ?v" using w t(3) by (simp add: i written_ok_def le_SucI)
  ultimately have "write_ordered s i ?v" by (simp add: write_ordered_def)
  with push_write written_ok_write [OF w, of x] room h t(3) i show ?case by (simp add: ra_inv_def)
next
  case (push_store s x h v)
  let ?H = "length (ra_sent s)" and ?T = "length (ra_recvd s)"
  have len: "length (head_stores s) = Suc ?H" using push_store by (simp add: ra_inv_def heads_ok_def)
  have "heads_ok (2 ^ k) (Suc ?H) ?T (head_stores s @ [store_of Release (h + 1) v])"
    using push_store heads_ok_store [of "2 ^ k" ?H ?T "head_stores s" "p_view s"] by (simp add: ra_inv_def)
  moreover have "producer_view (2 ^ k) (Suc ?H) ?T (v\<lparr>hb_prod := hb_prod v + 1\<rparr>)"
    using push_store len by (auto simp: ra_inv_def producer_view_def view_ok_def)
  moreover have "observer_at (2 ^ k) (Suc ?H) ?T (o_view s) (o_pc s)"
    using push_store observer_at_mono [of "2 ^ k" ?H ?T "o_view s" "o_pc s" "Suc ?H" ?T] by (simp add: ra_inv_def)
  ultimately show ?case using push_store
    by (auto simp: ra_inv_def tails_ok_mono consumer_view_mono consumer_at_mono view_ok_mono consumer_view_def)
qed

text \<open>The item the consumer is about to copy is written, and it knows of the write.\<close>

lemma written_ok_ordered:
  assumes w: "written_ok (2 ^ k) (xs @ ys) sl ws" and n: "n < length xs" "length xs + length ys \<le> n + 2 ^ k"
  shows "ws ! (n mod 2 ^ k) = Suc n" and "sl ! (n mod 2 ^ k) = xs ! n"
  using w n by (auto simp: written_ok_def nth_append)

lemma pop_step_inv: "pop_step s t \<Longrightarrow> ra_inv k s \<Longrightarrow> ra_inv k t"
proof (induction rule: pop_step.induct)
  case (pop_tail s i)
  then have inv: "consumer_view (length (ra_sent s)) (length (ra_recvd s)) (c_view s)"
    "tails_ok (length (ra_sent s)) (length (ra_recvd s)) (tail_stores s)" by (simp_all add: ra_inv_def)
  from pop_tail own_tail [OF inv pop_tail(2,3)] show ?case by (simp add: ra_inv_def)
next
  case (pop_head s t i)
  then have inv: "consumer_view (length (ra_sent s)) (length (ra_recvd s)) (c_view s)"
    "heads_ok (2 ^ k) (length (ra_sent s)) (length (ra_recvd s)) (head_stores s)" by (simp_all add: ra_inv_def)
  from pop_head consumer_acquires [OF inv pop_head(2,3)] show ?case by (simp add: ra_inv_def)
next
  case (pop_empty s t h)
  then show ?case by (simp add: ra_inv_def)
next
  case (pop_read s t h i)
  let ?H = "length (ra_sent s)" and ?T = "length (ra_recvd s)" and ?v = "c_view s"
  from pop_read have k: "k < 64" "ra_mask s = 2 ^ k - 1" and c: "t = of_nat ?T" "h = of_nat (seen_head ?v)"
    and v: "consumer_view ?H ?T ?v" and p: "producer_view (2 ^ k) ?H ?T (p_view s)" "producer_at (2 ^ k) ?H (p_view s) (p_pc s)"
    and w: "written_ok (2 ^ k) (ra_sent s @ in_slot (p_pc s)) (ra_slots s) (slot_w s)"
    by (simp_all add: ra_inv_def)
  from v c pop_read(2) have seen: "?T < seen_head ?v" "seen_head ?v \<le> ?H" "seen_head ?v \<le> hb_prod ?v" "hb_cons ?v = Suc ?T"
    by (auto simp: consumer_view_def view_ok_def le_less)
  have i: "i = ?T mod 2 ^ k" using pop_read(3) ra_slot_of_nat [OF k(2,1)] by (simp add: c)
  have "?H + length (in_slot (p_pc s)) \<le> ?T + 2 ^ k"
    using p by (cases "p_pc s") (auto simp: producer_view_def view_ok_def)
  with written_ok_ordered [OF w, of ?T] seen have "slot_w s ! i = Suc ?T" "ra_slots s ! i = ra_sent s ! ?T" by (simp_all add: i)
  moreover from this seen have "read_ordered s i ?v" by (simp add: read_ordered_def)
  moreover have "reads_ok (2 ^ k) (Suc ?T) ((slot_r s)[i := Suc ?T])"
    using pop_read reads_ok_read [of "2 ^ k" ?T "slot_r s"] by (simp add: ra_inv_def i)
  ultimately show ?case using pop_read seen c by (simp add: ra_inv_def)
next
  case (pop_store s t x v)
  let ?H = "length (ra_sent s)" and ?T = "length (ra_recvd s)"
  have len: "length (tail_stores s) = Suc ?T" using pop_store by (simp add: ra_inv_def tails_ok_def)
  have x: "x = ra_sent s ! ?T" and t: "t = of_nat ?T" and seen: "?T < seen_head (c_view s)"
    and v: "consumer_view ?H ?T (c_view s)" using pop_store by (simp_all add: ra_inv_def)
  have lt: "?T < ?H" using seen v by (auto simp: consumer_view_def view_ok_def)
  have "tails_ok ?H (Suc ?T) (tail_stores s @ [store_of Release (t + 1) v])"
    using pop_store tails_ok_store [of ?H ?T "tail_stores s" "c_view s"] by (simp add: ra_inv_def)
  moreover have "consumer_view ?H (Suc ?T) (v\<lparr>hb_cons := hb_cons v + 1\<rparr>)"
    using v pop_store(2) len seen by (auto simp: consumer_view_def view_ok_def)
  moreover have "observer_at (2 ^ k) ?H (Suc ?T) (o_view s) (o_pc s)"
    using pop_store observer_at_mono [of "2 ^ k" ?H ?T "o_view s" "o_pc s" ?H "Suc ?T"] by (simp add: ra_inv_def)
  moreover have "ra_recvd s @ [x] = take (Suc ?T) (ra_sent s)"
    using pop_store lt x by (simp add: ra_inv_def take_Suc_conv_app_nth)
  ultimately show ?case using pop_store lt
    by (auto simp: ra_inv_def intro: heads_ok_mono producer_view_mono view_ok_mono)
qed

lemma size_step_inv: "size_step s t \<Longrightarrow> ra_inv k s \<Longrightarrow> ra_inv k t"
proof (induction rule: size_step.induct)
  case (size_head s d i)
  let ?H = "length (ra_sent s)" and ?T = "length (ra_recvd s)" and ?m = "head_stores s ! i"
  have m: "st_val ?m = of_nat i" "view_ok ?H ?T (st_view ?m)" "i \<le> seen_tail (st_view ?m) + 2 ^ k" "i \<le> ?H"
    using heads_okD [of "2 ^ k" ?H ?T "head_stores s" i] size_head by (simp_all add: ra_inv_def)
  have "view_ok ?H ?T ((o_view s)\<lparr>seen_head := i\<rparr>)" using size_head m(4) by (simp add: ra_inv_def view_ok_def)
  with m(2) have "view_ok ?H ?T (view_join ((o_view s)\<lparr>seen_head := i\<rparr>) (st_view ?m))" by (rule view_ok_join [rotated])
  moreover have "i \<le> max (seen_tail (o_view s)) (seen_tail (st_view ?m)) + 2 ^ k" using m(3) by simp
  ultimately show ?case using size_head m(1,4) by (auto simp: ra_inv_def)
next
  case (size_tail s h i)
  let ?H = "length (ra_sent s)" and ?T = "length (ra_recvd s)" and ?m = "tail_stores s ! i"
  have m: "st_val ?m = of_nat i" "view_ok ?H ?T (st_view ?m)" "i \<le> ?T"
    using tails_okD [of ?H ?T "tail_stores s" i] size_tail by (simp_all add: ra_inv_def)
  have "view_ok ?H ?T ((o_view s)\<lparr>seen_tail := i\<rparr>)" using size_tail m(3) by (simp add: ra_inv_def view_ok_def)
  with m(2) have "view_ok ?H ?T (view_join ((o_view s)\<lparr>seen_tail := i\<rparr>) (st_view ?m))" by (rule view_ok_join [rotated])
  moreover obtain j where "h = of_nat j" "j \<le> ?H" "j \<le> i + 2 ^ k" using size_tail by (auto simp: ra_inv_def)
  then have "observer_at (2 ^ k) ?H ?T w (RO_size (h - st_val ?m))" for w using m(1,3) by auto
  ultimately show ?case using size_tail by (simp add: ra_inv_def)
qed

interpretation ra: step_system ra_step "ra_inv k" for k
  by unfold_locales (auto simp: ra_step_def intro: push_step_inv pop_step_inv size_step_inv)

section \<open>Properties\<close>

lemma ra_start_inv:
  assumes "n \<le> 2 ^ 63" "rb_init True zero rb0 n = (rb, r)"
  shows "\<exists>k. ra_inv k (ra_start rb) \<and> ra_capacity (ra_start rb) = 2 ^ k"
proof -
  obtain k where k: "1 \<le> k" "k < 64" "next_pow2 n = 2 ^ k" using assms(1) by (rule next_pow2_bounds)
  then have "unat (next_pow2 n) = 2 ^ k" by (simp add: unat_two_power)
  with k assms(2) show ?thesis
    by (intro exI [of _ k])
      (auto simp: rb_init_def Let_def ra_start_def ra_inv_def heads_ok_def tails_ok_def written_ok_def reads_ok_def
        producer_view_def consumer_view_def view_ok_def no_view_def)
qed

lemma ra_reach_inv:
  assumes "n \<le> 2 ^ 63" "rb_init True zero rb0 n = (rb, r)" "ra_step\<^sup>*\<^sup>* (ra_start rb) s"
  obtains k where "ra_inv k s"
  using ra_start_inv [OF assms(1,2)] ra.steps_inv [OF assms(3)] by blast

text \<open>
  C14. The ring buffer is correct under the memory orders it asks for. In every run of one producer, one
  consumer and an observer, with loads that may return any value the orders allow, no slot is ever
  accessed in a data race; what the consumer received followed by at most \<open>capacity\<close> queued items is
  what the producer sent, in order; and an item that was copied out is the oldest not yet received.
\<close>

theorem ring_release_acquire:
  assumes "n \<le> 2 ^ 63" "rb_init True zero rb0 n = (rb, r)" "ra_step\<^sup>*\<^sup>* (ra_start rb) s"
  shows "\<not> race s \<and> (\<exists>queue. ra_sent s = ra_recvd s @ queue \<and> length queue \<le> unat (ra_capacity s)) \<and>
    (case c_pc s of RC_read t x \<Rightarrow> \<exists>rest. ra_sent s = ra_recvd s @ x # rest | _ \<Rightarrow> True)"
proof -
  obtain k where inv: "ra_inv k s" using assms by (rule ra_reach_inv)
  let ?H = "length (ra_sent s)" and ?T = "length (ra_recvd s)"
  have cap: "unat (ra_capacity s) = 2 ^ k" using inv by (simp add: ra_inv_def unat_two_power)
  have q: "ra_sent s = ra_recvd s @ drop ?T (ra_sent s)" using inv by (metis append_take_drop_id ra_inv_def)
  have "?H \<le> ?T + 2 ^ k" using inv by (auto simp: ra_inv_def producer_view_def view_ok_def)
  then have "length (drop ?T (ra_sent s)) \<le> unat (ra_capacity s)" by (simp add: cap)
  moreover have "\<exists>rest. ra_sent s = ra_recvd s @ x # rest" if "c_pc s = RC_read t x" for t x
  proof -
    have "?T < ?H" "x = ra_sent s ! ?T" using inv that by (auto simp: ra_inv_def consumer_view_def view_ok_def)
    with q show ?thesis by (metis Cons_nth_drop_Suc)
  qed
  ultimately show ?thesis using q inv by (auto simp: ra_inv_def split: ra_consumer.splits)
qed

text \<open>The size an observer gets is at most the capacity, or it is negative and has wrapped around.\<close>

theorem size_observed:
  assumes "n \<le> 2 ^ 63" "rb_init True zero rb0 n = (rb, r)" "ra_step\<^sup>*\<^sup>* (ra_start rb) s" "o_pc s = RO_size d"
  shows "unat d \<le> unat (ra_capacity s) \<or> (\<exists>m. 0 < m \<and> m \<le> length (ra_recvd s) \<and> d = - of_nat m)"
proof -
  obtain k where inv: "ra_inv k s" using assms(1-3) by (rule ra_reach_inv)
  then obtain i j where d: "d = of_nat i - of_nat j" "j \<le> length (ra_recvd s)" "i \<le> j + 2 ^ k" and k: "k < 64"
    and cap: "unat (ra_capacity s) = 2 ^ k"
    using assms(4) by (auto simp: ra_inv_def unat_two_power)
  show ?thesis
  proof (cases "j \<le> i")
    case True
    from word_diff_small [OF this d(3) k] d(3) show ?thesis by (intro disjI1) (simp add: d(1) cap)
  next
    case False
    then have "d = - of_nat (j - i)" by (simp add: d(1) of_nat_diff)
    with False d(2) show ?thesis by (intro disjI2 exI [of _ "j - i"]) simp
  qed
qed

text \<open>One item passes through the ring between the two loads of the observer.\<close>

lemma item_passes:
  assumes "rb_wf rb" "head rb = 0" "tail rb = 0"
  shows "\<exists>s. ra_step\<^sup>*\<^sup>* (ra_start rb) s \<and> o_pc s = RO_size (- 1) \<and> ra_sent s = [x] \<and> ra_recvd s = [x] \<and>
    p_pc s = RP_idle \<and> c_pc s = RC_idle"
proof -
  let ?s0 = "ra_start rb"
  let ?i = "ra_slot ?s0 0"
  obtain k where "k < 64" "capacity rb = 2 ^ k" "rb_mask rb = 2 ^ k - 1" "length (slots rb) = 2 ^ k"
    using assms(1) by (rule rb_wfE)
  then have i: "?i < length (slots rb)" and cap: "capacity rb \<noteq> 0"
    using ra_slot_of_nat [of ?s0 k 0] unat_two_power [of k] by (auto simp: ra_start_def)
  define s1 where "s1 = ?s0\<lparr>o_pc := RO_head 0\<rparr>"
  define s2 where "s2 = s1\<lparr>p_pc := RP_head x 0\<rparr>"
  define s3 where "s3 = s2\<lparr>p_pc := RP_loaded x 0 0\<rparr>"
  define s4 where "s4 = s3\<lparr>p_pc := RP_written x 0, ra_slots := (slots rb)[?i := x], slot_w := (slot_w s3)[?i := 1]\<rparr>"
  let ?v5 = "(p_view s4)\<lparr>seen_head := 1\<rparr>"
  define s5 where "s5 = s4\<lparr>p_pc := RP_idle, head_stores := head_stores s4 @ [store_of Release 1 ?v5],
    p_view := ?v5\<lparr>hb_prod := hb_prod ?v5 + 1\<rparr>, ra_sent := [x]\<rparr>"
  define s6 where "s6 = s5\<lparr>c_pc := RC_tail 0\<rparr>"
  define s7 where "s7 = s6\<lparr>c_pc := RC_loaded 0 1, c_view := view_join ((c_view s6)\<lparr>seen_head := 1\<rparr>) ?v5\<rparr>"
  define s8 where "s8 = s7\<lparr>c_pc := RC_read 0 x, slot_r := (slot_r s7)[?i := 1]\<rparr>"
  let ?v9 = "(c_view s8)\<lparr>seen_tail := 1\<rparr>"
  define s9 where "s9 = s8\<lparr>c_pc := RC_idle, tail_stores := tail_stores s8 @ [store_of Release 1 ?v9],
    c_view := ?v9\<lparr>hb_cons := hb_cons ?v9 + 1\<rparr>, ra_recvd := [x]\<rparr>"
  define s10 where "s10 = s9\<lparr>o_pc := RO_size (0 - 1), o_view := view_join ((o_view s9)\<lparr>seen_tail := 1\<rparr>) ?v9\<rparr>"
  note ss = s1_def s2_def s3_def s4_def s5_def s6_def s7_def s8_def s9_def s10_def
  note defs = ra_start_def no_view_def view_join_def assms(2,3)
  have "size_step ?s0 s1"
    using size_head [of ?s0 undefined 0] by (simp add: ss defs)
  moreover have "push_step s1 s2"
    using push_head [of s1 0 x] by (simp add: ss defs)
  moreover have "push_step s2 s3"
    using push_tail [of s2 x 0 0] by (simp add: ss defs)
  moreover have "push_step s3 s4"
    using push_write [of s3 x 0 0 ?i] i cap
    by (simp add: ss defs ra_slot_def write_ordered_def)
  moreover have "push_step s4 s5"
    using push_store [of s4 x 0 ?v5] by (simp add: ss defs)
  moreover have "pop_step s5 s6"
    using pop_tail [of s5 0] by (simp add: ss defs)
  moreover have "pop_step s6 s7"
    using pop_head [of s6 0 1] by (simp add: ss defs)
  moreover have "pop_step s7 s8"
    using pop_read [of s7 0 1 ?i] i
    by (simp add: ss defs ra_slot_def read_ordered_def)
  moreover have "pop_step s8 s9"
    using pop_store [of s8 0 x ?v9] by (simp add: ss defs)
  moreover have "size_step s9 s10"
    using size_tail [of s9 0 1] by (simp add: ss defs)
  ultimately have "ra_step\<^sup>*\<^sup>* ?s0 s10" by (meson ra_step_def r_into_rtranclp rtranclp.rtrancl_into_rtrancl)
  moreover have "o_pc s10 = RO_size (- 1) \<and> ra_sent s10 = [x] \<and> ra_recvd s10 = [x] \<and> p_pc s10 = RP_idle \<and> c_pc s10 = RC_idle"
    by (simp add: ss ra_start_def)
  ultimately show ?thesis by blast
qed

lemma max_u64: "unat (- 1 :: u64) = 18446744073709551615"
  by (simp add: unsigned_minus_1_eq_mask mask_eq_exp_minus_1)

lemma max_u64_text: "dec_digits 18446744073709551615 = ''18446744073709551615''"
  by (simp add: dec_digits.simps) (intro conjI; code_simp)

text \<open>
  C33. \<open>rb_size\<close> is not safe to call from the metrics thread: when the one item in the ring passes to
  the consumer between its two loads, the head it holds is older than the tail, and an empty ring is
  reported as holding \<open>2 ^ 64 - 1\<close> items, in a run of the ring of any requested capacity.
\<close>

theorem ring_size_wraps:
  assumes "n \<le> 2 ^ 63" "rb_init True zero rb0 n = (rb, r)"
  shows "\<exists>s d. ra_step\<^sup>*\<^sup>* (ra_start rb) s \<and> o_pc s = RO_size d \<and> ra_recvd s = ra_sent s \<and>
    unat (ra_capacity s) < unat d \<and> dec_digits (unat d) = ''18446744073709551615''"
proof -
  have wf: "rb_wf rb" using rb_init_wf [OF assms] by simp
  have "head rb = 0" "tail rb = 0" using assms(2) by (auto simp: rb_init_def Let_def)
  from item_passes [OF wf this, of zero] obtain s where s: "ra_step\<^sup>*\<^sup>* (ra_start rb) s" "o_pc s = RO_size (- 1)"
      "ra_sent s = [zero]" "ra_recvd s = [zero]"
    by blast
  obtain k where "ra_inv k s" using assms s(1) by (rule ra_reach_inv)
  then have k: "k < 64" "ra_capacity s = 2 ^ k" by (simp_all add: ra_inv_def)
  have "(2::nat) ^ k \<le> 2 ^ 63" using k(1) by (intro power_increasing) simp_all
  then have "unat (ra_capacity s) \<le> 2 ^ 63" by (simp only: k(2) unat_two_power [OF k(1)])
  then have "unat (ra_capacity s) < 18446744073709551615" by simp
  then have "unat (ra_capacity s) < unat (- 1 :: u64) \<and> dec_digits (unat (- 1 :: u64)) = ''18446744073709551615''"
    by (simp only: max_u64 max_u64_text simp_thms)
  moreover have "ra_recvd s = ra_sent s" using s(3,4) by simp
  ultimately show ?thesis using s(1,2) by blast
qed

definition any_ring :: "nat ringbuf" where
  "any_ring = \<lparr>capacity = 0, rb_mask = 0, slots = [], head = 0, tail = 0, overflow_count = 0\<rparr>"

definition ring4 :: "nat ringbuf" where
  "ring4 = \<lparr>capacity = 4, rb_mask = 3, slots = [0, 0, 0, 0], head = 0, tail = 0, overflow_count = 0\<rparr>"

lemma ring4_init: "rb_init True 0 any_ring 3 = (ring4, 0)"
proof -
  have c: "next_pow2 3 = 4" by (simp add: next_pow2_def drop_bit_eq_div)
  have "replicate 4 (0::nat) = [0, 0, 0, 0]" by (simp add: numeral_eq_Suc)
  then show ?thesis by (simp add: rb_init_def c ring4_def)
qed

theorem ring_size_wraps_witness:
  "\<exists>s. ra_step\<^sup>*\<^sup>* (ra_start ring4) s \<and> o_pc s = RO_size (- 1) \<and> ra_recvd s = ra_sent s"
proof -
  obtain s d where s: "ra_step\<^sup>*\<^sup>* (ra_start ring4) s" "o_pc s = RO_size d" "ra_recvd s = ra_sent s"
    "dec_digits (unat d) = ''18446744073709551615''"
    using ring_size_wraps [OF _ ring4_init] by auto
  have "unat d = unat (- 1 :: u64)" by (metis s(4) max_u64 max_u64_text digits_val_dec_digits)
  then have "d = - 1" by (simp only: word_unat_eq_iff)
  with s show ?thesis by blast
qed

theorem ring_release_acquire_witness:
  "\<exists>s. ra_step\<^sup>*\<^sup>* (ra_start ring4) s \<and> ra_recvd s = [7] \<and> \<not> race s"
proof -
  from rb_init_wf [OF _ ring4_init] have "rb_wf ring4" by simp
  with item_passes [of ring4 7] obtain s where s: "ra_step\<^sup>*\<^sup>* (ra_start ring4) s" "ra_recvd s = [7]"
    by (auto simp: ring4_def)
  with ring_release_acquire [OF _ ring4_init s(1)] show ?thesis by auto
qed

end
