(* ===== verification/Nta_Double.thy ===== *)
theory Nta_Double
  imports Nta_Prelude
begin

text \<open>
  IEEE 754 binary64, the \<open>double\<close> of the code. A double is modelled by the real number it
  denotes; every arithmetic operation of the code is the exact operation followed by
  \<open>rnd64\<close>, rounding to nearest with ties to even at 53 bits of precision and with the
  subnormal exponent floor. The exponent range has no upper end here: the values the code
  computes (packet rates, variances and scores) stay far below it.

  \<open>is_double\<close> marks the numbers rounding leaves alone. The lemmas below (monotonicity,
  exactness on doubles, the factor-two error bound) are all that the components use.
\<close>

type_synonym double = real

section \<open>Rounding\<close>

definition rne :: "real \<Rightarrow> int" where
  "rne x = (let f = \<lfloor>x\<rfloor>; d = x - of_int f
            in if d < 1/2 then f else if 1/2 < d then f + 1 else if even f then f else f + 1)"

definition exp64 :: "real \<Rightarrow> int" where
  "exp64 x = max (\<lfloor>log 2 x\<rfloor> - 52) (- 1074)"

definition rnd_pos :: "real \<Rightarrow> real" where
  "rnd_pos x = of_int (rne (x / 2 powi exp64 x)) * 2 powi exp64 x"

definition rnd64 :: "real \<Rightarrow> double" where
  "rnd64 x = (if x = 0 then 0 else sgn x * rnd_pos \<bar>x\<bar>)"

definition is_double :: "real \<Rightarrow> bool" where
  "is_double x \<longleftrightarrow> (\<exists>(m::int) k. x = of_int m * 2 powi k \<and> \<bar>m\<bar> \<le> 2 ^ 53 \<and> - 1074 \<le> k)"

section \<open>Rounding to an integer\<close>

lemma rne_of_int [simp]: "rne (of_int n) = n"
  by (simp add: rne_def)

lemma rne_bounds: "\<lfloor>x\<rfloor> \<le> rne x \<and> rne x \<le> \<lfloor>x\<rfloor> + 1"
  by (simp add: rne_def Let_def)

lemma rne_mono: "x \<le> y \<Longrightarrow> rne x \<le> rne y"
proof -
  assume le: "x \<le> y"
  then have f: "\<lfloor>x\<rfloor> \<le> \<lfloor>y\<rfloor>" by (rule floor_mono)
  show ?thesis
  proof (cases "\<lfloor>x\<rfloor> = \<lfloor>y\<rfloor>")
    case True
    with le show ?thesis by (auto simp: rne_def Let_def)
  next
    case False
    with f have "\<lfloor>x\<rfloor> + 1 \<le> \<lfloor>y\<rfloor>" by simp
    with rne_bounds [of x] rne_bounds [of y] show ?thesis by linarith
  qed
qed

lemma rne_ge: "of_int n \<le> x \<Longrightarrow> n \<le> rne x"
  using rne_mono [of "of_int n" x] by simp

lemma rne_le: "x \<le> of_int n \<Longrightarrow> rne x \<le> n"
  using rne_mono [of x "of_int n"] by simp

section \<open>Powers of two\<close>

lemma two_powi_pos [simp]: "(0::real) < 2 powi k"
  by simp

lemma two_powi_split: "(2::real) powi (a + b) = 2 powi a * 2 powi b"
  by (simp add: power_int_add)

lemma two_powi_int: "0 \<le> k \<Longrightarrow> (2::real) powi k = of_int (2 ^ nat k)"
  by (simp add: power_int_def)

lemma log_bounds:
  assumes "0 < x"
  shows "2 powi \<lfloor>log 2 x\<rfloor> \<le> x" and "x < 2 powi (\<lfloor>log 2 x\<rfloor> + 1)"
proof -
  have e: "2 powr (real_of_int k) = 2 powi k" for k
    by (simp add: powr_real_of_int')
  have "2 powr (real_of_int \<lfloor>log 2 x\<rfloor>) \<le> x \<and> x < 2 powr (real_of_int \<lfloor>log 2 x\<rfloor> + 1)"
    using assms floor_log_eq_powr_iff [of x 2 "\<lfloor>log 2 x\<rfloor>"] by simp
  moreover have "2 powr (real_of_int \<lfloor>log 2 x\<rfloor> + 1) = 2 powi (\<lfloor>log 2 x\<rfloor> + 1)"
    using e [of "\<lfloor>log 2 x\<rfloor> + 1"] by simp
  ultimately show "2 powi \<lfloor>log 2 x\<rfloor> \<le> x" and "x < 2 powi (\<lfloor>log 2 x\<rfloor> + 1)"
    using e [of "\<lfloor>log 2 x\<rfloor>"] by simp_all
qed

lemma exp64_ge: "- 1074 \<le> exp64 x"
  by (simp add: exp64_def)

lemma below_binade: "0 < x \<Longrightarrow> x < 2 powi (exp64 x + 53)"
proof -
  assume p: "0 < x"
  have "\<lfloor>log 2 x\<rfloor> + 1 \<le> exp64 x + 53" by (simp add: exp64_def)
  then have "(2::real) powi (\<lfloor>log 2 x\<rfloor> + 1) \<le> 2 powi (exp64 x + 53)"
    by (rule power_int_increasing) simp_all
  with log_bounds(2) [OF p] show ?thesis by linarith
qed

lemma above_binade: "0 < x \<Longrightarrow> - 1074 < exp64 x \<Longrightarrow> 2 powi (exp64 x + 52) \<le> x"
  using log_bounds(1) [of x] by (auto simp: exp64_def max_def split: if_splits)

lemma exp64_mono: "0 < x \<Longrightarrow> x \<le> y \<Longrightarrow> exp64 x \<le> exp64 y"
proof -
  assume "0 < x" "x \<le> y"
  then have "\<lfloor>log 2 x\<rfloor> \<le> \<lfloor>log 2 y\<rfloor>" by (intro floor_mono) simp
  then show ?thesis by (simp add: exp64_def)
qed

section \<open>Rounding positive reals\<close>

lemma div_powi: "a / (2::real) powi k = a * 2 powi (- k)"
  by (simp add: power_int_minus divide_inverse)

lemma rnd_pos_le_pow: "0 < x \<Longrightarrow> rnd_pos x \<le> 2 powi (exp64 x + 53)"
proof -
  assume p: "0 < x"
  let ?u = "(2::real) powi exp64 x"
  have "x / ?u \<le> of_int (2 ^ 53)"
    using below_binade [OF p] by (simp add: two_powi_split pos_divide_le_eq two_powi_int)
  then have "rne (x / ?u) \<le> 2 ^ 53" by (rule rne_le)
  then have "real_of_int (rne (x / ?u)) \<le> 2 ^ 53" by simp
  then have "real_of_int (rne (x / ?u)) * ?u \<le> 2 ^ 53 * ?u"
    by (rule mult_right_mono) simp
  then show ?thesis by (simp add: rnd_pos_def two_powi_split two_powi_int mult.commute)
qed

lemma rnd_pos_ge_pow: "0 < x \<Longrightarrow> - 1074 < exp64 x \<Longrightarrow> 2 powi (exp64 x + 52) \<le> rnd_pos x"
proof -
  assume p: "0 < x" and e: "- 1074 < exp64 x"
  let ?u = "(2::real) powi exp64 x"
  have "of_int (2 ^ 52) \<le> x / ?u"
    using above_binade [OF p e] by (simp add: two_powi_split pos_le_divide_eq two_powi_int mult.commute)
  then have "2 ^ 52 \<le> rne (x / ?u)" by (rule rne_ge)
  then have "2 ^ 52 \<le> real_of_int (rne (x / ?u))" by simp
  then have "2 ^ 52 * ?u \<le> real_of_int (rne (x / ?u)) * ?u"
    by (rule mult_right_mono) simp
  then show ?thesis by (simp add: rnd_pos_def two_powi_split two_powi_int mult.commute)
qed

lemma rnd_pos_nonneg: "0 < x \<Longrightarrow> 0 \<le> rnd_pos x"
  unfolding rnd_pos_def by (intro mult_nonneg_nonneg) (auto intro: rne_ge)

lemma rnd_pos_mono: "0 < x \<Longrightarrow> x \<le> y \<Longrightarrow> rnd_pos x \<le> rnd_pos y"
proof -
  assume p: "0 < x" and le: "x \<le> y"
  then have q: "0 < y" by simp
  show ?thesis
  proof (cases "exp64 x = exp64 y")
    case True
    have "x / 2 powi exp64 y \<le> y / 2 powi exp64 y"
      using le by (simp add: divide_right_mono)
    then have "rne (x / 2 powi exp64 y) \<le> rne (y / 2 powi exp64 y)" by (rule rne_mono)
    then show ?thesis by (simp add: rnd_pos_def True)
  next
    case False
    with exp64_mono [OF p le] have lt: "exp64 x + 53 \<le> exp64 y + 52" by simp
    with exp64_ge [of x] have e: "- 1074 < exp64 y" by simp
    have "rnd_pos x \<le> 2 powi (exp64 x + 53)" by (rule rnd_pos_le_pow [OF p])
    also have "\<dots> \<le> 2 powi (exp64 y + 52)" by (rule power_int_increasing [OF lt]) simp_all
    also have "\<dots> \<le> rnd_pos y" by (rule rnd_pos_ge_pow [OF q e])
    finally show ?thesis .
  qed
qed

lemma rnd_pos_exact:
  assumes p: "0 < x" and x: "x = of_int m * 2 powi k" and m: "m \<le> 2 ^ 53" and k: "- 1074 \<le> k"
  shows "rnd_pos x = x"
proof -
  have "\<exists>n::int. x / 2 powi exp64 x = of_int n"
  proof (cases "exp64 x \<le> k")
    case True
    have "x / 2 powi exp64 x = of_int m * 2 powi (k + - exp64 x)"
      by (simp only: x div_powi two_powi_split mult.assoc)
    also have "\<dots> = of_int (m * 2 ^ nat (k - exp64 x))"
      using True by (simp add: two_powi_int)
    finally show ?thesis by blast
  next
    case False
    with k have e: "- 1074 < exp64 x" by simp
    have m': "real_of_int m \<le> 2 ^ 53" using m by simp
    have "2 powi (exp64 x + 52) \<le> x" by (rule above_binade [OF p e])
    also have "x \<le> 2 ^ 53 * 2 powi k" unfolding x by (rule mult_right_mono [OF m']) simp
    also have "\<dots> = 2 powi (k + 53)"
      by (simp only: two_powi_split power_int_numeral mult.commute)
    finally have "(2::real) powi (exp64 x + 52) \<le> 2 powi (k + 53)" .
    moreover have "(2::real) powi (k + 53) < 2 powi (exp64 x + 52)" if "k + 53 < exp64 x + 52"
      using that by (rule power_int_strict_increasing) simp
    ultimately have "exp64 x + 52 \<le> k + 53" by force
    with False have E: "exp64 x = k + 1" by simp
    have lo: "2 ^ 53 * 2 powi k \<le> x"
      using \<open>2 powi (exp64 x + 52) \<le> x\<close> by (simp add: E two_powi_split two_powi_int add.commute)
    have "x = 2 ^ 53 * 2 powi k" using lo \<open>x \<le> 2 ^ 53 * 2 powi k\<close> by simp
    then have "x / 2 powi (k + 1) = of_int (2 ^ 52)" by (simp add: two_powi_split)
    then show ?thesis unfolding E by blast
  qed
  then obtain n :: int where n: "x / 2 powi exp64 x = of_int n" by blast
  then have "of_int n * 2 powi exp64 x = x" by (simp add: field_simps)
  then show ?thesis unfolding rnd_pos_def n by simp
qed

lemma rnd_pos_double: "0 < x \<Longrightarrow> is_double (rnd_pos x)"
proof -
  assume p: "0 < x"
  let ?n = "rne (x / 2 powi exp64 x)"
  have "real_of_int ?n * 2 powi exp64 x \<le> 2 ^ 53 * 2 powi exp64 x"
    using rnd_pos_le_pow [OF p]
    by (simp add: rnd_pos_def two_powi_split two_powi_int mult.commute)
  then have "?n \<le> 2 ^ 53" by simp
  moreover have "0 \<le> ?n" using p by (auto intro: rne_ge)
  ultimately show ?thesis
    unfolding is_double_def rnd_pos_def using exp64_ge [of x] by (intro exI conjI) auto
qed

section \<open>Rounding\<close>

lemma rnd64_pos: "0 < x \<Longrightarrow> rnd64 x = rnd_pos x"
  by (simp add: rnd64_def)

lemma rnd64_zero [simp]: "rnd64 0 = 0"
  by (simp add: rnd64_def)

lemma rnd64_minus [simp]: "rnd64 (- x) = - rnd64 x"
  by (simp add: rnd64_def sgn_minus)

lemma rnd64_neg: "x < 0 \<Longrightarrow> rnd64 x = - rnd_pos (- x)"
  by (simp add: rnd64_def)

lemma is_double_minus: "is_double x \<Longrightarrow> is_double (- x)"
proof -
  assume "is_double x"
  then obtain m k where "x = of_int m * 2 powi k" "\<bar>m\<bar> \<le> 2 ^ 53" "- 1074 \<le> k"
    unfolding is_double_def by blast
  then have "- x = of_int (- m) * 2 powi k" "\<bar>- m\<bar> \<le> 2 ^ 53" "- 1074 \<le> k" by simp_all
  then show ?thesis unfolding is_double_def by blast
qed

lemma is_double_of_int [intro]: "\<bar>n\<bar> \<le> 2 ^ 53 \<Longrightarrow> is_double (of_int n)"
  unfolding is_double_def by (intro exI [of _ n] exI [of _ 0]) simp

lemma is_double_0 [simp, intro]: "is_double 0"
  using is_double_of_int [of 0] by simp

lemma is_double_scaled: "\<bar>m\<bar> \<le> 2 ^ 53 \<Longrightarrow> - 1074 \<le> k \<Longrightarrow> is_double (of_int m * 2 powi k)"
  unfolding is_double_def by blast

lemma is_double_pow: "is_double (2 ^ n)"
  using is_double_scaled [of 1 "int n"] by (simp add: power_int_def)

lemma is_double_rnd64 [simp, intro]: "is_double (rnd64 x)"
proof (cases "x = 0")
  case True
  then show ?thesis by simp
next
  case False
  then consider "0 < x" | "x < 0" by linarith
  then show ?thesis
  proof cases
    case 1
    then show ?thesis by (simp add: rnd64_pos rnd_pos_double)
  next
    case 2
    then show ?thesis by (simp add: rnd64_neg rnd_pos_double is_double_minus)
  qed
qed

lemma rnd64_exact [simp]: "is_double x \<Longrightarrow> rnd64 x = x"
proof -
  have pos: "rnd64 x = x" if d: "is_double x" and p: "0 < x" for x
  proof -
    from d obtain m k where x: "x = of_int m * 2 powi k" and m: "\<bar>m\<bar> \<le> 2 ^ 53" and k: "- 1074 \<le> k"
      unfolding is_double_def by blast
    from m have "m \<le> 2 ^ 53" by simp
    from rnd_pos_exact [OF p x this k] p show ?thesis by (simp add: rnd64_pos)
  qed
  assume d: "is_double x"
  show ?thesis
  proof (cases "x < 0")
    case True
    with pos [OF is_double_minus [OF d]] show ?thesis by simp
  next
    case False
    then show ?thesis using pos [OF d] by (cases "x = 0") auto
  qed
qed

lemma rnd64_nonneg: "0 \<le> x \<Longrightarrow> 0 \<le> rnd64 x"
  using rnd_pos_nonneg [of x] by (cases "x = 0") (auto simp: rnd64_pos)

lemma rnd64_mono: "x \<le> y \<Longrightarrow> rnd64 x \<le> rnd64 y"
proof -
  assume le: "x \<le> y"
  consider "0 < x" | "x \<le> 0" "0 \<le> y" | "y < 0" using le by linarith
  then show ?thesis
  proof cases
    case 1
    with le show ?thesis by (simp add: rnd64_pos rnd_pos_mono)
  next
    case 2
    then have "rnd64 x \<le> 0" using rnd64_nonneg [of "- x"] by simp
    with 2 rnd64_nonneg [of y] show ?thesis by linarith
  next
    case 3
    with le show ?thesis by (simp add: rnd64_neg rnd_pos_mono)
  qed
qed

lemma rnd64_le: "x \<le> y \<Longrightarrow> is_double y \<Longrightarrow> rnd64 x \<le> y"
  using rnd64_mono [of x y] by simp

lemma rnd64_ge: "x \<le> y \<Longrightarrow> is_double x \<Longrightarrow> x \<le> rnd64 y"
  using rnd64_mono [of x y] by simp

section \<open>Operations of the code\<close>

definition dadd :: "double \<Rightarrow> double \<Rightarrow> double" where "dadd a b = rnd64 (a + b)"
definition dsub :: "double \<Rightarrow> double \<Rightarrow> double" where "dsub a b = rnd64 (a - b)"
definition dmul :: "double \<Rightarrow> double \<Rightarrow> double" where "dmul a b = rnd64 (a * b)"
definition ddiv :: "double \<Rightarrow> double \<Rightarrow> double" where "ddiv a b = rnd64 (a / b)"
definition dsqrt :: "double \<Rightarrow> double" where "dsqrt a = rnd64 (sqrt a)"
definition dlog2 :: "double \<Rightarrow> double" where "dlog2 a = rnd64 (log 2 a)"
definition double_of_int :: "int \<Rightarrow> double" where "double_of_int n = rnd64 (of_int n)"

text \<open>\<open>difftime\<close>: the difference of two 64-bit times, rounded once.\<close>

definition difftime :: "time_t \<Rightarrow> time_t \<Rightarrow> double" where
  "difftime a b = rnd64 (of_int (a - b))"

text \<open>The conversion \<open>(int) d\<close>: truncation towards zero (the callers stay in range).\<close>

definition int_of_double :: "double \<Rightarrow> int" where
  "int_of_double x = (if 0 \<le> x then \<lfloor>x\<rfloor> else \<lceil>x\<rceil>)"

lemma double_of_int_exact [simp]: "\<bar>n\<bar> \<le> 2 ^ 53 \<Longrightarrow> double_of_int n = of_int n"
  by (simp add: double_of_int_def is_double_of_int)

lemma difftime_exact: "\<bar>a - b\<bar> \<le> 2 ^ 53 \<Longrightarrow> difftime a b = of_int (a - b)"
  by (simp only: difftime_def is_double_of_int rnd64_exact)

text \<open>Comparing a rounded difference with a small integer is comparing the exact one.\<close>

lemma difftime_less: "\<bar>n\<bar> \<le> 2 ^ 30 \<Longrightarrow> difftime a b < of_int n \<longleftrightarrow> a - b < n"
proof -
  assume n: "\<bar>n\<bar> \<le> 2 ^ 30"
  have dn: "is_double (of_int n)" using n by (intro is_double_of_int) simp
  consider "n \<le> a - b" | "a - b < n" "- (2 ^ 53) \<le> a - b" | "a - b < - (2 ^ 53)" by linarith
  then show ?thesis
  proof cases
    case 1
    then have "of_int n \<le> rnd64 (of_int (a - b))" by (intro rnd64_ge dn) linarith
    with 1 show ?thesis by (simp add: difftime_def)
  next
    case 2
    then have "\<bar>a - b\<bar> \<le> 2 ^ 53" using n by simp
    then have "difftime a b = of_int (a - b)" by (rule difftime_exact)
    with 2 show ?thesis by linarith
  next
    case 3
    have "is_double (of_int (- (2 ^ 53)))" by (intro is_double_of_int) simp
    moreover have "real_of_int (a - b) \<le> of_int (- (2 ^ 53))" using 3 by linarith
    ultimately have "difftime a b \<le> of_int (- (2 ^ 53))"
      unfolding difftime_def by (rule rnd64_le [rotated])
    moreover have "- (2 ^ 30) \<le> real_of_int n" using n by (simp add: abs_le_iff)
    ultimately show ?thesis using 3 n by simp
  qed
qed

lemma difftime_greater: "\<bar>n\<bar> \<le> 2 ^ 30 \<Longrightarrow> of_int n < difftime a b \<longleftrightarrow> n < a - b"
proof -
  assume n: "\<bar>n\<bar> \<le> 2 ^ 30"
  have "difftime b a = - difftime a b"
    using rnd64_minus [of "of_int (a - b)"] by (simp add: difftime_def)
  with difftime_less [of "- n" b a] n show ?thesis by auto
qed

text \<open>The instances for the windows and timeouts of the code.\<close>

lemma difftime_less_numeral [simp]:
  "numeral w \<le> (2::int) ^ 30 \<Longrightarrow> difftime a b < numeral w \<longleftrightarrow> a - b < numeral w"
  using difftime_less [of "numeral w" a b] by simp

lemma difftime_greater_numeral [simp]:
  "numeral w \<le> (2::int) ^ 30 \<Longrightarrow> numeral w < difftime a b \<longleftrightarrow> numeral w < a - b"
  using difftime_greater [of "numeral w" a b] by simp

end
