(* ===== verification/Nta_Baseline.thy ===== *)
theory Nta_Baseline
  imports Nta_Double
begin

text \<open>
  The adaptive baseline of \<open>src/agent/analysis/analyzer.c\<close>: exponentially weighted means and
  variances of packets per second, new ports and DNS packets per one-minute window
  (\<open>update_baseline\<close>) and the three-sigma test \<open>is_anomaly\<close>, in rounded binary64 arithmetic.
\<close>

record ip_baseline =
  ewma_pps :: double
  ewma_var_pps :: double
  ewma_ports :: double
  ewma_var_ports :: double
  ewma_dns :: double
  ewma_var_dns :: double
  sample_count :: int
  window_start :: time_t
  pkt_in_window :: int
  ports_in_window :: int
  dns_in_window :: int

definition zero_baseline :: ip_baseline where
  "zero_baseline = \<lparr>ewma_pps = 0, ewma_var_pps = 0, ewma_ports = 0, ewma_var_ports = 0, ewma_dns = 0,
     ewma_var_dns = 0, sample_count = 0, window_start = 0, pkt_in_window = 0, ports_in_window = 0,
     dns_in_window = 0\<rparr>"

definition EWMA_ALPHA_FAST :: double where "EWMA_ALPHA_FAST = rnd64 (3 / 10)"
definition EWMA_ALPHA_SLOW :: double where "EWMA_ALPHA_SLOW = rnd64 (1 / 10)"
definition EWMA_CALIBRATION :: int where "EWMA_CALIBRATION = 100"
definition EWMA_SIGMA :: double where "EWMA_SIGMA = 3"
definition EWMA_WINDOW_SEC :: int where "EWMA_WINDOW_SEC = 60"

text \<open>\<open>m += alpha * (x - m)\<close> and \<open>v = (1.0 - alpha) * (v + alpha * d * d)\<close> with \<open>d = x - m\<close>.\<close>

definition ewma_mean :: "double \<Rightarrow> double \<Rightarrow> double \<Rightarrow> double" where
  "ewma_mean alpha m d = dadd m (dmul alpha d)"

definition ewma_var :: "double \<Rightarrow> double \<Rightarrow> double \<Rightarrow> double" where
  "ewma_var alpha v d = dmul (dsub 1 alpha) (dadd v (dmul (dmul alpha d) d))"

definition update_baseline :: "ip_baseline \<Rightarrow> bool \<Rightarrow> bool \<Rightarrow> time_t \<Rightarrow> ip_baseline" where
  "update_baseline b0 new_port is_dns now =
     (let b = b0\<lparr>pkt_in_window := pkt_in_window b0 + 1,
                 ports_in_window := (if new_port then ports_in_window b0 + 1 else ports_in_window b0),
                 dns_in_window := (if is_dns then dns_in_window b0 + 1 else dns_in_window b0)\<rparr>;
          elapsed = difftime now (window_start b)
      in if elapsed < of_int EWMA_WINDOW_SEC then b
         else
           let pps = (if elapsed > 0 then ddiv (double_of_int (pkt_in_window b)) elapsed else 0);
               ports = double_of_int (ports_in_window b);
               dns = double_of_int (dns_in_window b);
               alpha = (if sample_count b < EWMA_CALIBRATION then EWMA_ALPHA_FAST else EWMA_ALPHA_SLOW);
               b1 = (if sample_count b = 0
                     then b\<lparr>ewma_pps := pps, ewma_ports := ports, ewma_dns := dns,
                            ewma_var_pps := 0, ewma_var_ports := 0, ewma_var_dns := 0\<rparr>
                     else
                       let dp = dsub pps (ewma_pps b);
                           dq = dsub ports (ewma_ports b);
                           dd = dsub dns (ewma_dns b)
                       in b\<lparr>ewma_pps := ewma_mean alpha (ewma_pps b) dp,
                            ewma_ports := ewma_mean alpha (ewma_ports b) dq,
                            ewma_dns := ewma_mean alpha (ewma_dns b) dd,
                            ewma_var_pps := ewma_var alpha (ewma_var_pps b) dp,
                            ewma_var_ports := ewma_var alpha (ewma_var_ports b) dq,
                            ewma_var_dns := ewma_var alpha (ewma_var_dns b) dd\<rparr>)
           in b1\<lparr>sample_count := sample_count b1 + 1, window_start := now,
                 pkt_in_window := 0, ports_in_window := 0, dns_in_window := 0\<rparr>)"

definition is_anomaly :: "double \<Rightarrow> double \<Rightarrow> double \<Rightarrow> bool" where
  "is_anomaly observed ewma variance =
     (if variance \<le> 0 then False
      else \<bar>dsub observed ewma\<bar> > dmul EWMA_SIGMA (dsqrt variance))"

section \<open>The weights\<close>

lemma is_double_dyadic: "\<bar>m\<bar> \<le> 2 ^ 53 \<Longrightarrow> n \<le> 1074 \<Longrightarrow> is_double (of_int m / 2 ^ n)"
  using is_double_scaled [of m "- int n"] by (simp add: power_int_minus divide_inverse)

lemma alpha_fast_bounds: "19 / 64 \<le> EWMA_ALPHA_FAST" "EWMA_ALPHA_FAST \<le> 20 / 64"
  unfolding EWMA_ALPHA_FAST_def
  using is_double_dyadic [of 19 6] is_double_dyadic [of 20 6]
    rnd64_ge [of "19 / 2 ^ 6" "3 / 10"] rnd64_le [of "3 / 10" "20 / 2 ^ 6"]
  by simp_all

lemma alpha_slow_bounds: "25 / 256 \<le> EWMA_ALPHA_SLOW" "EWMA_ALPHA_SLOW \<le> 26 / 256"
  unfolding EWMA_ALPHA_SLOW_def
  using is_double_dyadic [of 25 8] is_double_dyadic [of 26 8]
    rnd64_ge [of "25 / 2 ^ 8" "1 / 10"] rnd64_le [of "1 / 10" "26 / 2 ^ 8"]
  by simp_all

section \<open>The mean stays between the old mean and the sample\<close>

lemma is_double_multiple: "is_double x \<Longrightarrow> \<exists>n::int. x = of_int n * 2 powi (- 1074)"
proof -
  assume "is_double x"
  then obtain m k where x: "x = of_int m * 2 powi k" "- 1074 \<le> k" unfolding is_double_def by blast
  have "(2::real) powi k = 2 powi (k + 1074) * 2 powi (- 1074)"
    by (simp only: two_powi_split [symmetric]) simp
  then have "x = of_int (m * 2 ^ nat (k + 1074)) * 2 powi (- 1074)"
    using x by (simp add: two_powi_int)
  then show ?thesis by blast
qed

lemma double_diff_floor:
  assumes "is_double x" "is_double y" "x < y"
  shows "2 powi (- 1074) \<le> y - x"
proof -
  obtain m n :: int where m: "x = of_int m * 2 powi (- 1074)" and n: "y = of_int n * 2 powi (- 1074)"
    using assms is_double_multiple by blast
  have "y - x = of_int (n - m) * 2 powi (- 1074)" by (simp only: m n left_diff_distrib of_int_diff)
  moreover have "1 \<le> n - m" using assms(3) by (simp add: m n)
  ultimately show ?thesis
    using mult_right_mono [of 1 "real_of_int (n - m)" "2 powi (- 1074)"] by simp
qed

lemma scaled_step_le:
  assumes x: "2 powi (- 1074) \<le> x" and a: "0 \<le> a" "a \<le> 1 / 2"
  shows "rnd64 (a * rnd64 x) \<le> x"
proof -
  let ?k = "\<lfloor>log 2 x\<rfloor>"
  have p: "0 < x" using x two_powi_pos [of "- 1074"] by linarith
  note b = log_bounds [OF p]
  have "\<not> ?k + 1 \<le> - 1074"
  proof
    assume "?k + 1 \<le> - 1074"
    then have "(2::real) powi (?k + 1) \<le> 2 powi (- 1074)" by (intro power_int_increasing) simp_all
    with b(2) x show False by linarith
  qed
  then have k: "- 1074 \<le> ?k" by linarith
  have dk: "is_double (2 powi ?k)" using is_double_scaled [of 1 ?k] k by simp
  have dk1: "is_double (2 powi (?k + 1))" using is_double_scaled [of 1 "?k + 1"] k by simp
  have "rnd64 x \<le> 2 powi (?k + 1)" using b(2) dk1 by (intro rnd64_le) simp_all
  moreover have "0 \<le> rnd64 x" using p by (intro rnd64_nonneg) simp
  ultimately have "a * rnd64 x \<le> 1 / 2 * 2 powi (?k + 1)" using a by (intro mult_mono) simp_all
  also have "\<dots> = 2 powi ?k" by (simp add: two_powi_split)
  finally have "rnd64 (a * rnd64 x) \<le> 2 powi ?k" using dk by (rule rnd64_le)
  with b(1) show ?thesis by linarith
qed

lemma ewma_mean_up:
  assumes "is_double m" "is_double x" "m \<le> x" "0 \<le> a" "a \<le> 1 / 2"
  shows "m \<le> ewma_mean a m (dsub x m)" "ewma_mean a m (dsub x m) \<le> x"
proof -
  have "0 \<le> rnd64 (a * rnd64 (x - m))"
    using assms by (intro rnd64_nonneg mult_nonneg_nonneg) simp_all
  then show "m \<le> ewma_mean a m (dsub x m)"
    using assms by (simp add: ewma_mean_def dadd_def dmul_def dsub_def rnd64_ge)
  have "rnd64 (a * rnd64 (x - m)) \<le> x - m"
  proof (cases "m = x")
    case False
    with assms have "2 powi (- 1074) \<le> x - m" by (intro double_diff_floor) simp_all
    then show ?thesis using assms by (intro scaled_step_le)
  qed simp
  then show "ewma_mean a m (dsub x m) \<le> x"
    using assms by (simp add: ewma_mean_def dadd_def dmul_def dsub_def rnd64_le)
qed

lemma ewma_mean_neg: "ewma_mean a (- m) (dsub (- x) (- m)) = - ewma_mean a m (dsub x m)"
proof -
  have "- x - - m = - (x - m)" "a * - y = - (a * y)" "- m + - y = - (m + y)" for y by simp_all
  then show ?thesis by (simp only: ewma_mean_def dadd_def dmul_def dsub_def rnd64_minus)
qed

lemma ewma_mean_between:
  assumes "is_double m" "is_double x" "0 \<le> a" "a \<le> 1 / 2"
  shows "min m x \<le> ewma_mean a m (dsub x m)" "ewma_mean a m (dsub x m) \<le> max m x"
proof -
  have "min m x \<le> ewma_mean a m (dsub x m) \<and> ewma_mean a m (dsub x m) \<le> max m x"
  proof (cases "m \<le> x")
    case True
    with ewma_mean_up [OF assms(1,2) True assms(3,4)] show ?thesis by simp
  next
    case False
    then have le: "- m \<le> - x" by simp
    from ewma_mean_up [OF is_double_minus [OF assms(1)] is_double_minus [OF assms(2)] le assms(3,4)] False
    show ?thesis unfolding ewma_mean_neg by simp
  qed
  then show "min m x \<le> ewma_mean a m (dsub x m)" "ewma_mean a m (dsub x m) \<le> max m x" by simp_all
qed

section \<open>The variance stays within the square of the range\<close>

lemma is_double_256: "\<bar>c\<bar> \<le> 2 ^ 53 \<Longrightarrow> is_double (of_int c / 256 * 2 ^ n)"
proof -
  assume c: "\<bar>c\<bar> \<le> 2 ^ 53"
  have "of_int c / 256 * 2 ^ n = real_of_int c * 2 powi (int n + (- 8))"
    unfolding two_powi_split by simp
  moreover have "is_double (real_of_int c * 2 powi (int n + (- 8)))" by (rule is_double_scaled [OF c]) simp
  ultimately show ?thesis by (simp only:)
qed

lemma ewma_var_nonneg:
  assumes "0 \<le> a" "a \<le> 1" "0 \<le> v"
  shows "0 \<le> ewma_var a v d"
proof -
  have "0 \<le> rnd64 (a * d) * d"
  proof (cases "0 \<le> d")
    case True
    with assms show ?thesis by (intro mult_nonneg_nonneg rnd64_nonneg) simp_all
  next
    case False
    then have "0 \<le> rnd64 (a * - d)" using assms by (intro rnd64_nonneg mult_nonneg_nonneg) simp_all
    with False show ?thesis by (simp add: mult_nonpos_nonpos)
  qed
  with assms show ?thesis
    by (simp add: ewma_var_def dmul_def dadd_def dsub_def rnd64_nonneg)
qed

text \<open>The weighted square of the difference: each rounding keeps it under its exact bound.\<close>

lemma ewma_square_le:
  fixes A :: int
  assumes a: "0 \<le> a" "a \<le> of_int A / 256" and A: "0 \<le> A" "A \<le> 256" and d: "\<bar>d\<bar> \<le> 2 ^ k"
  shows "rnd64 (rnd64 (a * d) * d) \<le> of_int A / 256 * 2 ^ (2 * k)"
proof -
  have pa: "is_double (of_int A / 256 * 2 ^ n)" for n using A by (intro is_double_256) simp
  have "\<bar>a * d\<bar> \<le> of_int A / 256 * 2 ^ k"
    unfolding abs_mult using a d by (intro mult_mono) simp_all
  then have "a * d \<le> of_int A / 256 * 2 ^ k" "- (a * d) \<le> of_int A / 256 * 2 ^ k" by (simp_all add: abs_le_iff)
  from rnd64_le [OF this(1) pa] rnd64_le [OF this(2) pa]
  have t1: "\<bar>rnd64 (a * d)\<bar> \<le> of_int A / 256 * 2 ^ k" by (simp add: abs_le_iff)
  have "rnd64 (a * d) * d \<le> \<bar>rnd64 (a * d)\<bar> * \<bar>d\<bar>" by (simp flip: abs_mult)
  also have "\<dots> \<le> (of_int A / 256 * 2 ^ k) * 2 ^ k" using t1 d by (intro mult_mono) simp_all
  also have "\<dots> = of_int A / 256 * 2 ^ (2 * k)" by (simp add: mult_2 power_add)
  finally show ?thesis using pa by (rule rnd64_le)
qed

lemma ewma_weight_le:
  fixes A L :: int
  assumes a: "of_int L / 256 \<le> a" "a \<le> of_int A / 256" and L: "0 \<le> L" "L \<le> 256" "A \<le> 256"
  shows "0 \<le> rnd64 (1 - a)" "rnd64 (1 - a) \<le> of_int (256 - L) / 256"
proof -
  have "of_int A / 256 \<le> (1::real)" using L by simp
  then show "0 \<le> rnd64 (1 - a)" using a by (intro rnd64_nonneg) linarith
  have "1 - a \<le> of_int (256 - L) / 256" using a(1) by (simp add: field_simps)
  moreover have "is_double (of_int (256 - L) / 256)" using is_double_256 [of "256 - L" 0] L by simp
  ultimately show "rnd64 (1 - a) \<le> of_int (256 - L) / 256" by (rule rnd64_le)
qed

lemma mult_le_cases:
  fixes x y u w :: real
  assumes "0 \<le> x" "x \<le> u" "y \<le> w" "0 \<le> w"
  shows "x * y \<le> u * w"
proof (cases "0 \<le> y")
  case True
  with assms show ?thesis by (intro mult_mono) auto
next
  case False
  then have "x * y \<le> 0" using assms(1) by (intro mult_nonneg_nonpos) simp_all
  also have "0 \<le> u * w" using assms by (intro mult_nonneg_nonneg) linarith+
  finally show ?thesis .
qed

lemma ewma_var_le:
  fixes A L :: int
  assumes a: "of_int L / 256 \<le> a" "a \<le> of_int A / 256" and L: "0 \<le> L" "A \<le> 256"
    and c: "(256 - L) * (256 + A) \<le> 65536"
    and v: "0 \<le> v" "v \<le> 2 ^ (2 * k)" and d: "\<bar>d\<bar> \<le> 2 ^ k"
  shows "ewma_var a v d \<le> 2 ^ (2 * k)"
proof -
  have a0: "0 \<le> a" using a(1) L(1) by (smt (verit) divide_nonneg_pos of_int_0_le_iff)
  have A0: "0 \<le> A" using a a0 by (smt (verit) of_int_nonneg zero_le_divide_iff of_int_0_le_iff)
  have L256: "L \<le> 256" using a A0 L by (smt (verit) divide_right_mono of_int_le_iff divide_le_cancel)
  have sum: "rnd64 (v + rnd64 (rnd64 (a * d) * d)) \<le> of_int (256 + A) / 256 * 2 ^ (2 * k)"
  proof (rule rnd64_le)
    show "v + rnd64 (rnd64 (a * d) * d) \<le> of_int (256 + A) / 256 * 2 ^ (2 * k)"
      using v(2) ewma_square_le [OF a0 a(2) A0 L(2) d] by (simp add: algebra_simps add_divide_distrib)
    show "is_double (of_int (256 + A) / 256 * 2 ^ (2 * k))" using A0 L by (intro is_double_256) simp
  qed
  have "rnd64 (1 - a) * rnd64 (v + rnd64 (rnd64 (a * d) * d)) \<le>
      (of_int (256 - L) / 256) * (of_int (256 + A) / 256 * 2 ^ (2 * k))"
    using ewma_weight_le [OF a L(1) L256 L(2)] sum A0 by (intro mult_le_cases) simp_all
  also have "\<dots> = of_int ((256 - L) * (256 + A)) / 65536 * 2 ^ (2 * k)" by simp
  also have "\<dots> \<le> 1 * 2 ^ (2 * k)"
  proof (rule mult_right_mono)
    have "real_of_int ((256 - L) * (256 + A)) \<le> of_int 65536" using c by (simp only: of_int_le_iff)
    then show "real_of_int ((256 - L) * (256 + A)) / 65536 \<le> 1" by simp
  qed simp
  finally have "rnd64 (1 - a) * rnd64 (v + rnd64 (rnd64 (a * d) * d)) \<le> 2 ^ (2 * k)" by simp
  moreover have "is_double (2 ^ (2 * k))" using is_double_256 [of 256 "2 * k"] by simp
  ultimately have "rnd64 (rnd64 (1 - a) * rnd64 (v + rnd64 (rnd64 (a * d) * d))) \<le> 2 ^ (2 * k)" by (rule rnd64_le)
  then show ?thesis by (simp add: ewma_var_def dmul_def dadd_def dsub_def)
qed

section \<open>The invariant\<close>

text \<open>A mean and a variance of samples from \<open>[0, 2^k]\<close>.\<close>

definition stat_ok :: "nat \<Rightarrow> double \<Rightarrow> double \<Rightarrow> bool" where
  "stat_ok k m v \<longleftrightarrow> is_double m \<and> 0 \<le> m \<and> m \<le> 2 ^ k \<and> 0 \<le> v \<and> v \<le> 2 ^ (2 * k)"

lemma stat_ok_init: "is_double x \<Longrightarrow> 0 \<le> x \<Longrightarrow> x \<le> 2 ^ k \<Longrightarrow> stat_ok k x 0"
  by (simp add: stat_ok_def)

lemma stat_ok_step:
  assumes s: "stat_ok k m v" and x: "is_double x" "0 \<le> x" "x \<le> 2 ^ k"
    and a: "a = EWMA_ALPHA_FAST \<or> a = EWMA_ALPHA_SLOW"
  shows "stat_ok k (ewma_mean a m (dsub x m)) (ewma_var a v (dsub x m))"
proof -
  from s have m: "is_double m" "0 \<le> m" "m \<le> 2 ^ k" and v: "0 \<le> v" "v \<le> 2 ^ (2 * k)"
    by (simp_all add: stat_ok_def)
  have a2: "0 \<le> a" "a \<le> 1 / 2" using a alpha_fast_bounds alpha_slow_bounds by auto
  have d: "\<bar>dsub x m\<bar> \<le> 2 ^ k"
  proof -
    have "x - m \<le> 2 ^ k" "- (x - m) \<le> 2 ^ k" using m x by linarith+
    from rnd64_le [OF this(1) is_double_pow] rnd64_le [OF this(2) is_double_pow]
    show ?thesis unfolding dsub_def rnd64_minus by (simp add: abs_le_iff)
  qed
  have "ewma_var a v (dsub x m) \<le> 2 ^ (2 * k)"
    using a
  proof
    assume "a = EWMA_ALPHA_FAST"
    with alpha_fast_bounds have "of_int 76 / 256 \<le> a" "a \<le> of_int 80 / 256" by simp_all
    then show ?thesis by (rule ewma_var_le) (use v d in simp_all)
  next
    assume "a = EWMA_ALPHA_SLOW"
    with alpha_slow_bounds have "of_int 25 / 256 \<le> a" "a \<le> of_int 26 / 256" by simp_all
    then show ?thesis by (rule ewma_var_le) (use v d in simp_all)
  qed
  moreover have "0 \<le> ewma_var a v (dsub x m)" using a2 v by (intro ewma_var_nonneg) simp_all
  moreover have "is_double (ewma_mean a m (dsub x m))" by (simp add: ewma_mean_def dadd_def)
  ultimately show ?thesis
    using ewma_mean_between [OF m(1) x(1) a2] m x
    by (auto simp: stat_ok_def min_def max_def split: if_splits)
qed

definition baseline_ok :: "ip_baseline \<Rightarrow> bool" where
  "baseline_ok b \<longleftrightarrow> stat_ok 26 (ewma_pps b) (ewma_var_pps b) \<and>
     stat_ok 31 (ewma_ports b) (ewma_var_ports b) \<and> stat_ok 31 (ewma_dns b) (ewma_var_dns b) \<and>
     0 \<le> sample_count b \<and> 0 \<le> ports_in_window b \<and> ports_in_window b \<le> pkt_in_window b \<and>
     0 \<le> dns_in_window b \<and> dns_in_window b \<le> pkt_in_window b"

lemma zero_baseline_ok: "baseline_ok (zero_baseline\<lparr>window_start := t\<rparr>)"
  by (simp add: baseline_ok_def zero_baseline_def stat_ok_def)

lemma pps_bounds:
  assumes "0 \<le> n" "n \<le> 2 ^ 31" "60 \<le> e"
  shows "0 \<le> ddiv (of_int n) e" "ddiv (of_int n) e \<le> 2 ^ 26"
proof -
  show "0 \<le> ddiv (of_int n) e" using assms by (simp add: ddiv_def rnd64_nonneg)
  have "real_of_int n / e \<le> 2 ^ 31 / 60"
    using assms by (intro frac_le) simp_all
  also have "\<dots> \<le> (2::real) ^ 26" by simp
  finally show "ddiv (of_int n) e \<le> 2 ^ 26"
    unfolding ddiv_def by (intro rnd64_le is_double_pow)
qed

lemma update_baseline_pkt:
  "0 \<le> pkt_in_window b \<Longrightarrow> pkt_in_window (update_baseline b p d now) \<le> pkt_in_window b + 1 \<and>
   0 \<le> pkt_in_window (update_baseline b p d now)"
  by (simp add: update_baseline_def Let_def)

lemma update_baseline_samples:
  "sample_count b \<le> sample_count (update_baseline b p d now) \<and>
   sample_count (update_baseline b p d now) \<le> sample_count b + 1"
  by (simp add: update_baseline_def Let_def)

lemma update_baseline_open:
  "now - window_start b < 60 \<Longrightarrow>
   update_baseline b p d now =
     b\<lparr>pkt_in_window := pkt_in_window b + 1,
       ports_in_window := (if p then ports_in_window b + 1 else ports_in_window b),
       dns_in_window := (if d then dns_in_window b + 1 else dns_in_window b)\<rparr>"
  by (simp add: update_baseline_def EWMA_WINDOW_SEC_def)

lemma counter_double:
  assumes "0 \<le> k" "k \<le> 2 ^ 31"
  shows "double_of_int k = of_int k" "is_double (of_int k)" "0 \<le> real_of_int k" "real_of_int k \<le> 2 ^ 31"
proof -
  have "real_of_int k \<le> of_int (2 ^ 31)" using assms by (simp only: of_int_le_iff)
  then show "real_of_int k \<le> 2 ^ 31" by simp
qed (use assms in \<open>auto intro: is_double_of_int\<close>)

text \<open>The end of a window: the first one starts the statistics, every other one moves them.\<close>

definition window_weight :: "ip_baseline \<Rightarrow> double" where
  "window_weight b = (if sample_count b < EWMA_CALIBRATION then EWMA_ALPHA_FAST else EWMA_ALPHA_SLOW)"

definition window_pps :: "ip_baseline \<Rightarrow> time_t \<Rightarrow> double" where
  "window_pps b now = ddiv (of_int (pkt_in_window b + 1)) (difftime now (window_start b))"

definition counters_in :: "ip_baseline \<Rightarrow> int \<Rightarrow> int \<Rightarrow> bool" where
  "counters_in b q r \<longleftrightarrow> 0 \<le> pkt_in_window b + 1 \<and> pkt_in_window b + 1 \<le> 2 ^ 31 \<and>
     0 \<le> q \<and> q \<le> 2 ^ 31 \<and> 0 \<le> r \<and> r \<le> 2 ^ 31"

lemma update_baseline_first:
  assumes "60 \<le> now - window_start b" "sample_count b = 0" "counters_in b q r"
    "q = (if p then ports_in_window b + 1 else ports_in_window b)" "r = (if d then dns_in_window b + 1 else dns_in_window b)"
  shows "update_baseline b p d now = b\<lparr>ewma_pps := window_pps b now, ewma_ports := of_int q, ewma_dns := of_int r,
    ewma_var_pps := 0, ewma_var_ports := 0, ewma_var_dns := 0, sample_count := 1, window_start := now,
    pkt_in_window := 0, ports_in_window := 0, dns_in_window := 0\<rparr>"
proof -
  have e: "60 \<le> difftime now (window_start b)" using assms(1) by (simp flip: not_less)
  have "double_of_int (pkt_in_window b + 1) = of_int (pkt_in_window b + 1)" "double_of_int q = of_int q" "double_of_int r = of_int r"
    using assms(3) by (simp_all add: counters_in_def counter_double(1))
  with e assms(1,2,4,5) show ?thesis
    by (auto simp: update_baseline_def Let_def EWMA_WINDOW_SEC_def window_pps_def)
qed

lemma update_baseline_next:
  assumes "60 \<le> now - window_start b" "sample_count b \<noteq> 0" "counters_in b q r"
    "q = (if p then ports_in_window b + 1 else ports_in_window b)" "r = (if d then dns_in_window b + 1 else dns_in_window b)"
    "a = window_weight b" "x = window_pps b now"
  shows "update_baseline b p d now = b\<lparr>ewma_pps := ewma_mean a (ewma_pps b) (dsub x (ewma_pps b)),
    ewma_ports := ewma_mean a (ewma_ports b) (dsub (of_int q) (ewma_ports b)),
    ewma_dns := ewma_mean a (ewma_dns b) (dsub (of_int r) (ewma_dns b)),
    ewma_var_pps := ewma_var a (ewma_var_pps b) (dsub x (ewma_pps b)),
    ewma_var_ports := ewma_var a (ewma_var_ports b) (dsub (of_int q) (ewma_ports b)),
    ewma_var_dns := ewma_var a (ewma_var_dns b) (dsub (of_int r) (ewma_dns b)),
    sample_count := sample_count b + 1, window_start := now,
    pkt_in_window := 0, ports_in_window := 0, dns_in_window := 0\<rparr>"
proof -
  have e: "60 \<le> difftime now (window_start b)" using assms(1) by (simp flip: not_less)
  have "double_of_int (pkt_in_window b + 1) = of_int (pkt_in_window b + 1)" "double_of_int q = of_int q" "double_of_int r = of_int r"
    using assms(3) by (simp_all add: counters_in_def counter_double(1))
  with e assms(1,2,4-7) show ?thesis
    by (auto simp: update_baseline_def Let_def EWMA_WINDOW_SEC_def window_pps_def window_weight_def)
qed

lemma update_baseline_ok:
  assumes ok: "baseline_ok b" and n: "pkt_in_window b < 2 ^ 31 - 1"
  shows "baseline_ok (update_baseline b p d now)"
proof (cases "now - window_start b < 60")
  case True
  with ok show ?thesis by (auto simp: update_baseline_open baseline_ok_def)
next
  case False
  let ?q = "if p then ports_in_window b + 1 else ports_in_window b"
  let ?r = "if d then dns_in_window b + 1 else dns_in_window b"
  have w: "60 \<le> now - window_start b" using False by simp
  have c: "counters_in b ?q ?r" using ok n by (auto simp: baseline_ok_def counters_in_def)
  then have b: "0 \<le> pkt_in_window b + 1" "pkt_in_window b + 1 \<le> 2 ^ 31" "0 \<le> ?q" "?q \<le> 2 ^ 31" "0 \<le> ?r" "?r \<le> 2 ^ 31"
    by (simp_all only: counters_in_def simp_thms)
  have e: "60 \<le> difftime now (window_start b)" using w by (simp flip: not_less)
  have pps: "is_double (window_pps b now)" "0 \<le> window_pps b now" "window_pps b now \<le> 2 ^ 26"
    using pps_bounds [OF b(1,2) e] by (simp_all add: ddiv_def window_pps_def)
  note q = counter_double(2-4) [OF b(3,4)] and r = counter_double(2-4) [OF b(5,6)]
  show ?thesis
  proof (cases "sample_count b = 0")
    case True
    have "stat_ok 26 (window_pps b now) 0" "stat_ok 31 (of_int ?q) 0" "stat_ok 31 (of_int ?r) 0"
      by (rule stat_ok_init [OF pps] stat_ok_init [OF q] stat_ok_init [OF r])+
    with update_baseline_first [OF w True c refl refl] show ?thesis by (simp only: baseline_ok_def ip_baseline.simps) simp
  next
    case F: False
    have al: "window_weight b = EWMA_ALPHA_FAST \<or> window_weight b = EWMA_ALPHA_SLOW" by (simp add: window_weight_def)
    have old: "stat_ok 26 (ewma_pps b) (ewma_var_pps b)" "stat_ok 31 (ewma_ports b) (ewma_var_ports b)"
      "stat_ok 31 (ewma_dns b) (ewma_var_dns b)" using ok by (simp_all add: baseline_ok_def)
    note new = stat_ok_step [OF old(1) pps al] stat_ok_step [OF old(2) q al] stat_ok_step [OF old(3) r al]
    from update_baseline_next [OF w F c refl refl refl refl] new ok show ?thesis
      by (simp only: baseline_ok_def ip_baseline.simps) simp
  qed
qed

section \<open>The adaptive threshold\<close>

text \<open>\<open>adaptive = ewma_pps + EWMA_SIGMA * sqrt (ewma_var_pps)\<close>, scaled and converted to \<open>int\<close>.\<close>

definition adaptive_threshold :: "ip_baseline \<Rightarrow> double \<Rightarrow> int" where
  "adaptive_threshold b factor =
     int_of_double (dmul (dadd (ewma_pps b) (dmul EWMA_SIGMA (dsqrt (ewma_var_pps b)))) factor)"

lemma adaptive_threshold_bounds:
  assumes "baseline_ok b" "0 \<le> f" "f \<le> 2"
  shows "0 \<le> adaptive_threshold b f" "adaptive_threshold b f \<le> 2 ^ 29"
proof -
  from assms(1) have m: "0 \<le> ewma_pps b" "ewma_pps b \<le> 2 ^ 26"
    and v: "0 \<le> ewma_var_pps b" "ewma_var_pps b \<le> 2 ^ 52" by (simp_all add: baseline_ok_def stat_ok_def)
  have "sqrt (ewma_var_pps b) \<le> sqrt ((2 ^ 26)\<^sup>2)" using v by (intro real_sqrt_le_mono) simp
  then have "sqrt (ewma_var_pps b) \<le> 2 ^ 26" by simp
  then have s: "0 \<le> dsqrt (ewma_var_pps b)" "dsqrt (ewma_var_pps b) \<le> 2 ^ 26"
    unfolding dsqrt_def using v is_double_pow [of 26] by (simp_all add: rnd64_nonneg rnd64_le)
  have d3: "is_double (3 * 2 ^ 26)" using is_double_256 [of 768 26] by simp
  have t: "0 \<le> dmul EWMA_SIGMA (dsqrt (ewma_var_pps b))" "dmul EWMA_SIGMA (dsqrt (ewma_var_pps b)) \<le> 3 * 2 ^ 26"
    unfolding dmul_def EWMA_SIGMA_def using s d3 by (simp_all add: rnd64_nonneg rnd64_le)
  have a: "0 \<le> dadd (ewma_pps b) (dmul EWMA_SIGMA (dsqrt (ewma_var_pps b)))"
    "dadd (ewma_pps b) (dmul EWMA_SIGMA (dsqrt (ewma_var_pps b))) \<le> 2 ^ 28"
    unfolding dadd_def using m t is_double_pow [of 28]
    by (auto intro!: rnd64_nonneg rnd64_le simp del: power_numeral_even)
  let ?x = "dmul (dadd (ewma_pps b) (dmul EWMA_SIGMA (dsqrt (ewma_var_pps b)))) f"
  have x0: "0 \<le> ?x" unfolding dmul_def using a assms by (intro rnd64_nonneg mult_nonneg_nonneg) (simp_all flip: dmul_def)
  have "dadd (ewma_pps b) (dmul EWMA_SIGMA (dsqrt (ewma_var_pps b))) * f \<le> 2 ^ 28 * 2"
    using a assms by (intro mult_mono) simp_all
  then have "?x \<le> 2 ^ 29" unfolding dmul_def [of _ f] using is_double_pow [of 29] by (intro rnd64_le) simp_all
  with x0 show "0 \<le> adaptive_threshold b f" "adaptive_threshold b f \<le> 2 ^ 29"
    by (simp_all add: adaptive_threshold_def int_of_double_def floor_le_iff)
qed

section \<open>Properties\<close>

text \<open>
  C17. One window update keeps a baseline within its bounds even in rounded arithmetic: means stay
  in the range of the samples and variances between zero and the square of that range, so that the
  integer conversion of the adaptive thresholds (factors 1.5 and 2) is between 0 and \<open>2^29\<close> and
  never overflows an \<open>int\<close>.
\<close>

theorem baseline_threshold_in_range:
  assumes "baseline_ok b" and "pkt_in_window b < INT_MAX" and "0 \<le> f" and "f \<le> 2"
  shows "baseline_ok (update_baseline b new_port is_dns now) \<and>
    0 \<le> adaptive_threshold (update_baseline b new_port is_dns now) f \<and>
    adaptive_threshold (update_baseline b new_port is_dns now) f \<le> 2 ^ 29"
proof -
  have "pkt_in_window b < 2 ^ 31 - 1" using assms(2) by (simp add: INT_MAX_def)
  from update_baseline_ok [OF assms(1) this] have "baseline_ok (update_baseline b new_port is_dns now)" .
  with adaptive_threshold_bounds [OF this assms(3,4)] show ?thesis by blast
qed

theorem baseline_threshold_in_range_witness:
  "baseline_ok (update_baseline zero_baseline True False 60) \<and>
   0 \<le> adaptive_threshold (update_baseline zero_baseline True False 60) 2 \<and>
   adaptive_threshold (update_baseline zero_baseline True False 60) 2 \<le> 2 ^ 29"
proof -
  have "zero_baseline = zero_baseline\<lparr>window_start := 0\<rparr>" by (simp add: zero_baseline_def)
  then have ok: "baseline_ok zero_baseline" using zero_baseline_ok [of 0] by simp
  show ?thesis
    by (rule baseline_threshold_in_range [OF ok]) (simp_all add: zero_baseline_def INT_MAX_def)
qed

text \<open>
  When a window closes, the new mean of every metric lies between the old mean and the sample,
  for both weights and including the rounding of every operation: the baseline never overshoots.
\<close>

theorem baseline_mean_between:
  assumes "baseline_ok b" and "pkt_in_window b < INT_MAX" and "60 \<le> now - window_start b"
    and "sample_count b \<noteq> 0"
  shows "let pps = ddiv (of_int (pkt_in_window b + 1)) (difftime now (window_start b));
             b' = update_baseline b new_port is_dns now
         in min (ewma_pps b) pps \<le> ewma_pps b' \<and> ewma_pps b' \<le> max (ewma_pps b) pps \<and>
            sample_count b' = sample_count b + 1 \<and> window_start b' = now \<and> pkt_in_window b' = 0"
proof -
  let ?e = "difftime now (window_start b)"
  let ?a = "if sample_count b < EWMA_CALIBRATION then EWMA_ALPHA_FAST else EWMA_ALPHA_SLOW"
  let ?pps = "ddiv (of_int (pkt_in_window b + 1)) ?e"
  have e: "60 \<le> ?e" using assms(3) by (simp flip: not_less)
  have n: "double_of_int (pkt_in_window b + 1) = of_int (pkt_in_window b + 1)"
    using assms(1,2) by (intro double_of_int_exact) (simp add: baseline_ok_def INT_MAX_def)
  have "ewma_pps (update_baseline b new_port is_dns now) = ewma_mean ?a (ewma_pps b) (dsub ?pps (ewma_pps b))"
    using e n assms(3,4) by (simp add: update_baseline_def Let_def EWMA_WINDOW_SEC_def del: of_int_add)
  moreover have "is_double (ewma_pps b)" "is_double ?pps"
    using assms(1) by (simp_all add: baseline_ok_def stat_ok_def ddiv_def)
  moreover have "0 \<le> ?a" "?a \<le> 1 / 2" using alpha_fast_bounds alpha_slow_bounds by auto
  moreover have "sample_count (update_baseline b new_port is_dns now) = sample_count b + 1"
    "window_start (update_baseline b new_port is_dns now) = now"
    "pkt_in_window (update_baseline b new_port is_dns now) = 0"
    using assms(3,4) by (simp_all add: update_baseline_def Let_def EWMA_WINDOW_SEC_def)
  ultimately show ?thesis
    unfolding Let_def using ewma_mean_between by presburger
qed

theorem baseline_mean_between_witness:
  "let b = zero_baseline\<lparr>sample_count := 1\<rparr>;
       pps = ddiv (of_int (pkt_in_window b + 1)) (difftime 60 (window_start b));
       b' = update_baseline b True False 60
   in min (ewma_pps b) pps \<le> ewma_pps b' \<and> ewma_pps b' \<le> max (ewma_pps b) pps \<and>
      sample_count b' = 2 \<and> window_start b' = 60 \<and> pkt_in_window b' = 0"
proof -
  let ?b = "zero_baseline\<lparr>sample_count := 1\<rparr>"
  have "baseline_ok ?b" "pkt_in_window ?b < INT_MAX" "60 \<le> 60 - window_start ?b" "sample_count ?b \<noteq> 0"
    by (simp_all add: baseline_ok_def zero_baseline_def stat_ok_def INT_MAX_def)
  from baseline_mean_between [OF this, of True False] show ?thesis
    unfolding Let_def by (simp add: zero_baseline_def)
qed

end
