(* ===== verification/Nta_Killchain.thy ===== *)
theory Nta_Killchain
  imports Nta_Baseline
begin

text \<open>
  The per-source record \<open>Suspect\<close> and the kill chain correlator of
  \<open>src/agent/analysis/analyzer.c\<close>: the stage machine IDLE, RECON, EXPLOIT, EXFIL, COMPLETE, its
  bit set of stages hit, the severity score and the accumulated MITRE tags. An attack is the C
  string the detectors return, \<open>None\<close> for the null pointer.
\<close>

datatype kill_chain_stage = KC_IDLE | KC_RECON | KC_EXPLOIT | KC_EXFIL | KC_COMPLETE

fun kc_code :: "kill_chain_stage \<Rightarrow> nat" where
  "kc_code KC_IDLE = 0"
| "kc_code KC_RECON = 1"
| "kc_code KC_EXPLOIT = 2"
| "kc_code KC_EXFIL = 3"
| "kc_code KC_COMPLETE = 4"

lemma kc_code_inj [simp]: "kc_code a = kc_code b \<longleftrightarrow> a = b"
  by (cases a; cases b) simp_all

instantiation kill_chain_stage :: linorder
begin

definition less_eq_kill_chain_stage :: "kill_chain_stage \<Rightarrow> kill_chain_stage \<Rightarrow> bool" where
  "less_eq_kill_chain_stage a b \<longleftrightarrow> kc_code a \<le> kc_code b"

definition less_kill_chain_stage :: "kill_chain_stage \<Rightarrow> kill_chain_stage \<Rightarrow> bool" where
  "less_kill_chain_stage a b \<longleftrightarrow> kc_code a < kc_code b"

instance
  by standard (auto simp: less_eq_kill_chain_stage_def less_kill_chain_stage_def)

end

lemmas kc_order = less_eq_kill_chain_stage_def less_kill_chain_stage_def

record suspect =
  ip :: u32
  last_seen :: time_t
  ports :: "u16 list"
  icmp_count :: int
  syn_count :: int
  null_scan_count :: int
  xmas_scan_count :: int
  synfin_scan_count :: int
  brute_count :: int
  brute_window_start :: time_t
  dns_query_count :: int
  dns_suspicious_count :: int
  dns_req_bytes :: u64
  dns_resp_bytes :: u64
  baseline :: ip_baseline
  kc_stage :: kill_chain_stage
  kc_stage_entered :: time_t
  kc_first_seen :: time_t
  kc_stages_hit :: u32
  kc_score :: int
  kc_mitre :: string

text \<open>\<open>memset (s, 0, sizeof (Suspect))\<close>; \<open>ports\<close> holds the used entries of the array.\<close>

definition zero_suspect :: suspect where
  "zero_suspect = \<lparr>ip = 0, last_seen = 0, ports = [], icmp_count = 0, syn_count = 0, null_scan_count = 0,
     xmas_scan_count = 0, synfin_scan_count = 0, brute_count = 0, brute_window_start = 0,
     dns_query_count = 0, dns_suspicious_count = 0, dns_req_bytes = 0, dns_resp_bytes = 0,
     baseline = zero_baseline, kc_stage = KC_IDLE, kc_stage_entered = 0, kc_first_seen = 0,
     kc_stages_hit = 0, kc_score = 0, kc_mitre = []\<rparr>"

definition KC_WINDOW_SEC :: int where "KC_WINDOW_SEC = 1800"
definition KC_MITRE_SIZE :: nat where "KC_MITRE_SIZE = 128"

definition kc_stage_name :: "kill_chain_stage \<Rightarrow> string" where
  "kc_stage_name st = [''IDLE'', ''RECON'', ''EXPLOIT'', ''EXFIL'', ''COMPLETE''] ! kc_code st"

definition attack_to_stage :: "string option \<Rightarrow> kill_chain_stage" where
  "attack_to_stage attack =
     (case attack of
        None \<Rightarrow> KC_IDLE
      | Some a \<Rightarrow>
          if a = ''PORT_SCAN'' \<or> a = ''NULL_SCAN'' \<or> a = ''XMAS_SCAN'' \<or> a = ''SYNFIN_SCAN'' \<or> a = ''ARP_SPOOF''
          then KC_RECON
          else if a = ''SYN_FLOOD'' \<or> a = ''BRUTE_FORCE'' then KC_EXPLOIT
          else if a = ''DNS_TUNNEL'' \<or> a = ''AMPLIFICATION'' \<or> a = ''ICMP_FLOOD'' then KC_EXFIL
          else KC_IDLE)"

definition attack_to_mitre :: "string option \<Rightarrow> string" where
  "attack_to_mitre attack =
     (case attack of
        None \<Rightarrow> ''''
      | Some a \<Rightarrow>
          if a = ''PORT_SCAN'' then ''T1046''
          else if a = ''NULL_SCAN'' then ''T1046''
          else if a = ''XMAS_SCAN'' then ''T1046''
          else if a = ''SYNFIN_SCAN'' then ''T1046''
          else if a = ''ARP_SPOOF'' then ''T1557''
          else if a = ''SYN_FLOOD'' then ''T1498''
          else if a = ''BRUTE_FORCE'' then ''T1110''
          else if a = ''DNS_TUNNEL'' then ''T1071.004,T1048''
          else if a = ''AMPLIFICATION'' then ''T1498''
          else if a = ''ICMP_FLOOD'' then ''T1498''
          else '''')"

definition calculate_kc_score :: "suspect \<Rightarrow> time_t \<Rightarrow> int" where
  "calculate_kc_score s now =
     (let base = [0, 20, 50, 70, 90];
          score = base ! kc_code (kc_stage s);
          score1 = (if kc_first_seen s > 0 \<and> kc_stage s \<ge> KC_EXPLOIT
                    then let progression = difftime now (kc_first_seen s)
                         in if progression < 300 then score + 10 else score
                    else score)
      in if score1 > 100 then 100 else score1)"

definition kc_reset :: "suspect \<Rightarrow> suspect" where
  "kc_reset s = s\<lparr>kc_stage := KC_IDLE, kc_stages_hit := 0, kc_first_seen := 0, kc_score := 0, kc_mitre := []\<rparr>"

definition add_mitre :: "string \<Rightarrow> string \<Rightarrow> string" where
  "add_mitre tags mitre =
     (if mitre \<noteq> [] \<and> \<not> strstr tags mitre
      then let tags1 = (if tags \<noteq> [] then strncat_cap KC_MITRE_SIZE tags '','' else tags)
           in strncat_cap KC_MITRE_SIZE tags1 mitre
      else tags)"

definition advance_kill_chain :: "suspect \<Rightarrow> string option \<Rightarrow> time_t \<Rightarrow> suspect" where
  "advance_kill_chain s attack now =
     (if attack = None then s
      else let target = attack_to_stage attack
           in if target = KC_IDLE then s
              else
                let s1 = (if kc_stage s > KC_IDLE \<and> difftime now (kc_stage_entered s) > of_int KC_WINDOW_SEC
                          then kc_reset s else s);
                    s2 = (if kc_first_seen s1 = 0 then s1\<lparr>kc_first_seen := now\<rparr> else s1);
                    s3 = (if target > kc_stage s2
                          then s2\<lparr>kc_stage := target, kc_stage_entered := now\<rparr> else s2);
                    s4 = s3\<lparr>kc_stages_hit := kc_stages_hit s3 OR push_bit (kc_code target) 1\<rparr>;
                    s5 = (if kc_stages_hit s4 AND 0xE = 0xE then s4\<lparr>kc_stage := KC_COMPLETE\<rparr> else s4);
                    s6 = s5\<lparr>kc_mitre := add_mitre (kc_mitre s5) (attack_to_mitre attack)\<rparr>
                in s6\<lparr>kc_score := calculate_kc_score s6 now\<rparr>)"

section \<open>The tags\<close>

fun join_comma :: "string list \<Rightarrow> string" where
  "join_comma [] = []"
| "join_comma [x] = x"
| "join_comma (x # y # zs) = x @ CHR '','' # join_comma (y # zs)"

definition mitre_tags :: "string list" where
  "mitre_tags = [''T1046'', ''T1557'', ''T1498'', ''T1110'', ''T1071.004,T1048'']"

lemma attack_to_stage_None [simp]: "attack_to_stage None = KC_IDLE"
  by (simp add: attack_to_stage_def)

lemma mitre_in_tags: "attack_to_mitre a = [] \<or> attack_to_mitre a \<in> set mitre_tags"
  by (auto simp: attack_to_mitre_def mitre_tags_def split: option.splits)

lemma mitre_empty_iff: "attack_to_mitre a = [] \<longleftrightarrow> attack_to_stage a = KC_IDLE"
  by (auto simp: attack_to_mitre_def attack_to_stage_def split: option.splits)

text \<open>A tag is found in a joined list only where it was put: tags never overlap.\<close>

lemma strstr_other_tag:
  "t \<in> set mitre_tags \<Longrightarrow> u \<in> set mitre_tags \<Longrightarrow> t \<noteq> u \<Longrightarrow> strstr (u @ r) t = strstr r t"
  by (auto simp: mitre_tags_def)

lemma comma_not_tag: "t \<in> set mitre_tags \<Longrightarrow> \<not> has_prefix t (CHR '','' # r)"
  by (auto simp: mitre_tags_def)

lemma strstr_own_tag: "strstr (t @ r) t"
  unfolding strstr_iff by (rule exI [of _ "[]"]) simp

lemma tag_nonempty: "t \<in> set mitre_tags \<Longrightarrow> t \<noteq> []"
  by (auto simp: mitre_tags_def)

lemma strstr_join:
  "t \<in> set mitre_tags \<Longrightarrow> set ts \<subseteq> set mitre_tags \<Longrightarrow> strstr (join_comma ts) t \<longleftrightarrow> t \<in> set ts"
proof (induction ts rule: join_comma.induct)
  case 1
  then show ?case by (simp add: tag_nonempty)
next
  case (2 x)
  show ?case
  proof (cases "x = t")
    case True
    then show ?thesis using strstr_own_tag [of t "[]"] by simp
  next
    case False
    then have "strstr (x @ []) t = strstr [] t" using 2 by (intro strstr_other_tag) auto
    with False 2 show ?thesis by (simp add: tag_nonempty)
  qed
next
  case (3 x y zs)
  show ?case
  proof (cases "x = t")
    case True
    then show ?thesis using strstr_own_tag by simp
  next
    case False
    then have "strstr (x @ CHR '','' # join_comma (y # zs)) t = strstr (CHR '','' # join_comma (y # zs)) t"
      using "3.prems" by (intro strstr_other_tag) simp_all
    also have "\<dots> = strstr (join_comma (y # zs)) t"
      using "3.prems"(1) by (auto simp only: strstr.simps comma_not_tag)
    also have "\<dots> \<longleftrightarrow> t \<in> set (y # zs)" using "3.prems" by (intro "3.IH") simp_all
    finally show ?thesis using False by simp
  qed
qed

lemma join_comma_snoc: "join_comma (ts @ [t]) = (if ts = [] then t else join_comma ts @ CHR '','' # t)"
  by (induction ts rule: join_comma.induct) auto

lemma join_comma_empty: "set ts \<subseteq> set mitre_tags \<Longrightarrow> join_comma ts = [] \<longleftrightarrow> ts = []"
  by (cases ts rule: join_comma.cases) (auto simp: tag_nonempty)

lemma length_join_comma: "ts \<noteq> [] \<Longrightarrow> length (join_comma ts) + 1 = sum_list (List.map (\<lambda>t. length t + 1) ts)"
  by (induction ts rule: join_comma.induct) auto

lemma length_join_tags:
  assumes "distinct ts" "set ts \<subseteq> set mitre_tags"
  shows "length (join_comma ts) \<le> 40"
proof (cases "ts = []")
  case False
  have "sum_list (List.map (\<lambda>t. length t + 1) ts) = (\<Sum>t \<in> set ts. length t + 1)"
    using assms(1) by (simp add: sum_list_distinct_conv_sum_set)
  also have "\<dots> \<le> (\<Sum>t \<in> set mitre_tags. length t + 1)"
    using assms(2) by (intro sum_mono2) simp_all
  also have "\<dots> = 40" by (simp add: mitre_tags_def)
  finally show ?thesis using length_join_comma [OF False] by simp
qed simp

lemma add_mitre_join:
  assumes "distinct ts" "set ts \<subseteq> set mitre_tags" "t = [] \<or> t \<in> set mitre_tags"
  shows "add_mitre (join_comma ts) t = join_comma (if t = [] \<or> t \<in> set ts then ts else ts @ [t])"
proof (cases "t = []")
  case False
  with assms(3) have t: "t \<in> set mitre_tags" by simp
  have l: "length (join_comma ts) \<le> 40" by (rule length_join_tags [OF assms(1,2)])
  have lt: "length t \<le> 15" using t by (auto simp: mitre_tags_def)
  show ?thesis
    using False l lt join_comma_empty [OF assms(2)]
    by (simp add: add_mitre_def strstr_join [OF t assms(2)] join_comma_snoc strncat_cap_def KC_MITRE_SIZE_def)
qed (simp add: add_mitre_def)

section \<open>One step\<close>

text \<open>The record an attack is added to: a fresh incident when the correlation window has expired.\<close>

definition kc_expired :: "suspect \<Rightarrow> time_t \<Rightarrow> bool" where
  "kc_expired s now \<longleftrightarrow> kc_stage s > KC_IDLE \<and> now - kc_stage_entered s > KC_WINDOW_SEC"

definition kc_base :: "suspect \<Rightarrow> time_t \<Rightarrow> suspect" where
  "kc_base s now = (if kc_expired s now then kc_reset s else s)"

lemma advance_idle [simp]: "attack_to_stage a = KC_IDLE \<Longrightarrow> advance_kill_chain s a now = s"
  by (simp add: advance_kill_chain_def)

lemma advance_stage_fields:
  assumes "attack_to_stage a = t" "t \<noteq> KC_IDLE"
  shows "kc_stages_hit (advance_kill_chain s a now) = kc_stages_hit (kc_base s now) OR push_bit (kc_code t) 1"
    and "kc_stage (advance_kill_chain s a now) =
      (if kc_stages_hit (advance_kill_chain s a now) AND 0xE = 0xE then KC_COMPLETE
       else max (kc_stage (kc_base s now)) t)"
    and "kc_stage_entered (advance_kill_chain s a now) =
      (if t > kc_stage (kc_base s now) then now else kc_stage_entered (kc_base s now))"
    and "kc_first_seen (advance_kill_chain s a now) =
      (if kc_first_seen (kc_base s now) = 0 then now else kc_first_seen (kc_base s now))"
    and "kc_mitre (advance_kill_chain s a now) = add_mitre (kc_mitre (kc_base s now)) (attack_to_mitre a)"
proof -
  have n: "(a = None) = False" using assms by (cases a) auto
  define b where "b = kc_base s now"
  have e: "(if kc_stage s > KC_IDLE \<and> difftime now (kc_stage_entered s) > of_int KC_WINDOW_SEC
      then kc_reset s else s) = b"
    by (simp add: b_def kc_base_def kc_expired_def KC_WINDOW_SEC_def)
  note d = advance_kill_chain_def [of s a now, unfolded e assms(1) Let_def]
  show "kc_stages_hit (advance_kill_chain s a now) = kc_stages_hit (kc_base s now) OR push_bit (kc_code t) 1"
    using assms(2) by (simp add: n d b_def [symmetric])
  show "kc_stage (advance_kill_chain s a now) =
      (if kc_stages_hit (advance_kill_chain s a now) AND 0xE = 0xE then KC_COMPLETE
       else max (kc_stage (kc_base s now)) t)"
    using assms(2) by (auto simp: n d b_def [symmetric] max_def)
  show "kc_stage_entered (advance_kill_chain s a now) =
      (if t > kc_stage (kc_base s now) then now else kc_stage_entered (kc_base s now))"
    using assms(2) by (simp add: n d b_def [symmetric])
  show "kc_first_seen (advance_kill_chain s a now) =
      (if kc_first_seen (kc_base s now) = 0 then now else kc_first_seen (kc_base s now))"
    using assms(2) by (simp add: n d b_def [symmetric])
  show "kc_mitre (advance_kill_chain s a now) = add_mitre (kc_mitre (kc_base s now)) (attack_to_mitre a)"
    using assms(2) by (simp add: n d b_def [symmetric])
qed

lemma kc_score_frame [simp]: "calculate_kc_score (s\<lparr>kc_score := x\<rparr>) now = calculate_kc_score s now"
  by (simp add: calculate_kc_score_def Let_def)

lemma advance_score:
  assumes "attack_to_stage a \<noteq> KC_IDLE"
  shows "kc_score (advance_kill_chain s a now) = calculate_kc_score (advance_kill_chain s a now) now"
proof -
  have n: "(a = None) = False" using assms by (cases a) auto
  show ?thesis using assms by (simp add: n advance_kill_chain_def Let_def)
qed

text \<open>The fields outside the kill chain are untouched.\<close>

lemma kc_reset_frame [simp]:
  "ip (kc_reset s) = ip s" "last_seen (kc_reset s) = last_seen s" "ports (kc_reset s) = ports s"
  "baseline (kc_reset s) = baseline s" "icmp_count (kc_reset s) = icmp_count s"
  "syn_count (kc_reset s) = syn_count s" "null_scan_count (kc_reset s) = null_scan_count s"
  "xmas_scan_count (kc_reset s) = xmas_scan_count s" "synfin_scan_count (kc_reset s) = synfin_scan_count s"
  "brute_count (kc_reset s) = brute_count s" "dns_query_count (kc_reset s) = dns_query_count s"
  "dns_suspicious_count (kc_reset s) = dns_suspicious_count s"
  by (simp_all add: kc_reset_def)

lemma advance_frame [simp]:
  "ip (advance_kill_chain s a now) = ip s"
  "last_seen (advance_kill_chain s a now) = last_seen s"
  "ports (advance_kill_chain s a now) = ports s"
  "baseline (advance_kill_chain s a now) = baseline s"
  "icmp_count (advance_kill_chain s a now) = icmp_count s"
  "syn_count (advance_kill_chain s a now) = syn_count s"
  "null_scan_count (advance_kill_chain s a now) = null_scan_count s"
  "xmas_scan_count (advance_kill_chain s a now) = xmas_scan_count s"
  "synfin_scan_count (advance_kill_chain s a now) = synfin_scan_count s"
  "brute_count (advance_kill_chain s a now) = brute_count s"
  "dns_query_count (advance_kill_chain s a now) = dns_query_count s"
  "dns_suspicious_count (advance_kill_chain s a now) = dns_suspicious_count s"
  by (simp_all add: advance_kill_chain_def Let_def)

section \<open>The invariant\<close>

definition stage_of_hits :: "u32 \<Rightarrow> kill_chain_stage" where
  "stage_of_hits h =
     (if h AND 0xE = 0xE then KC_COMPLETE else if bit h 3 then KC_EXFIL
      else if bit h 2 then KC_EXPLOIT else if bit h 1 then KC_RECON else KC_IDLE)"

definition hit_sets :: "u32 list" where
  "hit_sets = [0, 2, 4, 6, 8, 10, 12, 14]"

definition kc_ok :: "suspect \<Rightarrow> bool" where
  "kc_ok s \<longleftrightarrow> kc_stages_hit s \<in> set hit_sets \<and> kc_stage s = stage_of_hits (kc_stages_hit s) \<and>
     kc_score s \<in> {0, 20, 50, 60, 70, 80, 90, 100} \<and>
     (\<exists>ts. kc_mitre s = join_comma ts \<and> distinct ts \<and> set ts \<subseteq> set mitre_tags)"

lemma kc_ok_reset: "kc_ok (kc_reset s)"
  unfolding kc_ok_def kc_reset_def
  by (auto simp: stage_of_hits_def hit_sets_def intro!: exI [of _ "[]"])

lemma kc_ok_zero: "kc_ok zero_suspect"
  unfolding kc_ok_def zero_suspect_def
  by (auto simp: stage_of_hits_def hit_sets_def intro!: exI [of _ "[]"])

lemma kc_ok_base: "kc_ok s \<Longrightarrow> kc_ok (kc_base s now)"
  by (simp add: kc_base_def kc_ok_reset)

lemma kc_score_values: "calculate_kc_score s now \<in> {0, 20, 50, 60, 70, 80, 90, 100}"
  by (cases "kc_stage s") (simp_all add: calculate_kc_score_def Let_def kc_order)

definition hits_step_ok :: "u32 \<Rightarrow> kill_chain_stage \<Rightarrow> bool" where
  "hits_step_ok h t \<longleftrightarrow> (let h' = h OR push_bit (kc_code t) 1 in
     list_ex (\<lambda>x. x = h') hit_sets \<and>
     (if h' AND 0xE = 0xE then KC_COMPLETE else max (stage_of_hits h) t) = stage_of_hits h' \<and>
     stage_of_hits h \<le> stage_of_hits h')"

lemma hits_step_all:
  "list_all (\<lambda>h. list_all (hits_step_ok h) [KC_RECON, KC_EXPLOIT, KC_EXFIL]) hit_sets"
  by code_simp

lemma hits_step:
  assumes "h \<in> set hit_sets" "t = KC_RECON \<or> t = KC_EXPLOIT \<or> t = KC_EXFIL"
  shows "h OR push_bit (kc_code t) 1 \<in> set hit_sets"
    and "(if (h OR push_bit (kc_code t) 1) AND 0xE = 0xE then KC_COMPLETE else max (stage_of_hits h) t) =
      stage_of_hits (h OR push_bit (kc_code t) 1)"
    and "stage_of_hits h \<le> stage_of_hits (h OR push_bit (kc_code t) 1)"
proof -
  have "hits_step_ok h t" using hits_step_all assms unfolding list_all_iff by auto
  then show "h OR push_bit (kc_code t) 1 \<in> set hit_sets"
    and "(if (h OR push_bit (kc_code t) 1) AND 0xE = 0xE then KC_COMPLETE else max (stage_of_hits h) t) =
      stage_of_hits (h OR push_bit (kc_code t) 1)"
    and "stage_of_hits h \<le> stage_of_hits (h OR push_bit (kc_code t) 1)"
    unfolding hits_step_ok_def Let_def list_ex_iff by blast+
qed

lemma attack_stage_range:
  "attack_to_stage a \<noteq> KC_IDLE \<Longrightarrow>
   attack_to_stage a = KC_RECON \<or> attack_to_stage a = KC_EXPLOIT \<or> attack_to_stage a = KC_EXFIL"
  by (auto simp: attack_to_stage_def split: option.splits if_splits)

lemma kc_ok_advance: "kc_ok s \<Longrightarrow> kc_ok (advance_kill_chain s a now)"
proof (cases "attack_to_stage a = KC_IDLE")
  case False
  assume "kc_ok s"
  then have b: "kc_ok (kc_base s now)" by (rule kc_ok_base)
  then obtain ts where ts: "kc_mitre (kc_base s now) = join_comma ts" "distinct ts" "set ts \<subseteq> set mitre_tags"
    by (auto simp: kc_ok_def)
  let ?t = "attack_to_stage a"
  note f = advance_stage_fields [OF refl False, of s now]
  have h: "kc_stages_hit (kc_base s now) \<in> set hit_sets"
    and st: "kc_stage (kc_base s now) = stage_of_hits (kc_stages_hit (kc_base s now))"
    using b by (simp_all add: kc_ok_def)
  note hs = hits_step [OF h attack_stage_range [OF False]]
  let ?us = "if attack_to_mitre a = [] \<or> attack_to_mitre a \<in> set ts then ts else ts @ [attack_to_mitre a]"
  have "kc_mitre (advance_kill_chain s a now) = join_comma ?us"
    unfolding f(5) ts(1) by (rule add_mitre_join [OF ts(2,3) mitre_in_tags])
  moreover have "distinct ?us" "set ?us \<subseteq> set mitre_tags" using ts(2,3) mitre_in_tags [of a] by auto
  ultimately have "\<exists>us. kc_mitre (advance_kill_chain s a now) = join_comma us \<and> distinct us \<and> set us \<subseteq> set mitre_tags"
    by blast
  moreover have "kc_stages_hit (advance_kill_chain s a now) \<in> set hit_sets" unfolding f(1) by (rule hs(1))
  moreover have "kc_stage (advance_kill_chain s a now) = stage_of_hits (kc_stages_hit (advance_kill_chain s a now))"
    unfolding f(2) f(1) st by (rule hs(2))
  ultimately show ?thesis
    unfolding kc_ok_def advance_score [OF False] using kc_score_values by blast
qed simp

section \<open>Sequences of attacks\<close>

definition run_attacks :: "suspect \<Rightarrow> (string option \<times> time_t) list \<Rightarrow> suspect" where
  "run_attacks s as = foldl (\<lambda>s (a, t). advance_kill_chain s a t) s as"

lemma run_attacks_Nil [simp]: "run_attacks s [] = s"
  by (simp add: run_attacks_def)

lemma run_attacks_snoc [simp]: "run_attacks s (as @ [(a, t)]) = advance_kill_chain (run_attacks s as) a t"
  by (simp add: run_attacks_def)

lemma kc_ok_run: "kc_ok s \<Longrightarrow> kc_ok (run_attacks s as)"
proof (induction as rule: rev_induct)
  case (snoc x as)
  then show ?case by (cases x) (simp add: kc_ok_advance)
qed simp

lemma stage_of_hits_idle: "h \<in> set hit_sets \<Longrightarrow> stage_of_hits h = KC_IDLE \<longleftrightarrow> h = 0"
  by (auto simp: hit_sets_def stage_of_hits_def)

lemma kc_not_expired: "\<not> kc_expired s now \<Longrightarrow> kc_base s now = s"
  by (simp add: kc_base_def)

text \<open>Within one correlation window, the stages hit are those of the attacks.\<close>

lemma run_attacks_window:
  assumes "kc_ok s" "kc_stage s = KC_IDLE" "\<forall>(a, t) \<in> set as. t0 \<le> t \<and> t \<le> t0 + KC_WINDOW_SEC"
  shows "(\<forall>i \<in> {1, 2, 3}. bit (kc_stages_hit (run_attacks s as)) i \<longleftrightarrow>
      (\<exists>(a, t) \<in> set as. kc_code (attack_to_stage a) = i)) \<and>
    (kc_stage (run_attacks s as) \<noteq> KC_IDLE \<longrightarrow> t0 \<le> kc_stage_entered (run_attacks s as))"
  using assms(3)
proof (induction as rule: rev_induct)
  case Nil
  have "kc_stages_hit s = 0"
    using assms stage_of_hits_idle [of "kc_stages_hit s"] by (auto simp: kc_ok_def)
  with assms(2) show ?case by simp
next
  case (snoc x as)
  obtain a t where x: "x = (a, t)" by (cases x)
  let ?r = "run_attacks s as"
  have IH: "\<forall>i \<in> {1, 2, 3}. bit (kc_stages_hit ?r) i \<longleftrightarrow> (\<exists>(a, t) \<in> set as. kc_code (attack_to_stage a) = i)"
    "kc_stage ?r \<noteq> KC_IDLE \<longrightarrow> t0 \<le> kc_stage_entered ?r" using snoc by auto
  from snoc.prems x have t: "t0 \<le> t" "t \<le> t0 + KC_WINDOW_SEC" by auto
  have "\<not> kc_expired ?r t" using IH(2) t by (auto simp: kc_expired_def kc_order)
  then have b: "kc_base ?r t = ?r" by (rule kc_not_expired)
  show ?case
  proof (cases "attack_to_stage a = KC_IDLE")
    case True
    with IH show ?thesis by (auto simp: x)
  next
    case False
    note f = advance_stage_fields [OF refl False, of ?r t, unfolded b]
    have "bit (kc_stages_hit (advance_kill_chain ?r a t)) i \<longleftrightarrow>
        bit (kc_stages_hit ?r) i \<or> kc_code (attack_to_stage a) = i" if "i \<in> {1, 2, 3}" for i :: nat
      using that attack_stage_range [OF False] unfolding f(1)
      by (auto simp: bit_or_iff bit_push_bit_iff)
    moreover have "t0 \<le> kc_stage_entered (advance_kill_chain ?r a t)"
      unfolding f(3) using IH(2) t attack_stage_range [OF False] by (auto simp: kc_order)
    ultimately show ?thesis using IH(1) by (auto simp: x)
  qed
qed

lemma complete_iff_bits:
  "h \<in> set hit_sets \<Longrightarrow> stage_of_hits h = KC_COMPLETE \<longleftrightarrow> bit h 1 \<and> bit h 2 \<and> bit h 3"
  by (auto simp: hit_sets_def stage_of_hits_def)

section \<open>Properties\<close>

text \<open>
  C9. After any sequence of attacks at any times, a source's stage is the one its bit set of hits
  determines (COMPLETE exactly when all three stages were hit), its score is one of eight values
  up to 100, and its MITRE field is a comma-separated list of distinct tags which is never cut by
  the 128-byte buffer.
\<close>

theorem kill_chain_invariant:
  "let s = run_attacks zero_suspect as
   in kc_stage s = stage_of_hits (kc_stages_hit s) \<and> kc_stages_hit s \<in> set hit_sets \<and>
      kc_score s \<in> {0, 20, 50, 60, 70, 80, 90, 100} \<and>
      (\<exists>ts. kc_mitre s = join_comma ts \<and> distinct ts \<and> set ts \<subseteq> set mitre_tags \<and>
        length (kc_mitre s) \<le> 40)"
proof -
  have "kc_ok (run_attacks zero_suspect as)" by (intro kc_ok_run kc_ok_zero)
  moreover from this obtain ts where ts: "kc_mitre (run_attacks zero_suspect as) = join_comma ts"
    "distinct ts" "set ts \<subseteq> set mitre_tags" unfolding kc_ok_def by blast
  moreover have "length (kc_mitre (run_attacks zero_suspect as)) \<le> 40"
    unfolding ts(1) by (rule length_join_tags [OF ts(2,3)])
  ultimately show ?thesis unfolding Let_def kc_ok_def by blast
qed

text \<open>
  C10. When all the attacks of a source fall within one 30-minute window, its incident is COMPLETE
  exactly when a reconnaissance, an exploitation and an exfiltration attack are among them, in
  whatever order they came.
\<close>

theorem complete_iff_all_stages:
  assumes "kc_ok s" and "kc_stage s = KC_IDLE"
    and "\<forall>(a, t) \<in> set as. t0 \<le> t \<and> t \<le> t0 + KC_WINDOW_SEC"
  shows "kc_stage (run_attacks s as) = KC_COMPLETE \<longleftrightarrow>
    {KC_RECON, KC_EXPLOIT, KC_EXFIL} \<subseteq> attack_to_stage ` fst ` set as"
proof -
  let ?h = "kc_stages_hit (run_attacks s as)"
  have ok: "?h \<in> set hit_sets" "kc_stage (run_attacks s as) = stage_of_hits ?h"
    using kc_ok_run [OF assms(1), of as] by (simp_all add: kc_ok_def)
  have bits: "bit ?h (kc_code st) \<longleftrightarrow> st \<in> attack_to_stage ` fst ` set as"
    if "kc_code st \<in> {1, 2, 3}" for st
  proof -
    have "bit ?h (kc_code st) \<longleftrightarrow> (\<exists>(a, t) \<in> set as. kc_code (attack_to_stage a) = kc_code st)"
      using run_attacks_window [OF assms] that by blast
    also have "\<dots> \<longleftrightarrow> st \<in> attack_to_stage ` fst ` set as" by (auto simp: image_iff Bex_def)
    finally show ?thesis .
  qed
  from bits [of KC_RECON] bits [of KC_EXPLOIT] bits [of KC_EXFIL] complete_iff_bits [OF ok(1)] ok(2)
  show ?thesis by simp
qed

theorem complete_iff_all_stages_witness:
  "kc_stage (run_attacks zero_suspect
     [(Some ''DNS_TUNNEL'', 100), (Some ''PORT_SCAN'', 200), (Some ''BRUTE_FORCE'', 900)]) = KC_COMPLETE"
proof -
  let ?as = "[(Some ''DNS_TUNNEL'', 100), (Some ''PORT_SCAN'', 200), (Some ''BRUTE_FORCE'', 900)]"
  have i: "kc_stage zero_suspect = KC_IDLE" by (simp add: zero_suspect_def)
  have w: "\<forall>(a, t) \<in> set ?as. 100 \<le> t \<and> t \<le> 100 + KC_WINDOW_SEC" by (simp add: KC_WINDOW_SEC_def)
  show ?thesis
    using complete_iff_all_stages [OF kc_ok_zero i w] by (simp add: attack_to_stage_def)
qed

text \<open>
  While its correlation window is open, an incident never falls back to an earlier stage; when
  the window has expired, the next attack starts a new incident that holds that attack alone.
\<close>

theorem kill_chain_progress:
  assumes "kc_ok s" and "attack_to_stage a \<noteq> KC_IDLE"
  shows "(\<not> kc_expired s now \<longrightarrow> kc_stage s \<le> kc_stage (advance_kill_chain s a now)) \<and>
    (kc_expired s now \<longrightarrow> kc_stage (advance_kill_chain s a now) = attack_to_stage a \<and>
       kc_first_seen (advance_kill_chain s a now) = now \<and> kc_mitre (advance_kill_chain s a now) = attack_to_mitre a)"
proof
  note f = advance_stage_fields [OF refl assms(2), of s now]
  note t = attack_stage_range [OF assms(2)]
  have h: "kc_stages_hit s \<in> set hit_sets" "kc_stage s = stage_of_hits (kc_stages_hit s)"
    using assms(1) by (simp_all add: kc_ok_def)
  show "\<not> kc_expired s now \<longrightarrow> kc_stage s \<le> kc_stage (advance_kill_chain s a now)"
  proof
    assume "\<not> kc_expired s now"
    then have b: "kc_base s now = s" by (rule kc_not_expired)
    show "kc_stage s \<le> kc_stage (advance_kill_chain s a now)"
      using hits_step(3) [OF h(1) t] hits_step(2) [OF h(1) t] unfolding f(2) f(1) b h(2) by simp
  qed
  show "kc_expired s now \<longrightarrow> kc_stage (advance_kill_chain s a now) = attack_to_stage a \<and>
       kc_first_seen (advance_kill_chain s a now) = now \<and> kc_mitre (advance_kill_chain s a now) = attack_to_mitre a"
  proof
    assume "kc_expired s now"
    then have b: "kc_base s now = kc_reset s" by (simp add: kc_base_def)
    have m: "add_mitre (join_comma []) (attack_to_mitre a) = attack_to_mitre a"
      using mitre_in_tags [of a] by (subst add_mitre_join) auto
    have "kc_stage (advance_kill_chain s a now) = attack_to_stage a"
      using t unfolding f(2) f(1) b by (auto simp: kc_reset_def max_def kc_order)
    with m show "kc_stage (advance_kill_chain s a now) = attack_to_stage a \<and>
       kc_first_seen (advance_kill_chain s a now) = now \<and> kc_mitre (advance_kill_chain s a now) = attack_to_mitre a"
      unfolding f(4) f(5) b by (simp add: kc_reset_def)
  qed
qed

theorem kill_chain_progress_witness:
  "let s = zero_suspect\<lparr>kc_stage := KC_RECON, kc_stages_hit := 2, kc_stage_entered := 100\<rparr>
   in (\<not> kc_expired s 200 \<and> kc_stage s \<le> kc_stage (advance_kill_chain s (Some ''SYN_FLOOD'') 200)) \<and>
      (kc_expired s 2000 \<and> kc_stage (advance_kill_chain s (Some ''SYN_FLOOD'') 2000) = KC_EXPLOIT)"
proof -
  let ?s = "zero_suspect\<lparr>kc_stage := KC_RECON, kc_stages_hit := 2, kc_stage_entered := 100\<rparr>"
  have ok: "kc_ok ?s" unfolding kc_ok_def
    by (auto simp: zero_suspect_def stage_of_hits_def hit_sets_def intro!: exI [of _ "[]"])
  have a: "attack_to_stage (Some ''SYN_FLOOD'') = KC_EXPLOIT" by (simp add: attack_to_stage_def)
  have e: "\<not> kc_expired ?s 200" "kc_expired ?s 2000" by (simp_all add: kc_expired_def KC_WINDOW_SEC_def kc_order)
  from kill_chain_progress [OF ok, of "Some ''SYN_FLOOD''" 200] kill_chain_progress [OF ok, of "Some ''SYN_FLOOD''" 2000]
  show ?thesis unfolding Let_def using a e by simp
qed

text \<open>
  The speed bonus looks at the time of the current detection: an incident in stage EXPLOIT
  that had the bonus (score 60) loses it (score 50) at the next exploitation attack 300 seconds
  or more after its first activity, although it reached EXPLOIT as fast as before.
\<close>

theorem kc_bonus_lapses:
  assumes "kc_ok s" and "kc_stage s = KC_EXPLOIT" and "0 < kc_first_seen s"
    and "300 \<le> now - kc_first_seen s" and "\<not> kc_expired s now" and "attack_to_stage a = KC_EXPLOIT"
  shows "kc_stage (advance_kill_chain s a now) = KC_EXPLOIT \<and> kc_score (advance_kill_chain s a now) = 50"
proof -
  have n: "attack_to_stage a \<noteq> KC_IDLE" using assms by simp
  note f = advance_stage_fields [OF refl n, of s now, unfolded kc_not_expired [OF assms(5)]]
  have h: "kc_stages_hit s \<in> set hit_sets" "stage_of_hits (kc_stages_hit s) = KC_EXPLOIT"
    using assms(1,2) by (simp_all add: kc_ok_def)
  have "stage_of_hits (kc_stages_hit s OR push_bit (kc_code KC_EXPLOIT) 1) = KC_EXPLOIT"
    using h by (auto simp: hit_sets_def stage_of_hits_def)
  then have st: "kc_stage (advance_kill_chain s a now) = KC_EXPLOIT"
    using kc_ok_advance [OF assms(1), of a now] f(1) assms(6) unfolding kc_ok_def by simp
  moreover have "kc_first_seen (advance_kill_chain s a now) = kc_first_seen s" using f(4) assms(3) by simp
  ultimately show ?thesis
    unfolding advance_score [OF n] using assms(4)
    by (simp add: calculate_kc_score_def Let_def)
qed

theorem kc_bonus_lapses_witness:
  "let s = run_attacks zero_suspect [(Some ''SYN_FLOOD'', 1000)]
   in kc_score s = 60 \<and> kc_score (advance_kill_chain s (Some ''SYN_FLOOD'') 1300) = 50"
proof -
  let ?s = "run_attacks zero_suspect [(Some ''SYN_FLOOD'', 1000)]"
  have ok: "kc_ok ?s" by (intro kc_ok_run kc_ok_zero)
  have st: "kc_stage ?s = KC_EXPLOIT" "kc_first_seen ?s = 1000" "kc_stage_entered ?s = 1000" "kc_score ?s = 60"
    by (simp_all add: run_attacks_def advance_kill_chain_def attack_to_stage_def zero_suspect_def
        calculate_kc_score_def Let_def kc_order)
  have "\<not> kc_expired ?s 1300" using st by (simp add: kc_expired_def KC_WINDOW_SEC_def)
  from kc_bonus_lapses [OF ok st(1) _ _ this, of "Some ''SYN_FLOOD''"] st
  show ?thesis unfolding Let_def by (simp add: attack_to_stage_def)
qed

end
