(* ===== verification/Nta_Homenet.thy ===== *)
theory Nta_Homenet
  imports Nta_Prelude
begin

text \<open>
  HOME\_NET: the list of CIDR blocks whose source addresses the analyzer ignores
  (\<open>analyzer_add_home_cidr\<close>, \<open>is_home_ip\<close> in \<open>src/agent/analysis/analyzer.c\<close>), the discovery of the
  local networks (\<open>src/agent/platform/netif_posix.c\<close>) and the environment override
  (\<open>parse_csv_cidrs\<close>, \<open>init_home_nets\<close> in \<open>src/agent/core/pipeline.c\<close>), with the calls of the C
  library they make: \<open>htonl\<close>, \<open>inet_pton\<close>, \<open>inet_ntop\<close> and \<open>strtok_r\<close>.

  Addresses are the raw 32-bit values the code loads with \<open>memcpy\<close> from network byte order on
  a little-endian host; \<open>htonl\<close> is its byte swap.
\<close>

section \<open>Byte order\<close>

definition raw32 :: "u8 \<Rightarrow> u8 \<Rightarrow> u8 \<Rightarrow> u8 \<Rightarrow> u32" where
  "raw32 a b c d =
     ucast a OR push_bit 8 (ucast b) OR push_bit 16 (ucast c) OR push_bit 24 (ucast d)"

definition raw_byte :: "nat \<Rightarrow> u32 \<Rightarrow> u8" where
  "raw_byte i w = ucast (drop_bit (8 * i) w)"

definition htonl :: "u32 \<Rightarrow> u32" where
  "htonl w = push_bit 24 (take_bit 8 w) OR push_bit 16 (take_bit 8 (drop_bit 8 w)) OR
     push_bit 8 (take_bit 8 (drop_bit 16 w)) OR drop_bit 24 w"

definition swap_index :: "nat \<Rightarrow> nat" where
  "swap_index i = (if i < 8 then i + 24 else if i < 16 then i + 8 else if i < 24 then i - 8 else i - 24)"

lemma swap_index_less: "i < 32 \<Longrightarrow> swap_index i < 32"
  by (cases "i < 8"; cases "i < 16"; cases "i < 24") (auto simp: swap_index_def)

lemma swap_index_swap_index [simp]: "i < 32 \<Longrightarrow> swap_index (swap_index i) = i"
  by (auto simp: swap_index_def)

lemma bit_u32_less: "bit (w :: u32) i \<Longrightarrow> i < 32"
  using bit_imp_le_length [of w i] by simp

lemma bit_u8_less: "bit (b :: u8) i \<Longrightarrow> i < 8"
  using bit_imp_le_length [of b i] by simp

lemma bit_htonl: "bit (htonl w) i \<longleftrightarrow> i < 32 \<and> bit w (swap_index i)"
proof -
  consider "i < 8" | "8 \<le> i" "i < 16" | "16 \<le> i" "i < 24" | "24 \<le> i" "i < 32" | "32 \<le> i"
    by linarith
  then show ?thesis
    using bit_u32_less [of w "i + 24"] bit_u32_less [of "htonl w" i]
    by cases (auto simp: htonl_def swap_index_def bit_or_iff bit_push_bit_iff bit_take_bit_iff
        bit_drop_bit_eq add.commute)
qed

lemma htonl_htonl [simp]: "htonl (htonl w) = w"
  by (rule bit_word_eqI) (simp add: bit_htonl swap_index_less)

lemma htonl_and: "htonl (x AND y) = htonl x AND htonl y"
  by (rule bit_word_eqI) (simp add: bit_htonl bit_and_iff)

lemma htonl_inj [simp]: "htonl x = htonl y \<longleftrightarrow> x = y"
  by (metis htonl_htonl)

lemma htonl_0 [simp]: "htonl 0 = 0"
  by (simp add: htonl_def)

lemma bit_ucast8: "bit (ucast (b :: u8) :: u32) i \<longleftrightarrow> bit b i"
  using bit_u8_less [of b i] by (auto simp: bit_unsigned_iff)

lemma bit_raw32:
  "bit (raw32 a b c d) i \<longleftrightarrow> bit a i \<or> (8 \<le> i \<and> bit b (i - 8)) \<or> (16 \<le> i \<and> bit c (i - 16)) \<or>
     (24 \<le> i \<and> bit d (i - 24))"
  using bit_u8_less [of b "i - 8"] bit_u8_less [of c "i - 16"] bit_u8_less [of d "i - 24"]
  by (auto simp: raw32_def bit_or_iff bit_push_bit_iff bit_ucast8)

lemma bit_raw_byte: "bit (raw_byte j w) i \<longleftrightarrow> i < 8 \<and> bit w (8 * j + i)"
  by (auto simp: raw_byte_def bit_unsigned_iff bit_drop_bit_eq)

lemma raw_byte_raw32 [simp]:
  shows "raw_byte 0 (raw32 a b c d) = a" and "raw_byte (Suc 0) (raw32 a b c d) = b"
    and "raw_byte 2 (raw32 a b c d) = c" and "raw_byte 3 (raw32 a b c d) = d"
  by (rule bit_word_eqI; use bit_u8_less [of a] bit_u8_less [of b] bit_u8_less [of c] bit_u8_less [of d] in
      \<open>fastforce simp: bit_raw_byte bit_raw32 dest: bit_u8_less\<close>)+

lemma raw32_raw_byte [simp]:
  "raw32 (raw_byte 0 w) (raw_byte (Suc 0) w) (raw_byte 2 w) (raw_byte 3 w) = w"
proof (rule bit_word_eqI)
  fix i assume "i < LENGTH(32)"
  then consider "i < 8" | "8 \<le> i" "i < 16" | "16 \<le> i" "i < 24" | "24 \<le> i" "i < 32" by fastforce
  then show "bit (raw32 (raw_byte 0 w) (raw_byte (Suc 0) w) (raw_byte 2 w) (raw_byte 3 w)) i = bit w i"
    by cases (auto simp: bit_raw32 bit_raw_byte)
qed

section \<open>Dotted decimal\<close>

function split_on :: "char \<Rightarrow> string \<Rightarrow> string list" where
  "split_on c s = (case split_at_char c s of None \<Rightarrow> [s] | Some (a, b) \<Rightarrow> a # split_on c b)"
  by pat_completeness auto
termination
  by (relation "measure (\<lambda>(c, s). length s)") (auto simp: split_at_char_Some)

declare split_on.simps [simp del]

lemma split_at_char_append [simp]: "c \<notin> set a \<Longrightarrow> split_at_char c (a @ c # b) = Some (a, b)"
  by (simp add: split_at_char_Some)

lemma split_on_append: "c \<notin> set a \<Longrightarrow> split_on c (a @ c # b) = a # split_on c b"
  by (subst split_on.simps) simp

lemma split_on_last: "c \<notin> set a \<Longrightarrow> split_on c a = [a]"
  using split_at_char_None [of c a] by (subst split_on.simps) simp

text \<open>
  \<open>inet_pton (AF_INET, ...)\<close>: exactly four decimal fields of at most 255, without a leading zero
  (as glibc checks it). The result is the raw value of \<open>in_addr.s_addr\<close>.
\<close>

definition valid_octet :: "string \<Rightarrow> bool" where
  "valid_octet f \<longleftrightarrow> f \<noteq> [] \<and> list_all is_digit f \<and> digits_val f \<le> 255 \<and>
     (hd f = CHR ''0'' \<longrightarrow> length f = 1)"

definition inet_pton :: "string \<Rightarrow> u32 option" where
  "inet_pton s =
     (let fs = split_on (CHR ''.'') s
      in if length fs = 4 \<and> list_all valid_octet fs
         then Some (raw32 (of_nat (digits_val (fs ! 0))) (of_nat (digits_val (fs ! 1)))
                          (of_nat (digits_val (fs ! 2))) (of_nat (digits_val (fs ! 3))))
         else None)"

definition inet_ntop :: "u32 \<Rightarrow> string" where
  "inet_ntop w =
     dec_digits (unat (raw_byte 0 w)) @ CHR ''.'' # dec_digits (unat (raw_byte (Suc 0) w)) @ CHR ''.'' #
     dec_digits (unat (raw_byte 2 w)) @ CHR ''.'' # dec_digits (unat (raw_byte 3 w))"

lemma is_digit_not_sep:
  "list_all is_digit ds \<Longrightarrow> CHR ''.'' \<notin> set ds \<and> CHR ''/'' \<notin> set ds \<and> CHR '','' \<notin> set ds"
  by (auto simp: list_all_iff is_digit_def)

lemma hd_dec_digits: "hd (dec_digits n) = CHR ''0'' \<Longrightarrow> n = 0"
proof (induction n rule: dec_digits.induct)
  case (1 n)
  show ?case
  proof (cases "n < 10")
    case True
    with "1.prems" have "char_of (48 + n) = CHR ''0''" by (subst (asm) dec_digits.simps) simp
    then have "(of_char (char_of (48 + n) :: char) :: nat) = of_char (CHR ''0'')" by simp
    with True show ?thesis by simp
  next
    case False
    have "hd (dec_digits n) = hd (dec_digits (n div 10))"
      using False by (subst dec_digits.simps) (simp add: hd_append)
    with "1.IH" [OF False] "1.prems" have "n div 10 = 0" by simp
    with False show ?thesis by simp
  qed
qed

lemma valid_octet_dec_digits: "n \<le> 255 \<Longrightarrow> valid_octet (dec_digits n)"
  using dec_digits_all [of n] hd_dec_digits [of n]
  by (auto simp: valid_octet_def) (simp add: dec_digits.simps [of 0])

lemma unat_u8_le: "unat (b :: u8) \<le> 255"
  using unsigned_less [where 'a = nat, of b] by simp

theorem inet_pton_ntop: "inet_pton (inet_ntop w) = Some w"
proof -
  have s: "split_on (CHR ''.'') (inet_ntop w) =
      [dec_digits (unat (raw_byte 0 w)), dec_digits (unat (raw_byte (Suc 0) w)),
       dec_digits (unat (raw_byte 2 w)), dec_digits (unat (raw_byte 3 w))]"
    unfolding inet_ntop_def using is_digit_not_sep [OF dec_digits_all]
    by (simp add: split_on_append split_on_last)
  show ?thesis
    unfolding inet_pton_def s Let_def
    by (simp add: valid_octet_dec_digits unat_u8_le)
qed

lemma length_dec_digits: "n < 1000 \<Longrightarrow> length (dec_digits n) \<le> 3"
  by (subst dec_digits.simps, subst dec_digits.simps, subst dec_digits.simps) auto

lemma length_inet_ntop: "length (inet_ntop w) \<le> 15"
proof -
  have l: "length (dec_digits (unat b)) \<le> 3" for b :: u8
    by (rule length_dec_digits) (use unat_u8_le [of b] in simp)
  show ?thesis
    using l [of "raw_byte 0 w"] l [of "raw_byte (Suc 0) w"] l [of "raw_byte 2 w"] l [of "raw_byte 3 w"]
    by (simp add: inet_ntop_def)
qed

lemma inet_ntop_no_slash: "CHR ''/'' \<notin> set (inet_ntop w)"
  using is_digit_not_sep [OF dec_digits_all] by (simp add: inet_ntop_def)

lemma atoi_dec_digits:
  assumes "n < 2 ^ 31"
  shows "atoi (dec_digits n) = int n"
proof -
  obtain c cs where c: "dec_digits n = c # cs" by (cases "dec_digits n") auto
  have all: "list_all is_digit (c # cs)" using dec_digits_all [of n] by (simp add: c)
  then have d: "\<not> isspace c" "c \<noteq> CHR ''-''" "c \<noteq> CHR ''+''"
    by (auto simp: is_digit_def isspace_def)
  have tw: "takeWhile is_digit (c # cs) = c # cs"
    using all by (intro takeWhile_eq_all_conv [THEN iffD2]) (auto simp: list_all_iff)
  have "strtol (dec_digits n) = (clamp_long (int n), True)"
    using digits_val_dec_digits [of n] d tw by (simp add: strtol_def c Let_def)
  then show ?thesis
    using assms by (simp add: atoi_def clamp_long_def to_int32_id)
qed

section \<open>The list of home networks\<close>

record home_cidr =
  addr_be :: u32
  mask_be :: u32
  cidr_str :: string

definition MAX_HOME_CIDR :: nat where "MAX_HOME_CIDR = 8"

text \<open>
  \<open>analyzer_add_home_cidr\<close>, with the static array as the list of its used entries. A null
  pointer and an empty string take the same early return.
\<close>

definition analyzer_add_home_cidr :: "home_cidr list \<Rightarrow> string \<Rightarrow> home_cidr list \<times> int" where
  "analyzer_add_home_cidr hs cidr =
     (if cidr = [] then (hs, - 1)
      else if MAX_HOME_CIDR \<le> length hs then (hs, - 1)
      else let buf = cstr_copy 64 cidr;
               (host, prefix) = (case split_at_char (CHR ''/'') buf of
                                   None \<Rightarrow> (buf, 32) | Some (a, b) \<Rightarrow> (a, atoi b))
           in if prefix < 0 \<or> 32 < prefix then (hs, - 1)
              else case inet_pton host of
                     None \<Rightarrow> (hs, - 1)
                   | Some a \<Rightarrow>
                       let mask_host = (if prefix = 0 then 0 else push_bit (nat (32 - prefix)) 0xFFFFFFFF);
                           mask = htonl mask_host
                       in (hs @ [\<lparr>addr_be = a AND mask, mask_be = mask, cidr_str = cstr_copy 20 cidr\<rparr>], 0))"

definition analyzer_home_count :: "home_cidr list \<Rightarrow> int" where
  "analyzer_home_count hs = int (length hs)"

fun is_home_ip :: "home_cidr list \<Rightarrow> u32 \<Rightarrow> bool" where
  "is_home_ip [] src = False"
| "is_home_ip (h # hs) src = (if src AND mask_be h = addr_be h then True else is_home_ip hs src)"

section \<open>Detection and configuration\<close>

function prefix_loop :: "int \<Rightarrow> u32 \<Rightarrow> int" where
  "prefix_loop p m = (if m AND 0x80000000 \<noteq> 0 then prefix_loop (p + 1) (push_bit 1 m) else p)"
  by pat_completeness auto

lemma top_bit_set: "(m :: u32) AND 0x80000000 \<noteq> 0 \<longleftrightarrow> bit m 31"
  using and_exp_eq_0_iff_not_bit [of m 31] by simp

lemma bits_shift_one: "bit m 31 \<Longrightarrow> card {i. bit (push_bit 1 (m :: u32)) i} < card {i. bit m i}"
proof -
  assume top: "bit m 31"
  have sh: "bit (push_bit 1 m) i \<longleftrightarrow> 1 \<le> i \<and> i < 32 \<and> bit m (i - 1)" for i
    unfolding bit_push_bit_iff by simp
  have fin: "finite {i. bit m i}"
    by (rule finite_subset [of _ "{..<32}"]) (auto dest: bit_u32_less)
  have "{i. bit (push_bit 1 m) i} = Suc ` ({i. bit m i} - {31})"
  proof (rule set_eqI, rule iffI)
    fix i assume "i \<in> {i. bit (push_bit 1 m) i}"
    then have i: "1 \<le> i" "i < 32" "bit m (i - 1)" by (auto simp only: sh mem_Collect_eq)
    then have "i = Suc (i - 1)" "i - 1 \<noteq> 31" by simp_all
    with i show "i \<in> Suc ` ({i. bit m i} - {31})" by blast
  next
    fix i assume "i \<in> Suc ` ({i. bit m i} - {31})"
    then obtain j where j: "i = Suc j" "bit m j" "j \<noteq> 31" by blast
    then show "i \<in> {i. bit (push_bit 1 m) i}"
      using bit_u32_less [of m j] by (simp only: sh mem_Collect_eq) simp
  qed
  then have "card {i. bit (push_bit 1 m) i} = card ({i. bit m i} - {31})"
    by (simp add: card_image)
  also have "\<dots> < card {i. bit m i}"
    using fin top by (intro psubset_card_mono) auto
  finally show ?thesis .
qed

termination prefix_loop
  by (relation "measure (\<lambda>(p, m). card {i. bit m i})")
    (auto simp: top_bit_set intro!: bits_shift_one [simplified])

declare prefix_loop.simps [simp del]

definition prefix_from_mask :: "u32 \<Rightarrow> int" where
  "prefix_from_mask mask_host = prefix_loop 0 mask_host"

text \<open>The entries of \<open>getifaddrs\<close>: name, address (family and raw address) and netmask.\<close>

record ifaddr =
  ifa_name :: string
  ifa_addr :: "(nat \<times> u32) option"
  ifa_netmask :: "u32 option"

definition AF_INET :: nat where "AF_INET = 2"

definition cidr_text :: "u32 \<Rightarrow> int \<Rightarrow> string" where
  "cidr_text net prefix = cstr_copy 32 (inet_ntop net @ CHR ''/'' # dec_digits (nat prefix))"

fun netif_loop :: "string \<Rightarrow> ('h \<Rightarrow> string \<Rightarrow> 'h \<times> int) \<Rightarrow> ifaddr list \<Rightarrow> 'h \<Rightarrow> int \<Rightarrow> 'h \<times> int" where
  "netif_loop iface on_cidr [] h n = (h, n)"
| "netif_loop iface on_cidr (ifa # ifs) h n =
     (case ifa_addr ifa of
        None \<Rightarrow> netif_loop iface on_cidr ifs h n
      | Some (family, addr) \<Rightarrow>
          if family \<noteq> AF_INET then netif_loop iface on_cidr ifs h n
          else case ifa_netmask ifa of
                 None \<Rightarrow> netif_loop iface on_cidr ifs h n
               | Some m \<Rightarrow>
                   if ifa_name ifa \<noteq> iface \<and> ifa_name ifa \<noteq> ''lo'' then netif_loop iface on_cidr ifs h n
                   else let net = addr AND m;
                            prefix = prefix_from_mask (htonl m);
                            (h1, r) = on_cidr h (cidr_text net prefix)
                        in netif_loop iface on_cidr ifs h1 (if r = 0 then n + 1 else n))"

text \<open>\<open>getifaddrs\<close> itself is the argument: \<open>None\<close> when it fails.\<close>

definition netif_home_cidrs ::
  "ifaddr list option \<Rightarrow> string \<Rightarrow> ('h \<Rightarrow> string \<Rightarrow> 'h \<times> int) \<Rightarrow> 'h \<Rightarrow> 'h \<times> int" where
  "netif_home_cidrs ifaddrs iface on_cidr h =
     (case ifaddrs of None \<Rightarrow> (h, 0) | Some ifs \<Rightarrow> netif_loop iface on_cidr ifs h 0)"

text \<open>\<open>strtok_r\<close> run to the end: the maximal runs of non-delimiters.\<close>

function strtok :: "string \<Rightarrow> string \<Rightarrow> string list" where
  "strtok delims s =
     (let s1 = dropWhile (\<lambda>c. c \<in> set delims) s
      in if s1 = [] then []
         else takeWhile (\<lambda>c. c \<notin> set delims) s1 # strtok delims (dropWhile (\<lambda>c. c \<notin> set delims) s1))"
  by pat_completeness auto
termination
proof (relation "measure (\<lambda>(d, s). length s)")
  fix delims s s1 :: string
  assume s1: "s1 = dropWhile (\<lambda>c. c \<in> set delims) s" and ne: "s1 \<noteq> []"
  then have "length (dropWhile (\<lambda>c. c \<notin> set delims) s1) < length s1"
    using ne hd_dropWhile [of "\<lambda>c. c \<in> set delims" s] length_dropWhile_le [of "\<lambda>c. c \<notin> set delims" "tl s1"]
    unfolding s1 [symmetric] by (cases s1) (auto simp: le_imp_less_Suc)
  also have "length s1 \<le> length s" unfolding s1 by (rule length_dropWhile_le)
  finally show "((delims, dropWhile (\<lambda>c. c \<notin> set delims) s1), (delims, s)) \<in> measure (\<lambda>(d, s). length s)"
    by simp
qed simp

declare strtok.simps [simp del]

fun add_tokens :: "string list \<Rightarrow> home_cidr list \<Rightarrow> int \<Rightarrow> home_cidr list \<times> int" where
  "add_tokens [] hs n = (hs, n)"
| "add_tokens (t # ts) hs n =
     (case analyzer_add_home_cidr hs t of (hs1, r) \<Rightarrow> add_tokens ts hs1 (if r = 0 then n + 1 else n))"

definition parse_csv_cidrs :: "string \<Rightarrow> home_cidr list \<Rightarrow> home_cidr list \<times> int" where
  "parse_csv_cidrs csv hs = add_tokens (strtok [CHR '','', CHR '' '', CHR 0x09] (cstr_copy 512 csv)) hs 0"

definition init_home_nets ::
  "env \<Rightarrow> ifaddr list option \<Rightarrow> string \<Rightarrow> home_cidr list \<Rightarrow> home_cidr list" where
  "init_home_nets e ifaddrs iface hs =
     (case e ''AGENT_HOME_NETS'' of
        Some (c # cs) \<Rightarrow> fst (parse_csv_cidrs (c # cs) hs)
      | _ \<Rightarrow> fst (netif_home_cidrs ifaddrs iface analyzer_add_home_cidr hs))"

section \<open>Lemmas\<close>

text \<open>Two addresses agree on their leading \<open>p\<close> bits (in host order).\<close>

definition same_net :: "nat \<Rightarrow> u32 \<Rightarrow> u32 \<Rightarrow> bool" where
  "same_net p x y \<longleftrightarrow> (\<forall>j < p. bit (htonl x) (31 - j) = bit (htonl y) (31 - j))"

lemma same_net_0 [simp]: "same_net 0 x y"
  by (simp add: same_net_def)

lemma bit_prefix_mask:
  "p \<le> 32 \<Longrightarrow> bit (if p = 0 then 0 else push_bit (32 - p) (0xFFFFFFFF :: u32)) i \<longleftrightarrow> 32 - p \<le> i \<and> i < 32"
proof -
  assume p: "p \<le> 32"
  have m: "(0xFFFFFFFF :: u32) = mask 32" by (simp add: mask_eq_exp_minus_1)
  show ?thesis using p unfolding m by (auto simp: bit_push_bit_iff bit_mask_iff)
qed

lemma masked_eq_iff:
  assumes p: "p \<le> 32"
  shows "x AND htonl (if p = 0 then 0 else push_bit (32 - p) 0xFFFFFFFF) =
         y AND htonl (if p = 0 then 0 else push_bit (32 - p) 0xFFFFFFFF) \<longleftrightarrow> same_net p x y"
    (is "x AND htonl ?m = y AND htonl ?m \<longleftrightarrow> _")
proof -
  have "x AND htonl ?m = y AND htonl ?m \<longleftrightarrow> htonl x AND ?m = htonl y AND ?m"
    using htonl_inj [of "x AND htonl ?m" "y AND htonl ?m"] by (simp only: htonl_and htonl_htonl)
  also have "\<dots> \<longleftrightarrow> (\<forall>i. 32 - p \<le> i \<and> i < 32 \<longrightarrow> bit (htonl x) i = bit (htonl y) i)"
    using bit_prefix_mask [OF p] by (simp only: bit_eq_iff bit_and_iff) auto
  also have "\<dots> \<longleftrightarrow> same_net p x y"
  proof
    assume *: "\<forall>i. 32 - p \<le> i \<and> i < 32 \<longrightarrow> bit (htonl x) i = bit (htonl y) i"
    show "same_net p x y"
      unfolding same_net_def
    proof (rule allI, rule impI)
      fix j assume "j < p"
      with p have "32 - p \<le> 31 - j \<and> 31 - j < 32" by arith
      with * show "bit (htonl x) (31 - j) = bit (htonl y) (31 - j)" by blast
    qed
  next
    assume *: "same_net p x y"
    show "\<forall>i. 32 - p \<le> i \<and> i < 32 \<longrightarrow> bit (htonl x) i = bit (htonl y) i"
    proof (rule allI, rule impI)
      fix i assume "32 - p \<le> i \<and> i < 32"
      then have "31 - i < p" "31 - (31 - i) = i" using p by arith+
      with * show "bit (htonl x) i = bit (htonl y) i" unfolding same_net_def by metis
    qed
  qed
  finally show ?thesis .
qed

lemma is_home_ip_iff: "is_home_ip hs src \<longleftrightarrow> (\<exists>h \<in> set hs. src AND mask_be h = addr_be h)"
  by (induction hs) auto

lemma add_home_cidr_result:
  assumes "analyzer_add_home_cidr hs cidr = (hs', r)"
  shows "(r = - 1 \<and> hs' = hs) \<or>
    (r = 0 \<and> length hs < MAX_HOME_CIDR \<and> (\<exists>h. hs' = hs @ [h]))"
  using assms
  by (auto simp: analyzer_add_home_cidr_def Let_def split: if_splits prod.splits option.splits)

lemma add_home_cidr_prefix:
  assumes "CHR ''/'' \<notin> set a" "length a < 60" "inet_pton a = Some w" "p \<le> 32"
    and "length hs < MAX_HOME_CIDR"
  obtains h where "analyzer_add_home_cidr hs (a @ CHR ''/'' # dec_digits p) = (hs @ [h], 0)"
    and "\<And>src. src AND mask_be h = addr_be h \<longleftrightarrow> same_net p src w"
proof -
  have "length (dec_digits p) \<le> 3" using assms by (intro length_dec_digits) simp
  then have c: "cstr_copy 64 (a @ CHR ''/'' # dec_digits p) = a @ CHR ''/'' # dec_digits p"
    using assms by simp
  have n: "nat (32 - int p) = 32 - p" by simp
  let ?m = "htonl (if p = 0 then 0 else push_bit (32 - p) 0xFFFFFFFF)"
  let ?h = "\<lparr>addr_be = w AND ?m, mask_be = ?m, cidr_str = cstr_copy 20 (a @ CHR ''/'' # dec_digits p)\<rparr>"
  have "analyzer_add_home_cidr hs (a @ CHR ''/'' # dec_digits p) = (hs @ [?h], 0)"
    using assms n by (simp add: analyzer_add_home_cidr_def Let_def c atoi_dec_digits)
  moreover have "src AND mask_be ?h = addr_be ?h \<longleftrightarrow> same_net p src w" for src
    using masked_eq_iff [OF \<open>p \<le> 32\<close>, of src w] by simp
  ultimately show thesis using that by blast
qed

lemma prefix_loop_spec:
  "\<exists>k \<le> 32. prefix_loop p m = p + int k \<and> (\<forall>j < k. bit m (31 - j))"
proof (induction p m rule: prefix_loop.induct)
  case (1 p m)
  show ?case
  proof (cases "m AND 0x80000000 \<noteq> 0")
    case False
    then show ?thesis by (intro exI [of _ 0]) (simp add: prefix_loop.simps)
  next
    case True
    then have top: "bit m 31" by (simp only: top_bit_set)
    from "1.IH" [OF True] obtain k where k: "k \<le> 32" "prefix_loop (p + 1) (push_bit 1 m) = p + 1 + int k"
      "\<forall>j < k. bit (push_bit 1 m) (31 - j)" by blast
    have sh: "bit (push_bit 1 m) i \<Longrightarrow> 1 \<le> i \<and> bit m (i - 1)" for i
      unfolding bit_push_bit_iff by simp
    have "k \<noteq> 32" using k(3) sh [of 0] by (auto dest: spec [of _ 31])
    moreover have "bit m (31 - j)" if "j < Suc k" for j
    proof (cases j)
      case (Suc i)
      with that k(3) have "bit (push_bit 1 m) (31 - i)" by simp
      with sh [of "31 - i"] Suc show ?thesis by simp
    qed (use top in simp)
    moreover have "prefix_loop p m = p + int (Suc k)"
      using True k(2) by (simp add: prefix_loop.simps [of p m])
    ultimately show ?thesis using k(1) by (intro exI [of _ "Suc k"]) auto
  qed
qed

lemma prefix_from_mask_spec:
  obtains k where "k \<le> 32" "prefix_from_mask m = int k" "\<And>j. j < k \<Longrightarrow> bit m (31 - j)"
  using prefix_loop_spec [of 0 m] by (auto simp: prefix_from_mask_def)

text \<open>An address agrees with its own network on every leading bit of the netmask.\<close>

lemma same_net_masked:
  assumes "\<And>j. j < k \<Longrightarrow> bit (htonl m) (31 - j)" and "src AND m = addr AND m"
  shows "same_net k src (addr AND m)"
proof -
  have "htonl src AND htonl m = htonl addr AND htonl m"
    using assms(2) htonl_and by metis
  then have "bit (htonl src) i = bit (htonl addr) i" if "bit (htonl m) i" for i
    using that by (metis bit_and_iff)
  with assms(1) show ?thesis by (simp add: same_net_def htonl_and bit_and_iff)
qed

lemma home_ip_append [simp]: "is_home_ip (hs @ hs') src \<longleftrightarrow> is_home_ip hs src \<or> is_home_ip hs' src"
  by (auto simp: is_home_ip_iff)

definition monitored :: "string \<Rightarrow> ifaddr \<Rightarrow> bool" where
  "monitored iface ifa \<longleftrightarrow> (\<exists>addr m. ifa_addr ifa = Some (AF_INET, addr) \<and> ifa_netmask ifa = Some m) \<and>
     (ifa_name ifa = iface \<or> ifa_name ifa = ''lo'')"

lemma add_detected:
  assumes "length hs < MAX_HOME_CIDR"
  obtains h where
    "analyzer_add_home_cidr hs (cidr_text (addr AND m) (prefix_from_mask (htonl m))) = (hs @ [h], 0)"
    and "\<And>src. src AND m = addr AND m \<Longrightarrow> src AND mask_be h = addr_be h"
proof -
  obtain k where k: "k \<le> 32" "prefix_from_mask (htonl m) = int k" "\<And>j. j < k \<Longrightarrow> bit (htonl m) (31 - j)"
    by (rule prefix_from_mask_spec) blast
  let ?net = "addr AND m"
  have l: "length (inet_ntop ?net) < 60" using length_inet_ntop [of ?net] by simp
  obtain h where h: "analyzer_add_home_cidr hs (inet_ntop ?net @ CHR ''/'' # dec_digits k) = (hs @ [h], 0)"
    "\<And>src. src AND mask_be h = addr_be h \<longleftrightarrow> same_net k src ?net"
    using add_home_cidr_prefix [OF inet_ntop_no_slash l inet_pton_ntop k(1) assms] by blast
  have "length (dec_digits k) \<le> 3" using k(1) by (intro length_dec_digits) simp
  then have "cidr_text ?net (prefix_from_mask (htonl m)) = inet_ntop ?net @ CHR ''/'' # dec_digits k"
    using length_inet_ntop [of ?net] k(2) by (simp add: cidr_text_def)
  with h same_net_masked [OF k(3)] that show thesis by simp
qed

lemma netif_loop_detects:
  assumes "length hs + length (filter (monitored iface) ifs) \<le> MAX_HOME_CIDR"
  shows "\<exists>hs'. netif_loop iface analyzer_add_home_cidr ifs hs n =
      (hs @ hs', n + int (length (filter (monitored iface) ifs))) \<and>
    (\<forall>ifa \<in> set ifs. \<forall>addr m src. monitored iface ifa \<longrightarrow> ifa_addr ifa = Some (AF_INET, addr) \<longrightarrow>
      ifa_netmask ifa = Some m \<longrightarrow> src AND m = addr AND m \<longrightarrow> is_home_ip hs' src)"
  using assms
proof (induction ifs arbitrary: hs n)
  case (Cons ifa ifs)
  show ?case
  proof (cases "monitored iface ifa")
    case False
    then have "netif_loop iface analyzer_add_home_cidr (ifa # ifs) hs n =
      netif_loop iface analyzer_add_home_cidr ifs hs n"
      by (auto simp: monitored_def split: option.splits)
    with Cons.IH [of hs n] Cons.prems False show ?thesis by auto
  next
    case True
    then obtain addr m where a: "ifa_addr ifa = Some (AF_INET, addr)" "ifa_netmask ifa = Some m"
      "ifa_name ifa = iface \<or> ifa_name ifa = ''lo''" by (auto simp: monitored_def)
    from True Cons.prems have l: "length hs < MAX_HOME_CIDR" by simp
    obtain h where h: "analyzer_add_home_cidr hs (cidr_text (addr AND m) (prefix_from_mask (htonl m))) = (hs @ [h], 0)"
      "\<And>src. src AND m = addr AND m \<Longrightarrow> src AND mask_be h = addr_be h"
      using add_detected [OF l] by blast
    from Cons.IH [of "hs @ [h]" "n + 1"] Cons.prems True obtain hs' where
      r: "netif_loop iface analyzer_add_home_cidr ifs (hs @ [h]) (n + 1) =
        ((hs @ [h]) @ hs', n + 1 + int (length (filter (monitored iface) ifs)))" and
      *: "\<forall>ifa \<in> set ifs. \<forall>addr m src. monitored iface ifa \<longrightarrow> ifa_addr ifa = Some (AF_INET, addr) \<longrightarrow>
      ifa_netmask ifa = Some m \<longrightarrow> src AND m = addr AND m \<longrightarrow> is_home_ip hs' src" by auto
    have "netif_loop iface analyzer_add_home_cidr (ifa # ifs) hs n =
        (hs @ (h # hs'), n + int (length (filter (monitored iface) (ifa # ifs))))"
      using a h(1) r True by auto
    moreover have "is_home_ip (h # hs') src" if "src AND m = addr AND m" for src
      using h(2) [OF that] by simp
    ultimately show ?thesis using * a by (intro exI [of _ "h # hs'"]) auto
  qed
qed simp

section \<open>Properties\<close>

text \<open>
  C25. Adding \<open>a.b.c.d/p\<close> to a list with room succeeds and makes exactly the sources that agree
  with the address on its leading \<open>p\<close> bits (host order) home addresses, beside those that were.
\<close>

theorem home_cidr_matches_prefix:
  assumes "CHR ''/'' \<notin> set a" and "length a < 60" and "inet_pton a = Some w" and "p \<le> 32"
    and "length hs < MAX_HOME_CIDR"
  shows "\<exists>hs'. analyzer_add_home_cidr hs (a @ CHR ''/'' # dec_digits p) = (hs', 0) \<and>
    analyzer_home_count hs' = analyzer_home_count hs + 1 \<and>
    (\<forall>src. is_home_ip hs' src \<longleftrightarrow> is_home_ip hs src \<or> same_net p src w)"
proof -
  obtain h where "analyzer_add_home_cidr hs (a @ CHR ''/'' # dec_digits p) = (hs @ [h], 0)"
    "\<And>src. src AND mask_be h = addr_be h \<longleftrightarrow> same_net p src w"
    using add_home_cidr_prefix [OF assms] by blast
  then show ?thesis by (simp add: analyzer_home_count_def)
qed

theorem home_cidr_matches_prefix_witness:
  "\<exists>hs'. analyzer_add_home_cidr [] ''10.0.0.0/8'' = (hs', 0) \<and> is_home_ip hs' (raw32 10 9 9 9) \<and>
    \<not> is_home_ip hs' (raw32 11 9 9 9)"
proof -
  let ?w = "raw32 10 0 0 0"
  have t: "''10.0.0.0/8'' = ''10.0.0.0'' @ CHR ''/'' # dec_digits 8"
    by (simp add: dec_digits.simps) code_simp
  have "inet_ntop ?w = ''10.0.0.0''" by code_simp
  then have w: "inet_pton ''10.0.0.0'' = Some ?w" using inet_pton_ntop [of ?w] by simp
  from home_cidr_matches_prefix [OF _ _ w, of 8 "[]"] obtain hs' where
    hs': "analyzer_add_home_cidr [] ''10.0.0.0/8'' = (hs', 0)" "\<And>src. is_home_ip hs' src \<longleftrightarrow> same_net 8 src ?w"
    unfolding t by (auto simp: MAX_HOME_CIDR_def)
  have "same_net 8 (raw32 10 9 9 9) ?w" "\<not> same_net 8 (raw32 11 9 9 9) ?w"
    by code_simp+
  with hs' show ?thesis by blast
qed

text \<open>
  When \<open>AGENT_HOME_NETS\<close> is not set and the monitored interface and the loopback have at most
  as many IPv4 addresses as there are free entries, start-up makes every source inside the subnet
  of any of those addresses a home address, whatever the netmask: the prefix is counted from the
  mask, printed, parsed back and compared to the same effect.
\<close>

theorem detected_networks_are_home:
  assumes "e ''AGENT_HOME_NETS'' = None"
    and "length hs + length (filter (monitored iface) ifs) \<le> MAX_HOME_CIDR"
    and "ifa \<in> set ifs" and "monitored iface ifa"
    and "ifa_addr ifa = Some (AF_INET, addr)" and "ifa_netmask ifa = Some m"
    and "src AND m = addr AND m"
  shows "is_home_ip (init_home_nets e (Some ifs) iface hs) src"
  using netif_loop_detects [OF assms(2), of 0] assms(1,3-)
  by (auto simp: init_home_nets_def netif_home_cidrs_def)

theorem detected_networks_are_home_witness:
  "is_home_ip (init_home_nets (\<lambda>_. None)
     (Some [\<lparr>ifa_name = ''eth0'', ifa_addr = Some (AF_INET, raw32 192 168 1 5),
            ifa_netmask = Some (raw32 255 255 255 0)\<rparr>]) ''eth0'' []) (raw32 192 168 1 77)"
proof -
  have "raw32 192 168 1 77 AND raw32 255 255 255 0 = raw32 192 168 1 5 AND raw32 255 255 255 0"
    by code_simp
  then show ?thesis
    by (intro detected_networks_are_home [where m = "raw32 255 255 255 0" and addr = "raw32 192 168 1 5"])
      (auto simp: MAX_HOME_CIDR_def monitored_def)
qed

text \<open>
  A suffix that is not a number is read by \<open>atoi\<close> as prefix 0: adding \<open>a.b.c.d/<junk>\<close> (also
  \<open>a.b.c.d/\<close>, with nothing after the slash) succeeds and makes every IPv4 source a home address,
  after which the analyzer ignores all of them.
\<close>

theorem home_cidr_junk_prefix:
  assumes "inet_pton a = Some w" and "CHR ''/'' \<notin> set a" and "length a + length junk < 63"
    and "snd (strtol junk) = False" and "length hs < MAX_HOME_CIDR"
  shows "\<exists>hs'. analyzer_add_home_cidr hs (a @ CHR ''/'' # junk) = (hs', 0) \<and> (\<forall>src. is_home_ip hs' src)"
proof -
  have "atoi junk = 0" using assms(4) by (auto simp: atoi_def strtol_def to_int32_def Let_def split: if_splits)
  then show ?thesis
    using assms by (auto simp: analyzer_add_home_cidr_def Let_def)
qed

theorem home_cidr_junk_prefix_witness:
  "\<exists>hs'. analyzer_add_home_cidr [] ''10.0.0.0/x'' = (hs', 0) \<and> (\<forall>src. is_home_ip hs' src)"
proof -
  let ?w = "raw32 10 0 0 0"
  have "inet_ntop ?w = ''10.0.0.0''" by code_simp
  then have w: "inet_pton ''10.0.0.0'' = Some ?w" using inet_pton_ntop [of ?w] by simp
  have "snd (strtol ''x'') = False" by code_simp
  from home_cidr_junk_prefix [OF w _ _ this, of "[]"] show ?thesis by (simp add: MAX_HOME_CIDR_def)
qed

end
