(* ===== verification/Nta_Detect.thy ===== *)
theory Nta_Detect
  imports Nta_Killchain Nta_Homenet
begin

text \<open>
  The detectors of \<open>src/agent/analysis/analyzer.c\<close>. Each takes the suspect record and returns it
  updated with the attack it found, \<open>None\<close> for the null pointer. Those that read the packet live in
  the option monad of bounds-checked reads.
\<close>

section \<open>Constants\<close>

definition SCAN_THRESHOLD :: nat where "SCAN_THRESHOLD = 15"
definition ICMP_THRESHOLD :: int where "ICMP_THRESHOLD = 20"
definition SYN_FLOOD_THRESHOLD :: int where "SYN_FLOOD_THRESHOLD = 100"
definition STEALTH_THRESHOLD :: int where "STEALTH_THRESHOLD = 3"
definition BRUTE_THRESHOLD :: int where "BRUTE_THRESHOLD = 30"
definition BRUTE_WINDOW_SEC :: int where "BRUTE_WINDOW_SEC = 60"
definition DNS_SUBDOMAIN_LEN :: nat where "DNS_SUBDOMAIN_LEN = 50"
definition DNS_ENTROPY_THRESH :: double where "DNS_ENTROPY_THRESH = 7 / 2"
definition DNS_SUSPICIOUS_MAX :: int where "DNS_SUSPICIOUS_MAX = 10"
definition AMPLIFICATION_RATIO :: u64 where "AMPLIFICATION_RATIO = 10"
definition MAX_ARP_ENTRIES :: nat where "MAX_ARP_ENTRIES = 256"

definition PORT_SSH :: u16 where "PORT_SSH = 22"
definition PORT_FTP :: u16 where "PORT_FTP = 21"
definition PORT_RDP :: u16 where "PORT_RDP = 3389"

definition TH_FIN :: u8 where "TH_FIN = 0x01"
definition TH_SYN :: u8 where "TH_SYN = 0x02"
definition TH_PUSH :: u8 where "TH_PUSH = 0x08"
definition TH_ACK :: u8 where "TH_ACK = 0x10"
definition TH_URG :: u8 where "TH_URG = 0x20"

section \<open>DNS names\<close>

definition byte_freq :: "bytes \<Rightarrow> nat \<Rightarrow> int" where
  "byte_freq data i = int (length (filter (\<lambda>b. unat b = i) data))"

fun entropy_loop :: "bytes \<Rightarrow> int \<Rightarrow> nat list \<Rightarrow> double \<Rightarrow> double" where
  "entropy_loop data len [] entropy = entropy"
| "entropy_loop data len (i # is) entropy =
     (if byte_freq data i = 0 then entropy_loop data len is entropy
      else let p = ddiv (double_of_int (byte_freq data i)) (double_of_int len)
           in entropy_loop data len is (dsub entropy (dmul p (dlog2 p))))"

definition calculate_entropy :: "bytes \<Rightarrow> double" where
  "calculate_entropy data =
     (if length data = 0 then 0 else entropy_loop data (int (length data)) [0..<256] 0)"

text \<open>The inner loop: copy up to \<open>n\<close> bytes while there is room for them and the final NUL.\<close>

fun copy_label :: "nat \<Rightarrow> bytes \<Rightarrow> nat \<Rightarrow> nat \<Rightarrow> bytes \<Rightarrow> (nat \<times> bytes) option" where
  "copy_label out_size p n ptr out =
     (case n of
        0 \<Rightarrow> Some (ptr, out)
      | Suc m \<Rightarrow>
          if length out < out_size - 1
          then do { b \<leftarrow> byte_at p ptr; copy_label out_size p m (ptr + 1) (out @ [b]) }
          else Some (ptr, out))"

declare copy_label.simps [simp del]

text \<open>
  The outer loop over the labels; \<open>ptr\<close> and \<open>end\<close> are offsets into the payload, the characters
  written so far are \<open>out\<close>. A malformed name gives the empty result (the code returns 0).
\<close>

lemma copy_label_ptr: "copy_label k p n ptr out = Some (ptr', out') \<Longrightarrow> ptr \<le> ptr' \<and> ptr' \<le> ptr + n"
proof (induction n arbitrary: ptr out)
  case 0
  then show ?case by (simp add: copy_label.simps)
next
  case (Suc n)
  then show ?case
    by (subst (asm) copy_label.simps) (fastforce split: if_splits simp: bind_eq_Some_conv)
qed

function dns_labels :: "nat \<Rightarrow> bytes \<Rightarrow> nat \<Rightarrow> nat \<Rightarrow> bytes \<Rightarrow> bytes option" where
  "dns_labels out_size p ptr end out =
     (if \<not> ptr < end then Some out
      else do {
        l \<leftarrow> byte_at p ptr;
        if l = 0 then Some out
        else let label_len = unat l; ptr1 = ptr + 1
             in if label_len > 63 \<or> ptr1 + label_len > end then Some []
                else let out1 = (if length out > 0 \<and> length out < out_size - 1 then out @ [0x2E] else out)
                     in do { (ptr2, out2) \<leftarrow> copy_label out_size p label_len ptr1 out1;
                             dns_labels out_size p ptr2 end out2 } })"
  by pat_completeness auto
termination
  by (relation "measure (\<lambda>(k, p, ptr, end, out). end - ptr)") (auto dest: copy_label_ptr)

declare dns_labels.simps [simp del]

definition extract_dns_name :: "bytes \<Rightarrow> nat \<Rightarrow> nat \<Rightarrow> bytes option" where
  "extract_dns_name dns_payload dns_len out_size =
     (if dns_len < 13 then Some [] else dns_labels out_size dns_payload 12 dns_len [])"

section \<open>Detectors\<close>

definition detect_syn_flood :: "suspect \<Rightarrow> u8 \<Rightarrow> suspect \<times> string option" where
  "detect_syn_flood s tcp_flags =
     (if \<not> (tcp_flags AND TH_SYN \<noteq> 0 \<and> \<not> tcp_flags AND TH_ACK \<noteq> 0) then (s, None)
      else let s1 = s\<lparr>syn_count := syn_count s + 1\<rparr>;
               threshold =
                 (if sample_count (baseline s1) \<ge> EWMA_CALIBRATION \<and> ewma_var_pps (baseline s1) > 0
                  then let t = adaptive_threshold (baseline s1) 2 in if t < 10 then 10 else t
                  else SYN_FLOOD_THRESHOLD)
           in (s1, if syn_count s1 > threshold then Some ''SYN_FLOOD'' else None))"

definition detect_stealth_scan :: "suspect \<Rightarrow> u8 \<Rightarrow> suspect \<times> string option" where
  "detect_stealth_scan s tcp_flags =
     (let s1 = (if tcp_flags = 0 then s\<lparr>null_scan_count := null_scan_count s + 1\<rparr> else s)
      in if tcp_flags = 0 \<and> null_scan_count s1 \<ge> STEALTH_THRESHOLD then (s1, Some ''NULL_SCAN'')
         else
           let xmas = tcp_flags AND (TH_FIN OR TH_PUSH OR TH_URG) = (TH_FIN OR TH_PUSH OR TH_URG);
               s2 = (if xmas then s1\<lparr>xmas_scan_count := xmas_scan_count s1 + 1\<rparr> else s1)
           in if xmas \<and> xmas_scan_count s2 \<ge> STEALTH_THRESHOLD then (s2, Some ''XMAS_SCAN'')
              else
                let synfin = tcp_flags AND (TH_SYN OR TH_FIN) = (TH_SYN OR TH_FIN);
                    s3 = (if synfin then s2\<lparr>synfin_scan_count := synfin_scan_count s2 + 1\<rparr> else s2)
                in if synfin \<and> synfin_scan_count s3 \<ge> STEALTH_THRESHOLD then (s3, Some ''SYNFIN_SCAN'')
                   else (s3, None))"

definition detect_brute_force :: "suspect \<Rightarrow> u8 \<Rightarrow> u16 \<Rightarrow> time_t \<Rightarrow> suspect \<times> string option" where
  "detect_brute_force s tcp_flags dst_port now =
     (if \<not> tcp_flags AND TH_SYN \<noteq> 0 \<or> tcp_flags AND TH_ACK \<noteq> 0 then (s, None)
      else if dst_port \<noteq> PORT_SSH \<and> dst_port \<noteq> PORT_FTP \<and> dst_port \<noteq> PORT_RDP then (s, None)
      else let s1 = (if difftime now (brute_window_start s) > of_int BRUTE_WINDOW_SEC
                     then s\<lparr>brute_count := 0, brute_window_start := now\<rparr> else s);
               s2 = s1\<lparr>brute_count := brute_count s1 + 1\<rparr>
           in (s2, if brute_count s2 \<ge> BRUTE_THRESHOLD then Some ''BRUTE_FORCE'' else None))"

text \<open>The three indicators of \<open>detect_dns_tunnel\<close> on the extracted name.\<close>

definition dns_suspicious :: "suspect \<Rightarrow> bytes \<Rightarrow> bool" where
  "dns_suspicious s domain =
     (let first_label_len = length (takeWhile (\<lambda>b. b \<noteq> 0x2E) domain);
          suspicious = (first_label_len > DNS_SUBDOMAIN_LEN \<or> calculate_entropy domain > DNS_ENTROPY_THRESH)
      in suspicious \<or>
         (sample_count (baseline s) \<ge> EWMA_CALIBRATION \<and>
          is_anomaly (double_of_int (dns_query_count s)) (ewma_dns (baseline s)) (ewma_var_dns (baseline s))))"

definition detect_dns_tunnel :: "suspect \<Rightarrow> bytes \<Rightarrow> nat \<Rightarrow> (suspect \<times> string option) option" where
  "detect_dns_tunnel s dns_payload dns_len = do {
     domain \<leftarrow> extract_dns_name dns_payload dns_len 256;
     if length domain = 0 then Some (s, None)
     else
       let s1 = s\<lparr>dns_query_count := dns_query_count s + 1\<rparr>
       in Some
         (if dns_suspicious s1 domain
          then let s2 = s1\<lparr>dns_suspicious_count := dns_suspicious_count s1 + 1\<rparr>
               in (s2, if dns_suspicious_count s2 \<ge> DNS_SUSPICIOUS_MAX then Some ''DNS_TUNNEL'' else None)
          else (s1, None)) }"

definition detect_amplification :: "suspect \<Rightarrow> int \<Rightarrow> bool \<Rightarrow> suspect \<times> string option" where
  "detect_amplification s nbytes is_response =
     (let s1 = (if is_response then s\<lparr>dns_resp_bytes := dns_resp_bytes s + word_of_int nbytes\<rparr>
                else s\<lparr>dns_req_bytes := dns_req_bytes s + word_of_int nbytes\<rparr>)
      in if dns_req_bytes s1 < 100 then (s1, None)
         else (s1, if dns_resp_bytes s1 > dns_req_bytes s1 * AMPLIFICATION_RATIO
                   then Some ''AMPLIFICATION'' else None))"

definition detect_port_scan :: "suspect \<Rightarrow> u16 \<Rightarrow> suspect \<times> string option" where
  "detect_port_scan s dst_port =
     (if list_ex (\<lambda>p. p = dst_port) (ports s) then (s, None)
      else let s1 = (if length (ports s) < SCAN_THRESHOLD then s\<lparr>ports := ports s @ [dst_port]\<rparr> else s)
           in (s1, if length (ports s1) \<ge> SCAN_THRESHOLD then Some ''PORT_SCAN'' else None))"

definition detect_icmp_flood :: "suspect \<Rightarrow> suspect \<times> string option" where
  "detect_icmp_flood s =
     (let s1 = s\<lparr>icmp_count := icmp_count s + 1\<rparr>;
          threshold =
            (if sample_count (baseline s1) \<ge> EWMA_CALIBRATION \<and> ewma_var_pps (baseline s1) > 0
             then let t = adaptive_threshold (baseline s1) (3 / 2) in if t < 5 then 5 else t
             else ICMP_THRESHOLD)
      in (s1, if icmp_count s1 > threshold then Some ''ICMP_FLOOD'' else None))"

section \<open>ARP\<close>

record arp_entry =
  arp_mac :: bytes
  arp_ip :: u32

definition bytes_at :: "bytes \<Rightarrow> nat \<Rightarrow> nat \<Rightarrow> bytes option" where
  "bytes_at p i n = (if i + n \<le> length p then Some (take n (drop i p)) else None)"

definition raw32_at :: "bytes \<Rightarrow> nat \<Rightarrow> u32 option" where
  "raw32_at p i = do { a \<leftarrow> byte_at p i; b \<leftarrow> byte_at p (i + 1); c \<leftarrow> byte_at p (i + 2); d \<leftarrow> byte_at p (i + 3);
     Some (raw32 a b c d) }"

fun arp_lookup :: "arp_entry list \<Rightarrow> bytes \<Rightarrow> u32 option" where
  "arp_lookup [] mac = None"
| "arp_lookup (e # es) mac = (if arp_mac e = mac then Some (arp_ip e) else arp_lookup es mac)"

definition arp_update :: "arp_entry list \<Rightarrow> bytes \<Rightarrow> u32 \<Rightarrow> arp_entry list \<times> bool" where
  "arp_update table mac sender_ip =
     (case arp_lookup table mac of
        Some known \<Rightarrow> (table, known \<noteq> sender_ip)
      | None \<Rightarrow>
          if length table < MAX_ARP_ENTRIES
          then (table @ [\<lparr>arp_mac = mac, arp_ip = sender_ip\<rparr>], False)
          else (table, False))"

text \<open>
  The result is the table and, for a spoof, the claimed address; the caller publishes the event
  (with the fixed stage, score and technique of this detector).
\<close>

definition detect_arp_spoof :: "arp_entry list \<Rightarrow> bytes \<Rightarrow> int \<Rightarrow> (arp_entry list \<times> u32 option) option" where
  "detect_arp_spoof table packet len =
     (if len < 42 then Some (table, None)
      else do {
        operation \<leftarrow> be16_at packet 20;
        if operation \<noteq> 2 then Some (table, None)
        else do {
          sender_mac \<leftarrow> bytes_at packet 22 6;
          sender_ip \<leftarrow> raw32_at packet 28;
          Some (case arp_update table sender_mac sender_ip of
                  (table1, spoof) \<Rightarrow> (table1, if spoof then Some sender_ip else None)) } })"

section \<open>What each detector touches\<close>

lemma detect_syn_flood_frame [simp]:
  "ip (fst (detect_syn_flood s f)) = ip s" "last_seen (fst (detect_syn_flood s f)) = last_seen s"
  "ports (fst (detect_syn_flood s f)) = ports s" "icmp_count (fst (detect_syn_flood s f)) = icmp_count s"
  "null_scan_count (fst (detect_syn_flood s f)) = null_scan_count s"
  "xmas_scan_count (fst (detect_syn_flood s f)) = xmas_scan_count s"
  "synfin_scan_count (fst (detect_syn_flood s f)) = synfin_scan_count s"
  "brute_count (fst (detect_syn_flood s f)) = brute_count s"
  "brute_window_start (fst (detect_syn_flood s f)) = brute_window_start s"
  "dns_query_count (fst (detect_syn_flood s f)) = dns_query_count s"
  "dns_suspicious_count (fst (detect_syn_flood s f)) = dns_suspicious_count s"
  "dns_req_bytes (fst (detect_syn_flood s f)) = dns_req_bytes s"
  "dns_resp_bytes (fst (detect_syn_flood s f)) = dns_resp_bytes s"
  "baseline (fst (detect_syn_flood s f)) = baseline s" "kc_stage (fst (detect_syn_flood s f)) = kc_stage s"
  "kc_stage_entered (fst (detect_syn_flood s f)) = kc_stage_entered s"
  "kc_first_seen (fst (detect_syn_flood s f)) = kc_first_seen s"
  "kc_stages_hit (fst (detect_syn_flood s f)) = kc_stages_hit s"
  "kc_score (fst (detect_syn_flood s f)) = kc_score s" "kc_mitre (fst (detect_syn_flood s f)) = kc_mitre s"
  by (simp_all add: detect_syn_flood_def Let_def)

lemma detect_syn_flood_count:
    "syn_count s \<le> syn_count (fst (detect_syn_flood s f))" "syn_count (fst (detect_syn_flood s f)) \<le> syn_count s + 1"
  by (simp_all add: detect_syn_flood_def Let_def)

lemma detect_stealth_scan_frame [simp]:
  "ip (fst (detect_stealth_scan s f)) = ip s" "last_seen (fst (detect_stealth_scan s f)) = last_seen s"
  "ports (fst (detect_stealth_scan s f)) = ports s" "icmp_count (fst (detect_stealth_scan s f)) = icmp_count s"
  "syn_count (fst (detect_stealth_scan s f)) = syn_count s"
  "brute_count (fst (detect_stealth_scan s f)) = brute_count s"
  "brute_window_start (fst (detect_stealth_scan s f)) = brute_window_start s"
  "dns_query_count (fst (detect_stealth_scan s f)) = dns_query_count s"
  "dns_suspicious_count (fst (detect_stealth_scan s f)) = dns_suspicious_count s"
  "dns_req_bytes (fst (detect_stealth_scan s f)) = dns_req_bytes s"
  "dns_resp_bytes (fst (detect_stealth_scan s f)) = dns_resp_bytes s"
  "baseline (fst (detect_stealth_scan s f)) = baseline s"
  "kc_stage (fst (detect_stealth_scan s f)) = kc_stage s"
  "kc_stage_entered (fst (detect_stealth_scan s f)) = kc_stage_entered s"
  "kc_first_seen (fst (detect_stealth_scan s f)) = kc_first_seen s"
  "kc_stages_hit (fst (detect_stealth_scan s f)) = kc_stages_hit s"
  "kc_score (fst (detect_stealth_scan s f)) = kc_score s"
  "kc_mitre (fst (detect_stealth_scan s f)) = kc_mitre s"
  by (simp_all add: detect_stealth_scan_def Let_def)

lemma detect_stealth_scan_count:
    "null_scan_count s \<le> null_scan_count (fst (detect_stealth_scan s f))" "null_scan_count (fst (detect_stealth_scan s f)) \<le> null_scan_count s + 1"
    "xmas_scan_count s \<le> xmas_scan_count (fst (detect_stealth_scan s f))" "xmas_scan_count (fst (detect_stealth_scan s f)) \<le> xmas_scan_count s + 1"
    "synfin_scan_count s \<le> synfin_scan_count (fst (detect_stealth_scan s f))" "synfin_scan_count (fst (detect_stealth_scan s f)) \<le> synfin_scan_count s + 1"
  by (simp_all add: detect_stealth_scan_def Let_def)

lemma detect_brute_force_frame [simp]:
  "ip (fst (detect_brute_force s f p now)) = ip s"
  "last_seen (fst (detect_brute_force s f p now)) = last_seen s"
  "ports (fst (detect_brute_force s f p now)) = ports s"
  "icmp_count (fst (detect_brute_force s f p now)) = icmp_count s"
  "syn_count (fst (detect_brute_force s f p now)) = syn_count s"
  "null_scan_count (fst (detect_brute_force s f p now)) = null_scan_count s"
  "xmas_scan_count (fst (detect_brute_force s f p now)) = xmas_scan_count s"
  "synfin_scan_count (fst (detect_brute_force s f p now)) = synfin_scan_count s"
  "dns_query_count (fst (detect_brute_force s f p now)) = dns_query_count s"
  "dns_suspicious_count (fst (detect_brute_force s f p now)) = dns_suspicious_count s"
  "dns_req_bytes (fst (detect_brute_force s f p now)) = dns_req_bytes s"
  "dns_resp_bytes (fst (detect_brute_force s f p now)) = dns_resp_bytes s"
  "baseline (fst (detect_brute_force s f p now)) = baseline s"
  "kc_stage (fst (detect_brute_force s f p now)) = kc_stage s"
  "kc_stage_entered (fst (detect_brute_force s f p now)) = kc_stage_entered s"
  "kc_first_seen (fst (detect_brute_force s f p now)) = kc_first_seen s"
  "kc_stages_hit (fst (detect_brute_force s f p now)) = kc_stages_hit s"
  "kc_score (fst (detect_brute_force s f p now)) = kc_score s"
  "kc_mitre (fst (detect_brute_force s f p now)) = kc_mitre s"
  by (simp_all add: detect_brute_force_def Let_def)

lemma detect_amplification_frame [simp]:
  "ip (fst (detect_amplification s n r)) = ip s" "last_seen (fst (detect_amplification s n r)) = last_seen s"
  "ports (fst (detect_amplification s n r)) = ports s"
  "icmp_count (fst (detect_amplification s n r)) = icmp_count s"
  "syn_count (fst (detect_amplification s n r)) = syn_count s"
  "null_scan_count (fst (detect_amplification s n r)) = null_scan_count s"
  "xmas_scan_count (fst (detect_amplification s n r)) = xmas_scan_count s"
  "synfin_scan_count (fst (detect_amplification s n r)) = synfin_scan_count s"
  "brute_count (fst (detect_amplification s n r)) = brute_count s"
  "brute_window_start (fst (detect_amplification s n r)) = brute_window_start s"
  "dns_query_count (fst (detect_amplification s n r)) = dns_query_count s"
  "dns_suspicious_count (fst (detect_amplification s n r)) = dns_suspicious_count s"
  "baseline (fst (detect_amplification s n r)) = baseline s"
  "kc_stage (fst (detect_amplification s n r)) = kc_stage s"
  "kc_stage_entered (fst (detect_amplification s n r)) = kc_stage_entered s"
  "kc_first_seen (fst (detect_amplification s n r)) = kc_first_seen s"
  "kc_stages_hit (fst (detect_amplification s n r)) = kc_stages_hit s"
  "kc_score (fst (detect_amplification s n r)) = kc_score s"
  "kc_mitre (fst (detect_amplification s n r)) = kc_mitre s"
  by (simp_all add: detect_amplification_def Let_def)

lemma detect_port_scan_frame [simp]:
  "ip (fst (detect_port_scan s p)) = ip s" "last_seen (fst (detect_port_scan s p)) = last_seen s"
  "icmp_count (fst (detect_port_scan s p)) = icmp_count s"
  "syn_count (fst (detect_port_scan s p)) = syn_count s"
  "null_scan_count (fst (detect_port_scan s p)) = null_scan_count s"
  "xmas_scan_count (fst (detect_port_scan s p)) = xmas_scan_count s"
  "synfin_scan_count (fst (detect_port_scan s p)) = synfin_scan_count s"
  "brute_count (fst (detect_port_scan s p)) = brute_count s"
  "brute_window_start (fst (detect_port_scan s p)) = brute_window_start s"
  "dns_query_count (fst (detect_port_scan s p)) = dns_query_count s"
  "dns_suspicious_count (fst (detect_port_scan s p)) = dns_suspicious_count s"
  "dns_req_bytes (fst (detect_port_scan s p)) = dns_req_bytes s"
  "dns_resp_bytes (fst (detect_port_scan s p)) = dns_resp_bytes s"
  "baseline (fst (detect_port_scan s p)) = baseline s" "kc_stage (fst (detect_port_scan s p)) = kc_stage s"
  "kc_stage_entered (fst (detect_port_scan s p)) = kc_stage_entered s"
  "kc_first_seen (fst (detect_port_scan s p)) = kc_first_seen s"
  "kc_stages_hit (fst (detect_port_scan s p)) = kc_stages_hit s"
  "kc_score (fst (detect_port_scan s p)) = kc_score s" "kc_mitre (fst (detect_port_scan s p)) = kc_mitre s"
  by (simp_all add: detect_port_scan_def Let_def)

lemma detect_icmp_flood_frame [simp]:
  "ip (fst (detect_icmp_flood s)) = ip s" "last_seen (fst (detect_icmp_flood s)) = last_seen s"
  "ports (fst (detect_icmp_flood s)) = ports s" "syn_count (fst (detect_icmp_flood s)) = syn_count s"
  "null_scan_count (fst (detect_icmp_flood s)) = null_scan_count s"
  "xmas_scan_count (fst (detect_icmp_flood s)) = xmas_scan_count s"
  "synfin_scan_count (fst (detect_icmp_flood s)) = synfin_scan_count s"
  "brute_count (fst (detect_icmp_flood s)) = brute_count s"
  "brute_window_start (fst (detect_icmp_flood s)) = brute_window_start s"
  "dns_query_count (fst (detect_icmp_flood s)) = dns_query_count s"
  "dns_suspicious_count (fst (detect_icmp_flood s)) = dns_suspicious_count s"
  "dns_req_bytes (fst (detect_icmp_flood s)) = dns_req_bytes s"
  "dns_resp_bytes (fst (detect_icmp_flood s)) = dns_resp_bytes s"
  "baseline (fst (detect_icmp_flood s)) = baseline s" "kc_stage (fst (detect_icmp_flood s)) = kc_stage s"
  "kc_stage_entered (fst (detect_icmp_flood s)) = kc_stage_entered s"
  "kc_first_seen (fst (detect_icmp_flood s)) = kc_first_seen s"
  "kc_stages_hit (fst (detect_icmp_flood s)) = kc_stages_hit s"
  "kc_score (fst (detect_icmp_flood s)) = kc_score s" "kc_mitre (fst (detect_icmp_flood s)) = kc_mitre s"
  by (simp_all add: detect_icmp_flood_def Let_def)

lemma detect_icmp_flood_count:
    "icmp_count s \<le> icmp_count (fst (detect_icmp_flood s))" "icmp_count (fst (detect_icmp_flood s)) \<le> icmp_count s + 1"
  by (simp_all add: detect_icmp_flood_def Let_def)

lemma detect_dns_tunnel_cases:
  assumes "detect_dns_tunnel s pl n = Some (s', a)"
  shows "(s' = s \<and> a = None) \<or> (s' = s\<lparr>dns_query_count := dns_query_count s + 1\<rparr> \<and> a = None) \<or>
    (s' = s\<lparr>dns_query_count := dns_query_count s + 1, dns_suspicious_count := dns_suspicious_count s + 1\<rparr> \<and>
     (a = None \<or> a = Some ''DNS_TUNNEL''))"
proof -
  from assms obtain domain where "extract_dns_name pl n 256 = Some domain"
    by (cases "extract_dns_name pl n 256") (simp_all add: detect_dns_tunnel_def)
  with assms show ?thesis
    by (simp add: detect_dns_tunnel_def Let_def split: if_split_asm)
qed

lemma detect_dns_tunnel_frame:
  assumes "detect_dns_tunnel s pl n = Some (s', a)"
  shows "ip s' = ip s" "last_seen s' = last_seen s" "ports s' = ports s" "icmp_count s' = icmp_count s"
    "syn_count s' = syn_count s" "null_scan_count s' = null_scan_count s"
    "xmas_scan_count s' = xmas_scan_count s" "synfin_scan_count s' = synfin_scan_count s"
    "brute_count s' = brute_count s" "brute_window_start s' = brute_window_start s"
    "dns_req_bytes s' = dns_req_bytes s" "dns_resp_bytes s' = dns_resp_bytes s"
    "baseline s' = baseline s" "kc_stage s' = kc_stage s" "kc_stage_entered s' = kc_stage_entered s"
    "kc_first_seen s' = kc_first_seen s" "kc_stages_hit s' = kc_stages_hit s" "kc_score s' = kc_score s"
    "kc_mitre s' = kc_mitre s"
  using detect_dns_tunnel_cases [OF assms] by auto

lemma detect_dns_tunnel_count:
  assumes "detect_dns_tunnel s pl n = Some (s', a)"
  shows "dns_query_count s \<le> dns_query_count s'" "dns_query_count s' \<le> dns_query_count s + 1"
    "dns_suspicious_count s \<le> dns_suspicious_count s'" "dns_suspicious_count s' \<le> dns_suspicious_count s + 1"
  using detect_dns_tunnel_cases [OF assms] by auto

lemma detect_brute_force_count:
  "0 \<le> brute_count s \<Longrightarrow> 0 \<le> brute_count (fst (detect_brute_force s f p now))"
  "0 \<le> brute_count s \<Longrightarrow> brute_count (fst (detect_brute_force s f p now)) \<le> brute_count s + 1"
  by (simp_all add: detect_brute_force_def Let_def)

lemma detect_port_scan_ports:
  assumes "distinct (ports s)" "length (ports s) \<le> SCAN_THRESHOLD"
  shows "distinct (ports (fst (detect_port_scan s p)))" "length (ports (fst (detect_port_scan s p))) \<le> SCAN_THRESHOLD"
  using assms by (auto simp: detect_port_scan_def Let_def list_ex_iff)

section \<open>What each detector reports\<close>

lemma detect_reports:
  "snd (detect_syn_flood s f) \<in> {None, Some ''SYN_FLOOD''}"
  "snd (detect_stealth_scan s f) \<in> {None, Some ''NULL_SCAN'', Some ''XMAS_SCAN'', Some ''SYNFIN_SCAN''}"
  "snd (detect_brute_force s f p now) \<in> {None, Some ''BRUTE_FORCE''}"
  "snd (detect_amplification s n r) \<in> {None, Some ''AMPLIFICATION''}"
  "snd (detect_port_scan s p) \<in> {None, Some ''PORT_SCAN''}"
  "snd (detect_icmp_flood s) \<in> {None, Some ''ICMP_FLOOD''}"
  by (simp_all add: detect_syn_flood_def detect_stealth_scan_def detect_brute_force_def
      detect_amplification_def detect_port_scan_def detect_icmp_flood_def Let_def)

lemma detect_dns_tunnel_reports:
  "detect_dns_tunnel s pl n = Some (s', a) \<Longrightarrow> a \<in> {None, Some ''DNS_TUNNEL''}"
  using detect_dns_tunnel_cases [of s pl n s' a] by auto

section \<open>Memory safety of the parsers\<close>

lemma copy_label_safe:
  "ptr + n \<le> length p \<Longrightarrow> length out \<le> out_size - 1 \<Longrightarrow>
   \<exists>ptr' out'. copy_label out_size p n ptr out = Some (ptr', out') \<and> ptr \<le> ptr' \<and> ptr' \<le> ptr + n \<and>
     length out' \<le> out_size - 1"
proof (induction n arbitrary: ptr out)
  case 0
  then show ?case by (simp add: copy_label.simps)
next
  case (Suc n)
  show ?case
  proof (cases "length out < out_size - 1")
    case True
    with Suc.IH [of "ptr + 1" "out @ [p ! ptr]"] Suc.prems show ?thesis
      by (subst copy_label.simps) auto
  next
    case False
    with Suc.prems show ?thesis by (subst copy_label.simps) simp
  qed
qed

lemma dns_labels_safe:
  "end \<le> length p \<Longrightarrow> length out \<le> out_size - 1 \<Longrightarrow>
   \<exists>r. dns_labels out_size p ptr end out = Some r \<and> length r \<le> out_size - 1"
proof (induction out_size p ptr "end" out rule: dns_labels.induct)
  case (1 out_size p ptr "end" out)
  show ?case
  proof (cases "ptr < end")
    case False
    with "1.prems" show ?thesis by (subst dns_labels.simps) simp
  next
    case True
    then have b: "byte_at p ptr = Some (p ! ptr)" using "1.prems" by simp
    let ?l = "p ! ptr" and ?n = "unat (p ! ptr)"
    let ?out = "if length out > 0 \<and> length out < out_size - 1 then out @ [0x2E] else out"
    have step: "dns_labels out_size p ptr end out = (if ?l = 0 then Some out
        else if ?n > 63 \<or> ptr + 1 + ?n > end then Some []
        else do { (ptr2, out2) \<leftarrow> copy_label out_size p ?n (ptr + 1) ?out; dns_labels out_size p ptr2 end out2 })"
      using True b by (subst dns_labels.simps) (simp add: Let_def)
    consider "?l = 0" | "?l \<noteq> 0" "?n > 63 \<or> ptr + 1 + ?n > end" | "?l \<noteq> 0" "\<not> (?n > 63 \<or> ptr + 1 + ?n > end)"
      by blast
    then show ?thesis
    proof cases
      case 3
      have "ptr + 1 + ?n \<le> length p" "length ?out \<le> out_size - 1" using 3 "1.prems" by auto
      from copy_label_safe [OF this] obtain ptr2 out2 where c: "copy_label out_size p ?n (ptr + 1) ?out = Some (ptr2, out2)"
        "length out2 \<le> out_size - 1" by blast
      have "\<exists>r. dns_labels out_size p ptr2 end out2 = Some r \<and> length r \<le> out_size - 1"
        using 3 c by (intro "1.IH" [OF _ b 3(1) refl refl _ refl c(1) refl]) (use True "1.prems" in simp_all)
      with 3 c step show ?thesis by simp
    qed (use step "1.prems" in simp_all)
  qed
qed

lemma extract_dns_name_safe:
  "dns_len \<le> length pl \<Longrightarrow> \<exists>r. extract_dns_name pl dns_len out_size = Some r \<and> length r \<le> out_size - 1"
  using dns_labels_safe [of dns_len pl "[]" out_size 12] by (simp add: extract_dns_name_def)

lemma detect_dns_tunnel_safe: "dns_len \<le> length pl \<Longrightarrow> \<exists>r. detect_dns_tunnel s pl dns_len = Some r"
  using extract_dns_name_safe [of dns_len pl 256] by (auto simp: detect_dns_tunnel_def Let_def)

lemma bytes_at_in [simp]: "i + n \<le> length p \<Longrightarrow> bytes_at p i n = Some (take n (drop i p))"
  by (simp add: bytes_at_def)

lemma raw32_at_in [simp]:
  "i + 3 < length p \<Longrightarrow> raw32_at p i = Some (raw32 (p ! i) (p ! (i + 1)) (p ! (i + 2)) (p ! (i + 3)))"
  by (simp add: raw32_at_def)

lemma detect_arp_spoof_safe:
  "len \<le> int (length packet) \<Longrightarrow> \<exists>r. detect_arp_spoof table packet len = Some r"
  by (cases "len < 42") (simp_all add: detect_arp_spoof_def)

lemma arp_update_size:
  "length table \<le> MAX_ARP_ENTRIES \<Longrightarrow> length (fst (arp_update table mac sip)) \<le> MAX_ARP_ENTRIES"
  by (simp add: arp_update_def split: option.split)

lemma detect_arp_spoof_cases:
  assumes "detect_arp_spoof table packet len = Some (table', r)"
  shows "(table' = table \<and> r = None) \<or>
    (\<exists>mac sip. 42 \<le> len \<and> raw32_at packet 28 = Some sip \<and> table' = fst (arp_update table mac sip) \<and>
      r = (if snd (arp_update table mac sip) then Some sip else None))"
proof (cases "len < 42")
  case False
  with assms obtain op where op: "be16_at packet 20 = Some op"
    by (cases "be16_at packet 20") (simp_all add: detect_arp_spoof_def)
  show ?thesis
  proof (cases "op = 2")
    case True
    with False assms op obtain mac where mac: "bytes_at packet 22 6 = Some mac"
      by (cases "bytes_at packet 22 6") (simp_all add: detect_arp_spoof_def)
    with True False assms op obtain sip where sip: "raw32_at packet 28 = Some sip"
      by (cases "raw32_at packet 28") (simp_all add: detect_arp_spoof_def)
    have "table' = fst (arp_update table mac sip) \<and> r = (if snd (arp_update table mac sip) then Some sip else None)"
      using True False assms op mac sip by (simp add: detect_arp_spoof_def split_beta)
    with False sip show ?thesis by auto
  qed (use False assms op in \<open>simp add: detect_arp_spoof_def\<close>)
qed (use assms in \<open>simp add: detect_arp_spoof_def\<close>)

lemma detect_arp_spoof_size:
  "detect_arp_spoof table packet len = Some (table', r) \<Longrightarrow> length table \<le> MAX_ARP_ENTRIES \<Longrightarrow>
   length table' \<le> MAX_ARP_ENTRIES"
  using detect_arp_spoof_cases [of table packet len table' r] arp_update_size by auto

section \<open>Port scans\<close>

text \<open>The distinct elements in the order of their first occurrence.\<close>

definition uniq :: "'a list \<Rightarrow> 'a list" where
  "uniq xs = rev (remdups (rev xs))"

lemma uniq_snoc: "uniq (xs @ [x]) = (if x \<in> set xs then uniq xs else uniq xs @ [x])"
  by (simp add: uniq_def)

lemma set_uniq [simp]: "set (uniq xs) = set xs"
  by (simp add: uniq_def)

lemma length_uniq: "length (uniq xs) = card (set xs)"
  by (simp add: uniq_def length_remdups_card_conv)

definition scan_run :: "suspect \<Rightarrow> u16 list \<Rightarrow> suspect" where
  "scan_run s ps = foldl (\<lambda>s p. fst (detect_port_scan s p)) s ps"

lemma scan_run_snoc [simp]: "scan_run s (ps @ [p]) = fst (detect_port_scan (scan_run s ps) p)"
  by (simp add: scan_run_def)

lemma scan_run_ports: "ports s = [] \<Longrightarrow> ports (scan_run s ps) = take SCAN_THRESHOLD (uniq ps)"
proof (induction ps rule: rev_induct)
  case Nil
  then show ?case by (simp add: scan_run_def uniq_def)
next
  case (snoc p ps)
  then have IH: "ports (scan_run s ps) = take SCAN_THRESHOLD (uniq ps)" by simp
  show ?case
  proof (cases "length (uniq ps) < SCAN_THRESHOLD")
    case True
    with IH show ?thesis by (simp add: detect_port_scan_def Let_def list_ex_iff uniq_snoc)
  next
    case False
    with IH show ?thesis by (simp add: detect_port_scan_def Let_def list_ex_iff uniq_snoc)
  qed
qed

text \<open>
  C18. Among the packets of a source that reach the port scan detector, one is reported exactly
  when the source has contacted at least 15 distinct ports (this one included) and this port is not
  one of the first 15 of them before it.
\<close>

theorem port_scan_reports:
  assumes "ports s = []"
  shows "snd (detect_port_scan (scan_run s ps) p) = Some ''PORT_SCAN'' \<longleftrightarrow>
    p \<notin> set (take 15 (uniq ps)) \<and> 15 \<le> card (set (ps @ [p]))"
proof (cases "card (set ps) < 15")
  case True
  then have "take 15 (uniq ps) = uniq ps" by (simp add: length_uniq)
  with True scan_run_ports [OF assms, of ps] show ?thesis
    by (auto simp: detect_port_scan_def Let_def list_ex_iff SCAN_THRESHOLD_def length_uniq)
next
  case False
  then have "15 \<le> card (set (ps @ [p]))" using card_insert_le [of "set ps" p] by simp
  with False scan_run_ports [OF assms, of ps] show ?thesis
    by (auto simp: detect_port_scan_def Let_def list_ex_iff SCAN_THRESHOLD_def length_uniq)
qed

theorem port_scan_reports_witness:
  "snd (detect_port_scan (scan_run zero_suspect [1, 2, 3, 4, 5, 6, 7, 8, 9, 10, 11, 12, 13, 14]) 15) = Some ''PORT_SCAN''"
proof -
  have "ports zero_suspect = []" by (simp add: zero_suspect_def)
  from port_scan_reports [OF this, of "[1, 2, 3, 4, 5, 6, 7, 8, 9, 10, 11, 12, 13, 14]" 15]
  show ?thesis by (simp add: uniq_def)
qed

section \<open>Brute force\<close>

definition auth_syn :: "u8 \<times> u16 \<times> time_t \<Rightarrow> bool" where
  "auth_syn x \<longleftrightarrow> (case x of (f, p, t) \<Rightarrow> f AND TH_SYN \<noteq> 0 \<and> f AND TH_ACK = 0 \<and> p \<in> {PORT_SSH, PORT_FTP, PORT_RDP})"

definition brute_run :: "suspect \<Rightarrow> (u8 \<times> u16 \<times> time_t) list \<Rightarrow> suspect" where
  "brute_run s xs = foldl (\<lambda>s (f, p, t). fst (detect_brute_force s f p t)) s xs"

definition hit_times :: "(u8 \<times> u16 \<times> time_t) list \<Rightarrow> time_t list" where
  "hit_times xs = List.map (\<lambda>(f, p, t). t) (filter auth_syn xs)"

lemma brute_run_snoc [simp]: "brute_run s (xs @ [(f, p, t)]) = fst (detect_brute_force (brute_run s xs) f p t)"
  by (simp add: brute_run_def)

lemma detect_brute_force_alt:
  "detect_brute_force s f p t =
     (if auth_syn (f, p, t)
      then let s1 = (if t - brute_window_start s > 60 then s\<lparr>brute_count := 0, brute_window_start := t\<rparr> else s);
               s2 = s1\<lparr>brute_count := brute_count s1 + 1\<rparr>
           in (s2, if brute_count s2 \<ge> 30 then Some ''BRUTE_FORCE'' else None)
      else (s, None))"
  by (simp add: detect_brute_force_def auth_syn_def BRUTE_WINDOW_SEC_def BRUTE_THRESHOLD_def Let_def)

lemma brute_run_count:
  assumes "brute_count s = 0" "\<forall>(f, p, t) \<in> set xs. brute_window_start s \<le> t"
    "sorted (List.map (\<lambda>(f, p, t). t) xs)"
  shows "brute_count (brute_run s xs) \<le>
      int (length (filter (\<lambda>t. brute_window_start (brute_run s xs) \<le> t) (hit_times xs))) \<and>
    (\<forall>t'. (\<forall>(f, p, t) \<in> set xs. t \<le> t') \<longrightarrow> brute_window_start s \<le> t' \<longrightarrow> brute_window_start (brute_run s xs) \<le> t')"
  using assms(2,3)
proof (induction xs rule: rev_induct)
  case Nil
  then show ?case using assms(1) by (simp add: brute_run_def hit_times_def)
next
  case (snoc x xs)
  obtain f p t where x: "x = (f, p, t)" by (cases x)
  let ?r = "brute_run s xs"
  have "sorted (List.map (\<lambda>(f, p, t). t) xs)" "\<forall>(f, p, t) \<in> set xs. brute_window_start s \<le> t"
    "\<forall>(f', p', t') \<in> set xs. t' \<le> t" "brute_window_start s \<le> t"
    using snoc.prems by (auto simp: x sorted_append)
  with snoc.IH have IH: "brute_count ?r \<le> int (length (filter (\<lambda>t. brute_window_start ?r \<le> t) (hit_times xs)))"
    "brute_window_start ?r \<le> t"
    "\<forall>t'. (\<forall>(f, p, t) \<in> set xs. t \<le> t') \<longrightarrow> brute_window_start s \<le> t' \<longrightarrow> brute_window_start ?r \<le> t'"
    by blast+
  show ?case
  proof (cases "auth_syn (f, p, t)")
    case False
    then have "brute_run s (xs @ [x]) = ?r" "hit_times (xs @ [x]) = hit_times xs"
      by (simp_all add: x detect_brute_force_alt hit_times_def)
    with IH show ?thesis by (auto simp: x)
  next
    case True
    then have h: "hit_times (xs @ [x]) = hit_times xs @ [t]" by (simp add: x hit_times_def)
    show ?thesis
    proof (cases "t - brute_window_start ?r > 60")
      case True
      with \<open>auth_syn (f, p, t)\<close> have "brute_count (brute_run s (xs @ [x])) = 1"
        "brute_window_start (brute_run s (xs @ [x])) = t" by (simp_all add: x detect_brute_force_alt Let_def)
      with h show ?thesis by (auto simp: x)
    next
      case False
      with \<open>auth_syn (f, p, t)\<close> have "brute_count (brute_run s (xs @ [x])) = brute_count ?r + 1"
        "brute_window_start (brute_run s (xs @ [x])) = brute_window_start ?r" by (simp_all add: x detect_brute_force_alt Let_def)
      with h IH show ?thesis by (auto simp: x)
    qed
  qed
qed

text \<open>
  C19. With packet times that do not decrease, a brute force report means that the source really
  sent at least 30 initial SYNs to the SSH, FTP or RDP port within the last 60 seconds.
\<close>

theorem brute_force_sound:
  assumes "brute_count s = 0" and "sorted (brute_window_start s # List.map (\<lambda>(f, p, t). t) (xs @ [(f, p, now)]))"
    and "snd (detect_brute_force (brute_run s xs) f p now) = Some ''BRUTE_FORCE''"
  shows "30 \<le> length (filter (\<lambda>t. now - 60 \<le> t \<and> t \<le> now) (hit_times (xs @ [(f, p, now)])))"
proof -
  let ?ys = "xs @ [(f, p, now)]"
  have ys: "\<forall>(f, p, t) \<in> set ?ys. brute_window_start s \<le> t" "sorted (List.map (\<lambda>(f, p, t). t) ?ys)"
    and le: "\<forall>(f, p, t) \<in> set ?ys. t \<le> now"
    using assms(2) by (auto simp: sorted_append)
  note c = brute_run_count [OF assms(1) ys, THEN conjunct1]
  have a: "auth_syn (f, p, now)" using assms(3) by (simp add: detect_brute_force_alt split: if_splits)
  with assms(3) have n: "30 \<le> brute_count (brute_run s ?ys)"
    by (simp add: detect_brute_force_alt Let_def split: if_splits)
  have w: "now - 60 \<le> brute_window_start (brute_run s ?ys)"
    using a by (simp add: detect_brute_force_alt Let_def)
  have A: "filter (\<lambda>t. brute_window_start (brute_run s ?ys) \<le> t) (hit_times ?ys) =
      filter (\<lambda>t. brute_window_start (brute_run s ?ys) \<le> t \<and> t \<le> now) (hit_times ?ys)"
    using le by (intro filter_cong refl) (auto simp: hit_times_def split: if_splits)
  have B: "length (filter (\<lambda>t. brute_window_start (brute_run s ?ys) \<le> t \<and> t \<le> now) (hit_times ?ys)) \<le>
      length (filter (\<lambda>t. now - 60 \<le> t \<and> t \<le> now) (hit_times ?ys))"
    using w by (intro length_filter_mono) auto
  from c n B show ?thesis unfolding A by linarith
qed

theorem brute_force_sound_witness:
  "let xs = replicate 29 (TH_SYN, PORT_SSH, 10)
   in snd (detect_brute_force (brute_run zero_suspect xs) TH_SYN PORT_SSH 20) = Some ''BRUTE_FORCE'' \<and>
      30 \<le> length (filter (\<lambda>t. 20 - 60 \<le> t \<and> t \<le> 20) (hit_times (xs @ [(TH_SYN, PORT_SSH, 20)])))"
proof -
  let ?xs = "replicate 29 (TH_SYN, PORT_SSH, 10::time_t)"
  have c: "brute_count (brute_run zero_suspect (replicate n (TH_SYN, PORT_SSH, 10))) = int n \<and>
      brute_window_start (brute_run zero_suspect (replicate n (TH_SYN, PORT_SSH, 10))) = 0" for n
  proof (induction n)
    case (Suc n)
    have "replicate (Suc n) (TH_SYN, PORT_SSH, 10::time_t) = replicate n (TH_SYN, PORT_SSH, 10) @ [(TH_SYN, PORT_SSH, 10)]"
      by (simp add: replicate_append_same)
    then show ?case using Suc
      by (simp only: brute_run_snoc detect_brute_force_alt) (simp add: auth_syn_def TH_SYN_def TH_ACK_def)
  qed (simp add: brute_run_def zero_suspect_def)
  have r: "snd (detect_brute_force (brute_run zero_suspect ?xs) TH_SYN PORT_SSH 20) = Some ''BRUTE_FORCE''"
    using c [of 29] by (simp add: detect_brute_force_alt auth_syn_def TH_SYN_def TH_ACK_def)
  have z: "brute_count zero_suspect = 0" by (simp add: zero_suspect_def)
  have so: "sorted (brute_window_start zero_suspect # List.map (\<lambda>(f, p, t). t) (?xs @ [(TH_SYN, PORT_SSH, 20)]))"
    by (simp add: zero_suspect_def sorted_append)
  from brute_force_sound [OF z so r] r show ?thesis unfolding Let_def by simp
qed

section \<open>ARP spoofing\<close>

definition arp_run :: "(bytes \<times> u32) list \<Rightarrow> arp_entry list" where
  "arp_run rs = foldl (\<lambda>t (m, i). fst (arp_update t m i)) [] rs"

lemma arp_run_snoc [simp]: "arp_run (rs @ [(m, i)]) = fst (arp_update (arp_run rs) m i)"
  by (simp add: arp_run_def)

lemma arp_lookup_append:
  "arp_lookup (es @ [e]) m = (case arp_lookup es m of Some x \<Rightarrow> Some x | None \<Rightarrow> if arp_mac e = m then Some (arp_ip e) else None)"
  by (induction es) auto

lemma arp_lookup_None: "arp_lookup es m = None \<longleftrightarrow> m \<notin> arp_mac ` set es"
  by (induction es) auto

lemma map_of_snoc: "map_of (rs @ [(k, v)]) = (case map_of rs k of None \<Rightarrow> (map_of rs)(k \<mapsto> v) | Some w \<Rightarrow> map_of rs)"
  by (induction rs) (auto split: option.split)

lemma arp_run_map:
  "card (fst ` set rs) \<le> MAX_ARP_ENTRIES \<Longrightarrow>
   arp_lookup (arp_run rs) = map_of rs \<and> length (arp_run rs) = card (fst ` set rs)"
proof (induction rs rule: rev_induct)
  case Nil
  then show ?case by (auto simp: arp_run_def)
next
  case (snoc r rs)
  obtain m i where r: "r = (m, i)" by (cases r)
  have "card (fst ` set rs) \<le> card (fst ` set (rs @ [r]))" by (intro card_mono) auto
  with snoc have IH: "arp_lookup (arp_run rs) = map_of rs" "length (arp_run rs) = card (fst ` set rs)" by simp_all
  show ?case
  proof (cases "m \<in> fst ` set rs")
    case True
    then obtain w where w: "map_of rs m = Some w" by (metis map_of_eq_None_iff not_Some_eq)
    with IH have "arp_run (rs @ [r]) = arp_run rs" by (simp add: r arp_update_def)
    moreover have "fst ` set (rs @ [r]) = fst ` set rs" using True by (auto simp: r)
    ultimately show ?thesis using IH w by (simp add: r map_of_snoc del: map_of_append)
  next
    case False
    then have n: "map_of rs m = None" by (simp add: map_of_eq_None_iff)
    have c: "card (fst ` set (rs @ [r])) = Suc (card (fst ` set rs))" using False by (simp add: r)
    with snoc.prems IH have "length (arp_run rs) < MAX_ARP_ENTRIES" by simp
    with IH n have e: "arp_run (rs @ [r]) = arp_run rs @ [\<lparr>arp_mac = m, arp_ip = i\<rparr>]"
      by (simp add: r arp_update_def)
    have "arp_lookup (arp_run (rs @ [r])) k = map_of (rs @ [r]) k" for k
      unfolding e using IH n by (simp add: arp_lookup_append r map_of_snoc del: map_of_append split: option.split)
    with e IH c show ?thesis by auto
  qed
qed

text \<open>
  C20. As long as the replies seen hold at most 256 distinct MAC addresses, the table is the map
  from each MAC to the first address it claimed, and a reply is a spoof exactly when its MAC had
  claimed another address first: a later claim never replaces the first one.
\<close>

theorem arp_spoof_first_claim:
  assumes "card (fst ` set rs) \<le> 256"
  shows "arp_lookup (arp_run rs) = map_of rs \<and>
    (snd (arp_update (arp_run rs) mac addr) \<longleftrightarrow> (\<exists>known. map_of rs mac = Some known \<and> known \<noteq> addr))"
proof -
  have "arp_lookup (arp_run rs) = map_of rs"
    using arp_run_map [of rs] assms by (simp add: MAX_ARP_ENTRIES_def)
  then show ?thesis by (auto simp: arp_update_def split: option.split)
qed

theorem arp_spoof_first_claim_witness:
  "snd (arp_update (arp_run [([1, 2, 3, 4, 5, 6], 7), ([1, 2, 3, 4, 5, 6], 8)]) [1, 2, 3, 4, 5, 6] 8)"
proof -
  have "card (fst ` set [([1, 2, 3, 4, 5, 6] :: bytes, 7 :: u32), ([1, 2, 3, 4, 5, 6], 8)]) \<le> 256" by simp
  from arp_spoof_first_claim [OF this, of "[1, 2, 3, 4, 5, 6]" 8] show ?thesis by simp
qed

section \<open>DNS names on the wire\<close>

definition wire_label :: "bytes \<Rightarrow> bytes" where
  "wire_label l = of_nat (length l) # l"

definition wire_name :: "bytes list \<Rightarrow> bytes" where
  "wire_name ls = concat (List.map wire_label ls)"

definition label_ok :: "bytes \<Rightarrow> bool" where
  "label_ok l \<longleftrightarrow> 1 \<le> length l \<and> length l \<le> 63"

fun dot_join :: "bytes \<Rightarrow> bytes list \<Rightarrow> bytes" where
  "dot_join out [] = out"
| "dot_join out (l # ls) = dot_join ((if out = [] then [] else out @ [0x2E]) @ l) ls"

lemma length_dot_join: "length out \<le> length (dot_join out ls)"
proof (induction out ls rule: dot_join.induct)
  case (2 out l ls)
  have "length out \<le> length ((if out = [] then [] else out @ [0x2E]) @ l)" by simp
  also have "\<dots> \<le> length (dot_join out (l # ls))" using 2 by simp
  finally show ?case .
qed simp

lemma copy_label_all:
  "ptr + n \<le> length p \<Longrightarrow> length out + n \<le> out_size - 1 \<Longrightarrow>
   copy_label out_size p n ptr out = Some (ptr + n, out @ take n (drop ptr p))"
proof (induction n arbitrary: ptr out)
  case 0
  then show ?case by (simp add: copy_label.simps)
next
  case (Suc n)
  from Suc.IH [of "ptr + 1" "out @ [p ! ptr]"] Suc.prems show ?case
    by (subst copy_label.simps) (simp flip: Cons_nth_drop_Suc)
qed

lemma dns_labels_wire:
  assumes "list_all label_ok ls" "drop ptr p = wire_name ls @ rest" "ptr + length (wire_name ls) \<le> end"
    and "end \<le> length p" "ptr \<le> length p" "length (dot_join out ls) \<le> out_size - 1"
  shows "dns_labels out_size p ptr end out =
    dns_labels out_size p (ptr + length (wire_name ls)) end (dot_join out ls)"
  using assms
proof (induction ls arbitrary: ptr out)
  case Nil
  then show ?case by (simp add: wire_name_def)
next
  case (Cons l ls)
  let ?n = "length l"
  have lo: "1 \<le> ?n" "?n \<le> 63" using Cons.prems(1) by (simp_all add: label_ok_def)
  have un: "unat (of_nat ?n :: u8) = ?n" using lo by (simp add: unat_of_nat take_bit_nat_eq_self)
  have d: "drop ptr p = of_nat ?n # l @ wire_name ls @ rest"
    using Cons.prems(2) by (simp add: wire_name_def wire_label_def)
  then have pl: "ptr < length p" by (metis drop_eq_Nil leI list.distinct(1))
  from d have b: "p ! ptr = of_nat ?n" by (metis hd_drop_conv_nth list.sel(1) pl)
  have nz: "(of_nat ?n :: u8) \<noteq> 0" using un lo by (metis not_one_le_zero unat_0)
  have d1: "drop (ptr + 1) p = l @ wire_name ls @ rest"
    using d by (metis Suc_eq_plus1 drop_Suc list.sel(3) tl_drop)
  have d2: "drop (ptr + 1 + ?n) p = wire_name ls @ rest"
    using d1 by (metis add.commute append_eq_conv_conj drop_drop)
  have len: "ptr + length (wire_name (l # ls)) = ptr + 1 + ?n + length (wire_name ls)"
    by (simp add: wire_name_def wire_label_def)
  have e: "ptr + 1 + ?n \<le> end" using Cons.prems(3) len by linarith
  let ?o = "if out = [] then [] else out @ [0x2E]"
  have fit: "length ?o + ?n \<le> out_size - 1"
    using Cons.prems(6) length_dot_join [of "?o @ l" ls] by simp
  have dot: "(if length out > 0 \<and> length out < out_size - 1 then out @ [0x2E] else out) = ?o"
    using fit lo by (cases "out = []") auto
  have c: "copy_label out_size p ?n (ptr + 1) ?o = Some (ptr + 1 + ?n, ?o @ l)"
    using copy_label_all [of "ptr + 1" ?n p ?o out_size] e Cons.prems(4) fit d1 by simp
  have "dns_labels out_size p ptr end out = dns_labels out_size p (ptr + 1 + ?n) end (?o @ l)"
    using e lo pl b un nz c unfolding dns_labels.simps [of out_size p ptr "end" out] dot Let_def
    by simp
  also have "\<dots> = dns_labels out_size p (ptr + 1 + ?n + length (wire_name ls)) end (dot_join (?o @ l) ls)"
    using Cons.prems e d2 len by (intro Cons.IH) simp_all
  finally show ?case using len by (simp add: add.assoc)
qed

text \<open>
  C22. \<open>extract_dns_name\<close> decodes the wire format: for labels of 1 to 63 bytes whose dotted form fits
  the 255 characters of the buffer, the encoding of the name gives that dotted form back.
\<close>

theorem dns_name_roundtrip:
  assumes "length hdr = 12" and "list_all label_ok ls" and "length (dot_join [] ls) \<le> 255"
  shows "extract_dns_name (hdr @ wire_name ls @ 0 # rest) (length (hdr @ wire_name ls @ 0 # rest)) 256 =
    Some (dot_join [] ls)"
proof -
  let ?p = "hdr @ wire_name ls @ 0 # rest"
  have "dns_labels 256 ?p 12 (length ?p) [] =
      dns_labels 256 ?p (12 + length (wire_name ls)) (length ?p) (dot_join [] ls)"
    using assms by (intro dns_labels_wire [where rest = "0 # rest"]) simp_all
  also have "\<dots> = Some (dot_join [] ls)"
    using assms(1) by (subst dns_labels.simps) (simp add: nth_append)
  finally show ?thesis using assms(1) by (simp add: extract_dns_name_def)
qed

theorem dns_name_roundtrip_witness:
  "extract_dns_name (replicate 12 0 @ [3, 0x77, 0x77, 0x77, 2, 0x69, 0x6F, 0]) 20 256 =
    Some [0x77, 0x77, 0x77, 0x2E, 0x69, 0x6F]"
  using dns_name_roundtrip [of "replicate 12 0" "[[0x77, 0x77, 0x77], [0x69, 0x6F]]" "[]"]
  by (simp add: label_ok_def wire_name_def wire_label_def)

text \<open>
  When the labels of a name fill the buffer exactly, the next label is parsed from its own text:
  if that starts with a byte above 63 (any letter), the whole name counts as malformed, the DNS
  tunnel detector sees no name and changes nothing.
\<close>

theorem dns_long_name_ignored:
  assumes "length hdr = 12" and "list_all label_ok ls" and "length (dot_join [] ls) = 255"
    and "label_ok (c # cs)" and "63 < unat c"
  shows "detect_dns_tunnel s (hdr @ wire_name ls @ wire_label (c # cs) @ 0 # rest)
      (length (hdr @ wire_name ls @ wire_label (c # cs) @ 0 # rest)) = Some (s, None)"
proof -
  let ?p = "hdr @ wire_name ls @ wire_label (c # cs) @ 0 # rest"
  let ?ptr = "12 + length (wire_name ls)"
  let ?n = "length (c # cs)"
  have w: "wire_label (c # cs) = of_nat ?n # c # cs" by (simp add: wire_label_def)
  have lo: "1 \<le> ?n" "?n \<le> 63" using assms(4) by (simp_all only: label_ok_def)
  have un: "unat (of_nat ?n :: u8) = ?n" using lo by (simp add: unat_of_nat take_bit_nat_eq_self del: of_nat_Suc)
  have nz: "(of_nat ?n :: u8) \<noteq> 0" using un lo by (metis not_one_le_zero unat_0)
  have b: "?p ! ?ptr = of_nat ?n" "?p ! (?ptr + 1) = c" using assms(1) by (simp_all add: nth_append w del: of_nat_Suc)
  have "dns_labels 256 ?p 12 (length ?p) [] = dns_labels 256 ?p ?ptr (length ?p) (dot_join [] ls)"
    using assms by (intro dns_labels_wire [where rest = "wire_label (c # cs) @ 0 # rest"]) simp_all
  also have "\<dots> = dns_labels 256 ?p (?ptr + 1) (length ?p) (dot_join [] ls)"
    using assms(1,3) b un nz lo w
    by (subst dns_labels.simps, subst copy_label.simps) (simp del: of_nat_Suc split: nat.split)
  also have "\<dots> = Some []"
    using assms(1,5) b by (subst dns_labels.simps) (auto simp: w Let_def simp del: of_nat_Suc)
  finally show ?thesis using assms(1) by (simp add: detect_dns_tunnel_def extract_dns_name_def)
qed

theorem dns_long_name_ignored_witness:
  "let ls = replicate 4 (replicate 63 0x61);
       p = replicate 12 0 @ wire_name ls @ wire_label [0x63, 0x6F, 0x6D] @ [0]
   in length (dot_join [] ls) = 255 \<and> detect_dns_tunnel zero_suspect p (length p) = Some (zero_suspect, None)"
proof -
  let ?ls = "replicate 4 (replicate 63 (0x61 :: u8))"
  have ls: "?ls = [replicate 63 0x61, replicate 63 0x61, replicate 63 0x61, replicate 63 0x61]"
    by (simp add: numeral_eq_Suc)
  have l: "length (dot_join [] ?ls) = 255" unfolding ls by simp
  have ok: "list_all label_ok ?ls" unfolding ls by (simp add: label_ok_def)
  have c: "label_ok [0x63, 0x6F, 0x6D]" "63 < unat (0x63 :: u8)" by (simp_all add: label_ok_def)
  show ?thesis
    unfolding Let_def using l dns_long_name_ignored [OF _ ok l c, of "replicate 12 0" zero_suspect "[]"]
    by simp
qed

end
