(* ===== verification/Nta_Json.thy ===== *)
theory Nta_Json
  imports Nta_Double
begin

text \<open>
  JSON values as the code sees them through cJSON (vendored under \<open>src/third_party/cjson\<close>): the
  tree, the constructors and accessors the agent and the server call. A number is the \<open>double\<close> in
  \<open>valuedouble\<close>; \<open>valueint\<close> is its saturating conversion. \<open>cJSON_GetObjectItem\<close> compares names
  without regard to case and returns the first match. The text form (\<open>cJSON_Parse\<close>,
  \<open>cJSON_PrintUnformatted\<close>) is an argument of the definitions that use it.
\<close>

datatype json =
    JNull
  | JBool bool
  | JNumber double
  | JString string
  | JArray "json list"
  | JObject "(string \<times> json) list"

definition tolower_char :: "char \<Rightarrow> char" where
  "tolower_char c = (if 65 \<le> (of_char c :: nat) \<and> (of_char c :: nat) \<le> 90 then char_of (of_char c + 32 :: nat) else c)"

definition strcasecmp_eq :: "string \<Rightarrow> string \<Rightarrow> bool" where
  "strcasecmp_eq a b \<longleftrightarrow> List.map tolower_char a = List.map tolower_char b"

lemma strcasecmp_eq_refl [simp]: "strcasecmp_eq a a"
  by (simp add: strcasecmp_eq_def)

fun find_item :: "string \<Rightarrow> (string \<times> json) list \<Rightarrow> json option" where
  "find_item name [] = None"
| "find_item name ((k, v) # kvs) = (if strcasecmp_eq name k then Some v else find_item name kvs)"

fun get_object_item :: "json \<Rightarrow> string \<Rightarrow> json option" where
  "get_object_item (JObject kvs) name = find_item name kvs"
| "get_object_item j name = None"

fun is_string :: "json \<Rightarrow> bool" where
  "is_string (JString s) = True"
| "is_string j = False"

fun is_number :: "json \<Rightarrow> bool" where
  "is_number (JNumber d) = True"
| "is_number j = False"

fun is_array :: "json \<Rightarrow> bool" where
  "is_array (JArray l) = True"
| "is_array j = False"

fun is_object :: "json \<Rightarrow> bool" where
  "is_object (JObject l) = True"
| "is_object j = False"

text \<open>\<open>cJSON_IsTrue\<close>.\<close>

fun is_true :: "json \<Rightarrow> bool" where
  "is_true (JBool b) = b"
| "is_true j = False"

fun array_items :: "json \<Rightarrow> json list" where
  "array_items (JArray l) = l"
| "array_items (JObject kvs) = List.map snd kvs"
| "array_items j = []"

text \<open>\<open>valuestring\<close> is null for anything but a string; \<open>valueint\<close> is 0 for anything but a number.\<close>

fun valuestring :: "json \<Rightarrow> string option" where
  "valuestring (JString s) = Some s"
| "valuestring j = None"

fun valuedouble :: "json \<Rightarrow> double" where
  "valuedouble (JNumber d) = d"
| "valuedouble j = 0"

definition saturate_int :: "double \<Rightarrow> int" where
  "saturate_int d = (if d \<ge> 2147483647 then 2147483647
     else if d \<le> - 2147483648 then - 2147483648 else int_of_double d)"

definition valueint :: "json \<Rightarrow> int" where
  "valueint j = saturate_int (valuedouble j)"

lemma int_of_double_of_int [simp]: "int_of_double (of_int n) = n"
  by (simp add: int_of_double_def)

lemma valueint_of_int [simp]:
  "- (2 ^ 31) \<le> n \<Longrightarrow> n < 2 ^ 31 \<Longrightarrow> valueint (JNumber (of_int n)) = n"
  by (auto simp: valueint_def saturate_int_def)

end
