(* ===== verification/Nta_Collector.thy ===== *)
theory Nta_Collector
  imports Nta_Prelude
begin

text \<open>
  The detection collector of the replay mode (\<open>src/agent/analysis/collector.c\<close>): an array of at
  most 1024 detections and the flag \<open>g_replay_mode\<close>. The array is the list of its used entries;
  \<open>collector_reset\<close> zeroes the rest, so a later \<open>strncpy\<close> always leaves a terminated string.
\<close>

record detected_event =
  ev_attack :: string
  ev_src_ip :: string
  ev_timestamp :: time_t

record collector =
  g_replay_mode :: bool
  g_events :: "detected_event list"

definition MAX_DETECTIONS :: nat where "MAX_DETECTIONS = 1024"

definition collector_reset :: "collector \<Rightarrow> collector" where
  "collector_reset c = c\<lparr>g_events := []\<rparr>"

definition detection :: "string \<Rightarrow> string \<Rightarrow> time_t \<Rightarrow> detected_event" where
  "detection attack src_ip ts =
     \<lparr>ev_attack = cstr_copy 32 attack, ev_src_ip = cstr_copy 16 src_ip, ev_timestamp = ts\<rparr>"

definition collector_record :: "collector \<Rightarrow> string \<Rightarrow> string \<Rightarrow> time_t \<Rightarrow> collector" where
  "collector_record c attack_type src_ip ts =
     (if \<not> g_replay_mode c \<or> MAX_DETECTIONS \<le> length (g_events c) then c
      else c\<lparr>g_events := g_events c @ [detection attack_type src_ip ts]\<rparr>)"

definition collector_count :: "collector \<Rightarrow> int" where
  "collector_count c = int (length (g_events c))"

definition collector_get :: "collector \<Rightarrow> int \<Rightarrow> detected_event option" where
  "collector_get c index =
     (if index < 0 \<or> index \<ge> collector_count c then None else Some (g_events c ! nat index))"

definition collector_ok :: "collector \<Rightarrow> bool" where
  "collector_ok c \<longleftrightarrow> length (g_events c) \<le> MAX_DETECTIONS"

lemma collector_record_ok: "collector_ok c \<Longrightarrow> collector_ok (collector_record c a ip ts)"
  by (simp add: collector_ok_def collector_record_def)

lemma collector_record_live [simp]: "\<not> g_replay_mode c \<Longrightarrow> collector_record c a ip ts = c"
  by (simp add: collector_record_def)

lemma collector_record_mode [simp]: "g_replay_mode (collector_record c a ip ts) = g_replay_mode c"
  by (simp add: collector_record_def)

text \<open>A sequence of detections recorded one after the other.\<close>

definition record_all :: "collector \<Rightarrow> (string \<times> string \<times> time_t) list \<Rightarrow> collector" where
  "record_all c ds = foldl (\<lambda>c (a, ip, ts). collector_record c a ip ts) c ds"

lemma record_all_events:
  "g_replay_mode c \<Longrightarrow> collector_ok c \<Longrightarrow>
   g_events (record_all c ds) =
     take MAX_DETECTIONS (g_events c @ List.map (\<lambda>(a, ip, ts). detection a ip ts) ds)"
proof (induction ds arbitrary: c)
  case Nil
  then show ?case by (simp add: record_all_def collector_ok_def)
next
  case (Cons d ds)
  obtain a ip ts where d: "d = (a, ip, ts)" by (cases d)
  let ?c = "collector_record c a ip ts"
  have "g_events (record_all c (d # ds)) = g_events (record_all ?c ds)"
    by (simp add: record_all_def d)
  also have "\<dots> = take MAX_DETECTIONS (g_events ?c @ List.map (\<lambda>(a, ip, ts). detection a ip ts) ds)"
    using Cons by (intro Cons.IH) (simp_all add: collector_record_ok)
  also have "\<dots> = take MAX_DETECTIONS (g_events c @ List.map (\<lambda>(a, ip, ts). detection a ip ts) (d # ds))"
    using Cons.prems by (auto simp: collector_record_def collector_ok_def d take_Cons')
  finally show ?case .
qed

section \<open>Properties\<close>

text \<open>
  In replay mode, after a reset, the collector holds the first 1024 recorded detections in
  order, each with its strings cut to the field sizes: index \<open>i\<close> returns the \<open>i\<close>-th of them, and any
  other index returns null.
\<close>

theorem collector_keeps_first:
  assumes "g_replay_mode c"
  shows "collector_get (record_all (collector_reset c) ds) i =
    (if 0 \<le> i \<and> i < int (min 1024 (length ds))
     then Some (case ds ! nat i of (a, ip, ts) \<Rightarrow> detection a ip ts) else None)"
proof -
  have e: "g_events (record_all (collector_reset c) ds) =
      take MAX_DETECTIONS (List.map (\<lambda>(a, ip, ts). detection a ip ts) ds)"
    using record_all_events [of "collector_reset c" ds] assms
    by (simp add: collector_reset_def collector_ok_def)
  show ?thesis
    by (auto simp: collector_get_def collector_count_def e MAX_DETECTIONS_def nth_take nat_less_iff)
qed

theorem collector_keeps_first_witness:
  "collector_get (record_all (collector_reset \<lparr>g_replay_mode = True, g_events = []\<rparr>)
      [(''PORT_SCAN'', ''10.0.0.1'', 7)]) 0 =
    Some \<lparr>ev_attack = ''PORT_SCAN'', ev_src_ip = ''10.0.0.1'', ev_timestamp = 7\<rparr>"
proof -
  have h: "g_replay_mode \<lparr>g_replay_mode = True, g_events = []\<rparr>" by simp
  show ?thesis
    using collector_keeps_first [OF h, of "[(''PORT_SCAN'', ''10.0.0.1'', 7)]" 0] by (simp add: detection_def)
qed

end
