(* ===== verification/Nta_Publisher.thy ===== *)
theory Nta_Publisher
  imports Nta_Json Nta_Collector
begin

text \<open>
  The AMQP publisher of the agent (\<open>src/agent/output/publisher.c\<close>): the event slots the analyzer
  produces (\<open>publish_packet\<close>), the connection with its retry policy, and the sending of batches
  and metrics. The calls of the AMQP library are not under \<open>src/\<close>: what they return is an argument,
  one \<open>amqp_attempt\<close> per connection attempt and one flag per publish; the time of the monotonic
  clock is an argument too. A message handed to the broker successfully is appended to a log.
\<close>

section \<open>The retry interval\<close>

text \<open>The doubling interval that the publisher and the server's consumer share.\<close>

locale backoff =
  fixes lo hi :: int and nxt :: "int \<Rightarrow> int"
  assumes lo_pos: "0 < lo" and lo_hi: "lo \<le> hi"
    and nxt_double: "0 < b \<Longrightarrow> b \<le> hi \<Longrightarrow> nxt b = min hi (2 * b)"
begin

lemma nxt_iter: "(nxt ^^ n) lo = min hi (lo * 2 ^ n)"
proof (induction n)
  case 0
  then show ?case using lo_hi by simp
next
  case (Suc n)
  have p: "0 < lo * 2 ^ n" using lo_pos by simp
  have "(nxt ^^ Suc n) lo = nxt (min hi (lo * 2 ^ n))" using Suc by simp
  also have "\<dots> = min hi (2 * min hi (lo * 2 ^ n))" using p lo_pos lo_hi by (intro nxt_double) auto
  also have "\<dots> = min hi (lo * 2 ^ Suc n)" using lo_pos lo_hi by (auto simp: min_def)
  finally show ?case .
qed

lemma nxt_range: "lo \<le> b \<Longrightarrow> b \<le> hi \<Longrightarrow> lo \<le> nxt b \<and> nxt b \<le> hi \<and> b \<le> nxt b"
  using lo_pos lo_hi nxt_double [of b] by auto

end

section \<open>Events\<close>

record event_slot =
  evt_src_ip :: string
  evt_port :: int
  evt_proto :: string
  evt_bytes :: int
  evt_is_scan :: int
  evt_attack_type :: string
  evt_kill_chain_stage :: string
  evt_kc_score :: int
  evt_mitre :: string

text \<open>
  \<open>publish_packet\<close>: a null argument has its default, every string is cut to its field, and the
  event is the one handed to \<open>pipeline_push_event\<close>; in replay mode nothing is pushed. The alert
  line it prints is not modelled.
\<close>

definition publish_packet ::
  "bool \<Rightarrow> string option \<Rightarrow> int \<Rightarrow> string option \<Rightarrow> int \<Rightarrow> int \<Rightarrow> string option \<Rightarrow> string option \<Rightarrow> int \<Rightarrow>
   string option \<Rightarrow> event_slot option" where
  "publish_packet replay_mode src_ip port proto nbytes is_scan attack_type kill_chain_stage kc_score mitre_technique =
     (let safe_ip = (case src_ip of Some s \<Rightarrow> s | None \<Rightarrow> ''0.0.0.0'');
          safe_proto = (case proto of Some s \<Rightarrow> s | None \<Rightarrow> ''UNKNOWN'');
          safe_attack = (case attack_type of Some s \<Rightarrow> s | None \<Rightarrow> ''NONE'');
          safe_stage = (case kill_chain_stage of Some s \<Rightarrow> s | None \<Rightarrow> ''IDLE'');
          safe_mitre = (case mitre_technique of Some s \<Rightarrow> s | None \<Rightarrow> '''')
      in if replay_mode then None
         else Some \<lparr>evt_src_ip = cstr_copy 16 safe_ip, evt_port = port, evt_proto = cstr_copy 8 safe_proto,
                    evt_bytes = nbytes, evt_is_scan = is_scan, evt_attack_type = cstr_copy 32 safe_attack,
                    evt_kill_chain_stage = cstr_copy 16 safe_stage, evt_kc_score = kc_score,
                    evt_mitre = cstr_copy 48 safe_mitre\<rparr>)"

section \<open>The connection\<close>

record publisher =
  conn :: bool
  g_connected :: bool
  g_next_retry_ms :: int
  g_backoff_ms :: int
  g_queue_name :: string
  g_metrics_queue :: string
  g_agent_id :: string
  g_host :: string
  g_vhost :: string
  g_token :: string
  g_ca_cert :: "string option"
  g_client_cert :: "string option"
  g_client_key :: "string option"
  g_port :: int
  g_use_tls :: int
  g_use_mtls :: bool
  amqp_log :: "(string \<times> string) list"

text \<open>What the library calls of one attempt return (true: success).\<close>

record amqp_attempt =
  new_connection_ok :: bool
  ssl_socket_ok :: bool
  set_key_ok :: bool
  tcp_socket_ok :: bool
  socket_open_ok :: bool
  login_ok :: bool
  channel_open_ok :: bool
  queue_declare_ok :: bool
  metrics_declare_ok :: bool

definition RECONNECT_MIN_MS :: int where "RECONNECT_MIN_MS = 1000"
definition RECONNECT_MAX_MS :: int where "RECONNECT_MAX_MS = 30000"

definition drop_connection_locked :: "publisher \<Rightarrow> publisher" where
  "drop_connection_locked p = p\<lparr>conn := False, g_connected := False\<rparr>"

definition connect_locked :: "amqp_attempt \<Rightarrow> publisher \<Rightarrow> publisher \<times> int" where
  "connect_locked a p0 =
     (let p = p0\<lparr>conn := new_connection_ok a\<rparr>
      in if \<not> conn p then (p, - 1)
         else if g_use_tls p \<noteq> 0 \<and> \<not> ssl_socket_ok a then (drop_connection_locked p, - 1)
         else if g_use_tls p \<noteq> 0 \<and> g_use_mtls p \<and> \<not> set_key_ok a then (drop_connection_locked p, - 1)
         else if g_use_tls p = 0 \<and> \<not> tcp_socket_ok a then (drop_connection_locked p, - 1)
         else if \<not> socket_open_ok a then (drop_connection_locked p, - 1)
         else if \<not> login_ok a then (drop_connection_locked p, - 1)
         else if \<not> channel_open_ok a then (drop_connection_locked p, - 1)
         else if \<not> queue_declare_ok a then (drop_connection_locked p, - 1)
         else if \<not> metrics_declare_ok a then (drop_connection_locked p, - 1)
         else (p\<lparr>g_connected := True, g_backoff_ms := RECONNECT_MIN_MS\<rparr>, 0))"

definition next_backoff_ms :: "int \<Rightarrow> int" where
  "next_backoff_ms b = (if b * 2 > RECONNECT_MAX_MS then RECONNECT_MAX_MS else b * 2)"

definition ensure_connected_locked :: "int \<Rightarrow> amqp_attempt \<Rightarrow> publisher \<Rightarrow> publisher \<times> int" where
  "ensure_connected_locked now a p =
     (if g_connected p then (p, 0)
      else if now < g_next_retry_ms p then (p, - 1)
      else case connect_locked a p of
             (p1, r) \<Rightarrow>
               if r = 0 then (p1, 0)
               else (p1\<lparr>g_next_retry_ms := now + g_backoff_ms p1, g_backoff_ms := next_backoff_ms (g_backoff_ms p1)\<rparr>, - 1))"

text \<open>\<open>publish_to\<close>; \<open>published\<close> is the result of \<open>amqp_basic_publish\<close>.\<close>

definition publish_to ::
  "int \<Rightarrow> amqp_attempt \<Rightarrow> bool \<Rightarrow> string \<Rightarrow> string \<Rightarrow> publisher \<Rightarrow> publisher \<times> int" where
  "publish_to now a published queue body p =
     (case ensure_connected_locked now a p of
        (p1, r) \<Rightarrow>
          if r = 0 then
            if published then (p1\<lparr>amqp_log := amqp_log p1 @ [(queue, body)]\<rparr>, 0)
            else (drop_connection_locked p1, - 1)
          else (p1, - 1))"

definition initial_publisher :: publisher where
  "initial_publisher = \<lparr>conn = False, g_connected = False, g_next_retry_ms = 0, g_backoff_ms = RECONNECT_MIN_MS,
     g_queue_name = ''traffic_queue'', g_metrics_queue = ''traffic_metrics'', g_agent_id = ''guest'',
     g_host = '''', g_vhost = '''', g_token = '''', g_ca_cert = None, g_client_cert = None, g_client_key = None,
     g_port = 0, g_use_tls = 0, g_use_mtls = False, amqp_log = []\<rparr>"

definition init_queue :: "env \<Rightarrow> int \<Rightarrow> amqp_attempt \<Rightarrow> publisher \<Rightarrow> publisher" where
  "init_queue e now a p =
     (let tls = atoi (env_or e ''AGENT_USE_TLS'' ''0'');
          p1 = p\<lparr>g_host := env_or e ''AGENT_SERVER_HOST'' ''localhost'',
                 g_port := atoi (env_or e ''AGENT_SERVER_PORT'' ''5674''),
                 g_vhost := env_or e ''AGENT_VHOST'' ''/'',
                 g_token := env_or e ''AGENT_TOKEN'' ''guest'',
                 g_use_tls := tls,
                 g_ca_cert := e ''AGENT_CA_CERT'',
                 g_client_cert := e ''AGENT_CLIENT_CERT'',
                 g_client_key := e ''AGENT_CLIENT_KEY'',
                 g_use_mtls := (tls \<noteq> 0 \<and> e ''AGENT_CLIENT_CERT'' \<noteq> None \<and> e ''AGENT_CLIENT_KEY'' \<noteq> None),
                 g_queue_name := cstr_copy 128 (env_or e ''AGENT_QUEUE'' ''traffic_queue''),
                 g_metrics_queue := cstr_copy 128 (env_or e ''AGENT_METRICS_QUEUE'' ''traffic_metrics''),
                 g_agent_id := cstr_copy 128 (env_or e ''AGENT_ID'' ''guest'')\<rparr>
      in fst (ensure_connected_locked now a p1))"

definition close_queue :: "publisher \<Rightarrow> publisher" where
  "close_queue p = drop_connection_locked p"

section \<open>Batches and metrics\<close>

definition event_json :: "event_slot \<Rightarrow> json" where
  "event_json b = JObject
     [(''src_ip'', JString (evt_src_ip b)),
      (''port'', JNumber (of_int (evt_port b))),
      (''proto'', JString (evt_proto b)),
      (''bytes'', JNumber (of_int (evt_bytes b))),
      (''is_scan'', JNumber (of_int (evt_is_scan b))),
      (''attack_type'', JString (evt_attack_type b)),
      (''kill_chain_stage'', JString (evt_kill_chain_stage b)),
      (''kc_score'', JNumber (of_int (evt_kc_score b))),
      (''mitre'', JString (evt_mitre b))]"

definition batch_json :: "event_slot list \<Rightarrow> json" where
  "batch_json batch = JArray (List.map event_json batch)"

text \<open>
  \<open>publisher_send_batch\<close>: the connection is checked (and opened) before the JSON is built, and again
  by \<open>publish_to\<close>; the clock is read at both points. \<open>print\<close> is \<open>cJSON_PrintUnformatted\<close>, \<open>None\<close>
  when it fails.
\<close>

definition publisher_send_batch ::
  "(json \<Rightarrow> string option) \<Rightarrow> int \<Rightarrow> amqp_attempt \<Rightarrow> int \<Rightarrow> amqp_attempt \<Rightarrow> bool \<Rightarrow> event_slot list \<Rightarrow>
   publisher \<Rightarrow> publisher \<times> int" where
  "publisher_send_batch print now1 a1 now2 a2 published batch p =
     (if batch = [] then (p, 0)
      else case ensure_connected_locked now1 a1 p of
             (p1, r) \<Rightarrow>
               if r \<noteq> 0 then (p1, - 1)
               else case print (batch_json batch) of
                      None \<Rightarrow> (p1, - 1)
                    | Some msg \<Rightarrow> publish_to now2 a2 published (g_queue_name p1) msg p1)"

definition publisher_send_metrics ::
  "int \<Rightarrow> amqp_attempt \<Rightarrow> bool \<Rightarrow> string \<Rightarrow> publisher \<Rightarrow> publisher \<times> int" where
  "publisher_send_metrics now a published payload p =
     (if payload = [] then (p, 0)
      else publish_to now a published (g_metrics_queue p) payload p)"

interpretation pub: backoff RECONNECT_MIN_MS RECONNECT_MAX_MS next_backoff_ms
  by unfold_locales (auto simp: RECONNECT_MIN_MS_def RECONNECT_MAX_MS_def next_backoff_ms_def)

section \<open>The connection invariant\<close>

definition pub_ok :: "publisher \<Rightarrow> bool" where
  "pub_ok p \<longleftrightarrow> (g_connected p \<longrightarrow> conn p) \<and> RECONNECT_MIN_MS \<le> g_backoff_ms p \<and> g_backoff_ms p \<le> RECONNECT_MAX_MS"

lemma connect_result:
  assumes "connect_locked a p = (p', r)"
  shows "(r = 0 \<and> p' = p\<lparr>conn := True, g_connected := True, g_backoff_ms := RECONNECT_MIN_MS\<rparr>) \<or>
    (r = - 1 \<and> (p' = p\<lparr>conn := False, g_connected := False\<rparr> \<or> p' = p\<lparr>conn := False\<rparr>))"
  using assms
  by (auto simp: connect_locked_def drop_connection_locked_def Let_def split: if_splits)

lemma ensure_cases:
  obtains
    (up) "g_connected p" "ensure_connected_locked now a p = (p, 0)"
  | (wait) "\<not> g_connected p" "now < g_next_retry_ms p" "ensure_connected_locked now a p = (p, - 1)"
  | (connected) "\<not> g_connected p" "g_next_retry_ms p \<le> now"
      "ensure_connected_locked now a p = (p\<lparr>conn := True, g_connected := True, g_backoff_ms := RECONNECT_MIN_MS\<rparr>, 0)"
      "snd (connect_locked a p) = 0"
  | (failed) "\<not> g_connected p" "g_next_retry_ms p \<le> now"
      "ensure_connected_locked now a p = (p\<lparr>conn := False, g_next_retry_ms := now + g_backoff_ms p,
        g_backoff_ms := next_backoff_ms (g_backoff_ms p)\<rparr>, - 1)"
      "snd (connect_locked a p) \<noteq> 0"
proof -
  obtain p1 r where c: "connect_locked a p = (p1, r)" by (cases "connect_locked a p")
  consider "g_connected p" | "\<not> g_connected p" "now < g_next_retry_ms p"
    | "\<not> g_connected p" "g_next_retry_ms p \<le> now" by linarith
  then show thesis
  proof cases
    case 3
    from connect_result [OF c] show thesis
    proof
      assume "r = 0 \<and> p1 = p\<lparr>conn := True, g_connected := True, g_backoff_ms := RECONNECT_MIN_MS\<rparr>"
      then show thesis using 3 c by (intro connected) (simp_all add: ensure_connected_locked_def)
    next
      assume "r = - 1 \<and> (p1 = p\<lparr>conn := False, g_connected := False\<rparr> \<or> p1 = p\<lparr>conn := False\<rparr>)"
      moreover have "p\<lparr>conn := False, g_connected := False\<rparr> = p\<lparr>conn := False\<rparr>" using 3 by simp
      ultimately show thesis using 3 c by (intro failed) (auto simp: ensure_connected_locked_def)
    qed
  qed (auto simp: ensure_connected_locked_def intro: up wait)
qed

lemma ensure_ok: "pub_ok p \<Longrightarrow> pub_ok (fst (ensure_connected_locked now a p))"
  by (rule ensure_cases [of p now a])
    (auto simp: pub_ok_def RECONNECT_MIN_MS_def RECONNECT_MAX_MS_def next_backoff_ms_def)

lemma ensure_result:
  "snd (ensure_connected_locked now a p) \<in> {0, - 1} \<and>
   (snd (ensure_connected_locked now a p) = 0 \<longleftrightarrow> g_connected (fst (ensure_connected_locked now a p))) \<and>
   amqp_log (fst (ensure_connected_locked now a p)) = amqp_log p"
  by (rule ensure_cases [of p now a]) auto

section \<open>Properties\<close>

text \<open>Polls of the publisher while the broker is unreachable, and how many of them reach for it.\<close>

definition poll :: "publisher \<Rightarrow> int \<times> amqp_attempt \<Rightarrow> publisher" where
  "poll p x = fst (ensure_connected_locked (fst x) (snd x) p)"

fun attempts :: "publisher \<Rightarrow> (int \<times> amqp_attempt) list \<Rightarrow> nat" where
  "attempts p [] = 0"
| "attempts p (x # xs) =
     (if \<not> g_connected p \<and> g_next_retry_ms p \<le> fst x then 1 else 0) + attempts (poll p x) xs"

definition unreachable :: "amqp_attempt \<Rightarrow> bool" where
  "unreachable a \<longleftrightarrow> \<not> socket_open_ok a"

lemma connect_unreachable: "unreachable a \<Longrightarrow> snd (connect_locked a p) \<noteq> 0"
  by (auto simp: unreachable_def connect_locked_def Let_def)

lemma polls_backoff:
  "\<not> g_connected p \<Longrightarrow> \<forall>x \<in> set xs. unreachable (snd x) \<Longrightarrow>
   \<not> g_connected (foldl poll p xs) \<and>
   g_backoff_ms (foldl poll p xs) = (next_backoff_ms ^^ attempts p xs) (g_backoff_ms p)"
proof (induction xs arbitrary: p)
  case (Cons x xs)
  obtain now a where x: "x = (now, a)" by (cases x)
  have u: "snd (connect_locked a p) \<noteq> 0" using Cons.prems(2) by (intro connect_unreachable) (simp add: x)
  show ?case
  proof (rule ensure_cases [of p now a])
    assume "now < g_next_retry_ms p" "ensure_connected_locked now a p = (p, - 1)"
    then show ?thesis using Cons by (simp add: poll_def x)
  next
    assume *: "g_next_retry_ms p \<le> now" "ensure_connected_locked now a p =
      (p\<lparr>conn := False, g_next_retry_ms := now + g_backoff_ms p, g_backoff_ms := next_backoff_ms (g_backoff_ms p)\<rparr>, - 1)"
    let ?p = "p\<lparr>conn := False, g_next_retry_ms := now + g_backoff_ms p, g_backoff_ms := next_backoff_ms (g_backoff_ms p)\<rparr>"
    have "poll p x = ?p" using * by (simp add: poll_def x)
    moreover have "\<not> g_connected ?p" using Cons.prems(1) by simp
    ultimately show ?thesis
      using Cons.IH [of ?p] Cons.prems * by (simp add: x funpow_swap1)
  qed (use Cons.prems u in simp_all)
qed simp

text \<open>
  While the broker's host is unreachable, however often the threads poll, the retry interval
  after \<open>n\<close> real connection attempts is \<open>min (30000, 1000 * 2^n)\<close> milliseconds: it doubles from one
  second and is capped at thirty.
\<close>

theorem reconnect_interval:
  assumes "\<not> g_connected p" and "g_backoff_ms p = 1000" and "\<forall>x \<in> set xs. unreachable (snd x)"
  shows "\<not> g_connected (foldl poll p xs) \<and>
    g_backoff_ms (foldl poll p xs) = min 30000 (1000 * 2 ^ attempts p xs)"
  using polls_backoff [OF assms(1,3)] pub.nxt_iter [of "attempts p xs"] assms(2)
  by (simp add: RECONNECT_MIN_MS_def RECONNECT_MAX_MS_def)

definition dead_host :: amqp_attempt where
  "dead_host = \<lparr>new_connection_ok = True, ssl_socket_ok = True, set_key_ok = True, tcp_socket_ok = True,
     socket_open_ok = False, login_ok = False, channel_open_ok = False, queue_declare_ok = False,
     metrics_declare_ok = False\<rparr>"

theorem reconnect_interval_witness:
  "g_backoff_ms (foldl poll initial_publisher [(0, dead_host), (500, dead_host), (1000, dead_host)]) = 4000"
proof -
  let ?xs = "[(0, dead_host), (500, dead_host), (1000, dead_host)]"
  have "attempts initial_publisher ?xs = 2"
    by (simp add: initial_publisher_def dead_host_def poll_def ensure_connected_locked_def connect_locked_def
        drop_connection_locked_def Let_def RECONNECT_MIN_MS_def)
  moreover have "g_backoff_ms (foldl poll initial_publisher ?xs) = min 30000 (1000 * 2 ^ attempts initial_publisher ?xs)"
    using reconnect_interval [of initial_publisher ?xs]
    by (simp add: initial_publisher_def RECONNECT_MIN_MS_def unreachable_def dead_host_def)
  ultimately show ?thesis by simp
qed

text \<open>
  A publish reports success exactly when its message, and nothing else, was handed to the
  broker; a failure leaves the broker's log as it was, and a failed \<open>amqp_basic_publish\<close> leaves the
  connection dropped. The connection invariant (connected only with a handle, interval between one
  and thirty seconds) is kept.
\<close>

theorem publish_to_exact:
  assumes "pub_ok p" and "publish_to now a published queue body p = (p', r)"
  shows "pub_ok p' \<and>
    ((r = 0 \<and> amqp_log p' = amqp_log p @ [(queue, body)] \<and> g_connected p') \<or>
     (r = - 1 \<and> amqp_log p' = amqp_log p \<and> \<not> g_connected p'))"
proof -
  obtain p1 e where e: "ensure_connected_locked now a p = (p1, e)"
    by (cases "ensure_connected_locked now a p")
  have "pub_ok p1" using ensure_ok [OF assms(1), of now a] e by simp
  with assms(2) ensure_result [of now a p] e show ?thesis
    by (auto simp: publish_to_def pub_ok_def drop_connection_locked_def split: if_splits)
qed

theorem publish_to_exact_witness:
  "case publish_to 0 dead_host True ''q'' ''m'' initial_publisher of
     (p', r) \<Rightarrow> pub_ok p' \<and> r = - 1 \<and> amqp_log p' = []"
proof -
  obtain p' r where e: "publish_to 0 dead_host True ''q'' ''m'' initial_publisher = (p', r)"
    by (cases "publish_to 0 dead_host True ''q'' ''m'' initial_publisher")
  have ok: "pub_ok initial_publisher"
    by (simp add: pub_ok_def initial_publisher_def RECONNECT_MIN_MS_def RECONNECT_MAX_MS_def)
  have "r = - 1"
    using e by (auto simp: publish_to_def ensure_connected_locked_def connect_locked_def dead_host_def
        initial_publisher_def drop_connection_locked_def Let_def)
  with publish_to_exact [OF ok e] show ?thesis unfolding e by (auto simp: initial_publisher_def)
qed

end
