(* ===== verification/Nta_Analyzer.thy ===== *)
theory Nta_Analyzer
  imports Nta_Detect Nta_Publisher
begin

text \<open>
  The analysis of one packet (\<open>analyze_packet\<close> in \<open>src/agent/analysis/analyzer.c\<close>) over the state
  of the intrusion detector: the table of suspects with its periodic cleanup, the ARP table, the
  home networks and the collector. A read outside the packet has no value (\<open>None\<close>); the result
  holds the new state, the return value and the event pushed to the pipeline, if any.
\<close>

section \<open>State\<close>

record ids =
  suspects :: "suspect list"
  last_cleanup :: time_t
  arp_table :: "arp_entry list"
  home_nets :: "home_cidr list"
  detections :: collector

definition MAX_SUSPECTS :: nat where "MAX_SUSPECTS = 100"
definition CLEANUP_INTERVAL :: int where "CLEANUP_INTERVAL = 60"
definition INACTIVE_TIMEOUT :: int where "INACTIVE_TIMEOUT = 300"

definition initial_ids :: "bool \<Rightarrow> ids" where
  "initial_ids replay_mode = \<lparr>suspects = [], last_cleanup = 0, arp_table = [], home_nets = [],
     detections = \<lparr>g_replay_mode = replay_mode, g_events = []\<rparr>\<rparr>"

definition analyzer_reset :: "ids \<Rightarrow> ids" where
  "analyzer_reset st = st\<lparr>suspects := [], last_cleanup := 0, arp_table := []\<rparr>"

definition cleanup_suspects :: "ids \<Rightarrow> time_t \<Rightarrow> ids" where
  "cleanup_suspects st now =
     (if difftime now (last_cleanup st) < of_int CLEANUP_INTERVAL then st
      else st\<lparr>suspects := filter (\<lambda>s. difftime now (last_seen s) < of_int INACTIVE_TIMEOUT) (suspects st),
              last_cleanup := now\<rparr>)"

definition new_suspect :: "u32 \<Rightarrow> time_t \<Rightarrow> suspect" where
  "new_suspect addr now = zero_suspect\<lparr>ip := addr, last_seen := now, brute_window_start := now,
     baseline := zero_baseline\<lparr>window_start := now\<rparr>\<rparr>"

text \<open>The pointer it returns is the index of the entry, \<open>None\<close> for the null pointer.\<close>

definition find_or_create_suspect :: "suspect list \<Rightarrow> u32 \<Rightarrow> time_t \<Rightarrow> suspect list \<times> nat option" where
  "find_or_create_suspect ss addr now =
     (case find_index (\<lambda>s. ip s = addr) ss of
        Some i \<Rightarrow> (ss[i := (ss ! i)\<lparr>last_seen := now\<rparr>], Some i)
      | None \<Rightarrow>
          if length ss \<ge> MAX_SUSPECTS then (ss, None)
          else (ss @ [new_suspect addr now], Some (length ss)))"

section \<open>The protocols\<close>

definition analyze_icmp :: "suspect \<Rightarrow> time_t \<Rightarrow> suspect \<times> string option" where
  "analyze_icmp s now =
     (let s1 = s\<lparr>baseline := update_baseline (baseline s) False False now\<rparr> in detect_icmp_flood s1)"

text \<open>\<open>if (!attack) attack = detect_... (s, ...)\<close>.\<close>

definition or_else :: "suspect \<times> string option \<Rightarrow> (suspect \<Rightarrow> suspect \<times> string option) \<Rightarrow> suspect \<times> string option" where
  "or_else r f = (case r of (s, None) \<Rightarrow> f s | (s, Some a) \<Rightarrow> (s, Some a))"

definition analyze_tcp :: "suspect \<Rightarrow> u16 \<Rightarrow> u8 \<Rightarrow> time_t \<Rightarrow> suspect \<times> string option" where
  "analyze_tcp s dst_port flags now =
     (let new_port = \<not> list_ex (\<lambda>p. p = dst_port) (ports s);
          s1 = s\<lparr>baseline := update_baseline (baseline s) new_port False now\<rparr>
      in or_else (or_else (or_else (detect_stealth_scan s1 flags)
           (\<lambda>s. detect_syn_flood s flags))
           (\<lambda>s. detect_brute_force s flags dst_port now))
           (\<lambda>s. detect_port_scan s dst_port))"

definition analyze_dns :: "suspect \<Rightarrow> bytes \<Rightarrow> nat \<Rightarrow> int \<Rightarrow> (suspect \<times> string option) option" where
  "analyze_dns s dns_payload dns_len len =
     (if dns_len \<ge> 12 then do {
        b \<leftarrow> byte_at dns_payload 2;
        let is_response = (b AND 0x80 \<noteq> 0);
        r \<leftarrow> (if \<not> is_response then detect_dns_tunnel s dns_payload dns_len else Some (s, None));
        Some (or_else r (\<lambda>s. detect_amplification s len is_response)) }
      else Some (s, None))"

definition analyze_udp :: "suspect \<Rightarrow> u16 \<Rightarrow> u16 \<Rightarrow> bytes \<Rightarrow> nat \<Rightarrow> int \<Rightarrow> time_t \<Rightarrow> (suspect \<times> string option) option" where
  "analyze_udp s src_port dst_port dns_payload dns_len len now =
     (let is_dns = (src_port = 53 \<or> dst_port = 53);
          s1 = s\<lparr>baseline := update_baseline (baseline s) False is_dns now\<rparr>
      in if is_dns then analyze_dns s1 dns_payload dns_len len else Some (s1, None))"

text \<open>The common end of the three branches: kill chain, collector, telemetry and return value.\<close>

definition finish_packet ::
  "ids \<Rightarrow> nat \<Rightarrow> suspect \<times> string option \<Rightarrow> u32 \<Rightarrow> int \<Rightarrow> string \<Rightarrow> int \<Rightarrow> time_t \<Rightarrow> ids \<times> int \<times> event_slot option" where
  "finish_packet st i r src_ip port proto len now =
     (let (s, attack) = r;
          s1 = (if attack \<noteq> None then advance_kill_chain s attack now else s);
          st1 = st\<lparr>suspects := (suspects st)[i := s1]\<rparr>;
          st2 = (case attack of
                   Some a \<Rightarrow> st1\<lparr>detections := collector_record (detections st1) a (inet_ntop src_ip) now\<rparr>
                 | None \<Rightarrow> st1);
          evt = publish_packet (g_replay_mode (detections st2)) (Some (inet_ntop src_ip)) port (Some proto) len
                  (if attack \<noteq> None then 1 else 0) attack (Some (kc_stage_name (kc_stage s1))) (kc_score s1)
                  (Some (if attack \<noteq> None then attack_to_mitre attack else ''''))
      in (st2, if attack \<noteq> None then 1 else 0, evt))"

section \<open>One packet\<close>

definition analyze_arp :: "ids \<Rightarrow> bytes \<Rightarrow> int \<Rightarrow> time_t \<Rightarrow> (ids \<times> int \<times> event_slot option) option" where
  "analyze_arp st packet len now = do {
     (table, spoof) \<leftarrow> detect_arp_spoof (arp_table st) packet len;
     let st1 = st\<lparr>arp_table := table\<rparr>;
     case spoof of
       None \<Rightarrow> Some (st1, 0, None)
     | Some claimed \<Rightarrow> do {
         let evt = publish_packet (g_replay_mode (detections st1)) (Some (inet_ntop claimed)) 0 (Some ''ARP'') len 1
                     (Some ''ARP_SPOOF'') (Some (kc_stage_name KC_RECON)) 20 (Some ''T1557'');
         st2 \<leftarrow> (if len \<ge> 42
                then do { sender \<leftarrow> raw32_at packet 28;
                          Some (st1\<lparr>detections := collector_record (detections st1) ''ARP_SPOOF'' (inet_ntop sender) now\<rparr>) }
                else Some st1);
         Some (st2, 1, evt) } }"

definition analyze_ipv4 :: "ids \<Rightarrow> bytes \<Rightarrow> int \<Rightarrow> time_t \<Rightarrow> (ids \<times> int \<times> event_slot option) option" where
  "analyze_ipv4 st packet len now =
     (if len < 14 + 20 then Some (st, 0, None)
      else do {
        src_ip \<leftarrow> raw32_at packet 26;
        ver_ihl \<leftarrow> byte_at packet 14;
        let ip_hlen = unat (ver_ihl AND 0x0F) * 4;
        if ip_hlen < 20 \<or> 14 + int ip_hlen > len then Some (st, 0, None)
        else if is_home_ip (home_nets st) src_ip then Some (st, 0, None)
        else case find_or_create_suspect (suspects st) src_ip now of
          (ss, None) \<Rightarrow> Some (st\<lparr>suspects := ss\<rparr>, 0, None)
        | (ss, Some i) \<Rightarrow> do {
            let st1 = st\<lparr>suspects := ss\<rparr>;
            let l4_len = len - 14 - int ip_hlen;
            let l4 = 14 + ip_hlen;
            proto \<leftarrow> byte_at packet 23;
            if proto = 1 then
              Some (finish_packet st1 i (analyze_icmp (ss ! i) now) src_ip 0 ''ICMP'' len now)
            else if proto = 6 then
              if l4_len < 20 then Some (st1, 0, None)
              else do {
                dst_port \<leftarrow> be16_at packet (l4 + 2);
                flags \<leftarrow> byte_at packet (l4 + 13);
                Some (finish_packet st1 i (analyze_tcp (ss ! i) dst_port flags now) src_ip (uint dst_port) ''TCP'' len now) }
            else if proto = 17 then
              if l4_len < 8 then Some (st1, 0, None)
              else do {
                src_port \<leftarrow> be16_at packet l4;
                dst_port \<leftarrow> be16_at packet (l4 + 2);
                r \<leftarrow> analyze_udp (ss ! i) src_port dst_port (drop (l4 + 8) packet) (nat (l4_len - 8)) len now;
                Some (finish_packet st1 i r src_ip (uint dst_port) ''UDP'' len now) }
            else Some (st1, 0, None) } })"

definition analyze_packet :: "ids \<Rightarrow> bytes \<Rightarrow> int \<Rightarrow> time_t \<Rightarrow> (ids \<times> int \<times> event_slot option) option" where
  "analyze_packet st0 packet len now = do {
     let st = cleanup_suspects st0 now;
     if len < 14 then Some (st, 0, None)
     else do {
       ether_type \<leftarrow> be16_at packet 12;
       if ether_type = 0x0806 then analyze_arp st packet len now
       else if ether_type \<noteq> 0x0800 then Some (st, 0, None)
       else analyze_ipv4 st packet len now } }"

section \<open>Memory safety\<close>

lemma byte_at_int [simp]: "int i < len \<Longrightarrow> len \<le> int (length p) \<Longrightarrow> byte_at p i = Some (p ! i)"
  by (rule byte_at_in) linarith

lemma analyze_dns_safe: "dns_len \<le> length pl \<Longrightarrow> \<exists>r. analyze_dns s pl dns_len len = Some r"
  using detect_dns_tunnel_safe [of dns_len pl s] by (auto simp: analyze_dns_def Let_def)

lemma analyze_udp_safe: "dns_len \<le> length pl \<Longrightarrow> \<exists>r. analyze_udp s sp dp pl dns_len len now = Some r"
  using analyze_dns_safe by (simp add: analyze_udp_def Let_def)

lemma be16_at_safe: "i + 1 < length p \<Longrightarrow> \<exists>v. be16_at p i = Some v"
  by simp

lemma byte_at_safe: "i < length p \<Longrightarrow> \<exists>v. byte_at p i = Some v"
  by simp

lemma raw32_at_safe: "i + 3 < length p \<Longrightarrow> \<exists>v. raw32_at p i = Some v"
  by simp

lemma analyze_ipv4_safe:
  assumes len: "len \<le> int (length packet)"
  shows "\<exists>r. analyze_ipv4 st packet len now = Some r"
proof (cases "len < 34")
  case False
  with len have l: "34 \<le> length packet" by linarith
  obtain src where src: "raw32_at packet 26 = Some src" using raw32_at_safe [of 26 packet] l by auto
  obtain v where v: "byte_at packet 14 = Some v" using byte_at_safe [of 14 packet] l by auto
  obtain pr where pr: "byte_at packet 23 = Some pr" using byte_at_safe [of 23 packet] l by auto
  let ?h = "unat (v AND 0x0F) * 4"
  show ?thesis
  proof (cases "(?h < 20 \<or> 14 + int ?h > len) \<or> is_home_ip (home_nets st) src")
    case True
    then show ?thesis using False by (auto simp: analyze_ipv4_def src v Let_def)
  next
    case F: False
    obtain ss o' where f: "find_or_create_suspect (suspects st) src now = (ss, o')"
      by (cases "find_or_create_suspect (suspects st) src now")
    show ?thesis
    proof (cases o')
      case None
      then show ?thesis using False F by (simp add: analyze_ipv4_def src v f)
    next
      case (Some i)
      let ?l = "len - 14 - int ?h" and ?o = "14 + ?h"
      have tcp: "\<exists>a b. be16_at packet (?o + 2) = Some a \<and> byte_at packet (?o + 13) = Some b" if "\<not> ?l < 20"
      proof -
        have "?o + 2 + 1 < length packet" "?o + 13 < length packet" using that len by linarith+
        with be16_at_safe [of "?o + 2" packet] byte_at_safe [of "?o + 13" packet] show ?thesis by blast
      qed
      have udp: "\<exists>a b r. be16_at packet ?o = Some a \<and> be16_at packet (?o + 2) = Some b \<and>
          analyze_udp (ss ! i) a b (drop (?o + 8) packet) (nat (?l - 8)) len now = Some r" if "\<not> ?l < 8"
      proof -
        have "nat (?l - 8) \<le> length (drop (?o + 8) packet)" unfolding length_drop using that len by linarith
        then have u: "\<exists>r. analyze_udp (ss ! i) a b (drop (?o + 8) packet) (nat (?l - 8)) len now = Some r" for a b
          by (rule analyze_udp_safe)
        have "?o + 1 < length packet" "?o + 2 + 1 < length packet" using that len by linarith+
        with be16_at_safe [of ?o packet] be16_at_safe [of "?o + 2" packet] u show ?thesis by blast
      qed
      show ?thesis
        using False F tcp udp by (auto simp: analyze_ipv4_def src v pr f Some Let_def simp del: split_paired_Ex)
    qed
  qed
qed (simp add: analyze_ipv4_def)

lemma analyze_arp_safe:
  assumes "len \<le> int (length packet)"
  shows "\<exists>r. analyze_arp st packet len now = Some r"
proof -
  obtain t sp where d: "detect_arp_spoof (arp_table st) packet len = Some (t, sp)"
    using detect_arp_spoof_safe [OF assms, of "arp_table st"] by auto
  show ?thesis
  proof (cases sp)
    case None
    then show ?thesis by (simp add: analyze_arp_def d)
  next
    case (Some claimed)
    have "\<exists>v. raw32_at packet 28 = Some v" if "len \<ge> 42" using that assms by (intro raw32_at_safe) linarith
    then show ?thesis by (cases "42 \<le> len") (auto simp: analyze_arp_def d Some)
  qed
qed

lemma analyze_packet_safe:
  assumes "len \<le> int (length packet)"
  shows "\<exists>r. analyze_packet st packet len now = Some r"
proof (cases "len < 14")
  case False
  with assms obtain e where "be16_at packet 12 = Some e" using be16_at_safe [of 12 packet] by auto
  with False show ?thesis
    using analyze_arp_safe [OF assms] analyze_ipv4_safe [OF assms] by (simp add: analyze_packet_def Let_def)
qed (simp add: analyze_packet_def Let_def)

section \<open>The outcome of a packet\<close>

text \<open>What the protocol branch may return for the suspect of the packet.\<close>

definition packet_result :: "suspect \<Rightarrow> time_t \<Rightarrow> suspect \<times> string option \<Rightarrow> bool" where
  "packet_result s now res \<longleftrightarrow> res = analyze_icmp s now \<or> (\<exists>p f. res = analyze_tcp s p f now) \<or>
     (\<exists>sp dp pl n len. analyze_udp s sp dp pl n len now = Some res)"

lemma find_or_create_None: "find_or_create_suspect ss a now = (ss', None) \<Longrightarrow> ss' = ss"
  by (auto simp: find_or_create_suspect_def split: option.splits if_splits)

text \<open>The part of \<open>analyze_ipv4\<close> after its guards: the segment by its protocol.\<close>

definition ipv4_segment ::
  "ids \<Rightarrow> nat \<Rightarrow> suspect \<Rightarrow> u32 \<Rightarrow> u8 \<Rightarrow> bytes \<Rightarrow> nat \<Rightarrow> int \<Rightarrow> int \<Rightarrow> time_t \<Rightarrow> (ids \<times> int \<times> event_slot option) option" where
  "ipv4_segment st1 i s src pr packet l4 l4_len len now =
     (if pr = 1 then Some (finish_packet st1 i (analyze_icmp s now) src 0 ''ICMP'' len now)
      else if pr = 6 then (if l4_len < 20 then Some (st1, 0, None)
        else do { d \<leftarrow> be16_at packet (l4 + 2); fl \<leftarrow> byte_at packet (l4 + 13);
          Some (finish_packet st1 i (analyze_tcp s d fl now) src (uint d) ''TCP'' len now) })
      else if pr = 17 then (if l4_len < 8 then Some (st1, 0, None)
        else do { sp \<leftarrow> be16_at packet l4; d \<leftarrow> be16_at packet (l4 + 2);
          r \<leftarrow> analyze_udp s sp d (drop (l4 + 8) packet) (nat (l4_len - 8)) len now;
          Some (finish_packet st1 i r src (uint d) ''UDP'' len now) })
      else Some (st1, 0, None))"

lemma analyze_ipv4_segment:
  assumes "raw32_at packet 26 = Some src" "byte_at packet 14 = Some v" "byte_at packet 23 = Some pr" "34 \<le> len"
    and "20 \<le> unat (v AND 0x0F) * 4" "14 + int (unat (v AND 0x0F) * 4) \<le> len" "\<not> is_home_ip (home_nets st) src"
    and "find_or_create_suspect (suspects st) src now = (ss, Some i)"
  shows "analyze_ipv4 st packet len now = ipv4_segment (st\<lparr>suspects := ss\<rparr>) i (ss ! i) src pr packet
    (14 + unat (v AND 0x0F) * 4) (len - 14 - int (unat (v AND 0x0F) * 4)) len now"
proof -
  have c: "(len < 14 + 20) = False" "is_home_ip (home_nets st) src = False" using assms(4,7) by simp_all
  have h: "(unat (v AND 0x0F) * 4 < 20 \<or> len < 14 + int (unat (v AND 0x0F) * 4)) = False"
    using assms(5,6) by (meson not_less)
  show ?thesis
    by (simp only: analyze_ipv4_def assms(1-3,8) c h Let_def bind.bind_lunit prod.case option.case if_False ipv4_segment_def)
qed

lemma ipv4_segment_cases:
  assumes "ipv4_segment st1 i s src pr packet l4 l4_len len now = Some out"
  obtains (touched) "out = (st1, 0, None)"
  | (analyzed) res port proto where "packet_result s now res" "length (proto::string) \<le> 4"
      "out = finish_packet st1 i res src port proto len now" "proto \<in> {''ICMP'', ''TCP'', ''UDP''}"
proof -
  consider "pr = 1" | "pr = 6" "20 \<le> l4_len" | "pr = 17" "8 \<le> l4_len"
    | "pr \<noteq> 1" "pr = 6 \<longrightarrow> l4_len < 20" "pr = 17 \<longrightarrow> l4_len < 8" by fastforce
  then show thesis
  proof cases
    case 1
    then show thesis using assms
      by (intro analyzed [of "analyze_icmp s now" "''ICMP''" 0]) (simp_all add: ipv4_segment_def packet_result_def)
  next
    case 2
    then obtain d fl where "out = finish_packet st1 i (analyze_tcp s d fl now) src (uint d) ''TCP'' len now"
      using assms by (auto simp: ipv4_segment_def bind_eq_Some_conv)
    then show thesis by (intro analyzed [of "analyze_tcp s d fl now" "''TCP''"]) (auto simp: packet_result_def)
  next
    case 3
    then obtain sp d r where "analyze_udp s sp d (drop (l4 + 8) packet) (nat (l4_len - 8)) len now = Some r"
      "out = finish_packet st1 i r src (uint d) ''UDP'' len now"
      using assms by (auto simp: ipv4_segment_def bind_eq_Some_conv)
    then show thesis by (intro analyzed [of r "''UDP''"]) (auto simp: packet_result_def)
  next
    case 4
    then show thesis using assms by (intro touched) (auto simp: ipv4_segment_def split: if_splits)
  qed
qed

lemma analyze_ipv4_cases:
  assumes a: "analyze_ipv4 st packet len now = Some out"
  obtains (skip) "out = (st, 0, None)"
  | (touched) ss i src where "raw32_at packet 26 = Some src" "\<not> is_home_ip (home_nets st) src"
      "find_or_create_suspect (suspects st) src now = (ss, Some i)" "out = (st\<lparr>suspects := ss\<rparr>, 0, None)"
  | (analyzed) ss i src res port proto where "raw32_at packet 26 = Some src" "\<not> is_home_ip (home_nets st) src"
      "find_or_create_suspect (suspects st) src now = (ss, Some i)" "packet_result (ss ! i) now res"
      "length (proto::string) \<le> 4" "out = finish_packet (st\<lparr>suspects := ss\<rparr>) i res src port proto len now"
      "proto \<in> {''ICMP'', ''TCP'', ''UDP''}"
proof (cases "len < 34")
  case True
  with a show thesis by (intro skip) (simp add: analyze_ipv4_def)
next
  case l: False
  obtain src where src: "raw32_at packet 26 = Some src"
    using a l by (cases "raw32_at packet 26") (simp_all add: analyze_ipv4_def)
  obtain v where v: "byte_at packet 14 = Some v"
    using a l src by (cases "byte_at packet 14") (simp_all add: analyze_ipv4_def)
  let ?h = "unat (v AND 0x0F) * 4"
  obtain ss o' where f: "find_or_create_suspect (suspects st) src now = (ss, o')"
    by (cases "find_or_create_suspect (suspects st) src now")
  consider "(?h < 20 \<or> 14 + int ?h > len) \<or> is_home_ip (home_nets st) src"
    | "\<not> (?h < 20 \<or> 14 + int ?h > len)" "\<not> is_home_ip (home_nets st) src" "o' = None"
    | i where "\<not> (?h < 20 \<or> 14 + int ?h > len)" "\<not> is_home_ip (home_nets st) src" "o' = Some i"
    by blast
  then show thesis
  proof cases
    case 1
    then show thesis using l a by (intro skip) (auto simp: analyze_ipv4_def src v Let_def split: if_splits)
  next
    case 2
    with f have "ss = suspects st" by (intro find_or_create_None) simp
    then show thesis using a l 2 by (intro skip) (simp add: analyze_ipv4_def src v f)
  next
    case (3 i)
    note h = src 3(2) f [unfolded 3(3)]
    obtain pr where pr: "byte_at packet 23 = Some pr"
      using a l 3(1,2) by (cases "byte_at packet 23") (simp_all add: analyze_ipv4_def src v h(3) Let_def)
    have "ipv4_segment (st\<lparr>suspects := ss\<rparr>) i (ss ! i) src pr packet (14 + ?h) (len - 14 - int ?h) len now = Some out"
      using analyze_ipv4_segment [OF src v pr _ _ _ h(2,3)] a l 3(1) by simp
    then show thesis by (cases rule: ipv4_segment_cases) (auto intro: touched [OF h] analyzed [OF h])
  qed
qed

lemma analyze_packet_cases:
  assumes "analyze_packet st packet len now = Some out"
  obtains (ignored) "out = (cleanup_suspects st now, 0, None)"
  | (arp) "analyze_arp (cleanup_suspects st now) packet len now = Some out"
  | (ipv4) "be16_at packet 12 = Some 0x0800" "analyze_ipv4 (cleanup_suspects st now) packet len now = Some out"
proof (cases "len < 14")
  case True
  with assms show thesis by (intro ignored) (simp add: analyze_packet_def)
next
  case False
  with assms obtain e where e: "be16_at packet 12 = Some e"
    by (cases "be16_at packet 12") (simp_all add: analyze_packet_def)
  have a: "(if e = 0x0806 then analyze_arp (cleanup_suspects st now) packet len now
      else if e \<noteq> 0x0800 then Some (cleanup_suspects st now, 0, None)
      else analyze_ipv4 (cleanup_suspects st now) packet len now) = Some out"
    using assms False e by (simp add: analyze_packet_def Let_def)
  consider "e = 0x0806" | "e \<noteq> 0x0806" "e \<noteq> 0x0800" | "e = 0x0800" by blast
  then show thesis
  proof cases
    case 1
    with a show thesis by (intro arp) simp
  next
    case 2
    with a show thesis by (intro ignored) simp
  next
    case 3
    with a e show thesis by (intro ipv4) simp_all
  qed
qed

section \<open>The invariant\<close>

text \<open>A suspect after at most \<open>n\<close> packets: every counter is between zero and \<open>n\<close>.\<close>

definition counters :: "suspect \<Rightarrow> int list" where
  "counters s = [icmp_count s, syn_count s, null_scan_count s, xmas_scan_count s, synfin_scan_count s,
     brute_count s, dns_query_count s, dns_suspicious_count s, pkt_in_window (baseline s), sample_count (baseline s)]"

definition suspect_ok :: "nat \<Rightarrow> suspect \<Rightarrow> bool" where
  "suspect_ok n s \<longleftrightarrow> kc_ok s \<and> baseline_ok (baseline s) \<and> distinct (ports s) \<and>
     length (ports s) \<le> SCAN_THRESHOLD \<and> (\<forall>c \<in> set (counters s). 0 \<le> c \<and> c \<le> int n)"

lemma kc_ok_frame:
  "kc_stage s' = kc_stage s \<Longrightarrow> kc_stages_hit s' = kc_stages_hit s \<Longrightarrow> kc_score s' = kc_score s \<Longrightarrow>
   kc_mitre s' = kc_mitre s \<Longrightarrow> kc_ok s' = kc_ok s"
  by (simp add: kc_ok_def)

lemma suspect_ok_weaken: "suspect_ok n s \<Longrightarrow> n \<le> m \<Longrightarrow> suspect_ok m s"
  by (fastforce simp: suspect_ok_def)

lemma suspect_ok_new: "suspect_ok n (new_suspect a now)"
proof -
  have "kc_ok (new_suspect a now)"
    using kc_ok_zero by (simp add: new_suspect_def kc_ok_def zero_suspect_def)
  moreover have "baseline_ok (baseline (new_suspect a now))"
    using zero_baseline_ok [of now] by (simp add: new_suspect_def)
  ultimately show ?thesis
    by (simp add: suspect_ok_def counters_def new_suspect_def zero_suspect_def zero_baseline_def)
qed

lemma suspect_ok_seen: "suspect_ok n (s\<lparr>last_seen := t\<rparr>) = suspect_ok n s"
  using kc_ok_frame [of "s\<lparr>last_seen := t\<rparr>" s] by (simp add: suspect_ok_def counters_def)

lemma suspect_ok_advance: "suspect_ok n s \<Longrightarrow> suspect_ok n (advance_kill_chain s a now)"
  by (simp add: suspect_ok_def counters_def kc_ok_advance)

text \<open>The baseline update of a packet raises only its own window counters.\<close>

lemma update_baseline_step:
  assumes "suspect_ok n s" "int n < INT_MAX"
  shows "baseline_ok (update_baseline (baseline s) p d now)"
    and "0 \<le> pkt_in_window (update_baseline (baseline s) p d now)"
    and "pkt_in_window (update_baseline (baseline s) p d now) \<le> int n + 1"
    and "0 \<le> sample_count (update_baseline (baseline s) p d now)"
    and "sample_count (update_baseline (baseline s) p d now) \<le> int n + 1"
proof -
  have b: "baseline_ok (baseline s)" "0 \<le> pkt_in_window (baseline s)" "pkt_in_window (baseline s) \<le> int n"
    "0 \<le> sample_count (baseline s)" "sample_count (baseline s) \<le> int n"
    using assms(1) by (simp_all add: suspect_ok_def counters_def)
  show "baseline_ok (update_baseline (baseline s) p d now)"
    by (rule update_baseline_ok [OF b(1)]) (use b assms(2) in \<open>simp add: INT_MAX_def\<close>)
  show "0 \<le> pkt_in_window (update_baseline (baseline s) p d now)"
    "pkt_in_window (update_baseline (baseline s) p d now) \<le> int n + 1"
    using update_baseline_pkt [OF b(2), of p d now] b by linarith+
  show "0 \<le> sample_count (update_baseline (baseline s) p d now)"
    "sample_count (update_baseline (baseline s) p d now) \<le> int n + 1"
    using update_baseline_samples [of "baseline s" p d now] b by linarith+
qed

lemma analyze_icmp_ok:
  assumes "suspect_ok n s" "int n < INT_MAX"
  shows "suspect_ok (Suc n) (fst (analyze_icmp s now))"
proof -
  let ?s = "s\<lparr>baseline := update_baseline (baseline s) False False now\<rparr>"
  have "kc_ok (fst (detect_icmp_flood ?s)) = kc_ok s" by (rule kc_ok_frame) simp_all
  then show ?thesis
    using assms(1) update_baseline_step [OF assms, of False False now] detect_icmp_flood_count [of ?s]
    by (simp add: analyze_icmp_def suspect_ok_def counters_def)
qed

lemma or_else_cases: "or_else r f = r \<or> (snd r = None \<and> or_else r f = f (fst r))"
  by (cases r; cases "snd r") (auto simp: or_else_def)

lemma or_else_inv: "Q (fst r) \<Longrightarrow> Q (fst (f (fst r))) \<Longrightarrow> Q (fst (or_else r f))"
  using or_else_cases [of r f] by auto

text \<open>What holds of the suspect between the detectors of \<open>analyze_tcp\<close>.\<close>

definition between_detectors :: "nat \<Rightarrow> suspect \<Rightarrow> ip_baseline \<Rightarrow> suspect \<Rightarrow> bool" where
  "between_detectors n s b s' \<longleftrightarrow> kc_ok s' \<and> baseline s' = b \<and> icmp_count s' = icmp_count s \<and>
     dns_query_count s' = dns_query_count s \<and> dns_suspicious_count s' = dns_suspicious_count s \<and>
     (\<forall>c \<in> {null_scan_count s', xmas_scan_count s', synfin_scan_count s', syn_count s', brute_count s'}.
        0 \<le> c \<and> c \<le> int n + 1)"

lemma analyze_tcp_ok:
  assumes "suspect_ok n s" "int n < INT_MAX"
  shows "suspect_ok (Suc n) (fst (analyze_tcp s p f now))"
proof -
  define b where "b = update_baseline (baseline s) (\<not> list_ex (\<lambda>q. q = p) (ports s)) False now"
  define s1 where "s1 = s\<lparr>baseline := b\<rparr>"
  define r2 where "r2 = detect_stealth_scan s1 f"
  define r3 where "r3 = or_else r2 (\<lambda>s. detect_syn_flood s f)"
  define r4 where "r4 = or_else r3 (\<lambda>s. detect_brute_force s f p now)"
  let ?mid = "between_detectors n s b"
  note mid = between_detectors_def
  have e: "analyze_tcp s p f now = or_else r4 (\<lambda>s. detect_port_scan s p)"
    by (simp add: analyze_tcp_def s1_def b_def r2_def r3_def r4_def Let_def)
  have ok: "kc_ok s" "distinct (ports s)" "length (ports s) \<le> SCAN_THRESHOLD"
    "\<forall>c \<in> set (counters s). 0 \<le> c \<and> c \<le> int n" using assms(1) by (simp_all add: suspect_ok_def)
  have "kc_ok s1 = kc_ok s" by (rule kc_ok_frame) (simp_all add: s1_def)
  then have "?mid (fst r2)"
    using ok(1,4) kc_ok_frame [of "fst r2" s1] detect_stealth_scan_count [of s1 f]
    by (auto simp: mid r2_def counters_def s1_def)
  moreover have "syn_count (fst r2) = syn_count s" "brute_count (fst r2) = brute_count s" "ports (fst r2) = ports s"
    by (simp_all add: r2_def s1_def)
  ultimately have "?mid (fst r3) \<and> brute_count (fst r3) = brute_count s \<and> ports (fst r3) = ports s"
    using kc_ok_frame [of "fst (detect_syn_flood (fst r2) f)" "fst r2"] ok(4) detect_syn_flood_count [of "fst r2" f]
    unfolding r3_def by (intro or_else_inv [where Q = "\<lambda>x. ?mid x \<and> brute_count x = brute_count s \<and> ports x = ports s"])
      (auto simp: mid counters_def)
  then have "?mid (fst r4) \<and> ports (fst r4) = ports s"
    using kc_ok_frame [of "fst (detect_brute_force (fst r3) f p now)" "fst r3"] ok(4)
      detect_brute_force_count [of "fst r3" f p now]
    unfolding r4_def by (intro or_else_inv [where Q = "\<lambda>x. ?mid x \<and> ports x = ports s"]) (auto simp: mid counters_def)
  then have "?mid (fst (analyze_tcp s p f now)) \<and> distinct (ports (fst (analyze_tcp s p f now))) \<and>
      length (ports (fst (analyze_tcp s p f now))) \<le> SCAN_THRESHOLD"
    using kc_ok_frame [of "fst (detect_port_scan (fst r4) p)" "fst r4"] ok(2,3) detect_port_scan_ports [of "fst r4" p]
    unfolding e by (intro or_else_inv [where Q = "\<lambda>x. ?mid x \<and> distinct (ports x) \<and> length (ports x) \<le> SCAN_THRESHOLD"])
      (auto simp: mid)
  then show ?thesis
    using ok(4) update_baseline_step [OF assms, of "\<not> list_ex (\<lambda>q. q = p) (ports s)" False now]
    by (simp add: suspect_ok_def counters_def mid b_def)
qed

lemma analyze_dns_result:
  assumes "analyze_dns s pl k len = Some res"
  obtains "res = (s, None)"
  | s1 a r where "(s1, a) = (s, None) \<or> detect_dns_tunnel s pl k = Some (s1, a)"
      "res = or_else (s1, a) (\<lambda>s. detect_amplification s len r)"
proof (cases "k \<ge> 12")
  case False
  with assms show thesis by (intro that(1)) (simp add: analyze_dns_def)
next
  case True
  with assms obtain b where b: "byte_at pl 2 = Some b" by (cases "byte_at pl 2") (simp_all add: analyze_dns_def)
  show thesis
  proof (cases "b AND 0x80 \<noteq> 0")
    case resp: True
    with True b assms show thesis by (intro that(2) [of s None True]) (simp_all add: analyze_dns_def)
  next
    case query: False
    with True b assms obtain s1 a where "detect_dns_tunnel s pl k = Some (s1, a)"
      by (cases "detect_dns_tunnel s pl k") (auto simp: analyze_dns_def)
    with query True b assms show thesis by (intro that(2) [of s1 a False]) (simp_all add: analyze_dns_def)
  qed
qed

lemma analyze_udp_ok:
  assumes "suspect_ok n s" "int n < INT_MAX" "analyze_udp s sp dp pl k len now = Some res"
  shows "suspect_ok (Suc n) (fst res)"
proof -
  define d where "d = (sp = 53 \<or> dp = 53)"
  let ?s = "s\<lparr>baseline := update_baseline (baseline s) False d now\<rparr>"
  have k: "kc_ok ?s = kc_ok s" by (rule kc_ok_frame) simp_all
  note u = update_baseline_step [OF assms(1,2), of False d now]
  have base: "suspect_ok (Suc n) ?s"
    using assms(1) u k by (simp add: suspect_ok_def counters_def)
  have c: "0 \<le> dns_query_count s" "dns_query_count s \<le> int n" "0 \<le> dns_suspicious_count s"
    "dns_suspicious_count s \<le> int n" using assms(1) by (simp_all add: suspect_ok_def counters_def)
  show ?thesis
  proof (cases d)
    case False
    with assms(3) base show ?thesis by (auto simp: analyze_udp_def d_def)
  next
    case True
    with assms(3) have "analyze_dns ?s pl k len = Some res" by (auto simp: analyze_udp_def d_def Let_def)
    then show ?thesis
    proof (cases rule: analyze_dns_result)
      case (2 s1 a r)
      have s1: "suspect_ok (Suc n) s1"
        using 2(1)
      proof
        assume t: "detect_dns_tunnel ?s pl k = Some (s1, a)"
        note f = detect_dns_tunnel_frame [OF t] and cn = detect_dns_tunnel_count [OF t]
        have "kc_ok s1 = kc_ok ?s" by (rule kc_ok_frame) (simp_all add: f)
        with base f cn c show ?thesis by (simp add: suspect_ok_def counters_def)
      qed (use base in simp)
      have "kc_ok (fst (detect_amplification s1 len r)) = kc_ok s1" by (rule kc_ok_frame) simp_all
      with s1 have "suspect_ok (Suc n) (fst (detect_amplification s1 len r))"
        by (simp add: suspect_ok_def counters_def)
      with s1 or_else_cases [of "(s1, a)" "\<lambda>s. detect_amplification s len r"] 2(2) show ?thesis by auto
    qed (use base in simp)
  qed
qed

lemma packet_result_ok:
  assumes "suspect_ok n s" "int n < INT_MAX" "packet_result s now res"
  shows "suspect_ok (Suc n) (fst res)"
  using assms(3) analyze_icmp_ok [OF assms(1,2)] analyze_tcp_ok [OF assms(1,2)] analyze_udp_ok [OF assms(1,2)]
  unfolding packet_result_def by blast

lemma analyze_dns_frame: "analyze_dns s pl k len = Some res \<Longrightarrow> ip (fst res) = ip s"
proof (erule analyze_dns_result)
  fix s1 a r assume "(s1, a) = (s, None) \<or> detect_dns_tunnel s pl k = Some (s1, a)"
    and r: "res = or_else (s1, a) (\<lambda>s. detect_amplification s len r)"
  then have "ip s1 = ip s" using detect_dns_tunnel_frame(1) by blast
  with or_else_cases [of "(s1, a)" "\<lambda>s. detect_amplification s len r"] r show "ip (fst res) = ip s" by auto
qed simp

lemma or_else_frame: "(\<And>s. ip (fst (f s)) = ip s) \<Longrightarrow> ip (fst (or_else r f)) = ip (fst r)"
  using or_else_cases [of r f] by auto

lemma packet_result_ip:
  assumes "packet_result s now res"
  shows "ip (fst res) = ip s"
  using assms unfolding packet_result_def
  by (auto simp: analyze_icmp_def analyze_tcp_def analyze_udp_def Let_def or_else_frame dest!: analyze_dns_frame split: if_splits)

definition ids_ok :: "nat \<Rightarrow> ids \<Rightarrow> bool" where
  "ids_ok n st \<longleftrightarrow> length (suspects st) \<le> MAX_SUSPECTS \<and> distinct (List.map ip (suspects st)) \<and>
     (\<forall>s \<in> set (suspects st). suspect_ok n s) \<and> length (arp_table st) \<le> MAX_ARP_ENTRIES \<and>
     collector_ok (detections st)"

lemma ids_ok_initial: "ids_ok n (initial_ids m)"
  by (simp add: ids_ok_def initial_ids_def collector_ok_def)

lemma cleanup_ok: "ids_ok n st \<Longrightarrow> ids_ok n (cleanup_suspects st now)"
  unfolding ids_ok_def cleanup_suspects_def
  by (auto simp: distinct_map_filter intro: order_trans [OF length_filter_le])

lemma cleanup_frame [simp]:
  "arp_table (cleanup_suspects st now) = arp_table st" "home_nets (cleanup_suspects st now) = home_nets st"
  "detections (cleanup_suspects st now) = detections st"
  by (simp_all add: cleanup_suspects_def)

definition table_ok :: "nat \<Rightarrow> suspect list \<Rightarrow> bool" where
  "table_ok n ss \<longleftrightarrow> length ss \<le> MAX_SUSPECTS \<and> distinct (List.map ip ss) \<and> (\<forall>s \<in> set ss. suspect_ok n s)"

lemma ids_ok_table: "ids_ok n st \<longleftrightarrow> table_ok n (suspects st) \<and> length (arp_table st) \<le> MAX_ARP_ENTRIES \<and> collector_ok (detections st)"
  by (auto simp: ids_ok_def table_ok_def)

lemma table_ok_weaken: "table_ok n ss \<Longrightarrow> n \<le> m \<Longrightarrow> table_ok m ss"
  by (auto simp: table_ok_def intro: suspect_ok_weaken)

lemma find_or_create_ok:
  assumes "table_ok n ss" "find_or_create_suspect ss a now = (ss', Some i)"
  shows "table_ok n ss' \<and> i < length ss' \<and> ip (ss' ! i) = a"
proof (cases "find_index (\<lambda>s. ip s = a) ss")
  case None
  then have f: "a \<notin> ip ` set ss" by (auto simp: find_index_None)
  with assms None show ?thesis
    by (auto simp: find_or_create_suspect_def table_ok_def suspect_ok_new new_suspect_def split: if_splits
        intro: suspect_ok_new [unfolded new_suspect_def])
next
  case (Some j)
  note j = find_index_SomeD [OF Some]
  from assms(2) Some have e: "ss' = ss[i := (ss ! i)\<lparr>last_seen := now\<rparr>]" "i = j"
    by (auto simp: find_or_create_suspect_def)
  have "List.map ip ss' = List.map ip ss"
    unfolding e(1) using j e(2) by (simp add: map_update list_update_same_conv)
  moreover have "\<forall>s \<in> set ss'. suspect_ok n s"
    using assms(1) j e set_update_subset_insert [of ss i "(ss ! i)\<lparr>last_seen := now\<rparr>"]
    by (auto simp: table_ok_def suspect_ok_seen)
  ultimately show ?thesis using assms(1) j e by (simp add: table_ok_def)
qed

lemma table_ok_update:
  assumes "table_ok n ss" "i < length ss" "suspect_ok n s" "ip s = ip (ss ! i)"
  shows "table_ok n (ss[i := s])"
proof -
  have "List.map ip (ss[i := s]) = List.map ip ss"
    using assms(2,4) by (simp add: map_update list_update_same_conv)
  moreover have "\<forall>x \<in> set (ss[i := s]). suspect_ok n x"
    using assms(1,3) set_update_subset_insert [of ss i s] by (auto simp: table_ok_def)
  ultimately show ?thesis using assms(1) by (simp add: table_ok_def)
qed

lemma finish_packet_fields:
  "suspects (fst (finish_packet st i (s, a) src port proto len now)) =
     (suspects st)[i := (if a \<noteq> None then advance_kill_chain s a now else s)]"
  "arp_table (fst (finish_packet st i (s, a) src port proto len now)) = arp_table st"
  "home_nets (fst (finish_packet st i (s, a) src port proto len now)) = home_nets st"
  "detections (fst (finish_packet st i (s, a) src port proto len now)) =
     (case a of Some x \<Rightarrow> collector_record (detections st) x (inet_ntop src) now | None \<Rightarrow> detections st)"
  "fst (snd (finish_packet st i (s, a) src port proto len now)) = (if a \<noteq> None then 1 else 0)"
  by (simp_all add: finish_packet_def Let_def split: option.split)

lemma analyze_ipv4_ok:
  assumes ok: "ids_ok n st" and n: "int n < INT_MAX" and a: "analyze_ipv4 st packet len now = Some out"
  shows "ids_ok (Suc n) (fst out)"
  using a
proof (cases rule: analyze_ipv4_cases)
  case skip
  then show ?thesis using ok table_ok_weaken [of n "suspects st" "Suc n"] by (simp add: ids_ok_table)
next
  case (touched ss i src)
  with ok have "table_ok n ss" using find_or_create_ok by (auto simp: ids_ok_table)
  then show ?thesis using touched ok table_ok_weaken [of n ss "Suc n"] by (simp add: ids_ok_table)
next
  case (analyzed ss i src res port proto)
  with ok have ss: "table_ok n ss" "i < length ss" "ip (ss ! i) = src"
    using find_or_create_ok by (auto simp: ids_ok_table)
  then have "suspect_ok n (ss ! i)" by (simp add: table_ok_def)
  from packet_result_ok [OF this n analyzed(4)] packet_result_ip [OF analyzed(4)]
  have r: "suspect_ok (Suc n) (fst res)" "ip (fst res) = ip (ss ! i)" by simp_all
  obtain s at' where sa: "res = (s, at')" by (cases res)
  let ?s = "if at' \<noteq> None then advance_kill_chain s at' now else s"
  have "suspect_ok (Suc n) ?s" "ip ?s = ip (ss ! i)" using r by (simp_all add: sa suspect_ok_advance)
  with ss table_ok_weaken [of n ss "Suc n"] have "table_ok (Suc n) (ss[i := ?s])"
    by (intro table_ok_update) simp_all
  then show ?thesis
    using ok unfolding analyzed(6) sa ids_ok_table finish_packet_fields
    by (simp add: collector_record_ok split: option.split)
qed

lemma analyze_arp_ok:
  assumes ok: "ids_ok n st" and a: "analyze_arp st packet len now = Some out"
  shows "ids_ok n (fst out)"
proof -
  obtain t sp where d: "detect_arp_spoof (arp_table st) packet len = Some (t, sp)"
    using a by (cases "detect_arp_spoof (arp_table st) packet len") (auto simp: analyze_arp_def)
  then have "length t \<le> MAX_ARP_ENTRIES" using detect_arp_spoof_size ok by (simp add: ids_ok_def)
  with ok a d show ?thesis
    by (cases sp) (auto simp: analyze_arp_def ids_ok_def bind_eq_Some_conv collector_record_ok Let_def split: if_splits)
qed

lemma analyze_packet_ok:
  assumes ok: "ids_ok n st" and n: "int n < INT_MAX" and a: "analyze_packet st packet len now = Some out"
  shows "ids_ok (Suc n) (fst out)"
proof -
  have c: "ids_ok n (cleanup_suspects st now)" by (rule cleanup_ok [OF ok])
  then have w: "ids_ok m st' \<Longrightarrow> ids_ok (Suc m) st'" for m st'
    using table_ok_weaken [of m "suspects st'" "Suc m"] by (simp add: ids_ok_table)
  show ?thesis
    using a
  proof (cases rule: analyze_packet_cases)
    case ignored
    with c w show ?thesis by simp
  next
    case arp
    with w analyze_arp_ok [OF c] show ?thesis by blast
  next
    case ipv4
    with analyze_ipv4_ok [OF c n] show ?thesis by blast
  qed
qed

section \<open>Traces of packets\<close>

text \<open>The packets of a capture: bytes, captured length and time.\<close>

fun analyze_all :: "ids \<Rightarrow> (bytes \<times> int \<times> time_t) list \<Rightarrow> (ids \<times> int list \<times> event_slot list) option" where
  "analyze_all st [] = Some (st, [], [])"
| "analyze_all st ((packet, len, now) # ps) = do {
     (st1, r, evt) \<leftarrow> analyze_packet st packet len now;
     (st2, rs, evts) \<leftarrow> analyze_all st1 ps;
     Some (st2, r # rs, (case evt of None \<Rightarrow> evts | Some e \<Rightarrow> e # evts)) }"

lemma analyze_all_ok:
  assumes "ids_ok n st" "\<forall>(p, l, t) \<in> set ps. l \<le> int (length p)" "int (n + length ps) \<le> INT_MAX"
  shows "\<exists>st' rs evts. analyze_all st ps = Some (st', rs, evts) \<and> ids_ok (n + length ps) st'"
  using assms
proof (induction ps arbitrary: n st)
  case (Cons x ps)
  obtain p l t where x: "x = (p, l, t)" by (cases x)
  have "l \<le> int (length p)" using Cons.prems(2) by (simp add: x)
  then obtain out where out: "analyze_packet st p l t = Some out" using analyze_packet_safe by blast
  obtain st1 r evt where o': "out = (st1, r, evt)" by (cases out)
  have "int n < INT_MAX" using Cons.prems(3) by simp
  from analyze_packet_ok [OF Cons.prems(1) this out] have "ids_ok (Suc n) st1" by (simp add: o')
  from Cons.IH [OF this] Cons.prems obtain st' rs evts where
    "analyze_all st1 ps = Some (st', rs, evts)" "ids_ok (Suc n + length ps) st'" by auto
  with out o' show ?case by (auto simp: x)
qed simp

definition attack_names :: "string list" where
  "attack_names = [''PORT_SCAN'', ''NULL_SCAN'', ''XMAS_SCAN'', ''SYNFIN_SCAN'', ''ARP_SPOOF'', ''SYN_FLOOD'',
     ''BRUTE_FORCE'', ''DNS_TUNNEL'', ''AMPLIFICATION'', ''ICMP_FLOOD'']"

definition reported :: "string option \<Rightarrow> bool" where
  "reported a \<longleftrightarrow> (case a of None \<Rightarrow> True | Some x \<Rightarrow> x \<in> set attack_names)"

lemma reported_names [simp]:
  "reported None" "reported (Some ''PORT_SCAN'')" "reported (Some ''NULL_SCAN'')" "reported (Some ''XMAS_SCAN'')"
  "reported (Some ''SYNFIN_SCAN'')" "reported (Some ''ARP_SPOOF'')" "reported (Some ''SYN_FLOOD'')"
  "reported (Some ''BRUTE_FORCE'')" "reported (Some ''DNS_TUNNEL'')" "reported (Some ''AMPLIFICATION'')"
  "reported (Some ''ICMP_FLOOD'')"
  by code_simp+

lemma reported_mem: "a \<in> A \<Longrightarrow> (\<And>x. x \<in> A \<Longrightarrow> reported x) \<Longrightarrow> reported a"
  by blast

lemma detect_reported:
  "reported (snd (detect_syn_flood s f))" "reported (snd (detect_stealth_scan s f))"
  "reported (snd (detect_brute_force s f p now))" "reported (snd (detect_amplification s n r))"
  "reported (snd (detect_port_scan s p))" "reported (snd (detect_icmp_flood s))"
  by (rule reported_mem [OF detect_reports(1)] reported_mem [OF detect_reports(2)] reported_mem [OF detect_reports(3)]
      reported_mem [OF detect_reports(4)] reported_mem [OF detect_reports(5)] reported_mem [OF detect_reports(6)];
      elim insertE emptyE; simp)+

lemma or_else_reported:
  "reported (snd r) \<Longrightarrow> (\<And>s. reported (snd (f s))) \<Longrightarrow> reported (snd (or_else r f))"
  using or_else_cases [of r f] by auto

lemma analyze_tcp_reported: "reported (snd (analyze_tcp s p f now))"
  unfolding analyze_tcp_def Let_def by (intro or_else_reported detect_reported)

lemma analyze_udp_reported:
  assumes "analyze_udp s sp dp pl k len now = Some res"
  shows "reported (snd res)"
proof (cases "sp = 53 \<or> dp = 53")
  case False
  with assms show ?thesis by (auto simp: analyze_udp_def reported_def)
next
  case True
  let ?s = "s\<lparr>baseline := update_baseline (baseline s) False (sp = 53 \<or> dp = 53) now\<rparr>"
  from assms True have "analyze_dns ?s pl k len = Some res" by (simp add: analyze_udp_def Let_def)
  then show ?thesis
  proof (cases rule: analyze_dns_result)
    case (2 s1 b r)
    then have "b = None \<or> b = Some ''DNS_TUNNEL''" using detect_dns_tunnel_reports [of ?s pl k s1 b] by auto
    then have "reported (snd (s1, b))" by auto
    then show ?thesis unfolding 2(2) by (intro or_else_reported detect_reported)
  qed (simp add: reported_def)
qed

lemma packet_result_attack: "packet_result s now res \<Longrightarrow> snd res = Some a \<Longrightarrow> a \<in> set attack_names"
proof -
  assume "packet_result s now res" and a: "snd res = Some a"
  then have "reported (snd res)"
    unfolding packet_result_def analyze_icmp_def Let_def
    using analyze_tcp_reported analyze_udp_reported detect_reported(6) by blast
  with a show ?thesis by (simp add: reported_def)
qed

lemma attack_fields_all:
  "list_all (\<lambda>a. length a < 32 \<and> length (attack_to_mitre (Some a)) < 48 \<and> kc_code (attack_to_stage (Some a)) \<noteq> 0)
     attack_names"
  by code_simp

lemma attack_fields:
  assumes "a \<in> set attack_names"
  shows "length a < 32 \<and> length (attack_to_mitre (Some a)) < 48 \<and> attack_to_stage (Some a) \<noteq> KC_IDLE"
  using attack_fields_all assms unfolding list_all_iff by (metis kc_code.simps(1))

lemma length_kc_stage_name: "length (kc_stage_name st) < 16"
  by (cases st) (simp_all add: kc_stage_name_def)

lemma src_field [simp]: "cstr_copy 16 (inet_ntop a) = inet_ntop a"
  using length_inet_ntop [of a] by simp

text \<open>A concrete spoof: a known MAC address claims another address in an ARP reply.\<close>

definition arp_reply :: "bytes \<Rightarrow> bytes \<Rightarrow> bytes" where
  "arp_reply mac addr = replicate 12 0 @ [8, 6] @ replicate 6 0 @ [0, 2] @ mac @ addr @ replicate 10 0"

definition arp_known_ids :: ids where
  "arp_known_ids = (initial_ids False)\<lparr>arp_table := [\<lparr>arp_mac = [1, 1, 1, 1, 1, 1], arp_ip = 0\<rparr>]\<rparr>"

definition arp_spoof_packet :: bytes where
  "arp_spoof_packet = arp_reply [1, 1, 1, 1, 1, 1] [10, 0, 0, 9]"

lemma arp_spoof_packet_eq: "arp_spoof_packet =
  [0, 0, 0, 0, 0, 0, 0, 0, 0, 0, 0, 0, 8, 6, 0, 0, 0, 0, 0, 0, 0, 2, 1, 1, 1, 1, 1, 1, 10, 0, 0, 9,
   0, 0, 0, 0, 0, 0, 0, 0, 0, 0]"
  by (simp add: arp_spoof_packet_def arp_reply_def numeral_eq_Suc)

lemma arp_spoof_detected: "\<exists>st' e. analyze_packet arp_known_ids arp_spoof_packet 42 5 = Some (st', 1, Some e)"
proof -
  have ne: "raw32 10 0 0 9 \<noteq> 0" by code_simp
  have b: "be16 8 6 = 0x0806" "be16 0 2 = 2" by code_simp+
  show ?thesis
    using ne b by (simp add: arp_spoof_packet_eq arp_known_ids_def analyze_packet_def analyze_arp_def
        detect_arp_spoof_def be16_at_def byte_at_def bytes_at_def raw32_at_def arp_update_def
        cleanup_suspects_def CLEANUP_INTERVAL_def initial_ids_def publish_packet_def Let_def)
qed

lemma length_arp_spoof_packet [simp]: "length arp_spoof_packet = 42"
  by (simp add: arp_spoof_packet_eq)

lemma ids_ok_arp_known: "ids_ok 0 arp_known_ids"
  using ids_ok_initial [of 0 False] by (simp add: arp_known_ids_def ids_ok_def MAX_ARP_ENTRIES_def initial_ids_def)

section \<open>Properties\<close>

text \<open>
  C1. Memory safety and boundedness: on any capture whose packets have at least their stated
  length, every packet is analysed without reading outside it, the suspect table never exceeds 100
  entries with distinct addresses, the ARP table 256 and the collector 1024, every counter stays
  between zero and the number of packets (so no \<open>int\<close> overflows in fewer than \<open>2^31 - 1\<close> packets), and
  the baseline and kill chain invariants hold of every suspect.
\<close>

theorem analyzer_safe:
  assumes "ids_ok 0 st" and "\<forall>(p, l, t) \<in> set ps. l \<le> int (length p)" and "int (length ps) \<le> INT_MAX"
  shows "\<exists>st' rs evts. analyze_all st ps = Some (st', rs, evts) \<and> length (suspects st') \<le> 100 \<and>
    distinct (List.map ip (suspects st')) \<and> length (arp_table st') \<le> 256 \<and>
    length (g_events (detections st')) \<le> 1024 \<and>
    (\<forall>s \<in> set (suspects st'). kc_ok s \<and> baseline_ok (baseline s) \<and> distinct (ports s) \<and> length (ports s) \<le> 15 \<and>
      (\<forall>c \<in> set (counters s). 0 \<le> c \<and> c \<le> int (length ps)))"
proof -
  from analyze_all_ok [OF assms(1,2)] assms(3) obtain st' rs evts where
    r: "analyze_all st ps = Some (st', rs, evts)" "ids_ok (length ps) st'" by auto
  then show ?thesis
    by (intro exI [of _ st'] exI [of _ rs] exI [of _ evts])
      (auto simp: ids_ok_def suspect_ok_def MAX_SUSPECTS_def MAX_ARP_ENTRIES_def SCAN_THRESHOLD_def
        collector_ok_def MAX_DETECTIONS_def)
qed

theorem analyzer_safe_witness:
  "\<exists>st' rs evts. analyze_all (initial_ids True) [(replicate 13 0 @ [6], 14, 5)] = Some (st', rs, evts) \<and>
    length (suspects st') \<le> 100"
proof -
  have "\<forall>(p, l, t) \<in> set [(replicate 13 0 @ [6 :: u8], 14 :: int, 5 :: time_t)]. l \<le> int (length p)" by simp
  from analyzer_safe [OF ids_ok_initial this, of True] show ?thesis by (auto simp: INT_MAX_def)
qed

text \<open>What the return value, the collector and the telemetry event say of one packet, together.\<close>

definition packet_report ::
  "collector \<Rightarrow> collector \<Rightarrow> int \<Rightarrow> time_t \<Rightarrow> int \<Rightarrow> event_slot option \<Rightarrow> bool" where
  "packet_report c c' len now r evt \<longleftrightarrow>
     (r = 0 \<and> c' = c \<and>
      (\<forall>e. evt = Some e \<longrightarrow> evt_is_scan e = 0 \<and> evt_attack_type e = ''NONE'' \<and> evt_mitre e = '''')) \<or>
     (r = 1 \<and> (\<exists>a \<in> set attack_names. \<exists>src.
      c' = collector_record c a (inet_ntop src) now \<and>
      (if g_replay_mode c then evt = None
       else \<exists>e. evt = Some e \<and> evt_is_scan e = 1 \<and> evt_attack_type e = a \<and> evt_src_ip e = inet_ntop src \<and>
         evt_mitre e = attack_to_mitre (Some a) \<and> evt_bytes e = len)))"

lemma arp_report:
  assumes "analyze_arp st packet len now = Some (st', r, evt)"
  shows "packet_report (detections st) (detections st') len now r evt"
proof -
  from assms obtain t sp where d: "detect_arp_spoof (arp_table st) packet len = Some (t, sp)"
    by (cases "detect_arp_spoof (arp_table st) packet len") (auto simp: analyze_arp_def)
  show ?thesis
  proof (cases sp)
    case None
    with assms d show ?thesis by (auto simp: analyze_arp_def packet_report_def)
  next
    case (Some claimed)
    with detect_arp_spoof_cases [OF d] have c: "42 \<le> len" "raw32_at packet 28 = Some claimed"
      by (auto split: if_splits)
    with assms d Some have "r = 1" "detections st' = collector_record (detections st) ''ARP_SPOOF'' (inet_ntop claimed) now"
      "evt = publish_packet (g_replay_mode (detections st)) (Some (inet_ntop claimed)) 0 (Some ''ARP'') len 1
         (Some ''ARP_SPOOF'') (Some (kc_stage_name KC_RECON)) 20 (Some ''T1557'')"
      by (auto simp: analyze_arp_def Let_def)
    moreover have "''ARP_SPOOF'' \<in> set attack_names" by (simp add: attack_names_def)
    ultimately show ?thesis unfolding packet_report_def
      by (intro disjI2 conjI bexI [of _ "''ARP_SPOOF''"] exI [of _ claimed])
        (simp_all add: publish_packet_def Let_def attack_to_mitre_def)
  qed
qed

lemma ipv4_report:
  assumes "analyze_ipv4 st packet len now = Some (st', r, evt)"
  shows "packet_report (detections st) (detections st') len now r evt"
  using assms
proof (cases rule: analyze_ipv4_cases)
  case (analyzed ss i src res port proto)
  obtain s a where sa: "res = (s, a)" by (cases res)
  note f = analyzed(6) [unfolded sa]
  show ?thesis
  proof (cases a)
    case None
    with f show ?thesis by (simp add: finish_packet_def Let_def publish_packet_def packet_report_def)
  next
    case (Some x)
    with packet_result_attack [OF analyzed(4)] sa have x: "x \<in> set attack_names" by simp
    with f Some attack_fields [OF x] show ?thesis unfolding packet_report_def
      by (intro disjI2 conjI bexI [OF _ x] exI [of _ src])
        (simp_all add: finish_packet_def Let_def publish_packet_def)
  qed
qed (simp_all add: packet_report_def)

text \<open>
  C2. The return value, the collector and the telemetry agree: a packet reports at most one attack,
  and it returns 1 exactly when it records one detection (attack, source, packet time) and, in live
  mode, pushes one event that carries the same attack, source and MITRE technique, none of them cut
  by the event's fields; when it returns 0 nothing is recorded and any event pushed is flagged as
  normal traffic.
\<close>

theorem analyze_packet_reports:
  assumes "analyze_packet st packet len now = Some (st', r, evt)"
  shows "(r = 0 \<and> detections st' = detections st \<and>
      (\<forall>e. evt = Some e \<longrightarrow> evt_is_scan e = 0 \<and> evt_attack_type e = ''NONE'' \<and> evt_mitre e = '''')) \<or>
    (r = 1 \<and> (\<exists>a \<in> set attack_names. \<exists>src.
      detections st' = collector_record (detections st) a (inet_ntop src) now \<and>
      (if g_replay_mode (detections st) then evt = None
       else \<exists>e. evt = Some e \<and> evt_is_scan e = 1 \<and> evt_attack_type e = a \<and> evt_src_ip e = inet_ntop src \<and>
         evt_mitre e = attack_to_mitre (Some a) \<and> evt_bytes e = len)))"
  using assms
proof (cases rule: analyze_packet_cases)
  case arp
  from arp_report [OF arp] show ?thesis by (simp add: packet_report_def)
next
  case ipv4
  from ipv4_report [OF ipv4(2)] show ?thesis by (simp add: packet_report_def)
qed simp

theorem analyze_packet_reports_witness:
  "\<exists>st' r evt a src. analyze_packet arp_known_ids arp_spoof_packet 42 5 = Some (st', r, evt) \<and>
   r = 1 \<and> (\<exists>e. evt = Some e \<and> evt_is_scan e = 1 \<and> evt_attack_type e = a \<and> evt_src_ip e = inet_ntop src)"
proof -
  obtain st' e where a: "analyze_packet arp_known_ids arp_spoof_packet 42 5 = Some (st', 1, Some e)"
    using arp_spoof_detected by blast
  have "\<not> g_replay_mode (detections arp_known_ids)" by (simp add: arp_known_ids_def initial_ids_def)
  with analyze_packet_reports [OF a] a show ?thesis by auto
qed

text \<open>
  A packet whose IPv4 source is in a home network leaves no trace besides the periodic cleanup:
  no suspect, no detection, no telemetry, return value 0.
\<close>

theorem home_source_ignored:
  assumes "be16_at packet 12 = Some 0x0800" and "raw32_at packet 26 = Some src"
    and "is_home_ip (home_nets st) src" and "len \<le> int (length packet)"
  shows "analyze_packet st packet len now = Some (cleanup_suspects st now, 0, None)"
proof -
  from analyze_packet_safe [OF assms(4)] obtain out where o: "analyze_packet st packet len now = Some out" by blast
  then have "out = (cleanup_suspects st now, 0, None)"
  proof (cases rule: analyze_packet_cases)
    case arp
    show ?thesis
    proof (cases "len < 14")
      case False
      with o assms have "analyze_ipv4 (cleanup_suspects st now) packet len now = Some out"
        by (simp add: analyze_packet_def Let_def)
      then show ?thesis by (cases rule: analyze_ipv4_cases) (use assms in auto)
    qed (use o in \<open>simp add: analyze_packet_def\<close>)
  next
    case ipv4
    from ipv4(2) show ?thesis by (cases rule: analyze_ipv4_cases) (use assms in auto)
  qed
  with o show ?thesis by simp
qed

theorem home_source_ignored_witness:
  "let st = (initial_ids False)\<lparr>home_nets := [\<lparr>addr_be = 0, mask_be = 0, cidr_str = ''0.0.0.0/0''\<rparr>]\<rparr>;
       p = replicate 12 0 @ [8, 0, 0x45] @ replicate 19 0
   in analyze_packet st p 34 5 = Some (cleanup_suspects st 5, 0, None)"
proof -
  let ?st = "(initial_ids False)\<lparr>home_nets := [\<lparr>addr_be = 0, mask_be = 0, cidr_str = ''0.0.0.0/0''\<rparr>]\<rparr>"
  let ?p = "replicate 12 (0 :: u8) @ [8, 0, 0x45] @ replicate 19 0"
  have b: "be16 8 0 = 0x0800" by code_simp
  have e: "be16_at ?p 12 = Some 0x0800" using b by (simp add: nth_append)
  obtain src where src: "raw32_at ?p 26 = Some src" using raw32_at_safe [of 26 ?p] by auto
  have h: "is_home_ip (home_nets ?st) src" by simp
  have "34 \<le> int (length ?p)" by simp
  from home_source_ignored [OF e src h this, of 5] show ?thesis unfolding Let_def .
qed

text \<open>
  When 100 suspects are tracked and none has been idle for 300 seconds, packets of any further
  source are not analysed at all: no detection and no telemetry, whatever they contain.
\<close>

theorem full_table_blinds:
  assumes "be16_at packet 12 = Some 0x0800" and "raw32_at packet 26 = Some src"
    and "length (suspects st) = 100" and "\<forall>s \<in> set (suspects st). ip s \<noteq> src \<and> now - last_seen s < 300"
    and "len \<le> int (length packet)"
  shows "analyze_packet st packet len now = Some (cleanup_suspects st now, 0, None)"
proof -
  let ?c = "cleanup_suspects st now"
  have "filter (\<lambda>s. now - last_seen s < 300) (suspects st) = suspects st"
    using assms(4) by (intro filter_True) auto
  then have c: "suspects ?c = suspects st"
    by (simp add: cleanup_suspects_def INACTIVE_TIMEOUT_def)
  have "find_index (\<lambda>s. ip s = src) (suspects st) = None" using assms(4) by (auto simp: find_index_None)
  then have f: "find_or_create_suspect (suspects ?c) src now = (suspects ?c, None)"
    using assms(3) by (simp add: find_or_create_suspect_def c MAX_SUSPECTS_def)
  have v4: "out = (?c, 0, None)" if "analyze_ipv4 ?c packet len now = Some out" for out
    using that by (cases rule: analyze_ipv4_cases) (use assms(2) f in auto)
  from analyze_packet_safe [OF assms(5)] obtain out where o: "analyze_packet st packet len now = Some out" by blast
  have "out = (?c, 0, None)"
  proof (cases "len < 14")
    case False
    with o assms(1) have "analyze_ipv4 ?c packet len now = Some out" by (simp add: analyze_packet_def Let_def)
    then show ?thesis by (rule v4)
  qed (use o in \<open>simp add: analyze_packet_def\<close>)
  with o show ?thesis by simp
qed

theorem full_table_blinds_witness:
  "let st = (initial_ids False)\<lparr>suspects := replicate 100 (new_suspect 1 5)\<rparr>;
       p = replicate 12 0 @ [8, 0, 0x45] @ replicate 19 0
   in analyze_packet st p 34 5 = Some (cleanup_suspects st 5, 0, None)"
proof -
  let ?st = "(initial_ids False)\<lparr>suspects := replicate 100 (new_suspect 1 5)\<rparr>"
  let ?p = "replicate 12 (0 :: u8) @ [8, 0, 0x45] @ replicate 19 0"
  have b: "be16 8 0 = 0x0800" by code_simp
  have e: "be16_at ?p 12 = Some 0x0800" using b by (simp add: nth_append)
  have "raw32 0 0 0 0 = 0" by code_simp
  then have src: "raw32_at ?p 26 = Some 0" by (simp add: nth_append)
  have h: "\<forall>s \<in> set (suspects ?st). ip s \<noteq> 0 \<and> 5 - last_seen s < 300" by (simp add: new_suspect_def)
  have "length (suspects ?st) = 100" "34 \<le> int (length ?p)" by simp_all
  from full_table_blinds [OF e src this(1) h this(2)] show ?thesis unfolding Let_def .
qed

text \<open>
  The incident of a source is forgotten after 300 seconds of silence, not after the 30 minutes
  of the correlation window: if the source was last seen 300 seconds ago or more and the cleanup is
  due, the cleanup removes it, and the source starts again with a fresh record.
\<close>

theorem incident_forgotten:
  assumes "ids_ok n st" and "s \<in> set (suspects st)" and "300 \<le> now - last_seen s" and "60 \<le> now - last_cleanup st"
  shows "\<exists>ss. find_or_create_suspect (suspects (cleanup_suspects st now)) (ip s) now = (ss, Some (length ss - 1)) \<and>
    last ss = new_suspect (ip s) now \<and> kc_stage (last ss) = KC_IDLE"
proof -
  let ?f = "filter (\<lambda>s. now - last_seen s < 300) (suspects st)"
  have c: "suspects (cleanup_suspects st now) = ?f"
    using assms(4) by (simp add: cleanup_suspects_def INACTIVE_TIMEOUT_def CLEANUP_INTERVAL_def)
  have u: "x = s" if "x \<in> set (suspects st)" "ip x = ip s" for x
    using assms(1,2) that unfolding ids_ok_def by (metis distinct_map inj_onD)
  then have n: "find_index (\<lambda>x. ip x = ip s) ?f = None" using assms(3) u unfolding find_index_None by fastforce
  have "length ?f < length (suspects st)"
    using assms(2,3) by (intro length_filter_less [of s]) auto
  then have "length ?f < MAX_SUSPECTS" using assms(1) by (simp add: ids_ok_def)
  with n show ?thesis unfolding c
    by (simp add: find_or_create_suspect_def new_suspect_def zero_suspect_def)
qed

theorem incident_forgotten_witness:
  "let st = (initial_ids False)\<lparr>suspects := [advance_kill_chain (new_suspect 7 1000) (Some ''PORT_SCAN'') 1000]\<rparr>
   in \<exists>ss. find_or_create_suspect (suspects (cleanup_suspects st 1300)) 7 1300 = (ss, Some (length ss - 1)) \<and>
      kc_stage (last ss) = KC_IDLE"
proof -
  let ?s = "advance_kill_chain (new_suspect 7 1000) (Some ''PORT_SCAN'') 1000"
  let ?st = "(initial_ids False)\<lparr>suspects := [?s]\<rparr>"
  have "suspect_ok 0 ?s" by (intro suspect_ok_advance suspect_ok_new)
  then have ok: "ids_ok 0 ?st" using ids_ok_initial [of 0 False] by (simp add: ids_ok_def MAX_SUSPECTS_def)
  have i: "ip ?s = 7" "last_seen ?s = 1000" by (simp_all add: new_suspect_def)
  have m: "?s \<in> set (suspects ?st)" by simp
  have t: "300 \<le> 1300 - last_seen ?s" "60 \<le> 1300 - last_cleanup ?st" by (simp_all add: new_suspect_def initial_ids_def)
  from incident_forgotten [OF ok m t] show ?thesis unfolding Let_def i by blast
qed

end
