(* ===== verification/Nta_Pipeline.thy ===== *)
theory Nta_Pipeline
  imports Nta_Analyzer Nta_Ringbuf "HOL-Library.Sublist"
begin

text \<open>
  The multi-threaded pipeline (\<open>src/agent/core/pipeline.c\<close>, \<open>src/agent/capture/capture.c\<close>): capture,
  analysis and publication as one step relation. A step is one access to shared state, a ring
  buffer operation (linearizable, theory \<open>Nta_Spsc\<close>) or a read or write of a shutdown flag, with
  the thread's private work after it. The clock (has the batch timed out?) and the broker (was the
  batch accepted?) are free in every step. Ghost fields record the packets accepted, the packets
  analysed, the events produced, those accepted by the event buffer, the batches sent and the batch
  discarded when the broker refuses it during the shutdown.
\<close>

section \<open>Configuration\<close>

definition env_int :: "env \<Rightarrow> string \<Rightarrow> int \<Rightarrow> int" where
  "env_int e name fallback =
     (case e name of
        None \<Rightarrow> fallback
      | Some v \<Rightarrow> if v = [] then fallback else let n = atoi v in if n > 0 then n else fallback)"

definition SNAP_LEN :: int where "SNAP_LEN = 1518"
definition DEFAULT_BUFFER_SIZE :: int where "DEFAULT_BUFFER_SIZE = 4096"
definition DEFAULT_BATCH_SIZE :: int where "DEFAULT_BATCH_SIZE = 50"
definition DEFAULT_BATCH_TIMEOUT_MS :: int where "DEFAULT_BATCH_TIMEOUT_MS = 100"
definition DEFAULT_METRICS_INTERVAL :: int where "DEFAULT_METRICS_INTERVAL = 10"

section \<open>State\<close>

record pkt_slot =
  slot_sec :: time_t
  slot_len :: int
  slot_data :: bytes

datatype analysis_pc = A_Pop | A_Push event_slot | A_Check | A_Done
datatype publish_pc = P_Pop | P_Flush | P_Done

record pipe =
  g_rb_pkt :: "pkt_slot ringbuf"
  g_rb_evt :: "event_slot ringbuf"
  g_capture_done :: bool
  g_analysis_done :: bool
  g_batches_sent :: u64
  g_events_sent :: u64
  p_ids :: ids
  ana_pc :: analysis_pc
  pub_pc :: publish_pc
  batch :: "event_slot list"
  captured :: "pkt_slot list"
  analyzed :: "pkt_slot list"
  produced :: "event_slot list"
  accepted :: "event_slot list"
  batches :: "event_slot list list"
  discarded :: "event_slot list"
  send_failed :: bool

section \<open>Thread bodies\<close>

text \<open>
  \<open>packet_handler\<close> in live mode: the slot it pushes; \<open>caplen\<close> is the number of captured bytes. In
  replay mode it analyses the packet in place.
\<close>

definition live_slot :: "time_t \<Rightarrow> int \<Rightarrow> bytes \<Rightarrow> pkt_slot" where
  "live_slot sec caplen packet =
     (let len = (if caplen > SNAP_LEN then SNAP_LEN else caplen)
      in \<lparr>slot_sec = sec, slot_len = len, slot_data = take (nat len) packet\<rparr>)"

definition pipeline_push_packet :: "pkt_slot \<Rightarrow> pipe \<Rightarrow> pipe \<times> int" where
  "pipeline_push_packet slot p =
     (case rb_push (g_rb_pkt p) slot of
        (rb, r) \<Rightarrow> (p\<lparr>g_rb_pkt := rb, captured := (if r = 0 then captured p @ [slot] else captured p)\<rparr>, r))"

definition pipeline_push_event :: "event_slot \<Rightarrow> pipe \<Rightarrow> pipe \<times> int" where
  "pipeline_push_event e p =
     (case rb_push (g_rb_evt p) e of
        (rb, r) \<Rightarrow> (p\<lparr>g_rb_evt := rb, produced := produced p @ [e],
                       accepted := (if r = 0 then accepted p @ [e] else accepted p)\<rparr>, r))"

definition packet_handler_live :: "time_t \<Rightarrow> int \<Rightarrow> bytes \<Rightarrow> pipe \<Rightarrow> pipe" where
  "packet_handler_live sec caplen packet p = fst (pipeline_push_packet (live_slot sec caplen packet) p)"

definition packet_handler_replay ::
  "time_t \<Rightarrow> int \<Rightarrow> bytes \<Rightarrow> ids \<Rightarrow> (ids \<times> int \<times> event_slot option) option" where
  "packet_handler_replay sec caplen packet st = analyze_packet st packet caplen sec"

text \<open>
  One round of the publish thread after a failed or skipped pop: the flush test, the send with its
  result \<open>sent_ok\<close>, and the ends of the loop.
\<close>

definition publish_round :: "nat \<Rightarrow> bool \<Rightarrow> bool \<Rightarrow> bool \<Rightarrow> pipe \<Rightarrow> pipe" where
  "publish_round batch_size timed_out drained sent_ok p =
     (let filled = length (batch p)
      in if filled = batch_size \<or> timed_out \<or> (drained \<and> filled > 0) then
           if \<not> sent_ok then
             if drained then p\<lparr>batch := [], discarded := batch p, pub_pc := P_Done, send_failed := True\<rparr> else p\<lparr>pub_pc := P_Pop\<rparr>
           else p\<lparr>g_batches_sent := g_batches_sent p + 1, g_events_sent := g_events_sent p + of_nat filled,
                  batches := batches p @ [batch p], batch := [], pub_pc := P_Pop\<rparr>
         else if drained \<and> filled = 0 then p\<lparr>pub_pc := P_Done\<rparr>
         else p\<lparr>pub_pc := P_Pop\<rparr>)"

section \<open>Steps\<close>

inductive pipe_step :: "nat \<Rightarrow> pipe \<Rightarrow> pipe \<Rightarrow> bool" for bsz :: nat where
  capture: "\<not> g_capture_done p \<Longrightarrow> 0 \<le> caplen \<Longrightarrow> caplen \<le> int (length packet) \<Longrightarrow>
    pipe_step bsz p (packet_handler_live sec caplen packet p)"
| capture_end: "pipe_step bsz p (p\<lparr>g_capture_done := True\<rparr>)"
| analyze: "ana_pc p = A_Pop \<Longrightarrow> rb_pop (g_rb_pkt p) = (rb, Some slot) \<Longrightarrow>
    analyze_packet (p_ids p) (slot_data slot) (slot_len slot) (slot_sec slot) = Some (st, r, evt) \<Longrightarrow>
    pipe_step bsz p (p\<lparr>g_rb_pkt := rb, p_ids := st, analyzed := analyzed p @ [slot],
      ana_pc := (case evt of None \<Rightarrow> A_Pop | Some e \<Rightarrow> A_Push e)\<rparr>)"
| publish_event: "ana_pc p = A_Push e \<Longrightarrow>
    pipe_step bsz p ((fst (pipeline_push_event e p))\<lparr>ana_pc := A_Pop\<rparr>)"
| analysis_empty: "ana_pc p = A_Pop \<Longrightarrow> rb_pop (g_rb_pkt p) = (rb, None) \<Longrightarrow>
    pipe_step bsz p (p\<lparr>ana_pc := A_Check\<rparr>)"
| analysis_check: "ana_pc p = A_Check \<Longrightarrow>
    pipe_step bsz p (if g_capture_done p then p\<lparr>ana_pc := A_Done, g_analysis_done := True\<rparr>
                      else p\<lparr>ana_pc := A_Pop\<rparr>)"
| collect: "pub_pc p = P_Pop \<Longrightarrow> length (batch p) < bsz \<Longrightarrow> rb_pop (g_rb_evt p) = (rb, Some e) \<Longrightarrow>
    pipe_step bsz p (p\<lparr>g_rb_evt := rb, batch := batch p @ [e]\<rparr>)"
| publish_full: "pub_pc p = P_Pop \<Longrightarrow> \<not> length (batch p) < bsz \<Longrightarrow> pipe_step bsz p (p\<lparr>pub_pc := P_Flush\<rparr>)"
| publish_empty: "pub_pc p = P_Pop \<Longrightarrow> rb_pop (g_rb_evt p) = (rb, None) \<Longrightarrow>
    pipe_step bsz p (p\<lparr>pub_pc := P_Flush\<rparr>)"
| flush: "pub_pc p = P_Flush \<Longrightarrow> (timed_out \<longrightarrow> batch p \<noteq> []) \<Longrightarrow>
    pipe_step bsz p (publish_round bsz timed_out (g_analysis_done p) sent_ok p)"

definition pipe_start :: "u64 \<Rightarrow> ids \<Rightarrow> pkt_slot \<Rightarrow> event_slot \<Rightarrow> pipe" where
  "pipe_start n st zp ze =
     \<lparr>g_rb_pkt = fst (rb_init True zp \<lparr>capacity = 0, rb_mask = 0, slots = [], head = 0, tail = 0, overflow_count = 0\<rparr> n),
      g_rb_evt = fst (rb_init True ze \<lparr>capacity = 0, rb_mask = 0, slots = [], head = 0, tail = 0, overflow_count = 0\<rparr> n),
      g_capture_done = False, g_analysis_done = False, g_batches_sent = 0, g_events_sent = 0, p_ids = st,
      ana_pc = A_Pop, pub_pc = P_Pop, batch = [], captured = [], analyzed = [], produced = [], accepted = [],
      batches = [], discarded = [], send_failed = False\<rparr>"

inductive pipe_reach :: "nat \<Rightarrow> pipe \<Rightarrow> pipe \<Rightarrow> bool" for bsz :: nat and p0 :: pipe where
  start: "pipe_reach bsz p0 p0"
| step: "pipe_reach bsz p0 p \<Longrightarrow> pipe_step bsz p q \<Longrightarrow> pipe_reach bsz p0 q"

section \<open>The invariant\<close>

definition slot_packet :: "pkt_slot \<Rightarrow> bytes \<times> int \<times> time_t" where
  "slot_packet s = (slot_data s, slot_len s, slot_sec s)"

definition in_hand :: "analysis_pc \<Rightarrow> event_slot list" where
  "in_hand pc = (case pc of A_Push e \<Rightarrow> [e] | _ \<Rightarrow> [])"

definition rings_inv :: "pipe \<Rightarrow> bool" where
  "rings_inv p \<longleftrightarrow> rb_wf (g_rb_pkt p) \<and> rb_wf (g_rb_evt p) \<and>
     captured p = analyzed p @ rb_list (g_rb_pkt p) \<and>
     accepted p = concat (batches p) @ batch p @ discarded p @ rb_list (g_rb_evt p) \<and>
     subseq (accepted p) (produced p) \<and>
     overflow_count (g_rb_evt p) + of_nat (length (accepted p)) = of_nat (length (produced p))"

definition analysis_inv :: "ids \<Rightarrow> pipe \<Rightarrow> bool" where
  "analysis_inv st0 p \<longleftrightarrow>
     (\<exists>rs. analyze_all st0 (List.map slot_packet (analyzed p)) = Some (p_ids p, rs, produced p @ in_hand (ana_pc p))) \<and>
     (g_analysis_done p \<longleftrightarrow> ana_pc p = A_Done) \<and> (g_analysis_done p \<longrightarrow> g_capture_done p)"

definition publish_inv :: "nat \<Rightarrow> pipe \<Rightarrow> bool" where
  "publish_inv bsz p \<longleftrightarrow> length (batch p) \<le> bsz \<and> (\<forall>b \<in> set (batches p). b \<noteq> [] \<and> length b \<le> bsz) \<and>
     g_batches_sent p = of_nat (length (batches p)) \<and> g_events_sent p = of_nat (length (concat (batches p))) \<and>
     (pub_pc p = P_Done \<longrightarrow> g_analysis_done p \<and> batch p = []) \<and> (send_failed p \<longrightarrow> pub_pc p = P_Done) \<and>
     length (discarded p) \<le> bsz \<and> (discarded p \<noteq> [] \<longrightarrow> send_failed p)"

lemma analyze_all_snoc:
  "analyze_all st ps = Some (st1, rs, evts) \<Longrightarrow> analyze_packet st1 packet len now = Some (st2, r, evt) \<Longrightarrow>
   analyze_all st (ps @ [(packet, len, now)]) =
     Some (st2, rs @ [r], evts @ (case evt of None \<Rightarrow> [] | Some e \<Rightarrow> [e]))"
proof (induction ps arbitrary: st rs evts)
  case (Cons x ps)
  obtain p l t where x: "x = (p, l, t)" by (cases x)
  from Cons.prems(1) obtain st' r' evt' rs' evts' where a: "analyze_packet st p l t = Some (st', r', evt')"
    "analyze_all st' ps = Some (st1, rs', evts')" "rs = r' # rs'"
    "evts = (case evt' of None \<Rightarrow> evts' | Some e \<Rightarrow> e # evts')"
    by (auto simp: x bind_eq_Some_conv)
  from Cons.IH [OF a(2) Cons.prems(2)] a show ?case by (auto simp: x split: option.splits)
qed (auto split: option.split)

lemma subseq_snoc: "subseq xs ys \<Longrightarrow> subseq (xs @ [x]) (ys @ [x]) \<and> subseq xs (ys @ [x])"
  by (simp add: list_emb_append_mono subseq_rev_drop_many)

lemma push_packet_rings:
  assumes "rings_inv p" "pipeline_push_packet slot p = (q, r)"
  shows "rings_inv q"
proof -
  obtain rb where rb: "rb_push (g_rb_pkt p) slot = (rb, r)" using assms(2)
    by (auto simp: pipeline_push_packet_def split: prod.splits)
  have "rb_wf (g_rb_pkt p)" using assms(1) by (simp add: rings_inv_def)
  from rb.push_result [OF this rb] consider "r = 0" "rb_wf rb" "rb_list rb = rb_list (g_rb_pkt p) @ [slot]"
    | "r = - 1" "rb_wf rb" "rb_list rb = rb_list (g_rb_pkt p)" by blast
  then show ?thesis
    by cases (use assms rb in \<open>auto simp: rings_inv_def pipeline_push_packet_def\<close>)
qed

lemma push_event_rings:
  assumes "rings_inv p" "pipeline_push_event e p = (q, r)"
  shows "rings_inv q"
proof -
  obtain rb where rb: "rb_push (g_rb_evt p) e = (rb, r)" using assms(2)
    by (auto simp: pipeline_push_event_def split: prod.splits)
  have wf: "rb_wf (g_rb_evt p)" using assms(1) by (simp add: rings_inv_def)
  note f = rb.push_result [OF this rb]
  have sq: "subseq (accepted p) (produced p)" using assms(1) unfolding rings_inv_def by blast
  from f consider "r = 0" "rb_list rb = rb_list (g_rb_evt p) @ [e]" "overflow_count rb = overflow_count (g_rb_evt p)"
    | "r = - 1" "rb_list rb = rb_list (g_rb_evt p)" "overflow_count rb = overflow_count (g_rb_evt p) + 1" by blast
  then show ?thesis
    by cases (use assms rb f subseq_snoc [OF sq, of e] in
        \<open>auto simp: rings_inv_def pipeline_push_event_def algebra_simps\<close>)
qed

lemma pop_packet_rings:
  assumes "rings_inv p" "rb_pop (g_rb_pkt p) = (rb, Some slot)"
  shows "rings_inv (p\<lparr>g_rb_pkt := rb, p_ids := st, analyzed := analyzed p @ [slot], ana_pc := pc\<rparr>)"
proof -
  have "rb_wf (g_rb_pkt p)" using assms(1) by (simp add: rings_inv_def)
  from rb.pop_result [OF this assms(2)] assms(1) show ?thesis by (auto simp: rings_inv_def)
qed

lemma pop_event_rings:
  assumes "rings_inv p" "discarded p = []" "rb_pop (g_rb_evt p) = (rb, Some e)"
  shows "rings_inv (p\<lparr>g_rb_evt := rb, batch := batch p @ [e]\<rparr>)"
proof -
  have "rb_wf (g_rb_evt p)" using assms(1) by (simp add: rings_inv_def)
  from rb.pop_result [OF this assms(3)] assms(1,2) show ?thesis by (auto simp: rings_inv_def)
qed

lemma publish_round_rings: "rings_inv p \<Longrightarrow> discarded p = [] \<Longrightarrow> rings_inv (publish_round bsz to d ok p)"
  by (auto simp: publish_round_def Let_def rings_inv_def)

lemma rings_inv_frame [simp]:
  "rings_inv (p\<lparr>g_capture_done := b\<rparr>) = rings_inv p" "rings_inv (p\<lparr>g_analysis_done := b\<rparr>) = rings_inv p"
  "rings_inv (p\<lparr>ana_pc := pc\<rparr>) = rings_inv p" "rings_inv (p\<lparr>pub_pc := pc'\<rparr>) = rings_inv p"
  by (simp_all add: rings_inv_def)

lemma publish_running: "publish_inv bsz p \<Longrightarrow> pub_pc p \<noteq> P_Done \<Longrightarrow> discarded p = []"
  by (auto simp: publish_inv_def)

lemma step_rings: "pipe_step bsz p q \<Longrightarrow> publish_inv bsz p \<Longrightarrow> rings_inv p \<Longrightarrow> rings_inv q"
proof (induction rule: pipe_step.induct)
  case (capture p caplen packet sec)
  then show ?case unfolding packet_handler_live_def by (metis push_packet_rings prod.collapse)
next
  case (publish_event p e)
  obtain q r where q: "pipeline_push_event e p = (q, r)" by (cases "pipeline_push_event e p")
  from push_event_rings [OF publish_event(3) q] show ?case by (simp add: q)
next
  case (analyze p rb slot st r evt)
  then show ?case by (intro pop_packet_rings)
next
  case (collect p rb e)
  then show ?case by (intro pop_event_rings) (auto intro: publish_running)
next
  case (flush p timed_out sent_ok)
  then show ?case by (intro publish_round_rings) (auto intro: publish_running)
qed simp_all

lemma push_packet_frame:
  "p_ids (fst (pipeline_push_packet s p)) = p_ids p" "analyzed (fst (pipeline_push_packet s p)) = analyzed p"
  "produced (fst (pipeline_push_packet s p)) = produced p" "ana_pc (fst (pipeline_push_packet s p)) = ana_pc p"
  "g_analysis_done (fst (pipeline_push_packet s p)) = g_analysis_done p"
  "g_capture_done (fst (pipeline_push_packet s p)) = g_capture_done p"
  "batch (fst (pipeline_push_packet s p)) = batch p" "batches (fst (pipeline_push_packet s p)) = batches p"
  "g_batches_sent (fst (pipeline_push_packet s p)) = g_batches_sent p"
  "g_events_sent (fst (pipeline_push_packet s p)) = g_events_sent p"
  "pub_pc (fst (pipeline_push_packet s p)) = pub_pc p" "send_failed (fst (pipeline_push_packet s p)) = send_failed p"
  "discarded (fst (pipeline_push_packet s p)) = discarded p"
  by (simp_all add: pipeline_push_packet_def split: prod.split)

lemma push_event_frame:
  "p_ids (fst (pipeline_push_event e p)) = p_ids p" "analyzed (fst (pipeline_push_event e p)) = analyzed p"
  "produced (fst (pipeline_push_event e p)) = produced p @ [e]"
  "g_analysis_done (fst (pipeline_push_event e p)) = g_analysis_done p"
  "g_capture_done (fst (pipeline_push_event e p)) = g_capture_done p"
  "batch (fst (pipeline_push_event e p)) = batch p" "batches (fst (pipeline_push_event e p)) = batches p"
  "g_batches_sent (fst (pipeline_push_event e p)) = g_batches_sent p"
  "g_events_sent (fst (pipeline_push_event e p)) = g_events_sent p"
  "pub_pc (fst (pipeline_push_event e p)) = pub_pc p" "send_failed (fst (pipeline_push_event e p)) = send_failed p"
  "discarded (fst (pipeline_push_event e p)) = discarded p"
  by (simp_all add: pipeline_push_event_def split: prod.split)

lemma publish_round_frame:
  "p_ids (publish_round bsz to d ok p) = p_ids p" "analyzed (publish_round bsz to d ok p) = analyzed p"
  "produced (publish_round bsz to d ok p) = produced p" "ana_pc (publish_round bsz to d ok p) = ana_pc p"
  "g_analysis_done (publish_round bsz to d ok p) = g_analysis_done p"
  "g_capture_done (publish_round bsz to d ok p) = g_capture_done p"
  by (simp_all add: publish_round_def Let_def)

lemmas pipe_frame = push_packet_frame push_event_frame publish_round_frame

lemma step_analysis: "pipe_step bsz p q \<Longrightarrow> analysis_inv st0 p \<Longrightarrow> analysis_inv st0 q"
proof (induction rule: pipe_step.induct)
  case (capture p caplen packet sec)
  then show ?case by (auto simp: analysis_inv_def packet_handler_live_def pipe_frame)
next
  case (analyze p rb slot st r evt)
  from analyze(4) obtain rs where "analyze_all st0 (List.map slot_packet (analyzed p)) = Some (p_ids p, rs, produced p)"
    using analyze(1) by (auto simp: analysis_inv_def in_hand_def)
  from analyze_all_snoc [OF this analyze(3)] analyze(1,4) show ?case
    by (auto simp: analysis_inv_def in_hand_def slot_packet_def split: option.split)
next
  case (publish_event p e)
  then show ?case by (auto simp: analysis_inv_def in_hand_def pipe_frame)
next
  case (flush p timed_out sent_ok)
  then show ?case by (simp add: analysis_inv_def pipe_frame)
qed (auto simp: analysis_inv_def in_hand_def)

lemma publish_round_inv:
  "publish_inv bsz p \<Longrightarrow> pub_pc p = P_Flush \<Longrightarrow> 0 < bsz \<Longrightarrow> (to \<longrightarrow> batch p \<noteq> []) \<Longrightarrow>
   publish_inv bsz (publish_round bsz to (g_analysis_done p) ok p)"
  by (auto simp: publish_inv_def publish_round_def Let_def)

lemma step_publish: "pipe_step bsz p q \<Longrightarrow> 0 < bsz \<Longrightarrow> publish_inv bsz p \<Longrightarrow> publish_inv bsz q"
proof (induction rule: pipe_step.induct)
  case (capture p caplen packet sec)
  then show ?case by (simp add: publish_inv_def packet_handler_live_def pipe_frame)
next
  case (publish_event p e)
  then show ?case by (simp add: publish_inv_def pipe_frame)
next
  case (flush p timed_out sent_ok)
  then show ?case by (intro publish_round_inv)
qed (auto simp: publish_inv_def)

lemma start_inv:
  assumes "n \<le> 2 ^ 63"
  shows "rings_inv (pipe_start n st zp ze)" "analysis_inv st (pipe_start n st zp ze)" "publish_inv bsz (pipe_start n st zp ze)"
proof -
  have w2: "rb_wf (fst (rb_init True z rb0 n)) \<and> rb_list (fst (rb_init True z rb0 n)) = [] \<and>
      overflow_count (fst (rb_init True z rb0 n)) = 0" for z :: event_slot and rb0
    using rb_init_wf [OF assms, of z rb0] by (cases "rb_init True z rb0 n") auto
  have w1: "rb_wf (fst (rb_init True z rb0 n)) \<and> rb_list (fst (rb_init True z rb0 n)) = []" for z :: pkt_slot and rb0
    using rb_init_wf [OF assms, of z rb0] by (cases "rb_init True z rb0 n") auto
  show "rings_inv (pipe_start n st zp ze)" using w1 w2 by (simp add: rings_inv_def pipe_start_def)
  show "analysis_inv st (pipe_start n st zp ze)" by (simp add: analysis_inv_def pipe_start_def in_hand_def)
  show "publish_inv bsz (pipe_start n st zp ze)" by (simp add: publish_inv_def pipe_start_def)
qed

lemma reach_inv:
  assumes "pipe_reach bsz (pipe_start n st zp ze) p" "n \<le> 2 ^ 63" "0 < bsz"
  shows "rings_inv p \<and> analysis_inv st p \<and> publish_inv bsz p"
  using assms(1)
proof induction
  case start
  then show ?case using start_inv [OF assms(2)] by simp
next
  case (step p q)
  then show ?case using step_rings step_analysis step_publish assms(3) by blast
qed

section \<open>Properties\<close>

lemma rb_room:
  assumes "n \<le> 2 ^ 63"
  obtains rb1 where "rb_push (fst (rb_init True z rb0 n)) x = (rb1, 0)" "rb_wf rb1" "rb_list rb1 = [x]"
proof -
  let ?rb = "fst (rb_init True z rb0 n)"
  obtain rb r where i: "rb_init True z rb0 n = (rb, r)" by (cases "rb_init True z rb0 n")
  from rb_init_wf [OF assms i] have wf: "rb_wf ?rb" "rb_list ?rb = []" "capacity ?rb = next_pow2 n"
    by (simp_all add: i)
  obtain k where k: "1 \<le> k" "k < 64" "next_pow2 n = 2 ^ k" using assms by (rule next_pow2_bounds)
  have "length (rb_list ?rb) < unat (capacity ?rb)" using k unat_two_power [of k] by (simp add: wf)
  from rb.push_accepts [OF wf(1) this, of x] that show thesis by (auto simp: wf)
qed

text \<open>Both rings take a first element at the start, and the packet comes out again.\<close>

lemma start_room:
  assumes n: "n \<le> 2 ^ 63"
  shows "\<exists>rb1 rb2 re1. rb_push (g_rb_pkt (pipe_start n st zp ze)) slot = (rb1, 0) \<and> rb_pop rb1 = (rb2, Some slot) \<and> rb_list rb2 = [] \<and>
    rb_push (g_rb_evt (pipe_start n st zp ze)) e = (re1, 0) \<and> rb_wf re1 \<and> rb_list re1 = [e]"
proof -
  let ?r0 = "\<lparr>capacity = 0, rb_mask = 0, slots = [], head = 0, tail = 0, overflow_count = 0\<rparr>"
  let ?e0 = "\<lparr>capacity = 0, rb_mask = 0, slots = [], head = 0, tail = 0, overflow_count = 0\<rparr>"
  obtain rb1 where rb1: "rb_push (g_rb_pkt (pipe_start n st zp ze)) slot = (rb1, 0)" "rb_wf rb1" "rb_list rb1 = [slot]"
    using rb_room [OF n, of zp ?r0 slot] by (auto simp: pipe_start_def)
  obtain rb2 where rb2: "rb_pop rb1 = (rb2, Some slot)" "rb_list rb2 = []"
    using rb.pop_oldest [OF rb1(2,3)] by blast
  obtain re1 where re1: "rb_push (g_rb_evt (pipe_start n st zp ze)) e = (re1, 0)" "rb_wf re1" "rb_list re1 = [e]"
    using rb_room [OF n, of ze ?e0 e] by (auto simp: pipe_start_def)
  show ?thesis using rb1(1) rb2 re1 by blast
qed

text \<open>
  The analysis thread on its own: from an empty input buffer one packet is captured, analysed and its
  event pushed, then the capture ends and the thread with it.
\<close>

lemma analysis_delivers:
  assumes reach: "pipe_reach bsz p0 p" and pc: "ana_pc p = A_Pop" "\<not> g_capture_done p"
    and pk: "int (length packet) \<le> SNAP_LEN" "slot = live_slot sec (int (length packet)) packet"
    and rb1: "rb_push (g_rb_pkt p) slot = (rb1, 0)" and rb2: "rb_pop rb1 = (rb2, Some slot)" "rb_list rb2 = []"
    and ev: "analyze_packet (p_ids p) packet (int (length packet)) sec = Some (st', r, Some e)"
    and re1: "rb_push (g_rb_evt p) e = (re1, 0)"
  shows "pipe_reach bsz p0 (p\<lparr>captured := captured p @ [slot], g_rb_pkt := rb2, p_ids := st',
     analyzed := analyzed p @ [slot], g_rb_evt := re1, produced := produced p @ [e], accepted := accepted p @ [e],
     g_capture_done := True, ana_pc := A_Done, g_analysis_done := True\<rparr>)"
proof -
  let ?p1 = "p\<lparr>g_rb_pkt := rb1, captured := captured p @ [slot]\<rparr>"
  let ?p2 = "?p1\<lparr>g_rb_pkt := rb2, p_ids := st', analyzed := analyzed p @ [slot], ana_pc := A_Push e\<rparr>"
  let ?p3 = "?p2\<lparr>g_rb_evt := re1, produced := produced p @ [e], accepted := accepted p @ [e], ana_pc := A_Pop\<rparr>"
  let ?p4 = "?p3\<lparr>ana_pc := A_Check\<rparr>"
  have sl: "slot_data slot = packet" "slot_len slot = int (length packet)" "slot_sec slot = sec"
    using pk by (simp_all add: live_slot_def)
  have "packet_handler_live sec (int (length packet)) packet p = ?p1"
    using rb1 pk(2) by (simp add: packet_handler_live_def pipeline_push_packet_def)
  then have "pipe_step bsz p ?p1" using capture [of p "int (length packet)" packet bsz sec] pc(2) by simp
  moreover have "pipe_step bsz ?p1 ?p2"
    using analyze [of ?p1 rb2 slot st' r "Some e" bsz] rb2(1) ev sl pc(1) by simp
  moreover have "pipe_step bsz ?p2 ?p3"
    using publish_event [of ?p2 e bsz] re1 by (simp add: pipeline_push_event_def)
  moreover have "pipe_step bsz ?p3 ?p4"
    by (rule analysis_empty) (use rb_pop_empty [OF rb2(2)] in simp_all)
  moreover have "pipe_step bsz ?p4 (?p4\<lparr>g_capture_done := True\<rparr>)" by (rule capture_end)
  moreover have "pipe_step bsz (?p4\<lparr>g_capture_done := True\<rparr>)
      (?p4\<lparr>g_capture_done := True, ana_pc := A_Done, g_analysis_done := True\<rparr>)"
    using analysis_check [of "?p4\<lparr>g_capture_done := True\<rparr>" bsz] by simp
  ultimately have "pipe_reach bsz p0 (?p4\<lparr>g_capture_done := True, ana_pc := A_Done, g_analysis_done := True\<rparr>)"
    using reach by (meson pipe_reach.step)
  then show ?thesis by simp
qed

text \<open>The events produced are the overflows and the parts of the list of the accepted ones.\<close>

lemma books:
  fixes n_over sent total :: u64
  assumes "n_over + of_nat (length acc) = total" and "acc = bs @ b @ d @ l" and "sent = of_nat (length bs)"
  shows "total = n_over + sent + of_nat (length b + length d + length l)"
  using assms(1) [symmetric] unfolding assms(2,3) by (simp add: algebra_simps)

text \<open>
  C4. Whatever the interleaving of the threads, the clock and the broker: the packets analysed are
  the accepted ones in capture order; the events produced are what the analyzer yields on them; the
  events accepted are, in order and none twice, those of the batches published, the batch in hand, the
  batch discarded, and the event buffer; no batch is empty or larger than configured. The books
  balance: an event produced and not sent is counted as an overflow, is still in hand or in the buffer,
  or was discarded, which happens to one batch at most and only when the broker refuses it after the
  analysis has ended. So at the end of all threads the events lost are the overflows, which the program
  counts, the batch discarded, and what the buffer still holds, which it does not count.
\<close>

theorem pipeline_telemetry_in_order:
  assumes "pipe_reach bsz (pipe_start n st zp ze) p" and "n \<le> 2 ^ 63" and "0 < bsz"
  shows "captured p = analyzed p @ rb_list (g_rb_pkt p) \<and>
    (\<exists>rs. analyze_all st (List.map slot_packet (analyzed p)) =
       Some (p_ids p, rs, produced p @ in_hand (ana_pc p))) \<and>
    accepted p = concat (batches p) @ batch p @ discarded p @ rb_list (g_rb_evt p) \<and> subseq (accepted p) (produced p) \<and>
    rb_overflow (g_rb_evt p) + of_nat (length (accepted p)) = of_nat (length (produced p)) \<and>
    (\<forall>b \<in> set (batches p). b \<noteq> [] \<and> length b \<le> bsz) \<and>
    g_events_sent p = of_nat (length (concat (batches p))) \<and>
    of_nat (length (produced p)) = rb_overflow (g_rb_evt p) + g_events_sent p +
      of_nat (length (batch p) + length (discarded p) + length (rb_list (g_rb_evt p))) \<and>
    (discarded p \<noteq> [] \<longrightarrow> send_failed p \<and> g_analysis_done p \<and> length (discarded p) \<le> bsz) \<and>
    (pub_pc p = P_Done \<longrightarrow> batch p = [])"
proof -
  have inv: "rings_inv p" "analysis_inv st p" "publish_inv bsz p" using reach_inv [OF assms] by simp_all
  then have "overflow_count (g_rb_evt p) + of_nat (length (accepted p)) = of_nat (length (produced p))"
    "accepted p = concat (batches p) @ batch p @ discarded p @ rb_list (g_rb_evt p)"
    "g_events_sent p = of_nat (length (concat (batches p)))"
    unfolding rings_inv_def publish_inv_def by blast+
  from books [OF this] have "of_nat (length (produced p)) = rb_overflow (g_rb_evt p) + g_events_sent p +
      of_nat (length (batch p) + length (discarded p) + length (rb_list (g_rb_evt p)))"
    unfolding rb_overflow_def .
  with inv show ?thesis
    unfolding rings_inv_def analysis_inv_def publish_inv_def rb_overflow_def by blast
qed

text \<open>A run that captures a packet, publishes its event in a batch and ends.\<close>

lemma event_is_published:
  assumes ev: "analyze_packet st packet (int (length packet)) sec = Some (st', r, Some e)"
    and len: "int (length packet) \<le> SNAP_LEN" and n: "n \<le> 2 ^ 63" and "0 < bsz"
  shows "\<exists>q. pipe_reach bsz (pipe_start n st zp ze) q \<and> batches q = [[e]] \<and> accepted q = [e] \<and> g_analysis_done q"
proof -
  let ?p0 = "pipe_start n st zp ze"
  let ?slot = "live_slot sec (int (length packet)) packet"
  obtain rb1 rb2 re1 where rb: "rb_push (g_rb_pkt ?p0) ?slot = (rb1, 0)" "rb_pop rb1 = (rb2, Some ?slot)" "rb_list rb2 = []"
    and re1: "rb_push (g_rb_evt ?p0) e = (re1, 0)" "rb_wf re1" "rb_list re1 = [e]"
    using start_room [OF n, where st = st and zp = zp and ze = ze and slot = ?slot and e = e] by blast
  have f: "ana_pc ?p0 = A_Pop" "\<not> g_capture_done ?p0" "p_ids ?p0 = st" "batch ?p0 = []" "batches ?p0 = []" "pub_pc ?p0 = P_Pop"
    "accepted ?p0 = []"
    by (simp_all add: pipe_start_def)
  let ?p1 = "?p0\<lparr>captured := captured ?p0 @ [?slot], g_rb_pkt := rb2, p_ids := st',
     analyzed := analyzed ?p0 @ [?slot], g_rb_evt := re1, produced := produced ?p0 @ [e], accepted := accepted ?p0 @ [e],
     g_capture_done := True, ana_pc := A_Done, g_analysis_done := True\<rparr>"
  have s1: "pipe_reach bsz ?p0 ?p1"
    by (rule analysis_delivers [OF pipe_reach.start _ _ len refl _ rb(2,3)]) (use f rb(1) re1(1) ev in simp_all)
  obtain re2 where re2: "rb_pop re1 = (re2, Some e)" "rb_list re2 = []" using rb.pop_oldest [OF re1(2,3)] by blast
  let ?p2 = "?p1\<lparr>g_rb_evt := re2, batch := batch ?p1 @ [e]\<rparr>"
  let ?p3 = "?p2\<lparr>pub_pc := P_Flush\<rparr>"
  let ?p4 = "publish_round bsz False (g_analysis_done ?p3) True ?p3"
  have "pipe_step bsz ?p1 ?p2" by (rule collect) (use f re2(1) \<open>0 < bsz\<close> in simp_all)
  moreover have "pipe_step bsz ?p2 ?p3" by (rule publish_empty [OF _ rb_pop_empty]) (use f re2(2) in simp_all)
  moreover have "pipe_step bsz ?p3 ?p4" by (rule flush) simp_all
  ultimately have "pipe_reach bsz ?p0 ?p4" using s1 by (meson pipe_reach.step)
  moreover have "batches ?p4 = [[e]]" "accepted ?p4 = [e]" "g_analysis_done ?p4" by (simp_all add: publish_round_def f)
  ultimately show ?thesis by blast
qed

theorem pipeline_telemetry_in_order_witness:
  "\<exists>e q. pipe_reach 50 (pipe_start 4096 arp_known_ids \<lparr>slot_sec = 0, slot_len = 0, slot_data = []\<rparr> undefined) q \<and>
     g_analysis_done q \<and> batches q = [[e]] \<and> batch q = [] \<and> discarded q = [] \<and> rb_list (g_rb_evt q) = [] \<and> g_events_sent q = 1"
proof -
  obtain st' e where a: "analyze_packet arp_known_ids arp_spoof_packet (int (length arp_spoof_packet)) 5 = Some (st', 1, Some e)"
    using arp_spoof_detected by auto
  have h: "int (length arp_spoof_packet) \<le> SNAP_LEN" "(4096 :: u64) \<le> 2 ^ 63" "(0 :: nat) < 50"
    by (simp_all add: SNAP_LEN_def word_le_nat_alt)
  obtain q where q: "pipe_reach 50 (pipe_start 4096 arp_known_ids \<lparr>slot_sec = 0, slot_len = 0, slot_data = []\<rparr> undefined) q"
    "batches q = [[e]]" "accepted q = [e]" "g_analysis_done q"
    using event_is_published [OF a h] by blast
  from pipeline_telemetry_in_order [OF q(1) h(2,3)] q have "batch q @ discarded q @ rb_list (g_rb_evt q) = []" "g_events_sent q = 1"
    by auto
  with q show ?thesis by auto
qed

text \<open>
  C11. The shutdown can lose telemetry although the broker never fails: the publish thread tests
  \<open>g_analysis_done\<close> only after its pop has failed, so an event pushed between the failed pop and the
  test is still in the buffer when all three threads have ended, and it is never sent.
\<close>

theorem pipeline_shutdown_loses_event:
  assumes ev: "analyze_packet st packet (int (length packet)) sec = Some (st', r, Some e)"
    and len: "int (length packet) \<le> SNAP_LEN" and n: "n \<le> 2 ^ 63" and "0 < bsz"
  shows "\<exists>q. pipe_reach bsz (pipe_start n st zp ze) q \<and> g_capture_done q \<and> ana_pc q = A_Done \<and> pub_pc q = P_Done \<and>
    \<not> send_failed q \<and> batches q = [] \<and> batch q = [] \<and> rb_list (g_rb_evt q) = [e]"
proof -
  let ?p0 = "pipe_start n st zp ze"
  let ?slot = "live_slot sec (int (length packet)) packet"
  obtain rb1 rb2 re1 where rb1: "rb_push (g_rb_pkt ?p0) ?slot = (rb1, 0)" and rb2: "rb_pop rb1 = (rb2, Some ?slot)" "rb_list rb2 = []"
    and re1: "rb_push (g_rb_evt ?p0) e = (re1, 0)" "rb_list re1 = [e]"
    using start_room [OF n, where st = st and zp = zp and ze = ze and slot = ?slot and e = e] by blast
  have "rings_inv ?p0" by (rule start_inv(1) [OF n])
  then have e0: "rb_list (g_rb_evt ?p0) = []" by (simp add: rings_inv_def pipe_start_def)
  let ?p1 = "?p0\<lparr>pub_pc := P_Flush\<rparr>"
  have s1: "pipe_reach bsz ?p0 ?p1"
    by (rule pipe_reach.step [OF pipe_reach.start], rule publish_empty [OF _ rb_pop_empty [OF e0]])
      (simp add: pipe_start_def)
  have f: "ana_pc ?p0 = A_Pop" "\<not> g_capture_done ?p0" "p_ids ?p0 = st" "batch ?p0 = []" "batches ?p0 = []" "\<not> send_failed ?p0"
    by (simp_all add: pipe_start_def)
  let ?p7 = "?p1\<lparr>captured := captured ?p1 @ [?slot], g_rb_pkt := rb2, p_ids := st',
     analyzed := analyzed ?p1 @ [?slot], g_rb_evt := re1, produced := produced ?p1 @ [e], accepted := accepted ?p1 @ [e],
     g_capture_done := True, ana_pc := A_Done, g_analysis_done := True\<rparr>"
  have s7: "pipe_reach bsz ?p0 ?p7"
    by (rule analysis_delivers [OF s1 _ _ len refl _ rb2]) (use f rb1 re1(1) ev in simp_all)
  have "pipe_step bsz ?p7 (publish_round bsz False (g_analysis_done ?p7) True ?p7)"
    by (rule flush) (simp_all add: pipe_start_def)
  from pipe_reach.step [OF s7 this]
  have "pipe_reach bsz ?p0 (publish_round bsz False True True ?p7)" by simp
  moreover have "publish_round bsz False True True ?p7 = ?p7\<lparr>pub_pc := P_Done\<rparr>"
    using \<open>0 < bsz\<close> f by (simp add: publish_round_def)
  ultimately have "pipe_reach bsz ?p0 (?p7\<lparr>pub_pc := P_Done\<rparr>)" by simp
  then show ?thesis using f re1(2) by (intro exI [of _ "?p7\<lparr>pub_pc := P_Done\<rparr>"]) simp
qed

theorem pipeline_shutdown_loses_event_witness:
  "\<exists>e q. pipe_reach 50 (pipe_start 4096 arp_known_ids \<lparr>slot_sec = 0, slot_len = 0, slot_data = []\<rparr> undefined) q \<and>
    ana_pc q = A_Done \<and> pub_pc q = P_Done \<and> \<not> send_failed q \<and> rb_list (g_rb_evt q) = [e]"
proof -
  obtain st' e where a: "analyze_packet arp_known_ids arp_spoof_packet (int (length arp_spoof_packet)) 5 = Some (st', 1, Some e)"
    using arp_spoof_detected by auto
  have h: "int (length arp_spoof_packet) \<le> SNAP_LEN" "(4096 :: u64) \<le> 2 ^ 63" "(0 :: nat) < 50"
    by (simp_all add: SNAP_LEN_def word_le_nat_alt)
  from pipeline_shutdown_loses_event [OF a h] show ?thesis by blast
qed

end
