(* ===== verification/Nta_Util.thy ===== *)
theory Nta_Util
  imports Nta_Json
begin

text \<open>
  The helpers every module of the server carries a copy of (\<open>src/server/*.c\<close>): integers from the
  environment, \<open>.env\<close> files, private addresses, the FNV-1a hash and the chained hash tables built
  on it, the response buffer of libcurl, and \<open>printf\<close> conversions. The laws the tables promise
  their users are two locales, interpreted on the bucket operations: \<open>kv_store\<close> for the caches,
  where the last put wins, and \<open>kv_first\<close> for the indicator table, where the first insert wins.
\<close>

section \<open>Integers in text\<close>

definition fmt_d :: "int \<Rightarrow> string" where
  "fmt_d n = (if n < 0 then CHR ''-'' # dec_digits (nat (- n)) else dec_digits (nat n))"

definition pad0 :: "nat \<Rightarrow> string \<Rightarrow> string" where
  "pad0 n s = replicate (n - length s) (CHR ''0'') @ s"

definition nl :: string where "nl = [CHR 0x0A]"
definition dq :: string where "dq = [CHR 0x22]"
definition em_dash :: string where "em_dash = [CHR 0xE2, CHR 0x80, CHR 0x94]"

lemma fmt_d_nonempty [simp]: "fmt_d n \<noteq> []"
  by (simp add: fmt_d_def)

lemma takeWhile_digits: "takeWhile is_digit (dec_digits n) = dec_digits n"
  using dec_digits_all [of n] by (simp add: list_all_iff)

lemma is_digit_not_space: "is_digit c \<Longrightarrow> \<not> isspace c"
  by (auto simp: is_digit_def isspace_def)

lemma is_digit_not_sign: "is_digit c \<Longrightarrow> c \<noteq> CHR ''-'' \<and> c \<noteq> CHR ''+''"
  by (auto simp: is_digit_def)

lemma strtol_fmt_d:
  assumes "- (2 ^ 63) \<le> n" "n < 2 ^ 63"
  shows "strtol (fmt_d n) = (n, True)"
proof (cases "n < 0")
  case True
  have "\<not> isspace (CHR ''-'')" by (simp add: isspace_def)
  then show ?thesis using True assms
    by (simp add: fmt_d_def strtol_def takeWhile_digits clamp_long_def)
next
  case False
  obtain c r where d: "dec_digits (nat n) = c # r"
    using dec_digits_nonempty [of "nat n"] by (cases "dec_digits (nat n)") auto
  then have c: "is_digit c" using dec_digits_all [of "nat n"] by simp
  have "dropWhile isspace (c # r) = c # r" using is_digit_not_space [OF c] by simp
  moreover have "takeWhile is_digit (c # r) = c # r" "digits_val (c # r) = nat n"
    using takeWhile_digits [of "nat n"] digits_val_dec_digits [of "nat n"] d by simp_all
  ultimately show ?thesis using False assms is_digit_not_sign [OF c]
    by (simp add: fmt_d_def strtol_def d clamp_long_def)
qed

text \<open>The length of a number, for the buffers it is printed to.\<close>

lemma dec_digits_len: "n < 10 ^ k \<Longrightarrow> 0 < k \<Longrightarrow> length (dec_digits n) \<le> k"
proof (induction n arbitrary: k rule: dec_digits.induct)
  case (1 n)
  show ?case
  proof (cases "n < 10")
    case True
    then show ?thesis using "1.prems" by (subst dec_digits.simps) simp
  next
    case False
    then obtain j where k: "k = Suc j" "0 < j" using "1.prems" by (cases k; cases "k - 1") auto
    have "length (dec_digits (n div 10)) \<le> j" using 1 False k by (intro "1.IH") auto
    then show ?thesis using False k by (subst dec_digits.simps) simp
  qed
qed

text \<open>
  The two readings of an integer variable: \<open>nta_server.c\<close> and \<open>nta_narrator.c\<close> refuse a negative
  number, \<open>nta_abuse.c\<close> and \<open>nta_scaler.c\<close> take it.
\<close>

definition env_nat :: "env \<Rightarrow> string \<Rightarrow> int \<Rightarrow> int" where
  "env_nat e name fallback =
     (case e name of
        None \<Rightarrow> fallback
      | Some v \<Rightarrow> if v = [] then fallback
                  else (case strtol v of (n, found) \<Rightarrow> if \<not> found \<or> n < 0 then fallback else to_int32 n))"

definition env_any_int :: "env \<Rightarrow> string \<Rightarrow> int \<Rightarrow> int" where
  "env_any_int e name fallback =
     (case e name of
        None \<Rightarrow> fallback
      | Some v \<Rightarrow> if v = [] then fallback
                  else (case strtol v of (n, found) \<Rightarrow> if \<not> found then fallback else to_int32 n))"

section \<open>\<open>.env\<close> files\<close>

definition is_blank :: "char \<Rightarrow> bool" where
  "is_blank c \<longleftrightarrow> c = CHR '' '' \<or> c = CHR 0x09"

definition is_trailing :: "char \<Rightarrow> bool" where
  "is_trailing c \<longleftrightarrow> c = CHR 0x0A \<or> c = CHR 0x0D \<or> c = CHR '' '' \<or> c = CHR 0x09"

definition strip_inplace :: "string \<Rightarrow> string" where
  "strip_inplace s = rev (dropWhile is_trailing (rev (dropWhile is_blank s)))"

text \<open>\<open>fgets (line, 1024, fp)\<close>: at most 1023 characters, up to and including a newline.\<close>

function fgets_lines :: "string \<Rightarrow> string list" where
  "fgets_lines s =
     (if s = [] then []
      else let a = takeWhile (\<lambda>c. c \<noteq> CHR 0x0A) s
           in if length a < length s \<and> length a + 1 \<le> 1023
              then take (length a + 1) s # fgets_lines (drop (length a + 1) s)
              else take 1023 s # fgets_lines (drop 1023 s))"
  by pat_completeness auto
termination by (relation "measure length") (auto simp: Let_def)

declare fgets_lines.simps [simp del]

definition env_line :: "string \<Rightarrow> env \<Rightarrow> env" where
  "env_line line e =
     (let p = strip_inplace line
      in if p = [] \<or> hd p = CHR ''#'' then e
         else case split_at_char (CHR ''='') p of
                None \<Rightarrow> e
              | Some (k0, v0) \<Rightarrow>
                  (let k = strip_inplace k0; v = strip_inplace v0
                   in if k \<noteq> [] \<and> e k = None then e(k \<mapsto> v) else e))"

text \<open>\<open>load_env_file\<close>: a file that cannot be opened (\<open>None\<close>) changes nothing.\<close>

definition load_env_file :: "string option \<Rightarrow> env \<Rightarrow> env" where
  "load_env_file file e =
     (case file of None \<Rightarrow> e | Some s \<Rightarrow> foldl (\<lambda>e l. env_line l e) e (fgets_lines s))"

lemma env_line_keeps: "e k = Some v \<Longrightarrow> env_line l e k = Some v"
  by (auto simp: env_line_def Let_def split: option.splits prod.splits)

lemma load_env_file_keeps: "e k = Some v \<Longrightarrow> load_env_file f e k = Some v"
proof -
  have "e k = Some v \<Longrightarrow> foldl (\<lambda>e l. env_line l e) e ls k = Some v" for ls
    by (induction ls arbitrary: e) (auto simp: env_line_keeps)
  then show "e k = Some v \<Longrightarrow> load_env_file f e k = Some v"
    by (auto simp: load_env_file_def split: option.splits)
qed

section \<open>Addresses\<close>

definition is_private_ip :: "string \<Rightarrow> bool" where
  "is_private_ip ip \<longleftrightarrow> ip = [] \<or> has_prefix ''127.'' ip \<or> has_prefix ''192.168.'' ip \<or>
     has_prefix ''10.'' ip \<or> has_prefix ''172.'' ip"

text \<open>FNV-1a on 32-bit words.\<close>

definition fnv_step :: "u32 \<Rightarrow> char \<Rightarrow> u32" where
  "fnv_step h c = (h XOR of_char c) * 16777619"

definition hash_ip :: "string \<Rightarrow> u32" where
  "hash_ip s = foldl fnv_step 2166136261 s"

definition IP_KEY_MAX :: nat where "IP_KEY_MAX = 46"

section \<open>Chained tables\<close>

text \<open>An array of chains; a chain is searched from its head for the first entry with the key.\<close>

type_synonym 'v table = "(string \<times> 'v) list list"

definition new_table :: "nat \<Rightarrow> 'v table" where
  "new_table n = replicate n []"

definition bucket_of :: "'v table \<Rightarrow> string \<Rightarrow> nat" where
  "bucket_of t ip = unat (hash_ip ip) mod length t"

definition table_find :: "'v table \<Rightarrow> string \<Rightarrow> 'v option" where
  "table_find t ip = map_of (t ! bucket_of t ip) ip"

definition table_push :: "'v table \<Rightarrow> string \<Rightarrow> 'v \<Rightarrow> 'v table" where
  "table_push t ip v = t[bucket_of t ip := (cstr_copy IP_KEY_MAX ip, v) # t ! bucket_of t ip]"

text \<open>The entry with the key is overwritten where it stands.\<close>

fun chain_update :: "string \<Rightarrow> 'v \<Rightarrow> (string \<times> 'v) list \<Rightarrow> (string \<times> 'v) list" where
  "chain_update k v [] = []"
| "chain_update k v ((k', v') # es) = (if k' = k then (k', v) # es else (k', v') # chain_update k v es)"

lemma map_of_chain_update:
  "map_of (chain_update k v es) =
     (if map_of es k = None then map_of es else (map_of es)(k \<mapsto> v))"
  by (induction es) (auto simp: fun_eq_iff)

definition table_ok :: "'v table \<Rightarrow> bool" where
  "table_ok t \<longleftrightarrow> t \<noteq> []"

lemma new_table_ok [simp]: "table_ok (new_table n) \<longleftrightarrow> n \<noteq> 0"
  by (simp add: table_ok_def new_table_def)

lemma bucket_in: "table_ok t \<Longrightarrow> bucket_of t ip < length t"
  by (simp add: table_ok_def bucket_of_def)

lemma new_table_find [simp]: "0 < n \<Longrightarrow> table_find (new_table n) ip = None"
  by (simp add: table_find_def new_table_def bucket_of_def)

lemma table_find_update:
  assumes "table_ok t" and "map_of es = (map_of (t ! bucket_of t ip))(ip \<mapsto> v)"
  shows "table_find (t[bucket_of t ip := es]) = (table_find t)(ip \<mapsto> v)"
proof
  fix k
  show "table_find (t[bucket_of t ip := es]) k = ((table_find t)(ip \<mapsto> v)) k"
    using bucket_in [OF assms(1)] assms(2)
    by (cases "bucket_of t k = bucket_of t ip") (auto simp: table_find_def bucket_of_def)
qed

lemma buckets_ok_update [simp]: "table_ok (t[i := es]) \<longleftrightarrow> table_ok t"
  by (simp add: table_ok_def)

lemma table_push_find:
  "table_ok t \<Longrightarrow> length ip < IP_KEY_MAX \<Longrightarrow> table_find (table_push t ip v) = (table_find t)(ip \<mapsto> v)"
  unfolding table_push_def by (rule table_find_update) auto

text \<open>The put of a cache that never looks for an old entry, as in \<open>nta_geoip.c\<close>.\<close>

definition put_front :: "'v table \<Rightarrow> string \<Rightarrow> 'v \<Rightarrow> 'v table" where
  "put_front t ip v = (if length ip \<ge> IP_KEY_MAX then t else table_push t ip v)"

text \<open>The put that overwrites an old entry, as in \<open>nta_abuse.c\<close> and \<open>nta_whois.c\<close>.\<close>

definition put_update :: "'v table \<Rightarrow> string \<Rightarrow> 'v \<Rightarrow> 'v table" where
  "put_update t ip v =
     (if length ip \<ge> IP_KEY_MAX then t
      else case table_find t ip of
             Some _ \<Rightarrow> t[bucket_of t ip := chain_update ip v (t ! bucket_of t ip)]
           | None \<Rightarrow> table_push t ip v)"

text \<open>The insert that keeps an old entry, as in \<open>nta_ioc.c\<close>; the flag is whether it inserted.\<close>

definition put_first :: "'v table \<Rightarrow> string \<Rightarrow> 'v \<Rightarrow> 'v table \<times> bool" where
  "put_first t ip v =
     (case table_find t ip of Some _ \<Rightarrow> (t, False) | None \<Rightarrow> (table_push t ip v, True))"

section \<open>The contracts of the tables\<close>

locale kv_store =
  fixes inv :: "'s \<Rightarrow> bool" and find :: "'s \<Rightarrow> string \<Rightarrow> 'v option"
    and put :: "'s \<Rightarrow> string \<Rightarrow> 'v \<Rightarrow> 's"
  assumes put_inv: "inv s \<Longrightarrow> inv (put s k v)"
    and find_put: "inv s \<Longrightarrow> length k < IP_KEY_MAX \<Longrightarrow> find (put s k v) = (find s)(k \<mapsto> v)"
    and put_long: "inv s \<Longrightarrow> IP_KEY_MAX \<le> length k \<Longrightarrow> find (put s k v) = find s"
begin

lemma find_put_same [simp]: "inv s \<Longrightarrow> length k < IP_KEY_MAX \<Longrightarrow> find (put s k v) k = Some v"
  by (simp add: find_put)

lemma find_put_other: "inv s \<Longrightarrow> k' \<noteq> k \<Longrightarrow> find (put s k v) k' = find s k'"
  by (cases "length k < IP_KEY_MAX") (simp_all add: find_put put_long)

lemma find_put_all:
  "inv s \<Longrightarrow> (\<And>k' w. find s k' = Some w \<Longrightarrow> P w) \<Longrightarrow> P v \<Longrightarrow> find (put s k v) k'' = Some w \<Longrightarrow> P w"
  by (cases "length k < IP_KEY_MAX") (auto simp: find_put put_long split: if_splits)

lemma puts_find:
  "inv s \<Longrightarrow>
   find (foldl (\<lambda>s (k, v). put s k v) s kvs) =
     find s ++ map_of (rev (filter (\<lambda>(k, v). length k < IP_KEY_MAX) kvs))"
proof (induction kvs arbitrary: s)
  case (Cons kv kvs)
  obtain k v where kv: "kv = (k, v)" by (cases kv)
  show ?case using Cons.IH [OF put_inv [OF Cons.prems], of k v] Cons.prems
    by (cases "length k < IP_KEY_MAX") (simp_all add: kv find_put put_long map_add_def fun_eq_iff split: option.splits)
qed simp

end

locale kv_first =
  fixes inv :: "'s \<Rightarrow> bool" and find :: "'s \<Rightarrow> string \<Rightarrow> 'v option"
    and ins :: "'s \<Rightarrow> string \<Rightarrow> 'v \<Rightarrow> 's"
  assumes ins_inv: "inv s \<Longrightarrow> inv (ins s k v)"
    and find_ins: "inv s \<Longrightarrow>
      find (ins s k v) = (if IP_KEY_MAX \<le> length k \<or> find s k \<noteq> None then find s else (find s)(k \<mapsto> v))"
begin

lemma ins_long: "inv s \<Longrightarrow> IP_KEY_MAX \<le> length k \<Longrightarrow> find (ins s k v) = find s"
  by (simp add: find_ins)

lemma inserts_find:
  "inv s \<Longrightarrow>
   inv (foldl (\<lambda>s (k, v). ins s k v) s kvs) \<and>
   find (foldl (\<lambda>s (k, v). ins s k v) s kvs) =
     map_of (filter (\<lambda>(k, v). length k < IP_KEY_MAX) kvs) ++ find s"
proof (induction kvs arbitrary: s)
  case (Cons kv kvs)
  obtain k v where kv: "kv = (k, v)" by (cases kv)
  show ?case using Cons.IH [OF ins_inv [OF Cons.prems], of k v] Cons.prems
    by (cases "length k < IP_KEY_MAX \<and> find s k = None")
      (auto simp: kv find_ins map_add_def fun_eq_iff split: option.splits)
qed simp

end

interpretation front: kv_store table_ok table_find put_front
  by unfold_locales (auto simp: put_front_def table_push_find, simp add: table_push_def)

interpretation upd: kv_store table_ok table_find put_update
proof unfold_locales
  fix t :: "'v table" and k v
  assume ok: "table_ok t"
  show "table_ok (put_update t k v)"
    using ok by (auto simp: put_update_def table_push_def split: option.splits)
  show "table_find (put_update t k v) = (table_find t)(k \<mapsto> v)" if "length k < IP_KEY_MAX"
  proof (cases "table_find t k")
    case None
    then show ?thesis using that ok by (simp add: put_update_def table_push_find)
  next
    case (Some w)
    then have "map_of (chain_update k v (t ! bucket_of t k)) = (map_of (t ! bucket_of t k))(k \<mapsto> v)"
      by (simp add: map_of_chain_update table_find_def)
    then show ?thesis using that Some table_find_update [OF ok] by (simp add: put_update_def)
  qed
  show "table_find (put_update t k v) = table_find t" if "IP_KEY_MAX \<le> length k"
    using that by (simp add: put_update_def)
qed

end
