(* ===== verification/Nta_Http.thy ===== *)
theory Nta_Http
  imports Nta_Util
begin

text \<open>
  HTTP requests as the server makes them through libcurl, which is not under \<open>src/\<close>: a reply is
  whether the transfer worked, the status code and the chunks of the body in the order libcurl hands
  them to the write callback. The callbacks of the modules, their buffers and their limits are the
  code's.
\<close>

record http_reply =
  curl_ok :: bool
  http_code :: int
  chunks :: "string list"

definition http_success :: "int \<Rightarrow> bool" where
  "http_success c \<longleftrightarrow> \<not> (c < 200 \<or> c \<ge> 300)"

text \<open>A \<open>RespBuf\<close>: the bytes received (none before the first allocation) and the capacity.\<close>

record resp_buf =
  rsp_data :: "string option"
  rsp_cap :: nat

definition empty_resp :: resp_buf where
  "empty_resp = \<lparr>rsp_data = None, rsp_cap = 0\<rparr>"

definition rsp_len :: "resp_buf \<Rightarrow> nat" where
  "rsp_len b = (case rsp_data b of None \<Rightarrow> 0 | Some s \<Rightarrow> length s)"

definition rsp_append :: "resp_buf \<Rightarrow> string \<Rightarrow> nat \<Rightarrow> resp_buf" where
  "rsp_append b p cap =
     \<lparr>rsp_data = Some ((case rsp_data b of None \<Rightarrow> [] | Some s \<Rightarrow> s) @ p), rsp_cap = cap\<rparr>"

text \<open>\<open>while (nc < need) nc *= 2\<close>; the callbacks start it from a positive capacity.\<close>

function grow :: "nat \<Rightarrow> nat \<Rightarrow> nat" where
  "grow nc need = (if nc = 0 \<or> need \<le> nc then nc else grow (nc * 2) need)"
  by pat_completeness auto
termination by (relation "measure (\<lambda>(nc, need). need - nc)") auto

declare grow.simps [simp del]

lemma grow_enough: "0 < nc \<Longrightarrow> need \<le> grow nc need"
proof (induction nc need rule: grow.induct)
  case (1 nc need)
  then show ?case by (subst grow.simps) auto
qed

lemma grow_pow2: "\<exists>k. grow nc need = nc * 2 ^ k"
proof (induction nc need rule: grow.induct)
  case (1 nc need)
  show ?case
  proof (cases "nc = 0 \<or> need \<le> nc")
    case True
    then have "grow nc need = nc * 2 ^ 0" by (subst grow.simps) simp
    then show ?thesis by blast
  next
    case False
    then obtain k where "grow (nc * 2) need = nc * 2 * 2 ^ k" using 1 by blast
    then have "grow nc need = nc * 2 ^ Suc k" using False by (subst grow.simps) simp
    then show ?thesis by blast
  qed
qed

lemma grow_least: "need \<le> nc * 2 ^ k \<Longrightarrow> grow nc need \<le> nc * 2 ^ k"
proof (induction nc need arbitrary: k rule: grow.induct)
  case (1 nc need)
  show ?case
  proof (cases "nc = 0 \<or> need \<le> nc")
    case True
    then show ?thesis by (subst grow.simps) simp
  next
    case False
    then obtain j where k: "k = Suc j" using "1.prems" by (cases k) auto
    have "grow (nc * 2) need \<le> nc * 2 * 2 ^ j"
      using "1.IH" [OF False, of j] "1.prems" by (simp add: k)
    then show ?thesis using False by (subst grow.simps) (simp add: k)
  qed
qed

text \<open>
  libcurl calls the callback once per chunk and aborts the transfer when it does not take the whole
  chunk (\<open>None\<close>). The result is whether \<open>curl_easy_perform\<close> returned \<open>CURLE_OK\<close>, and the buffer.
\<close>

fun deliver :: "(resp_buf \<Rightarrow> string \<Rightarrow> resp_buf option) \<Rightarrow> resp_buf \<Rightarrow> string list \<Rightarrow> bool \<times> resp_buf" where
  "deliver cb b [] = (True, b)"
| "deliver cb b (p # ps) = (case cb b p of None \<Rightarrow> (False, b) | Some b' \<Rightarrow> deliver cb b' ps)"

definition curl_easy_perform ::
  "(resp_buf \<Rightarrow> string \<Rightarrow> resp_buf option) \<Rightarrow> http_reply \<Rightarrow> bool \<times> resp_buf" where
  "curl_easy_perform cb r = (case deliver cb empty_resp (chunks r) of (ok, b) \<Rightarrow> (curl_ok r \<and> ok, b))"

text \<open>
  \<open>cJSON_ParseWithLength\<close> of a buffer; \<open>parse\<close> stands for the vendored parser, and a buffer that was
  never allocated does not parse.
\<close>

definition parse_resp :: "(string \<Rightarrow> json option) \<Rightarrow> resp_buf \<Rightarrow> json option" where
  "parse_resp parse b = (case rsp_data b of None \<Rightarrow> None | Some s \<Rightarrow> parse s)"

text \<open>\<open>cJSON_GetObjectItemCaseSensitive\<close>.\<close>

fun find_item_cs :: "string \<Rightarrow> (string \<times> json) list \<Rightarrow> json option" where
  "find_item_cs name [] = None"
| "find_item_cs name ((k, v) # kvs) = (if name = k then Some v else find_item_cs name kvs)"

lemma find_item_cs_map_of: "find_item_cs name kvs = map_of kvs name"
  by (induction kvs) auto

fun get_item_cs :: "json \<Rightarrow> string \<Rightarrow> json option" where
  "get_item_cs (JObject kvs) name = find_item_cs name kvs"
| "get_item_cs j name = None"

text \<open>\<open>cJSON_IsX\<close> of an item that may be missing.\<close>

definition opt_is :: "(json \<Rightarrow> bool) \<Rightarrow> json option \<Rightarrow> bool" where
  "opt_is p j = (case j of None \<Rightarrow> False | Some x \<Rightarrow> p x)"

definition item_string :: "json \<Rightarrow> string \<Rightarrow> string option" where
  "item_string obj key = (case get_item_cs obj key of Some (JString s) \<Rightarrow> Some s | _ \<Rightarrow> None)"

definition item_number :: "json \<Rightarrow> string \<Rightarrow> double option" where
  "item_number obj key = (case get_item_cs obj key of Some (JNumber d) \<Rightarrow> Some d | _ \<Rightarrow> None)"

text \<open>
  \<open>(int) d\<close> and \<open>(long long) d\<close>: C leaves an out-of-range conversion undefined; the model takes what
  the x86-64 instruction gives, the smallest number of the type.
\<close>

definition cast_int :: "double \<Rightarrow> int" where
  "cast_int d = (let n = int_of_double d in if - (2 ^ 31) \<le> n \<and> n < 2 ^ 31 then n else - (2 ^ 31))"

definition cast_llong :: "double \<Rightarrow> int" where
  "cast_llong d = (let n = int_of_double d in if - (2 ^ 63) \<le> n \<and> n < 2 ^ 63 then n else - (2 ^ 63))"

lemma cast_int_of_int [simp]: "- (2 ^ 31) \<le> n \<Longrightarrow> n < 2 ^ 31 \<Longrightarrow> cast_int (of_int n) = n"
  by (simp add: cast_int_def Let_def)

lemma cast_int_range: "- (2 ^ 31) \<le> cast_int d \<and> cast_int d < 2 ^ 31"
  by (simp add: cast_int_def Let_def)

end
