(* ===== verification/Nta_Replay.thy ===== *)
theory Nta_Replay
  imports Nta_Pipeline Nta_Http
begin

text \<open>
  The replay framework of the agent (\<open>src/agent/replay/replay.c\<close>): expected detections from JSON,
  one capture file run through the analyzer, the comparison and its score, and a directory with the
  aggregate that fails a build. libpcap and the JSON parser are arguments: a capture is the list of its
  packets (\<open>None\<close> when it cannot be opened). What the code prints is not modelled.
\<close>

definition MAX_EXPECTED :: nat where "MAX_EXPECTED = 256"

record expected_detection =
  x_attack_type :: string
  x_src_ip :: string
  x_window :: "(int \<times> int) option"

record gabarito =
  entries :: "expected_detection list"
  pcap_start_ts :: int

text \<open>Where a result's \<open>pcap_file\<close> points: the caller's string, or the local buffer of the loop.\<close>

datatype pcap_ref = Caller string | Loop_buffer

record replay_result =
  r_pcap_file :: pcap_ref
  r_expected_count :: int
  r_passed :: int
  r_failed :: int
  r_score :: double

section \<open>Expected detections\<close>

definition expected_of_item :: "json \<Rightarrow> expected_detection option" where
  "expected_of_item item =
     (case (get_object_item item ''attack_type'', get_object_item item ''src_ip'') of
        (Some (JString at_s), Some (JString ip_s)) \<Rightarrow>
          Some \<lparr>x_attack_type = cstr_copy 32 at_s, x_src_ip = cstr_copy 16 ip_s,
                x_window =
                  (case get_object_item item ''time_window'' of
                     Some (JObject tw) \<Rightarrow>
                       (case (get_object_item (JObject tw) ''start_sec'', get_object_item (JObject tw) ''end_sec'') of
                          (Some (JNumber ts), Some (JNumber te)) \<Rightarrow> Some (cast_llong ts, cast_llong te)
                        | _ \<Rightarrow> None)
                   | _ \<Rightarrow> None)\<rparr>
      | _ \<Rightarrow> None)"

text \<open>The loop over the items, until the table of 256 is full.\<close>

fun gabarito_items :: "json list \<Rightarrow> expected_detection list \<Rightarrow> expected_detection list" where
  "gabarito_items [] es = es"
| "gabarito_items (item # items) es =
     (if length es \<ge> MAX_EXPECTED then es
      else case expected_of_item item of
             None \<Rightarrow> gabarito_items items es
           | Some e \<Rightarrow> gabarito_items items (es @ [e]))"

definition gabarito_load :: "(string \<Rightarrow> json option) \<Rightarrow> string option \<Rightarrow> gabarito option" where
  "gabarito_load parse file =
     (case file of
        None \<Rightarrow> None
      | Some buf \<Rightarrow>
          (case parse buf of
             None \<Rightarrow> None
           | Some doc \<Rightarrow>
               (case get_object_item doc ''expected'' of
                  Some (JArray items) \<Rightarrow> Some \<lparr>entries = gabarito_items items [], pcap_start_ts = 0\<rparr>
                | _ \<Rightarrow> None)))"

section \<open>Comparison\<close>

definition detection_matches :: "int \<Rightarrow> expected_detection \<Rightarrow> detected_event \<Rightarrow> bool" where
  "detection_matches start e d \<longleftrightarrow>
     ev_attack d = x_attack_type e \<and> ev_src_ip d = x_src_ip e \<and>
     (case x_window e of
        None \<Rightarrow> True
      | Some (t0, t1) \<Rightarrow>
          if start > 0 then (let rel = ev_timestamp d - start in \<not> (rel < t0 \<or> rel > t1)) else True)"

text \<open>The loop over the expected detections: those found and those not.\<close>

fun compare_loop :: "int \<Rightarrow> detected_event list \<Rightarrow> expected_detection list \<Rightarrow> int \<Rightarrow> int \<Rightarrow> int \<times> int" where
  "compare_loop start ds [] passed failed = (passed, failed)"
| "compare_loop start ds (e # es) passed failed =
     (if list_ex (detection_matches start e) ds then compare_loop start ds es (passed + 1) failed
      else compare_loop start ds es passed (failed + 1))"

definition score_percent :: "int \<Rightarrow> int \<Rightarrow> double" where
  "score_percent passed expected_count = dmul (ddiv (double_of_int passed) (double_of_int expected_count)) 100"

definition compare_results :: "gabarito option \<Rightarrow> collector \<Rightarrow> replay_result \<Rightarrow> replay_result" where
  "compare_results g c r =
     (case g of
        None \<Rightarrow> r
      | Some g \<Rightarrow>
          if entries g = [] then r
          else case compare_loop (pcap_start_ts g) (g_events c) (entries g) 0 0 of
                 (p, f) \<Rightarrow>
                   r\<lparr>r_expected_count := int (length (entries g)), r_passed := p, r_failed := f,
                     r_score := (if int (length (entries g)) > 0 then score_percent p (int (length (entries g))) else 100)\<rparr>)"

section \<open>One capture\<close>

record pcap_packet =
  pk_sec :: time_t
  pk_caplen :: int
  pk_data :: bytes

definition handle_packet :: "pcap_packet \<Rightarrow> ids \<Rightarrow> ids option" where
  "handle_packet p st = map_option fst (packet_handler_replay (pk_sec p) (pk_caplen p) (pk_data p) st)"

text \<open>\<open>pcap_loop (handle, -1, packet_handler, NULL)\<close>.\<close>

fun pcap_loop :: "pcap_packet list \<Rightarrow> ids \<Rightarrow> ids option" where
  "pcap_loop [] st = Some st"
| "pcap_loop (p # ps) st = (case handle_packet p st of None \<Rightarrow> None | Some st1 \<Rightarrow> pcap_loop ps st1)"

definition zero_replay :: "pcap_ref \<Rightarrow> replay_result" where
  "zero_replay f = \<lparr>r_pcap_file = f, r_expected_count = 0, r_passed = 0, r_failed = 0, r_score = 0\<rparr>"

definition set_replay_mode :: "bool \<Rightarrow> ids \<Rightarrow> ids" where
  "set_replay_mode b st = st\<lparr>detections := (detections st)\<lparr>g_replay_mode := b\<rparr>\<rparr>"

text \<open>
  \<open>replay_file\<close>: the analyzer state and the result; \<open>None\<close> would be a read past a packet. With a
  non-empty answer key the first packet is read on its own, to take its time as the base of the
  windows.
\<close>

definition replay_file ::
  "pcap_packet list option \<Rightarrow> pcap_ref \<Rightarrow> gabarito option \<Rightarrow> ids \<Rightarrow> (ids \<times> replay_result) option" where
  "replay_file pcap path g st =
     (case pcap of
        None \<Rightarrow> Some (st, zero_replay path)
      | Some pkts \<Rightarrow>
          (let st1 = set_replay_mode True (analyzer_reset (st\<lparr>detections := collector_reset (detections st)\<rparr>))
           in case (case g of
                      Some g0 \<Rightarrow>
                        if entries g0 \<noteq> [] \<and> pkts \<noteq> [] then
                          (case handle_packet (hd pkts) st1 of
                             None \<Rightarrow> None
                           | Some st2 \<Rightarrow> map_option (\<lambda>st3. (Some (g0\<lparr>pcap_start_ts := pk_sec (hd pkts)\<rparr>), st3))
                               (pcap_loop (tl pkts) st2))
                        else map_option (\<lambda>st2. (Some g0, st2)) (pcap_loop pkts st1)
                    | None \<Rightarrow> map_option (\<lambda>st2. (None, st2)) (pcap_loop pkts st1)) of
                None \<Rightarrow> None
              | Some (g1, st2) \<Rightarrow>
                  (let st3 = set_replay_mode False st2
                   in Some (st3, compare_results g1 (detections st3) (zero_replay path)))))"

section \<open>A directory\<close>

text \<open>\<open>strrchr\<close>: the text before the last dot.\<close>

definition before_last_dot :: "string \<Rightarrow> string option" where
  "before_last_dot s =
     (if CHR ''.'' \<in> set s then Some (rev (tl (dropWhile (\<lambda>c. c \<noteq> CHR ''.'') (rev s)))) else None)"

text \<open>
  \<open>derive_gabarito_path\<close> into a buffer of 512 bytes. When fewer than six bytes are left after the dot,
  \<open>strncpy\<close> writes no terminator (\<open>None\<close>: the path that follows runs past the buffer).
\<close>

definition derive_gabarito_path :: "string \<Rightarrow> string option" where
  "derive_gabarito_path pcap_path =
     (let out = cstr_copy 512 pcap_path
      in case before_last_dot out of
           None \<Rightarrow> Some out
         | Some b \<Rightarrow> if 512 - length b < 6 then None else Some (b @ ''.json''))"

definition has_pcap_suffix :: "string \<Rightarrow> bool" where
  "has_pcap_suffix name \<longleftrightarrow> \<not> (length name < 5 \<or> drop (length name - 5) name \<noteq> ''.pcap'')"

definition pcap_path_of :: "string \<Rightarrow> string \<Rightarrow> string" where
  "pcap_path_of dir_path name = cstr_copy 512 (dir_path @ ''/'' @ name)"

text \<open>
  The loop over the directory: the results kept (256 at most), and the content the loop's path buffer
  had last. \<open>files\<close> gives the text files, \<open>pcaps\<close> the captures.
\<close>

fun replay_entries ::
  "(string \<Rightarrow> json option) \<Rightarrow> (string \<Rightarrow> string option) \<Rightarrow> (string \<Rightarrow> pcap_packet list option) \<Rightarrow> string \<Rightarrow>
   string list \<Rightarrow> replay_result list \<Rightarrow> string \<Rightarrow> ids \<Rightarrow> (ids \<times> replay_result list \<times> string) option" where
  "replay_entries parse files pcaps dir [] rs buf st = Some (st, rs, buf)"
| "replay_entries parse files pcaps dir (name # names) rs buf st =
     (if \<not> has_pcap_suffix name then replay_entries parse files pcaps dir names rs buf st
      else let path = pcap_path_of dir name
           in case derive_gabarito_path path of
                None \<Rightarrow> None
              | Some gpath \<Rightarrow>
                  (case replay_file (pcaps path) Loop_buffer (gabarito_load parse (files gpath)) st of
                     None \<Rightarrow> None
                   | Some (st1, r) \<Rightarrow>
                       replay_entries parse files pcaps dir names
                         (if length rs < 256 then rs @ [r] else rs) path st1))"

text \<open>\<open>write_report_json\<close>; a reference to the loop's buffer reads what the buffer holds.\<close>

definition ref_name :: "string \<Rightarrow> pcap_ref \<Rightarrow> string" where
  "ref_name buf f = (case f of Caller s \<Rightarrow> s | Loop_buffer \<Rightarrow> buf)"

definition report_item :: "string \<Rightarrow> replay_result \<Rightarrow> json" where
  "report_item buf r = JObject
     [(''file'', JString (ref_name buf (r_pcap_file r))), (''score'', JNumber (r_score r)),
      (''passed'', JNumber (of_int (r_passed r))), (''failed'', JNumber (of_int (r_failed r))),
      (''expected'', JNumber (of_int (r_expected_count r)))]"

definition report_json :: "string \<Rightarrow> replay_result list \<Rightarrow> double \<Rightarrow> json" where
  "report_json buf rs total_score = JObject
     [(''results'', JArray (List.map (report_item buf) rs)), (''total_score'', JNumber total_score)]"

definition aggregate_score :: "replay_result list \<Rightarrow> double" where
  "aggregate_score rs =
     (let p = sum_list (List.map r_passed rs); e = sum_list (List.map r_expected_count rs)
      in if e > 0 then score_percent p e else 100)"

text \<open>
  \<open>replay_dir\<close>: the state, the report written (if any) and the exit status of the process, 0 when the
  function returns.
\<close>

definition replay_dir ::
  "(string \<Rightarrow> json option) \<Rightarrow> (string \<Rightarrow> string option) \<Rightarrow> (string \<Rightarrow> pcap_packet list option) \<Rightarrow>
   (string \<Rightarrow> string list option) \<Rightarrow> string \<Rightarrow> bool \<Rightarrow> ids \<Rightarrow> (ids \<times> json option \<times> int) option" where
  "replay_dir parse files pcaps dirs dir_path report_out st =
     (case dirs dir_path of
        None \<Rightarrow> Some (st, None, 0)
      | Some names \<Rightarrow>
          (case replay_entries parse files pcaps dir_path names [] [] st of
             None \<Rightarrow> None
           | Some (st1, rs, buf) \<Rightarrow>
               if rs = [] then Some (st1, None, 0)
               else Some (st1, if report_out then Some (report_json buf rs (aggregate_score rs)) else None,
                          if sum_list (List.map r_expected_count rs) > 0 \<and> aggregate_score rs < 80 then 1 else 0)))"

text \<open>The replay mode of \<open>main\<close> for one file: the exit status.\<close>

definition replay_exit :: "gabarito option \<Rightarrow> replay_result \<Rightarrow> int" where
  "replay_exit g r = (if g \<noteq> None \<and> r_score r < 80 then 1 else 0)"


section \<open>The score\<close>

lemma floor_log_four_fifths: "\<lfloor>log 2 (4 / 5 :: real)\<rfloor> = - 1"
proof -
  have "log 2 (4 / 5 :: real) < log 2 1" by (subst log_less_cancel_iff) simp_all
  moreover have "log 2 (1 / 2 :: real) \<le> log 2 (4 / 5)" by (subst log_le_cancel_iff) simp_all
  moreover have "log 2 (1 / 2 :: real) = - 1" by (simp add: log_divide)
  ultimately show ?thesis by (simp add: floor_eq_iff)
qed

lemma rnd64_four_fifths: "4 / 5 \<le> rnd64 (4 / 5)"
proof -
  have e: "exp64 (4 / 5) = - 53" unfolding exp64_def floor_log_four_fifths by simp
  have p: "(2::real) powi (- 53) = 1 / 9007199254740992" by (simp add: power_int_def power_divide)
  have f: "\<lfloor>36028797018963968 / (5::real)\<rfloor> = 7205759403792793" by (simp add: floor_eq_iff)
  have "rne (36028797018963968 / 5) = 7205759403792794" unfolding rne_def Let_def f by simp
  then show ?thesis by (simp add: rnd64_pos rnd_pos_def e p)
qed

text \<open>
  The double of the score is under 80 exactly when the exact share is under four fifths: with at most
  65536 expected detections the two roundings never cross the threshold.
\<close>

lemma score_percent_less_80:
  assumes p: "0 \<le> p" and e: "0 < e" and pe: "p \<le> e" and small: "e \<le> 65536"
  shows "score_percent p e < 80 \<longleftrightarrow> 5 * p < 4 * e"
proof -
  have dp: "double_of_int p = of_int p" and de: "double_of_int e = of_int e"
    using p e pe small by (simp_all)
  let ?q = "13421722 / 16777216 :: real"
  show ?thesis
  proof (cases "5 * p < 4 * e")
    case True
    then have "5 * p + 1 \<le> 4 * e" by simp
    then have "5 * real_of_int p + 1 \<le> 4 * real_of_int e" by linarith
    moreover have "real_of_int e \<le> 65536" using small by simp
    ultimately have "real_of_int p \<le> ?q * real_of_int e" using e by (simp add: field_simps)
    then have "of_int p / of_int e \<le> ?q" using e by (simp add: pos_divide_le_eq)
    moreover have "is_double ?q"
      using is_double_scaled [of 13421722 "- 24"] by (simp add: power_int_def power_divide)
    ultimately have "ddiv (of_int p) (of_int e) \<le> ?q" unfolding ddiv_def by (rule rnd64_le)
    then have "ddiv (of_int p) (of_int e) * 100 \<le> 1342172200 / 16777216" by simp
    moreover have "is_double (1342172200 / 16777216)"
      using is_double_scaled [of 1342172200 "- 24"] by (simp add: power_int_def power_divide)
    ultimately have "score_percent p e \<le> 1342172200 / 16777216"
      unfolding score_percent_def dmul_def dp de by (rule rnd64_le)
    with True show ?thesis by simp
  next
    case False
    then have "4 * real_of_int e \<le> 5 * real_of_int p" by linarith
    then have "4 / 5 \<le> real_of_int p / of_int e" using e by (simp add: field_simps)
    then have "rnd64 (4 / 5) \<le> ddiv (of_int p) (of_int e)" unfolding ddiv_def by (rule rnd64_mono)
    with rnd64_four_fifths have "of_int 80 \<le> ddiv (of_int p) (of_int e) * 100" by simp
    then have "of_int 80 \<le> score_percent p e"
      unfolding score_percent_def dmul_def dp de by (intro rnd64_ge is_double_of_int) simp_all
    with False show ?thesis by simp
  qed
qed

section \<open>Counting\<close>

lemma compare_loop_counts:
  "compare_loop start ds es p f =
   (p + int (length (filter (\<lambda>e. list_ex (detection_matches start e) ds) es)),
    f + int (length (filter (\<lambda>e. \<not> list_ex (detection_matches start e) ds) es)))"
  by (induction es arbitrary: p f) simp_all

lemma gabarito_items_length: "length es \<le> MAX_EXPECTED \<Longrightarrow> length (gabarito_items items es) \<le> MAX_EXPECTED"
  by (induction items es rule: gabarito_items.induct) (auto split: option.splits)

lemma gabarito_load_length: "gabarito_load parse file = Some g \<Longrightarrow> length (entries g) \<le> MAX_EXPECTED"
  using gabarito_items_length [of "[]"]
  by (auto simp: gabarito_load_def split: option.splits json.splits)

definition result_ok :: "replay_result \<Rightarrow> bool" where
  "result_ok r \<longleftrightarrow> 0 \<le> r_passed r \<and> r_passed r \<le> r_expected_count r \<and> r_expected_count r \<le> int MAX_EXPECTED"

lemma compare_results_ok:
  "result_ok r \<Longrightarrow> (\<And>g0. g = Some g0 \<Longrightarrow> length (entries g0) \<le> MAX_EXPECTED) \<Longrightarrow> result_ok (compare_results g c r)"
  by (cases g) (auto simp: compare_results_def result_ok_def compare_loop_counts)

lemma zero_replay_ok [simp]: "result_ok (zero_replay f)"
  by (simp add: zero_replay_def result_ok_def)

lemma replay_file_ok:
  assumes "replay_file pcap path g st = Some (st', r)"
    and "\<And>g0. g = Some g0 \<Longrightarrow> length (entries g0) \<le> MAX_EXPECTED"
  shows "result_ok r"
  using assms
  by (auto simp: replay_file_def Let_def intro!: compare_results_ok split: option.splits if_splits)

lemma replay_entries_ok:
  "replay_entries parse files pcaps dir names rs buf st = Some (st', rs', buf') \<Longrightarrow>
   list_all result_ok rs \<Longrightarrow> length rs \<le> 256 \<Longrightarrow> list_all result_ok rs' \<and> length rs' \<le> 256"
proof (induction names arbitrary: rs buf st)
  case Nil
  then show ?case by simp
next
  case (Cons name names)
  show ?case
  proof (cases "has_pcap_suffix name")
    case False
    with Cons show ?thesis by simp
  next
    case True
    let ?path = "pcap_path_of dir name"
    from Cons.prems(1) True obtain gp st1 r where
      r: "replay_file (pcaps ?path) Loop_buffer (gabarito_load parse (files gp)) st = Some (st1, r)"
      and rest: "replay_entries parse files pcaps dir names (if length rs < 256 then rs @ [r] else rs) ?path st1
                 = Some (st', rs', buf')"
      by (auto simp: Let_def split: option.splits)
    have "result_ok r" using replay_file_ok [OF r] gabarito_load_length by blast
    with Cons.prems show ?thesis by (intro Cons.IH [OF rest]) auto
  qed
qed

lemma result_sums:
  "list_all result_ok rs \<Longrightarrow>
   0 \<le> sum_list (List.map r_passed rs) \<and>
   sum_list (List.map r_passed rs) \<le> sum_list (List.map r_expected_count rs) \<and>
   sum_list (List.map r_expected_count rs) \<le> 256 * int (length rs)"
  by (induction rs) (auto simp: result_ok_def MAX_EXPECTED_def)


section \<open>Reading the report\<close>

definition report_files :: "json \<Rightarrow> json option list" where
  "report_files j = List.map (\<lambda>item. get_object_item item ''file'') (array_items (the (get_object_item j ''results'')))"

lemma replay_file_ref: "replay_file pcap path g st = Some (st', r) \<Longrightarrow> r_pcap_file r = path"
  by (auto simp: replay_file_def compare_results_def zero_replay_def Let_def split: option.splits if_splits prod.splits)

lemma replay_entries_refs:
  "replay_entries parse files pcaps dir names rs buf st = Some (st', rs', buf') \<Longrightarrow>
   list_all (\<lambda>r. r_pcap_file r = Loop_buffer) rs \<Longrightarrow> length rs \<le> 256 \<Longrightarrow>
   length rs' = min 256 (length rs + length (filter has_pcap_suffix names)) \<and>
   list_all (\<lambda>r. r_pcap_file r = Loop_buffer) rs' \<and>
   buf' = fold (\<lambda>name b. if has_pcap_suffix name then pcap_path_of dir name else b) names buf"
proof (induction names arbitrary: rs buf st)
  case Nil
  then show ?case by simp
next
  case (Cons name names)
  show ?case
  proof (cases "has_pcap_suffix name")
    case False
    with Cons show ?thesis by simp
  next
    case True
    let ?path = "pcap_path_of dir name"
    from Cons.prems(1) True obtain gp st1 r where
      r: "replay_file (pcaps ?path) Loop_buffer (gabarito_load parse (files gp)) st = Some (st1, r)"
      and rest: "replay_entries parse files pcaps dir names (if length rs < 256 then rs @ [r] else rs) ?path st1
                 = Some (st', rs', buf')"
      by (auto simp: Let_def split: option.splits)
    from Cons.IH [OF rest] Cons.prems(2,3) replay_file_ref [OF r] True show ?thesis
      by (cases "length rs < 256") auto
  qed
qed

lemma report_files_report:
  "list_all (\<lambda>r. r_pcap_file r = Loop_buffer) rs \<Longrightarrow>
   report_files (report_json buf rs t) = replicate (length rs) (Some (JString buf))"
  by (induction rs) (simp_all add: report_files_def report_json_def report_item_def ref_name_def
      strcasecmp_eq_def tolower_char_def)

section \<open>The loop over the packets returns\<close>

definition pcap_ok :: "pcap_packet list \<Rightarrow> bool" where
  "pcap_ok ps \<longleftrightarrow> list_all (\<lambda>p. pk_caplen p = int (length (pk_data p))) ps"

lemma handle_packet_safe:
  "pk_caplen p = int (length (pk_data p)) \<Longrightarrow> \<exists>st'. handle_packet p st = Some st'"
  using analyze_packet_safe [of "pk_caplen p" "pk_data p" st "pk_sec p"]
  by (auto simp: handle_packet_def packet_handler_replay_def)

lemma pcap_loop_safe: "pcap_ok ps \<Longrightarrow> \<exists>st'. pcap_loop ps st = Some st'"
proof (induction ps arbitrary: st)
  case Nil
  then show ?case by simp
next
  case (Cons p ps)
  then have c: "pk_caplen p = int (length (pk_data p))" and ps: "pcap_ok ps" by (simp_all add: pcap_ok_def)
  obtain st1 where "handle_packet p st = Some st1" using handle_packet_safe [OF c] by blast
  then show ?case using Cons.IH [OF ps] by simp
qed


lemma replay_file_safe:
  assumes "\<And>ps. pcap = Some ps \<Longrightarrow> pcap_ok ps"
  shows "\<exists>st' r. replay_file pcap path g st = Some (st', r)"
proof (cases pcap)
  case None
  then show ?thesis by (simp add: replay_file_def)
next
  case (Some ps)
  with assms have ps: "pcap_ok ps" by simp
  let ?st = "set_replay_mode True (analyzer_reset (st\<lparr>detections := collector_reset (detections st)\<rparr>))"
  obtain st2 where all: "pcap_loop ps ?st = Some st2" using pcap_loop_safe [OF ps] by blast
  then have "\<exists>st3. case_option None (pcap_loop (tl ps)) (handle_packet (hd ps) ?st) = Some st3" if "ps \<noteq> []"
    using that by (cases ps) (auto split: option.splits)
  then show ?thesis
    using all by (cases g) (auto simp: replay_file_def Some Let_def split: option.splits)
qed

lemma last_dot_app:
  "CHR ''.'' \<notin> set t \<Longrightarrow> before_last_dot (b @ CHR ''.'' # t) = Some b"
  by (subst before_last_dot_def, subst rev_append) (auto simp: dropWhile_append)


lemma gabarito_path_of_pcap:
  assumes "length b \<le> 506"
  shows "derive_gabarito_path (b @ ''.pcap'') = Some (b @ ''.json'')"
  using assms last_dot_app [of "''pcap''" b] by (simp add: derive_gabarito_path_def Let_def)

lemma pcap_path_whole:
  assumes "has_pcap_suffix name" "length dir + length name \<le> 510"
  shows "\<exists>g. derive_gabarito_path (pcap_path_of dir name) = Some g"
proof -
  let ?b = "dir @ ''/'' @ take (length name - 5) name"
  have n: "5 \<le> length name" and s: "drop (length name - 5) name = ''.pcap''"
    using assms(1) by (simp_all add: has_pcap_suffix_def)
  have "dir @ ''/'' @ name = ?b @ ''.pcap''"
    using s append_take_drop_id [of "length name - 5" name] by simp
  moreover have "length (dir @ ''/'' @ name) < 512" using assms(2) by simp
  ultimately have "pcap_path_of dir name = ?b @ ''.pcap''" unfolding pcap_path_of_def by (metis cstr_copy_id)
  moreover have "length ?b \<le> 506" using assms(2) n by simp
  ultimately show ?thesis using gabarito_path_of_pcap [of ?b] by metis
qed

lemma replay_entries_safe:
  assumes "\<And>p ps. pcaps p = Some ps \<Longrightarrow> pcap_ok ps"
  shows "(\<forall>name\<in>set names. length dir + length name \<le> 510) \<Longrightarrow>
    \<exists>st' rs' buf'. replay_entries parse files pcaps dir names rs buf st = Some (st', rs', buf')"
proof (induction names arbitrary: rs buf st)
  case Nil
  then show ?case by simp
next
  case (Cons name names)
  show ?case
  proof (cases "has_pcap_suffix name")
    case False
    with Cons show ?thesis by simp
  next
    case True
    with Cons.prems pcap_path_whole obtain gp where
      gp: "derive_gabarito_path (pcap_path_of dir name) = Some gp" by fastforce
    obtain st1 r where
      "replay_file (pcaps (pcap_path_of dir name)) Loop_buffer (gabarito_load parse (files gp)) st = Some (st1, r)"
      using replay_file_safe assms by metis
    with Cons True gp show ?thesis by (simp add: Let_def)
  qed
qed

section \<open>Properties\<close>

text \<open>
  The comparison counts exactly: \<open>passed\<close> is the number of expected detections for which the
  collector holds an event of that attack and source inside the window, \<open>failed\<close> the number of the
  others, and together they are all the expected detections.
\<close>

theorem compare_counts:
  assumes "entries g \<noteq> []"
  shows "r_passed (compare_results (Some g) c r) =
           int (length (filter (\<lambda>e. \<exists>d\<in>set (g_events c). detection_matches (pcap_start_ts g) e d) (entries g))) \<and>
         r_passed (compare_results (Some g) c r) + r_failed (compare_results (Some g) c r) = int (length (entries g))"
  using assms sum_length_filter_compl [of "\<lambda>e. list_ex (detection_matches (pcap_start_ts g) e) (g_events c)" "entries g"]
  by (simp add: compare_results_def compare_loop_counts list_ex_iff)

definition one_expected :: json where
  "one_expected = JObject [(''expected'',
     JArray [JObject [(''attack_type'', JString ''SYN_FLOOD''), (''src_ip'', JString ''10.0.0.5'')]])]"

definition syn_flood_key :: gabarito where
  "syn_flood_key = \<lparr>entries = [\<lparr>x_attack_type = ''SYN_FLOOD'', x_src_ip = ''10.0.0.5'', x_window = None\<rparr>],
     pcap_start_ts = 0\<rparr>"

theorem compare_counts_witness:
  "r_passed (compare_results (Some syn_flood_key)
     \<lparr>g_replay_mode = True, g_events = [detection ''SYN_FLOOD'' ''10.0.0.5'' 7]\<rparr> (zero_replay Loop_buffer)) = 1"
  using compare_counts [of syn_flood_key "\<lparr>g_replay_mode = True, g_events = [detection ''SYN_FLOOD'' ''10.0.0.5'' 7]\<rparr>"
      "zero_replay Loop_buffer"]
  by (simp add: syn_flood_key_def detection_matches_def detection_def)

lemma load_one_expected: "gabarito_load (\<lambda>s. Some one_expected) (Some t) = Some syn_flood_key"
  by (simp add: gabarito_load_def one_expected_def expected_of_item_def syn_flood_key_def MAX_EXPECTED_def
      strcasecmp_eq_def tolower_char_def)

text \<open>
  The captures of a directory that count: those with the suffix, the first 256 of them; and what the
  answer key of one asks for, which is nothing when the capture cannot be opened.
\<close>

definition counted_captures :: "string list \<Rightarrow> string list" where
  "counted_captures names = take 256 (filter has_pcap_suffix names)"

definition asked_of ::
  "(string \<Rightarrow> json option) \<Rightarrow> (string \<Rightarrow> string option) \<Rightarrow> (string \<Rightarrow> pcap_packet list option) \<Rightarrow> string \<Rightarrow> string \<Rightarrow> int" where
  "asked_of parse files pcaps dir name =
     (case (pcaps (pcap_path_of dir name), derive_gabarito_path (pcap_path_of dir name)) of
        (Some pkts, Some gpath) \<Rightarrow>
          (case gabarito_load parse (files gpath) of None \<Rightarrow> 0 | Some g \<Rightarrow> int (length (entries g)))
      | _ \<Rightarrow> 0)"

text \<open>A result is what the replay of the capture gave, from the state the analyzer was in.\<close>

definition result_of ::
  "(string \<Rightarrow> json option) \<Rightarrow> (string \<Rightarrow> string option) \<Rightarrow> (string \<Rightarrow> pcap_packet list option) \<Rightarrow> string \<Rightarrow> string \<Rightarrow>
   replay_result \<Rightarrow> bool" where
  "result_of parse files pcaps dir name r \<longleftrightarrow>
     (\<exists>gpath s s'. derive_gabarito_path (pcap_path_of dir name) = Some gpath \<and>
        replay_file (pcaps (pcap_path_of dir name)) Loop_buffer (gabarito_load parse (files gpath)) s = Some (s', r))"

lemma replay_file_expected:
  assumes "replay_file pcap path g st = Some (st', r)"
  shows "r_expected_count r = (case (pcap, g) of (Some pkts, Some g) \<Rightarrow> int (length (entries g)) | _ \<Rightarrow> 0)"
  using assms
  by (auto simp: replay_file_def zero_replay_def compare_results_def Let_def split: option.splits if_splits prod.splits)

lemma result_asked:
  "result_of parse files pcaps dir name r \<Longrightarrow> r_expected_count r = asked_of parse files pcaps dir name"
  by (auto simp: result_of_def asked_of_def dest!: replay_file_expected split: option.splits)

lemma results_asked:
  "list_all2 (result_of parse files pcaps dir) names rs \<Longrightarrow>
   List.map r_expected_count rs = List.map (asked_of parse files pcaps dir) names"
  by (induction rule: list_all2_induct) (simp_all add: result_asked)

lemma replay_entries_results:
  "replay_entries parse files pcaps dir names rs buf st = Some (st', rs', buf') \<Longrightarrow> length rs \<le> 256 \<Longrightarrow>
   \<exists>qs. rs' = rs @ qs \<and> list_all2 (result_of parse files pcaps dir) (take (256 - length rs) (filter has_pcap_suffix names)) qs"
proof (induction names arbitrary: rs buf st)
  case (Cons name names)
  show ?case
  proof (cases "has_pcap_suffix name")
    case False
    with Cons show ?thesis by simp
  next
    case True
    let ?path = "pcap_path_of dir name" and ?rs = "\<lambda>r. if length rs < 256 then rs @ [r] else rs"
    from Cons.prems(1) True obtain gp st1 r where gp: "derive_gabarito_path ?path = Some gp"
      and r: "replay_file (pcaps ?path) Loop_buffer (gabarito_load parse (files gp)) st = Some (st1, r)"
      and rest: "replay_entries parse files pcaps dir names (?rs r) ?path st1 = Some (st', rs', buf')"
      by (auto simp: Let_def split: option.splits)
    have "result_of parse files pcaps dir name r" using gp r by (auto simp: result_of_def)
    moreover have "length (?rs r) \<le> 256" using Cons.prems(2) by simp
    from Cons.IH [OF rest this] obtain qs where
      "rs' = ?rs r @ qs" "list_all2 (result_of parse files pcaps dir) (take (256 - length (?rs r)) (filter has_pcap_suffix names)) qs"
      by blast
    moreover have "256 - length rs = Suc (256 - length (rs @ [r]))" if "length rs < 256" using that by simp
    ultimately show ?thesis using True Cons.prems(2) by (cases "length rs < 256") auto
  qed
qed simp

text \<open>
  C32. The gate of a directory replay. The captures that count are the first 256 with the suffix; each
  has the result of its own replay, and what is expected of it is its answer key when the capture could
  be opened, and nothing when it could not, whatever the key asks. The process fails exactly when fewer
  than four fifths of these expectations were found: the score in rounded arithmetic never decides
  otherwise. So a missed capture past the 256th, or one that cannot be read, never fails the build.
\<close>

theorem replay_dir_gate:
  assumes "dirs dir = Some names"
    and "replay_entries parse files pcaps dir names [] [] st = Some (st1, rs, buf)"
  shows "list_all2 (result_of parse files pcaps dir) (counted_captures names) rs \<and>
    (\<exists>rep. replay_dir parse files pcaps dirs dir out st = Some (st1, rep,
       if 5 * sum_list (List.map r_passed rs) < 4 * sum_list (List.map (asked_of parse files pcaps dir) (counted_captures names))
       then 1 else 0))"
proof -
  let ?p = "sum_list (List.map r_passed rs)" and ?e = "sum_list (List.map r_expected_count rs)"
  have res: "list_all2 (result_of parse files pcaps dir) (counted_captures names) rs"
    using replay_entries_results [OF assms(2)] by (simp add: counted_captures_def)
  have ok: "list_all result_ok rs" "length rs \<le> 256" using replay_entries_ok [OF assms(2)] by simp_all
  with result_sums [of rs] have b: "0 \<le> ?p" "?p \<le> ?e" "?e \<le> 65536" by auto
  have "(?e > 0 \<and> aggregate_score rs < 80) = (5 * ?p < 4 * ?e)"
    using b score_percent_less_80 [of ?p ?e] by (cases "0 < ?e") (simp_all add: aggregate_score_def Let_def)
  with assms res results_asked [OF res] show ?thesis by (auto simp: replay_dir_def)
qed


definition missed_result :: "pcap_ref \<Rightarrow> replay_result" where
  "missed_result f = \<lparr>r_pcap_file = f, r_expected_count = 1, r_passed = 0, r_failed = 1, r_score = 0\<rparr>"

lemma replay_file_missed:
  "\<exists>st'. replay_file (Some []) f (Some syn_flood_key) st = Some (st', missed_result f)"
  by (simp add: replay_file_def Let_def compare_results_def syn_flood_key_def zero_replay_def missed_result_def
      set_replay_mode_def analyzer_reset_def collector_reset_def score_percent_def ddiv_def dmul_def)

lemma two_paths:
  "pcap_path_of ''d'' ''a.pcap'' = ''d/a.pcap''" "pcap_path_of ''d'' ''b.pcap'' = ''d/b.pcap''"
  "derive_gabarito_path ''d/a.pcap'' = Some ''d/a.json''" "derive_gabarito_path ''d/b.pcap'' = Some ''d/b.json''"
  "has_pcap_suffix ''a.pcap''" "has_pcap_suffix ''b.pcap''"
  using gabarito_path_of_pcap [of "''d/a''"] gabarito_path_of_pcap [of "''d/b''"]
  by (simp_all add: pcap_path_of_def has_pcap_suffix_def)

lemma two_missed:
  "\<exists>st1. replay_entries (\<lambda>s. Some one_expected) (\<lambda>p. Some []) (\<lambda>p. Some []) ''d'' [''a.pcap'', ''b.pcap''] [] [] st =
     Some (st1, [missed_result Loop_buffer, missed_result Loop_buffer], ''d/b.pcap'')"
proof -
  obtain s1 where 1: "replay_file (Some []) Loop_buffer (Some syn_flood_key) st = Some (s1, missed_result Loop_buffer)"
    using replay_file_missed by blast
  obtain s2 where 2: "replay_file (Some []) Loop_buffer (Some syn_flood_key) s1 = Some (s2, missed_result Loop_buffer)"
    using replay_file_missed by blast
  show ?thesis by (simp add: two_paths load_one_expected 1 2)
qed

lemma two_asked:
  "sum_list (List.map (asked_of (\<lambda>s. Some one_expected) (\<lambda>p. Some []) (\<lambda>p. Some []) ''d'') (counted_captures [''a.pcap'', ''b.pcap''])) = 2"
  by (simp add: counted_captures_def asked_of_def two_paths load_one_expected syn_flood_key_def)

theorem replay_dir_gate_witness:
  "\<exists>st1 rep. sum_list (List.map (asked_of (\<lambda>s. Some one_expected) (\<lambda>p. Some []) (\<lambda>p. Some []) ''d'') (counted_captures [''a.pcap'', ''b.pcap''])) = 2 \<and>
     replay_dir (\<lambda>s. Some one_expected) (\<lambda>p. Some []) (\<lambda>p. Some []) (\<lambda>d. Some [''a.pcap'', ''b.pcap''])
     ''d'' True (initial_ids False) = Some (st1, rep, 1)"
proof -
  obtain st1 where
    r: "replay_entries (\<lambda>s. Some one_expected) (\<lambda>p. Some []) (\<lambda>p. Some []) ''d'' [''a.pcap'', ''b.pcap''] [] [] (initial_ids False) =
     Some (st1, [missed_result Loop_buffer, missed_result Loop_buffer], ''d/b.pcap'')"
    using two_missed by blast
  show ?thesis
    using replay_dir_gate [OF _ r, of "\<lambda>d. Some [''a.pcap'', ''b.pcap'']" True] two_asked by (auto simp: missed_result_def)
qed

text \<open>
  C38. A directory replay returns: on captures whose packets hold the bytes they announce, and paths
  that fit the buffers, every file is processed to its end without a read out of bounds, whatever the
  files and answer keys hold.
\<close>

theorem replay_dir_returns:
  assumes "\<And>p ps. pcaps p = Some ps \<Longrightarrow> pcap_ok ps"
    and "\<And>names name. dirs dir = Some names \<Longrightarrow> name \<in> set names \<Longrightarrow> length dir + length name \<le> 510"
  shows "\<exists>res. replay_dir parse files pcaps dirs dir out st = Some res"
proof (cases "dirs dir")
  case None
  then show ?thesis by (simp add: replay_dir_def)
next
  case (Some names)
  with assms(2) have short: "\<forall>name\<in>set names. length dir + length name \<le> 510" by blast
  have "\<exists>st' rs' buf'. replay_entries parse files pcaps dir names [] [] st = Some (st', rs', buf')"
    by (rule replay_entries_safe) (use assms(1) short in auto)
  then obtain st' rs' buf' where "replay_entries parse files pcaps dir names [] [] st = Some (st', rs', buf')"
    by blast
  then show ?thesis by (simp add: replay_dir_def Some)
qed

theorem replay_dir_returns_witness:
  "\<exists>res. replay_dir (\<lambda>s. None) (\<lambda>p. None) (\<lambda>p. Some [\<lparr>pk_sec = 5, pk_caplen = 42, pk_data = arp_spoof_packet\<rparr>])
     (\<lambda>d. Some [''a.pcap'']) ''d'' True (initial_ids False) = Some res"
  by (rule replay_dir_returns) (auto simp: pcap_ok_def)

text \<open>
  The report of a directory names one file only: every result keeps a pointer to the path buffer
  of the loop, so when the report is written each entry shows the path of the last capture.
\<close>

theorem replay_report_last_name:
  assumes "dirs dir = Some names"
    and "replay_dir parse files pcaps dirs dir True st = Some (st', Some rep, code)"
  shows "report_files rep = replicate (min 256 (length (filter has_pcap_suffix names))) (Some (JString
    (fold (\<lambda>name b. if has_pcap_suffix name then pcap_path_of dir name else b) names [])))"
proof -
  from assms obtain st1 rs buf where
    r: "replay_entries parse files pcaps dir names [] [] st = Some (st1, rs, buf)"
    and rep: "rep = report_json buf rs (aggregate_score rs)"
    by (auto simp: replay_dir_def split: option.splits if_splits)
  from replay_entries_refs [OF r] rep show ?thesis by (auto simp: report_files_report)
qed

theorem replay_report_last_name_witness:
  "\<exists>st' rep code. replay_dir (\<lambda>s. Some one_expected) (\<lambda>p. Some []) (\<lambda>p. Some []) (\<lambda>d. Some [''a.pcap'', ''b.pcap''])
     ''d'' True (initial_ids False) = Some (st', Some rep, code) \<and>
   report_files rep = [Some (JString ''d/b.pcap''), Some (JString ''d/b.pcap'')]"
proof -
  obtain st1 where
    r: "replay_entries (\<lambda>s. Some one_expected) (\<lambda>p. Some []) (\<lambda>p. Some []) ''d'' [''a.pcap'', ''b.pcap''] [] [] (initial_ids False) =
     Some (st1, [missed_result Loop_buffer, missed_result Loop_buffer], ''d/b.pcap'')"
    using two_missed by blast
  then obtain rep code where
    d: "replay_dir (\<lambda>s. Some one_expected) (\<lambda>p. Some []) (\<lambda>p. Some []) (\<lambda>d. Some [''a.pcap'', ''b.pcap''])
      ''d'' True (initial_ids False) = Some (st1, Some rep, code)"
    by (simp add: replay_dir_def)
  show ?thesis using replay_report_last_name [OF refl d] d by (simp add: two_paths numeral_2_eq_2)
qed

text \<open>
  An answer key without a usable entry fails the run of a single capture: the comparison leaves
  the score at zero, and the caller takes zero for under 80 although nothing was expected.
\<close>

theorem replay_empty_key_fails:
  assumes "entries g = []" and "replay_file pcap path (Some g) st = Some (st', r)"
  shows "r_expected_count r = 0 \<and> replay_exit (Some g) r = 1"
  using assms
  by (auto simp: replay_file_def replay_exit_def compare_results_def zero_replay_def Let_def split: option.splits)

theorem replay_empty_key_fails_witness:
  "\<exists>st' r. replay_file (Some []) (Caller ''a.pcap'') (Some \<lparr>entries = [], pcap_start_ts = 0\<rparr>) (initial_ids False) = Some (st', r) \<and>
     replay_exit (Some \<lparr>entries = [], pcap_start_ts = 0\<rparr>) r = 1"
proof -
  obtain st' r where d: "replay_file (Some []) (Caller ''a.pcap'') (Some \<lparr>entries = [], pcap_start_ts = 0\<rparr>) (initial_ids False) = Some (st', r)"
    using replay_file_safe [of "Some []"] by (fastforce simp: pcap_ok_def)
  then show ?thesis using replay_empty_key_fails [OF _ d] by simp
qed

end
