(* ===== verification/Nta_Agentcfg.thy ===== *)
theory Nta_Agentcfg
  imports Nta_Util
begin

text \<open>
  How the agent is configured: the \<open>KEY=VALUE\<close> file of \<open>src/agent/core/config.c\<close>, which becomes
  environment, and the command line of \<open>src/agent/cli.c\<close>. The environment is a map, a file is its
  text (\<open>None\<close> when it cannot be opened). Messages are not modelled.
\<close>

section \<open>The configuration file\<close>

definition trim :: "string \<Rightarrow> string" where
  "trim s = rev (dropWhile isspace (rev (dropWhile isspace s)))"

text \<open>
  \<open>set_env_if_unset\<close>, POSIX branch: a non-empty variable is kept; \<open>setenv (key, val, 0)\<close> then leaves a
  variable that exists alone, even an empty one, and still reports success. It refuses a name that is
  empty or contains \<open>=\<close>.
\<close>

definition setenv_keep :: "string \<Rightarrow> string \<Rightarrow> env \<Rightarrow> env \<times> int" where
  "setenv_keep key val e =
     (if key = [] \<or> CHR ''='' \<in> set key then (e, - 1)
      else (if e key = None then e(key \<mapsto> val) else e, 0))"

definition set_env_if_unset :: "string \<Rightarrow> string \<Rightarrow> env \<Rightarrow> env \<times> int" where
  "set_env_if_unset key val e =
     (case e key of
        Some (c # cs) \<Rightarrow> (e, 0)
      | _ \<Rightarrow> (case setenv_keep key val e of (e1, r) \<Rightarrow> (e1, if r = 0 then 1 else 0)))"

definition skip_bom :: "bool \<Rightarrow> string \<Rightarrow> string" where
  "skip_bom first line = (if first \<and> take 3 line = [CHR 0xEF, CHR 0xBB, CHR 0xBF] then drop 3 line else line)"

text \<open>Matching quotes around a value are dropped.\<close>

definition unquote :: "string \<Rightarrow> string" where
  "unquote val =
     (let n = length val
      in if n \<ge> 2 \<and> (hd val = CHR 0x22 \<or> hd val = CHR 0x27) \<and> last val = hd val
         then butlast (tl val) else val)"

text \<open>What a line of the file assigns, if anything.\<close>

definition config_entry :: "bool \<Rightarrow> string \<Rightarrow> (string \<times> string) option" where
  "config_entry first line =
     (let s = trim (skip_bom first line)
      in if s = [] \<or> hd s = CHR ''#'' then None
         else case split_at_char (CHR ''='') s of
                None \<Rightarrow> None
              | Some (k0, v0) \<Rightarrow>
                  (let key = trim k0; val = unquote (trim v0)
                   in if key \<noteq> [] \<and> val \<noteq> [] then Some (key, val) else None))"

fun config_lines :: "bool \<Rightarrow> string list \<Rightarrow> env \<Rightarrow> int \<Rightarrow> env \<times> int" where
  "config_lines first [] e applied = (e, applied)"
| "config_lines first (line # lines) e applied =
     (case config_entry first line of
        None \<Rightarrow> config_lines False lines e applied
      | Some (key, val) \<Rightarrow>
          (case set_env_if_unset key val e of (e1, n) \<Rightarrow> config_lines False lines e1 (applied + n)))"

definition config_load_file :: "string option \<Rightarrow> env \<Rightarrow> env \<times> int" where
  "config_load_file file e =
     (case file of None \<Rightarrow> (e, - 1) | Some s \<Rightarrow> config_lines True (fgets_lines s) e 0)"

section \<open>The command line\<close>

datatype run_mode = MODE_LIVE | MODE_REPLAY_FILE | MODE_REPLAY_DIR | MODE_LIST_IFACES
  | MODE_SERVICE_INSTALL | MODE_SERVICE_UNINSTALL

record agent_args =
  run_mode :: run_mode
  iface :: "string option"
  pcap_file :: "string option"
  expect_file :: "string option"
  replay_dir_arg :: "string option"
  report_file :: "string option"
  config_file :: "string option"
  service :: bool

definition no_args :: agent_args where
  "no_args = \<lparr>run_mode = MODE_LIVE, iface = None, pcap_file = None, expect_file = None, replay_dir_arg = None,
     report_file = None, config_file = None, service = False\<rparr>"

text \<open>The loop over \<open>argv\<close>; \<open>None\<close> is the usage message and \<open>exit (1)\<close>.\<close>

function parse_loop :: "string list \<Rightarrow> agent_args \<Rightarrow> agent_args option" where
  "parse_loop argv args =
     (case argv of
        [] \<Rightarrow> Some args
      | a # rest \<Rightarrow>
          if a = ''--list-interfaces'' then parse_loop rest (args\<lparr>run_mode := MODE_LIST_IFACES\<rparr>)
          else if a = ''--config'' \<and> rest \<noteq> [] then parse_loop (tl rest) (args\<lparr>config_file := Some (hd rest)\<rparr>)
          else if a = ''--service'' then parse_loop rest (args\<lparr>service := True\<rparr>)
          else if a = ''--install-service'' then parse_loop rest (args\<lparr>run_mode := MODE_SERVICE_INSTALL\<rparr>)
          else if a = ''--uninstall-service'' then parse_loop rest (args\<lparr>run_mode := MODE_SERVICE_UNINSTALL\<rparr>)
          else if (run_mode args = MODE_LIVE \<or> run_mode args = MODE_SERVICE_INSTALL) \<and> take 1 a \<noteq> ''-''
          then parse_loop rest (args\<lparr>iface := Some a\<rparr>)
          else if a = ''--replay'' \<and> rest \<noteq> []
          then parse_loop (tl rest) (args\<lparr>run_mode := MODE_REPLAY_FILE, pcap_file := Some (hd rest)\<rparr>)
          else if a = ''--replay-dir'' \<and> rest \<noteq> []
          then parse_loop (tl rest) (args\<lparr>run_mode := MODE_REPLAY_DIR, replay_dir_arg := Some (hd rest)\<rparr>)
          else if a = ''--expect'' \<and> rest \<noteq> [] then parse_loop (tl rest) (args\<lparr>expect_file := Some (hd rest)\<rparr>)
          else if a = ''--report'' \<and> rest \<noteq> [] then parse_loop (tl rest) (args\<lparr>report_file := Some (hd rest)\<rparr>)
          else None)"
  by pat_completeness auto
termination
  by (relation "measure (\<lambda>(argv, _). length argv)") (auto simp: neq_Nil_conv)

declare parse_loop.simps [simp del]

text \<open>\<open>parse_args\<close>; the first argument is the name of the program.\<close>

definition parse_args :: "string list \<Rightarrow> agent_args option" where
  "parse_args argv = (if length argv < 2 then None else parse_loop (tl argv) no_args)"

section \<open>Trimming and quoting\<close>

lemma dropWhile_hd: "s \<noteq> [] \<Longrightarrow> \<not> P (hd s) \<Longrightarrow> dropWhile P s = s"
  by (cases s) auto

lemma trim_id: "s \<noteq> [] \<Longrightarrow> \<not> isspace (hd s) \<Longrightarrow> \<not> isspace (last s) \<Longrightarrow> trim s = s"
  by (simp add: trim_def dropWhile_hd hd_rev)

lemma trim_newline: "s \<noteq> [] \<Longrightarrow> \<not> isspace (hd s) \<Longrightarrow> \<not> isspace (last s) \<Longrightarrow> trim (s @ [CHR 0x0A]) = s"
  by (simp add: trim_def dropWhile_hd hd_rev isspace_def)

lemma unquote_quoted: "q = CHR 0x22 \<or> q = CHR 0x27 \<Longrightarrow> unquote (q # v @ [q]) = v"
  by (auto simp: unquote_def)

section \<open>What a file assigns\<close>

fun config_entries :: "bool \<Rightarrow> string list \<Rightarrow> (string \<times> string) list" where
  "config_entries first [] = []"
| "config_entries first (line # lines) =
     (case config_entry first line of None \<Rightarrow> [] | Some kv \<Rightarrow> [kv]) @ config_entries False lines"

lemma split_key: "split_at_char (CHR ''='') s = Some (k, v) \<Longrightarrow> CHR ''='' \<notin> set (trim k)"
  by (auto simp: split_at_char_Some trim_def dest!: set_dropWhileD)

lemma config_entry_key: "config_entry first line = Some (key, val) \<Longrightarrow> key \<noteq> [] \<and> CHR ''='' \<notin> set key \<and> val \<noteq> []"
  by (auto simp: config_entry_def Let_def split: if_splits option.splits dest: split_key)

lemma set_env_cases:
  assumes "key \<noteq> []" "CHR ''='' \<notin> set key"
  shows "set_env_if_unset key val e =
     (if e key = None then e(key \<mapsto> val) else e, if e key = None \<or> e key = Some [] then 1 else 0)"
  using assms by (auto simp: set_env_if_unset_def setenv_keep_def split: option.splits list.splits)

lemma config_lines_env:
  "fst (config_lines first lines e n) = map_of (config_entries first lines) ++ e"
proof (induction lines arbitrary: first e n)
  case Nil
  then show ?case by simp
next
  case (Cons line lines)
  show ?case
  proof (cases "config_entry first line")
    case None
    then show ?thesis by (simp add: Cons.IH)
  next
    case (Some kv)
    obtain key val where kv: "kv = (key, val)" by (cases kv)
    from Some kv config_entry_key have "key \<noteq> []" "CHR ''='' \<notin> set key" by blast+
    then show ?thesis
      by (auto simp: Some kv Cons.IH set_env_cases fun_eq_iff map_add_def split: option.splits)
  qed
qed


section \<open>One line\<close>

lemma fgets_one_line: "CHR 0x0A \<notin> set s \<Longrightarrow> length s < 1023 \<Longrightarrow> fgets_lines (s @ [CHR 0x0A]) = [s @ [CHR 0x0A]]"
proof -
  assume n: "CHR 0x0A \<notin> set s" and l: "length s < 1023"
  have "takeWhile (\<lambda>c. c \<noteq> CHR 0x0A) (s @ [CHR 0x0A]) = s" using n by (simp add: takeWhile_append)
  then show ?thesis using l by (subst fgets_lines.simps) (simp add: fgets_lines.simps [of "[]"])
qed

definition plain_key :: "string \<Rightarrow> bool" where
  "plain_key k \<longleftrightarrow> k \<noteq> [] \<and> list_all (\<lambda>c. c \<noteq> CHR ''='' \<and> \<not> isspace c) k \<and> hd k \<noteq> CHR ''#'' \<and> hd k \<noteq> CHR 0xEF"

text \<open>A value in double quotes, as the line that assigns it.\<close>

definition quoted_line :: "string \<Rightarrow> string \<Rightarrow> string" where
  "quoted_line k v = k @ ''='' @ [CHR 0x22] @ v @ [CHR 0x22, CHR 0x0A]"

lemma quoted_entry:
  assumes k: "plain_key k" and v: "v \<noteq> []"
  shows "config_entry first (quoted_line k v) = Some (k, v)"
proof -
  let ?s = "k @ ''='' @ [CHR 0x22] @ v @ [CHR 0x22]"
  have kp: "k \<noteq> []" "\<not> isspace (hd k)" "\<not> isspace (last k)" "CHR ''='' \<notin> set k" "hd k \<noteq> CHR ''#''" "hd k \<noteq> CHR 0xEF"
    using k by (auto simp: plain_key_def list_all_iff)
  have q: "\<not> isspace (CHR 0x22)" by (simp add: isspace_def)
  have "take 3 (quoted_line k v) \<noteq> [CHR 0xEF, CHR 0xBB, CHR 0xBF]"
    using kp(1,6) by (cases k) (auto simp: quoted_line_def)
  then have b: "skip_bom first (quoted_line k v) = ?s @ [CHR 0x0A]"
    by (simp add: skip_bom_def quoted_line_def)
  have t: "trim (?s @ [CHR 0x0A]) = ?s" by (rule trim_newline) (use kp q in simp_all)
  have sp: "split_at_char (CHR ''='') ?s = Some (k, [CHR 0x22] @ v @ [CHR 0x22])"
    using kp(4) by (simp add: split_at_char_Some)
  have tk: "trim k = k" using kp by (intro trim_id) auto
  have tv: "trim ([CHR 0x22] @ v @ [CHR 0x22]) = [CHR 0x22] @ v @ [CHR 0x22]"
    by (rule trim_id) (use q in simp_all)
  have u: "unquote ([CHR 0x22] @ v @ [CHR 0x22]) = v" using unquote_quoted [of "CHR 0x22" v] by simp
  have h: "?s \<noteq> []" "hd ?s \<noteq> CHR ''#''" using kp by simp_all
  show ?thesis unfolding config_entry_def b t Let_def sp using h kp(1) v tk tv u by simp
qed

lemma isspace_newline: "isspace (CHR 0x0A)"
  by (simp add: isspace_def)

lemma plain_key_facts:
  assumes "plain_key k"
  shows "k \<noteq> []" and "CHR ''='' \<notin> set k" and "CHR 0x0A \<notin> set k"
proof -
  have a: "c \<noteq> CHR ''='' \<and> \<not> isspace c" if "c \<in> set k" for c
    using assms that unfolding plain_key_def list_all_iff by blast
  show "k \<noteq> []" using assms unfolding plain_key_def by blast
  show "CHR ''='' \<notin> set k" using a by blast
  show "CHR 0x0A \<notin> set k" using a isspace_newline by blast
qed

lemma quoted_file:
  assumes "plain_key k" and "v \<noteq> []" and "CHR 0x0A \<notin> set v" and "length k + length v < 1020"
  shows "config_load_file (Some (quoted_line k v)) e =
     (if e k = None then e(k \<mapsto> v) else e, if e k = None \<or> e k = Some [] then 1 else 0)"
proof -
  let ?s = "k @ ''='' @ [CHR 0x22] @ v @ [CHR 0x22]"
  have k: "CHR 0x0A \<notin> set k" "k \<noteq> []" "CHR ''='' \<notin> set k"
    using plain_key_facts [OF assms(1)] by simp_all
  have nl: "CHR 0x0A \<notin> set ?s" using k(1) assms(3) by simp
  have len: "length ?s < 1023" using assms(4) by simp
  have "quoted_line k v = ?s @ [CHR 0x0A]" by (simp add: quoted_line_def)
  then have f: "fgets_lines (quoted_line k v) = [quoted_line k v]" using fgets_one_line [OF nl len] by simp
  have c: "config_entry True (quoted_line k v) = Some (k, v)" by (rule quoted_entry) fact+
  show ?thesis by (simp only: config_load_file_def option.case f config_lines.simps c set_env_cases [OF k(2,3)] prod.case add_0)
qed

section \<open>Properties\<close>

text \<open>
  C37. A configuration file acts as one map under the environment: afterwards a variable that existed
  before has its old value, and any other one the value of the first line of the file that assigns
  it, whatever the file holds.
\<close>

theorem config_first_wins:
  "fst (config_load_file (Some s) e) = map_of (config_entries True (fgets_lines s)) ++ e"
  by (simp add: config_load_file_def config_lines_env)

text \<open>
  A quoted value survives the file: a line \<open>KEY="value"\<close> with a plain key and any non-empty value
  without a newline (spaces at its ends, \<open>#\<close>, \<open>=\<close> and quotes included) sets exactly that value
  when the variable is not set.
\<close>

theorem config_quoted_roundtrip:
  assumes "plain_key k" and "v \<noteq> []" and "CHR 0x0A \<notin> set v" and "length k + length v < 1020" and "e k = None"
  shows "config_load_file (Some (quoted_line k v)) e = (e(k \<mapsto> v), 1)"
  using quoted_file [OF assms(1-4), of e] assms(5) by simp

theorem config_quoted_roundtrip_witness:
  "config_load_file (Some (quoted_line ''AGENT_PASS'' '' a=b # '')) (\<lambda>k. None) = ([''AGENT_PASS'' \<mapsto> '' a=b # ''], 1)"
  by (rule config_quoted_roundtrip) (simp_all add: plain_key_def isspace_def)

text \<open>
  A variable that is present but empty cannot be configured: the file's value is not stored, since
  \<open>setenv\<close> is told not to overwrite, and is counted as applied all the same.
\<close>

theorem config_empty_variable_kept:
  assumes "plain_key k" and "v \<noteq> []" and "CHR 0x0A \<notin> set v" and "length k + length v < 1020" and "e k = Some []"
  shows "config_load_file (Some (quoted_line k v)) e = (e, 1)"
  using quoted_file [OF assms(1-4), of e] assms(5) by simp

theorem config_empty_variable_kept_witness:
  "config_load_file (Some (quoted_line ''AGENT_IFACE'' ''eth0'')) [''AGENT_IFACE'' \<mapsto> []] = ([''AGENT_IFACE'' \<mapsto> []], 1)"
  by (rule config_empty_variable_kept) (simp_all add: plain_key_def isspace_def)

text \<open>The words that select a configuration.\<close>

definition cli_words :: "agent_args \<Rightarrow> string list" where
  "cli_words a =
     (case config_file a of None \<Rightarrow> [] | Some c \<Rightarrow> [''--config'', c]) @
     (case run_mode a of
        MODE_LIVE \<Rightarrow> []
      | MODE_REPLAY_FILE \<Rightarrow> [''--replay'', the (pcap_file a)]
      | MODE_REPLAY_DIR \<Rightarrow> [''--replay-dir'', the (replay_dir_arg a)]
      | MODE_LIST_IFACES \<Rightarrow> [''--list-interfaces'']
      | MODE_SERVICE_INSTALL \<Rightarrow> [''--install-service'']
      | MODE_SERVICE_UNINSTALL \<Rightarrow> [''--uninstall-service'']) @
     (case expect_file a of None \<Rightarrow> [] | Some x \<Rightarrow> [''--expect'', x]) @
     (case report_file a of None \<Rightarrow> [] | Some x \<Rightarrow> [''--report'', x]) @
     (if service a then [''--service''] else []) @
     (case iface a of None \<Rightarrow> [] | Some i \<Rightarrow> [i])"

text \<open>Arguments that make sense together: the file of the mode, and an interface only where one is read.\<close>

definition args_ok :: "agent_args \<Rightarrow> bool" where
  "args_ok a \<longleftrightarrow>
     (pcap_file a \<noteq> None) = (run_mode a = MODE_REPLAY_FILE) \<and>
     (replay_dir_arg a \<noteq> None) = (run_mode a = MODE_REPLAY_DIR) \<and>
     (case iface a of None \<Rightarrow> True
      | Some i \<Rightarrow> (run_mode a = MODE_LIVE \<or> run_mode a = MODE_SERVICE_INSTALL) \<and> take 1 i \<noteq> ''-'')"


lemmas parse_word = parse_loop.simps [of "a # r" for a r] parse_loop.simps [of "[]"]

lemma parse_words:
  "parse_loop (''--config'' # c # r) a = parse_loop r (a\<lparr>config_file := Some c\<rparr>)"
  "parse_loop (''--list-interfaces'' # r) a = parse_loop r (a\<lparr>run_mode := MODE_LIST_IFACES\<rparr>)"
  "parse_loop (''--install-service'' # r) a = parse_loop r (a\<lparr>run_mode := MODE_SERVICE_INSTALL\<rparr>)"
  "parse_loop (''--uninstall-service'' # r) a = parse_loop r (a\<lparr>run_mode := MODE_SERVICE_UNINSTALL\<rparr>)"
  "parse_loop (''--service'' # r) a = parse_loop r (a\<lparr>service := True\<rparr>)"
  "parse_loop (''--replay'' # c # r) a = parse_loop r (a\<lparr>run_mode := MODE_REPLAY_FILE, pcap_file := Some c\<rparr>)"
  "parse_loop (''--replay-dir'' # c # r) a = parse_loop r (a\<lparr>run_mode := MODE_REPLAY_DIR, replay_dir_arg := Some c\<rparr>)"
  "parse_loop (''--expect'' # c # r) a = parse_loop r (a\<lparr>expect_file := Some c\<rparr>)"
  "parse_loop (''--report'' # c # r) a = parse_loop r (a\<lparr>report_file := Some c\<rparr>)"
  by (simp_all add: parse_word(1))

lemma parse_iface:
  "take 1 i \<noteq> ''-'' \<Longrightarrow> run_mode a = MODE_LIVE \<or> run_mode a = MODE_SERVICE_INSTALL \<Longrightarrow>
   parse_loop [i] a = Some (a\<lparr>iface := Some i\<rparr>)"
proof -
  assume i: "take 1 i \<noteq> ''-''" and m: "run_mode a = MODE_LIVE \<or> run_mode a = MODE_SERVICE_INSTALL"
  have "i \<noteq> CHR ''-'' # r" for r using i by auto
  then show ?thesis using i m by (subst parse_loop.simps) (simp add: parse_word(2))
qed

text \<open>
  The command line round trip: parsing the words that select a sensible configuration gives that
  configuration back, whatever the file and interface names are (an interface not starting with
  \<open>-\<close>).
\<close>

theorem cli_roundtrip:
  assumes "args_ok a" and "cli_words a \<noteq> []"
  shows "parse_args (prog # cli_words a) = Some a"
proof -
  have i: "parse_loop (case iface a of None \<Rightarrow> [] | Some i \<Rightarrow> [i]) (b\<lparr>iface := None\<rparr>) = Some (b\<lparr>iface := iface a\<rparr>)"
    if "run_mode b = run_mode a" for b
    using assms(1) that parse_iface [of "the (iface a)" "b\<lparr>iface := None\<rparr>"]
    by (cases "iface a") (auto simp: args_ok_def parse_word(2))
  let ?base = "no_args\<lparr>config_file := config_file a, run_mode := run_mode a, pcap_file := pcap_file a,
     replay_dir_arg := replay_dir_arg a\<rparr>"
  have m: "parse_loop (cli_words a) no_args =
    parse_loop ((case expect_file a of None \<Rightarrow> [] | Some x \<Rightarrow> [''--expect'', x]) @
     (case report_file a of None \<Rightarrow> [] | Some x \<Rightarrow> [''--report'', x]) @
     (if service a then [''--service''] else []) @ (case iface a of None \<Rightarrow> [] | Some i \<Rightarrow> [i])) ?base"
    using assms(1) unfolding cli_words_def
    by (cases "config_file a"; cases "run_mode a") (auto simp: parse_words args_ok_def no_args_def)
  have "parse_loop (cli_words a) no_args = Some (?base\<lparr>expect_file := expect_file a, report_file := report_file a,
     service := service a, iface := iface a\<rparr>)"
    unfolding m using i [of "?base\<lparr>expect_file := expect_file a, report_file := report_file a, service := service a\<rparr>"]
    by (cases "expect_file a"; cases "report_file a"; cases "service a") (simp_all add: parse_words no_args_def)
  then show ?thesis using assms(2) by (cases "cli_words a") (simp_all add: parse_args_def no_args_def)
qed

theorem cli_roundtrip_witness:
  "parse_args [''agent'', ''--config'', ''a.env'', ''--replay'', ''t.pcap'', ''--expect'', ''t.json''] =
     Some (no_args\<lparr>config_file := Some ''a.env'', run_mode := MODE_REPLAY_FILE, pcap_file := Some ''t.pcap'',
       expect_file := Some ''t.json''\<rparr>)"
  using cli_roundtrip [of "no_args\<lparr>config_file := Some ''a.env'', run_mode := MODE_REPLAY_FILE,
      pcap_file := Some ''t.pcap'', expect_file := Some ''t.json''\<rparr>" "''agent''"]
  by (simp add: args_ok_def cli_words_def no_args_def)

end
