(* ===== verification/Nta_Agentmain.thy ===== *)
theory Nta_Agentmain
  imports Nta_Replay Nta_Agentcfg Nta_Publisher
begin

text \<open>
  The agent as a process: the capture thread and the stop request that races with it, the metrics
  thread and \<open>pipeline_run\<close> (\<open>src/agent/core/pipeline.c\<close>), the list of interfaces
  (\<open>src/agent/capture/capture.c\<close>), and the modes of \<open>main\<close> (\<open>src/agent/main.c\<close>, POSIX). What libpcap
  and the clock do are events and arguments.
\<close>

section \<open>The capture thread and the stop request\<close>

datatype capture_pc = C_Open | C_Loop | C_Closed | C_Done
datatype pcap_handle = H_Null | H_Open | H_Closed

record capture_state =
  g_running :: bool
  g_pcap_handle :: pcap_handle
  break_loop :: bool
  g_capture_error :: bool
  capture_done :: bool
  cap_pc :: capture_pc
  bad_handle :: bool

text \<open>
  What can happen: \<open>pcap_open_live\<close> returns, one round of \<open>pcap_loop\<close> (which leaves when its break flag
  is set, or on a read error), the thread clears the handle it closed and stores its flag, and a
  signal or the service manager requests the stop.
\<close>

datatype capture_event = Open_live bool | Loop_round bool | Clear_handle | Request_stop

definition capture_start :: capture_state where
  "capture_start = \<lparr>g_running = True, g_pcap_handle = H_Null, break_loop = False, g_capture_error = False,
     capture_done = False, cap_pc = C_Open, bad_handle = False\<rparr>"

definition pipeline_request_stop :: "capture_state \<Rightarrow> capture_state" where
  "pipeline_request_stop c =
     (let c1 = c\<lparr>g_running := False\<rparr>
      in case g_pcap_handle c1 of
           H_Null \<Rightarrow> c1
         | H_Open \<Rightarrow> c1\<lparr>break_loop := True\<rparr>
         | H_Closed \<Rightarrow> c1\<lparr>bad_handle := True\<rparr>)"

fun capture_step :: "capture_event \<Rightarrow> capture_state \<Rightarrow> capture_state" where
  "capture_step (Open_live ok) c =
     (if cap_pc c \<noteq> C_Open then c
      else if ok then c\<lparr>g_pcap_handle := H_Open, cap_pc := C_Loop\<rparr>
      else c\<lparr>g_running := False, g_capture_error := True, capture_done := True, cap_pc := C_Done\<rparr>)"
| "capture_step (Loop_round err) c =
     (if cap_pc c \<noteq> C_Loop then c
      else if break_loop c \<or> err then c\<lparr>g_pcap_handle := H_Closed, cap_pc := C_Closed\<rparr> else c)"
| "capture_step Clear_handle c =
     (if cap_pc c \<noteq> C_Closed then c
      else c\<lparr>g_pcap_handle := H_Null, capture_done := True, cap_pc := C_Done\<rparr>)"
| "capture_step Request_stop c = pipeline_request_stop c"

definition capture_run :: "capture_event list \<Rightarrow> capture_state \<Rightarrow> capture_state" where
  "capture_run evs c = fold capture_step evs c"

section \<open>The metrics thread\<close>

record metrics_clock =
  last_events :: u64
  last_ts_ms :: int

text \<open>The number of 100 ms slices of one wait: a product of \<open>int\<close>s, which wraps on overflow.\<close>

definition metrics_slices :: "int \<Rightarrow> int" where
  "metrics_slices interval = to_int32 (interval * 10)"

text \<open>The slices slept when the stop is seen before slice \<open>stop_at\<close>, if at all.\<close>

definition metrics_wait :: "int \<Rightarrow> nat option \<Rightarrow> nat" where
  "metrics_wait interval stop_at =
     (let n = nat (metrics_slices interval) in case stop_at of None \<Rightarrow> n | Some k \<Rightarrow> min n k)"

text \<open>\<open>"%.2f"\<close>.\<close>

definition fmt_f2 :: "double \<Rightarrow> string" where
  "fmt_f2 x =
     (let n = nat (rne (\<bar>x\<bar> * 100))
      in (if x < 0 then ''-'' else []) @ dec_digits (n div 100) @ ''.'' @ pad0 2 (dec_digits (n mod 100)))"

definition events_per_sec :: "u64 \<Rightarrow> int \<Rightarrow> metrics_clock \<Rightarrow> double" where
  "events_per_sec events_now now_ms c =
     (let dt = ddiv (double_of_int (now_ms - last_ts_ms c)) 1000
      in if dt > 0 then ddiv (double_of_int (uint (events_now - last_events c))) dt else 0)"

definition key_text :: "string \<Rightarrow> string" where
  "key_text k = dq @ k @ dq @ '':''"

definition metrics_text :: "pipe \<Rightarrow> double \<Rightarrow> string" where
  "metrics_text p eps =
     ''{'' @ key_text ''rb_pkt_depth'' @ dec_digits (unat (rb_size (g_rb_pkt p))) @ '','' @
     key_text ''rb_evt_depth'' @ dec_digits (unat (rb_size (g_rb_evt p))) @ '','' @
     key_text ''rb_pkt_overflow'' @ dec_digits (unat (rb_overflow (g_rb_pkt p))) @ '','' @
     key_text ''rb_evt_overflow'' @ dec_digits (unat (rb_overflow (g_rb_evt p))) @ '','' @
     key_text ''batches_sent'' @ dec_digits (unat (g_batches_sent p)) @ '','' @
     key_text ''events_sent'' @ dec_digits (unat (g_events_sent p)) @ '','' @
     key_text ''events_per_sec'' @ fmt_f2 eps @ ''}''"

text \<open>One round: the payload, the publisher after it, and the clock for the next.\<close>

definition metrics_round ::
  "int \<Rightarrow> int \<Rightarrow> amqp_attempt \<Rightarrow> bool \<Rightarrow> pipe \<Rightarrow> publisher \<Rightarrow> metrics_clock \<Rightarrow> string \<times> publisher \<times> metrics_clock" where
  "metrics_round now_ms pub_ms a published p pb c =
     (let payload = cstr_copy 512 (metrics_text p (events_per_sec (g_events_sent p) now_ms c))
      in (payload, fst (publisher_send_metrics pub_ms a published payload pb),
          \<lparr>last_events = g_events_sent p, last_ts_ms = now_ms\<rparr>))"

section \<open>\<open>pipeline_run\<close>\<close>

definition pipeline_setup :: "env \<Rightarrow> bool \<Rightarrow> bool \<Rightarrow> ids \<Rightarrow> pkt_slot \<Rightarrow> event_slot \<Rightarrow> pipe option" where
  "pipeline_setup e pkt_ok evt_ok st zp ze =
     (let buf_size = env_int e ''AGENT_BUFFER_SIZE'' DEFAULT_BUFFER_SIZE
      in if \<not> pkt_ok \<or> \<not> evt_ok then None else Some (pipe_start (word_of_int buf_size) st zp ze))"

text \<open>The result, once every thread has ended; \<open>evs\<close> are the events of the capture thread.\<close>

definition pipeline_run :: "bool \<Rightarrow> bool \<Rightarrow> capture_event list \<Rightarrow> int" where
  "pipeline_run pkt_ok evt_ok evs =
     (if \<not> pkt_ok then - 1 else if \<not> evt_ok then - 1
      else if g_capture_error (capture_run evs capture_start) then - 1 else 0)"

section \<open>\<open>main\<close>\<close>

text \<open>\<open>capture_list_interfaces\<close>: its status, given what \<open>pcap_findalldevs\<close> found.\<close>

definition capture_list_interfaces :: "string list option \<Rightarrow> int" where
  "capture_list_interfaces devs = (case devs of None \<Rightarrow> 1 | Some ds \<Rightarrow> if ds = [] then 1 else 0)"

text \<open>What \<open>main\<close> decides to do with its arguments, the environment and the files.\<close>

datatype plan = Exit int | Run_live string env | Replay_one string "string option" | Replay_directory string bool | List_ifaces

definition live_plan :: "bool \<Rightarrow> string option \<Rightarrow> env \<Rightarrow> plan" where
  "live_plan privileged ifc e =
     (let i = (case ifc of Some i \<Rightarrow> Some i | None \<Rightarrow> e ''AGENT_IFACE'')
      in case i of
           None \<Rightarrow> Exit 1
         | Some i \<Rightarrow> if i = [] then Exit 1 else if \<not> privileged then Exit 1 else Run_live i e)"

definition main_plan :: "(string \<Rightarrow> string option) \<Rightarrow> bool \<Rightarrow> string list \<Rightarrow> env \<Rightarrow> plan" where
  "main_plan files privileged argv e =
     (case parse_args argv of
        None \<Rightarrow> Exit 1
      | Some args \<Rightarrow>
          (case (case config_file args of None \<Rightarrow> (e, 0) | Some f \<Rightarrow> config_load_file (files f) e) of
             (e1, n) \<Rightarrow>
               if n < 0 then Exit 1
               else if run_mode args = MODE_SERVICE_INSTALL \<or> run_mode args = MODE_SERVICE_UNINSTALL \<or> service args
               then Exit 1
               else case run_mode args of
                      MODE_LIVE \<Rightarrow> live_plan privileged (iface args) e1
                    | MODE_REPLAY_FILE \<Rightarrow> Replay_one (the (pcap_file args)) (expect_file args)
                    | MODE_REPLAY_DIR \<Rightarrow> Replay_directory (the (replay_dir_arg args)) (report_file args \<noteq> None)
                    | MODE_LIST_IFACES \<Rightarrow> List_ifaces
                    | _ \<Rightarrow> Exit 0))"

text \<open>The exit status of the process; \<open>None\<close> is a read out of bounds.\<close>

definition agent_main ::
  "(string \<Rightarrow> json option) \<Rightarrow> (string \<Rightarrow> string option) \<Rightarrow> (string \<Rightarrow> pcap_packet list option) \<Rightarrow>
   (string \<Rightarrow> string list option) \<Rightarrow> string list option \<Rightarrow> bool \<Rightarrow> bool \<Rightarrow> bool \<Rightarrow> capture_event list \<Rightarrow>
   string list \<Rightarrow> env \<Rightarrow> int option" where
  "agent_main parse files pcaps dirs devs privileged pkt_ok evt_ok evs argv e =
     (case main_plan files privileged argv e of
        Exit n \<Rightarrow> Some n
      | Run_live ifc e1 \<Rightarrow> Some (if pipeline_run pkt_ok evt_ok evs = 0 then 0 else 1)
      | Replay_one path expect \<Rightarrow>
          (let g = (case expect of None \<Rightarrow> None | Some x \<Rightarrow> gabarito_load parse (files x))
           in map_option (\<lambda>(st, r). replay_exit g r) (replay_file (pcaps path) (Caller path) g (initial_ids False)))
      | Replay_directory dir report \<Rightarrow>
          map_option (\<lambda>(st, rep, code). code) (replay_dir parse files pcaps dirs dir report (initial_ids False))
      | List_ifaces \<Rightarrow> Some (capture_list_interfaces devs))"


section \<open>The capture thread\<close>

lemma capture_run_simps [simp]:
  "capture_run [] c = c" "capture_run (ev # evs) c = capture_run evs (capture_step ev c)"
  "capture_run (xs @ ys) c = capture_run ys (capture_run xs c)"
  by (simp_all add: capture_run_def)

text \<open>Loop rounds without an error, once looping without the break flag, change nothing.\<close>

lemma loop_stays:
  "cap_pc c = C_Loop \<Longrightarrow> \<not> break_loop c \<Longrightarrow> Request_stop \<notin> set evs \<Longrightarrow> Loop_round True \<notin> set evs \<Longrightarrow> capture_run evs c = c"
proof (induction evs)
  case Nil
  then show ?case by simp
next
  case (Cons ev evs)
  then have "capture_step ev c = c" by (cases ev) auto
  with Cons show ?case by simp
qed

text \<open>
  Invariant of the thread: where it is, what the handle is, and when the flags are set.
\<close>

definition capture_inv :: "capture_state \<Rightarrow> bool" where
  "capture_inv c \<longleftrightarrow>
     (g_pcap_handle c = H_Open) = (cap_pc c = C_Loop) \<and> (g_pcap_handle c = H_Closed) = (cap_pc c = C_Closed) \<and>
     (capture_done c = (cap_pc c = C_Done)) \<and> (g_capture_error c \<longrightarrow> cap_pc c = C_Done \<and> \<not> g_running c) \<and>
     (break_loop c \<longrightarrow> \<not> g_running c \<and> cap_pc c \<noteq> C_Open)"

lemma capture_step_inv: "capture_inv c \<Longrightarrow> capture_inv (capture_step ev c)"
  by (cases ev; cases "cap_pc c"; cases "g_pcap_handle c") (auto simp: capture_inv_def pipeline_request_stop_def)

lemma capture_run_inv: "capture_inv c \<Longrightarrow> capture_inv (capture_run evs c)"
  by (induction evs arbitrary: c) (simp_all add: capture_step_inv)

lemma capture_start_inv: "capture_inv capture_start"
  by (simp add: capture_inv_def capture_start_def)

lemma error_from_open:
  "cap_pc c \<noteq> C_Open \<Longrightarrow> cap_pc (capture_run evs c) \<noteq> C_Open \<and> g_capture_error (capture_run evs c) = g_capture_error c"
proof (induction evs arbitrary: c)
  case Nil
  then show ?case by simp
next
  case (Cons ev evs)
  then have "cap_pc (capture_step ev c) \<noteq> C_Open \<and> g_capture_error (capture_step ev c) = g_capture_error c"
    by (cases ev; cases "g_pcap_handle c") (simp_all add: pipeline_request_stop_def)
  with Cons.IH [of "capture_step ev c"] show ?case by simp
qed

lemma error_iff_open_failed:
  "cap_pc c = C_Open \<Longrightarrow> g_pcap_handle c = H_Null \<Longrightarrow> \<not> g_capture_error c \<Longrightarrow>
   g_capture_error (capture_run evs c) \<longleftrightarrow> (\<exists>rest. dropWhile (\<lambda>ev. \<forall>ok. ev \<noteq> Open_live ok) evs = Open_live False # rest)"
proof (induction evs arbitrary: c)
  case Nil
  then show ?case by simp
next
  case (Cons ev evs)
  show ?case
  proof (cases ev)
    case (Open_live ok)
    then show ?thesis using Cons.prems error_from_open [of "capture_step ev c" evs] by (cases ok) auto
  next
    case (Loop_round err)
    then show ?thesis using Cons by simp
  next
    case Clear_handle
    then show ?thesis using Cons by simp
  next
    case Request_stop
    then show ?thesis using Cons by (simp add: pipeline_request_stop_def)
  qed
qed

section \<open>The payload fits\<close>


lemma u64_digits: "length (dec_digits (unat (w :: u64))) \<le> 20"
  using unsigned_less [where 'a = nat, of w] by (intro dec_digits_len) simp_all

lemma events_per_sec_bounds: "0 \<le> events_per_sec ev now c \<and> events_per_sec ev now c \<le> 2 ^ 74"
proof -
  let ?d = "double_of_int (uint (ev - last_events c))"
  let ?n = "now - last_ts_ms c"
  let ?dt = "ddiv (double_of_int ?n) 1000"
  have d0: "0 \<le> ?d" unfolding double_of_int_def by (rule rnd64_nonneg) (simp only: of_int_0_le_iff uint_ge_0)
  have "uint (ev - last_events c) < 2 ^ 64" using uint_lt2p [of "ev - last_events c"] by simp
  then have "real_of_int (uint (ev - last_events c)) \<le> of_int (2 ^ 64)" by (simp only: of_int_le_iff less_imp_le)
  then have "real_of_int (uint (ev - last_events c)) \<le> 2 ^ 64" by simp
  then have d1: "?d \<le> 2 ^ 64" unfolding double_of_int_def using is_double_pow by (rule rnd64_le)
  show ?thesis
  proof (cases "?dt > 0")
    case False
    then show ?thesis by (simp add: events_per_sec_def Let_def)
  next
    case True
    have "1 \<le> ?n"
    proof (rule ccontr)
      assume "\<not> 1 \<le> ?n"
      then have "real_of_int ?n \<le> 0" by linarith
      then have "double_of_int ?n \<le> 0" unfolding double_of_int_def by (rule rnd64_le) simp
      then have "double_of_int ?n / 1000 \<le> 0" by simp
      then have "?dt \<le> 0" unfolding ddiv_def by (rule rnd64_le) simp
      with True show False by simp
    qed
    then have "double_of_int 1 \<le> double_of_int ?n" unfolding double_of_int_def by (intro rnd64_mono) linarith
    then have n: "1 \<le> double_of_int ?n" by simp
    have "is_double (1 / 1024)" using is_double_scaled [of 1 "- 10"] by (simp add: power_int_def power_divide)
    then have dt: "1 / 1024 \<le> ?dt" unfolding ddiv_def by (intro rnd64_ge) (use n in simp_all)
    have "?d / ?dt \<le> 2 ^ 64 / (1 / 1024)" by (rule frac_le) (use d0 d1 dt in auto)
    also have "\<dots> = 2 ^ 74" by simp
    finally have "ddiv ?d ?dt \<le> 2 ^ 74" unfolding ddiv_def using is_double_pow by (rule rnd64_le)
    moreover have "0 \<le> ?d / ?dt" using d0 True by (simp only: divide_nonneg_pos)
    then have "0 \<le> ddiv ?d ?dt" by (subst ddiv_def) (rule rnd64_nonneg)
    ultimately show ?thesis using True by (simp add: events_per_sec_def Let_def)
  qed
qed

lemma fmt_f2_length: "0 \<le> x \<Longrightarrow> x \<le> 2 ^ 74 \<Longrightarrow> length (fmt_f2 x) \<le> 26"
proof -
  assume x: "0 \<le> x" "x \<le> 2 ^ 74"
  let ?n = "nat (rne (x * 100))"
  have "x * 100 \<le> of_int (2 ^ 74 * 100)" using x by simp
  then have "rne (x * 100) \<le> 2 ^ 74 * 100" by (rule rne_le)
  then have "?n \<le> 2 ^ 74 * 100" by simp
  then have "?n div 100 \<le> 2 ^ 74 * 100 div 100" by (rule div_le_mono)
  then have "?n div 100 < 10 ^ 23" by simp
  then have a: "length (dec_digits (?n div 100)) \<le> 23" by (rule dec_digits_len) simp
  have b: "length (dec_digits (?n mod 100)) \<le> 2" by (rule dec_digits_len) simp_all
  from a b x show ?thesis by (simp add: fmt_f2_def Let_def pad0_def)
qed

section \<open>Properties\<close>

text \<open>
  The metrics message is never cut: whatever the counters, their 64-bit wrap included, and the
  clock, the payload in its 512 bytes is the whole text, and it is handed to the publisher as the
  round's message.
\<close>

theorem metrics_payload_whole:
  "fst (metrics_round now_ms pub_ms a published p pb c) =
     metrics_text p (events_per_sec (g_events_sent p) now_ms c)"
proof -
  have f: "length (fmt_f2 (events_per_sec (g_events_sent p) now_ms c)) \<le> 26"
    using events_per_sec_bounds by (intro fmt_f2_length) simp_all
  have "length (metrics_text p (events_per_sec (g_events_sent p) now_ms c)) < 512"
    using f u64_digits [of "rb_size (g_rb_pkt p)"] u64_digits [of "rb_size (g_rb_evt p)"]
      u64_digits [of "rb_overflow (g_rb_pkt p)"] u64_digits [of "rb_overflow (g_rb_evt p)"]
      u64_digits [of "g_batches_sent p"] u64_digits [of "g_events_sent p"]
    by (simp add: metrics_text_def key_text_def dq_def)
  then show ?thesis by (simp add: metrics_round_def Let_def)
qed

lemma to_int32_wrap: "to_int32 (n - 2 ^ 32) = to_int32 n"
proof -
  have "take_bit 32 (n - 4294967296) = take_bit 32 (n::int)" by (simp add: take_bit_eq_mod)
  then have "(word_of_int (n - 2 ^ 32) :: 32 word) = word_of_int n"
    unfolding word_of_int_eq_iff by simp
  then show ?thesis by (simp only: to_int32_def)
qed

text \<open>
  A long metrics interval turns into none: from 214748365 seconds the number of slices of the wait
  overflows to a negative one, so the thread does not wait at all between two messages; below, it
  waits ten slices for every second.
\<close>

theorem metrics_interval_overflow:
  assumes "0 < interval" and "interval \<le> 429496729"
  shows "metrics_wait interval None = (if interval \<le> 214748364 then 10 * nat interval else 0)"
proof (cases "interval \<le> 214748364")
  case True
  then have "metrics_slices interval = interval * 10"
    unfolding metrics_slices_def using assms(1) by (intro to_int32_id) simp_all
  with True show ?thesis by (simp add: metrics_wait_def nat_mult_distrib)
next
  case False
  have "to_int32 (interval * 10 - 2 ^ 32) = interval * 10 - 2 ^ 32"
    using False assms by (intro to_int32_id) simp_all
  moreover have "to_int32 (interval * 10) = to_int32 (interval * 10 - 2 ^ 32)"
    by (rule to_int32_wrap [symmetric])
  ultimately have "metrics_slices interval \<le> 0" using assms by (simp add: metrics_slices_def)
  with False show ?thesis by (simp add: metrics_wait_def)
qed

theorem metrics_interval_overflow_witness:
  "metrics_wait (env_int [''AGENT_METRICS_INTERVAL_SEC'' \<mapsto> dec_digits 300000000] ''AGENT_METRICS_INTERVAL_SEC'' 10) None = 0"
proof -
  have "env_int [''AGENT_METRICS_INTERVAL_SEC'' \<mapsto> dec_digits 300000000] ''AGENT_METRICS_INTERVAL_SEC'' 10 = 300000000"
    using atoi_dec_digits [of 300000000] by (simp add: env_int_def Let_def)
  then show ?thesis using metrics_interval_overflow [of 300000000] by simp
qed


text \<open>
  A stop requested before the interface is open is lost: the flag is cleared but no break is left
  for the loop, which never reads the flag, so as long as the capture works and nobody asks again the
  thread stays in \<open>pcap_loop\<close> and the rest of the pipeline waits for it.
\<close>

theorem stop_before_open_lost:
  assumes "Request_stop \<notin> set evs" and "Loop_round True \<notin> set evs"
  shows "let c = capture_run (Request_stop # Open_live True # evs) capture_start
         in cap_pc c = C_Loop \<and> \<not> capture_done c \<and> \<not> g_running c"
proof -
  let ?c = "capture_run [Request_stop, Open_live True] capture_start"
  have "cap_pc ?c = C_Loop" "\<not> break_loop ?c" "\<not> capture_done ?c" "\<not> g_running ?c"
    by (simp_all add: capture_start_def pipeline_request_stop_def)
  with loop_stays [of ?c evs] assms show ?thesis by (simp add: Let_def)
qed

theorem stop_before_open_lost_witness:
  "cap_pc (capture_run [Request_stop, Open_live True, Loop_round False, Loop_round False] capture_start) = C_Loop"
  using stop_before_open_lost [of "[Loop_round False, Loop_round False]"] by (simp add: Let_def)

text \<open>
  The end of the capture is consistent: on any order of events the done flag is up exactly when
  the thread has ended, no break is pending before the interface is open, and \<open>pipeline_run\<close> fails
  exactly when a buffer cannot be allocated or the interface does not open.
\<close>

theorem pipeline_run_result:
  "capture_inv (capture_run evs capture_start) \<and>
   pipeline_run pkt_ok evt_ok evs =
     (if pkt_ok \<and> evt_ok \<and> (\<nexists>rest. dropWhile (\<lambda>ev. \<forall>ok. ev \<noteq> Open_live ok) evs = Open_live False # rest) then 0 else - 1)"
  using error_iff_open_failed [of capture_start evs] capture_run_inv [OF capture_start_inv, of evs]
  by (simp add: pipeline_run_def capture_start_def)

text \<open>
  The interface can come from the configuration file: with \<open>AGENT_IFACE="name"\<close> in the file given by
  \<open>--config\<close>, no interface on the command line, none in the environment and the privileges, the agent
  captures on that interface, with the file's value in the environment of the threads.
\<close>

theorem config_selects_interface:
  assumes "files cfg = Some (quoted_line ''AGENT_IFACE'' name)" and "name \<noteq> []" and "CHR 0x0A \<notin> set name"
    and "length name < 1000" and "e ''AGENT_IFACE'' = None"
  shows "main_plan files True [prog, ''--config'', cfg] e = Run_live name (e(''AGENT_IFACE'' \<mapsto> name))"
proof -
  have p: "parse_args [prog, ''--config'', cfg] = Some (no_args\<lparr>config_file := Some cfg\<rparr>)"
    by (simp add: parse_args_def parse_words(1) parse_word(2))
  have k: "plain_key ''AGENT_IFACE''" by (simp add: plain_key_def isspace_def)
  have "config_load_file (Some (quoted_line ''AGENT_IFACE'' name)) e = (e(''AGENT_IFACE'' \<mapsto> name), 1)"
    using quoted_file [OF k assms(2,3), of e] assms(4,5) by simp
  then show ?thesis using assms(1,2) by (simp add: main_plan_def p no_args_def live_plan_def)
qed

theorem config_selects_interface_witness:
  "main_plan (\<lambda>f. Some (quoted_line ''AGENT_IFACE'' ''eth0'')) True [''agent'', ''--config'', ''agent.env''] (\<lambda>k. None) =
     Run_live ''eth0'' [''AGENT_IFACE'' \<mapsto> ''eth0'']"
  by (rule config_selects_interface) simp_all

section \<open>The loop of the metrics thread\<close>

text \<open>
  One turn: what its test of \<open>g_running\<close> sees, the slice of its wait before which a stop is seen (if
  any), and then the clock readings, what the broker does, and the counters at that time.
\<close>

record metrics_turn =
  mt_running :: bool
  mt_stop_at :: "nat option"
  mt_now :: int
  mt_pub_now :: int
  mt_attempt :: amqp_attempt
  mt_published :: bool
  mt_pipe :: pipe

text \<open>The slices slept and the payload of each turn, the publisher, and whether the thread has ended.\<close>

fun metrics_loop ::
  "int \<Rightarrow> metrics_turn list \<Rightarrow> publisher \<Rightarrow> metrics_clock \<Rightarrow> (nat \<times> string) list \<times> publisher \<times> bool" where
  "metrics_loop interval [] pb c = ([], pb, False)"
| "metrics_loop interval (t # ts) pb c =
     (if \<not> mt_running t then ([], pb, True)
      else if mt_stop_at t \<noteq> None then ([], pb, True)
      else case metrics_round (mt_now t) (mt_pub_now t) (mt_attempt t) (mt_published t) (mt_pipe t) pb c of
             (payload, pb1, c1) \<Rightarrow>
               (case metrics_loop interval ts pb1 c1 of
                  (out, pb2, ended) \<Rightarrow> ((metrics_wait interval None, payload) # out, pb2, ended)))"

definition metrics_thread :: "env \<Rightarrow> int \<Rightarrow> metrics_turn list \<Rightarrow> publisher \<Rightarrow> (nat \<times> string) list \<times> publisher \<times> bool" where
  "metrics_thread e start_ms turns pb =
     metrics_loop (env_int e ''AGENT_METRICS_INTERVAL_SEC'' DEFAULT_METRICS_INTERVAL) turns pb
       \<lparr>last_events = 0, last_ts_ms = start_ms\<rparr>"

definition turn_clock :: "metrics_turn \<Rightarrow> metrics_clock" where
  "turn_clock t = \<lparr>last_events = g_events_sent (mt_pipe t), last_ts_ms = mt_now t\<rparr>"

definition turn_text :: "metrics_clock \<Rightarrow> metrics_turn \<Rightarrow> string" where
  "turn_text c t = metrics_text (mt_pipe t) (events_per_sec (g_events_sent (mt_pipe t)) (mt_now t) c)"

text \<open>
  While no stop is requested the thread reports every turn, whole, and the rate of each report counts
  the events since the report before it.
\<close>

theorem metrics_thread_reports:
  assumes "\<forall>t \<in> set turns. mt_running t \<and> mt_stop_at t = None"
  shows "\<exists>pb'. metrics_thread e start_ms turns pb =
    (List.map (\<lambda>s. (metrics_wait (env_int e ''AGENT_METRICS_INTERVAL_SEC'' DEFAULT_METRICS_INTERVAL) None, s))
       (map2 turn_text (\<lparr>last_events = 0, last_ts_ms = start_ms\<rparr> # List.map turn_clock turns) turns), pb', False)"
proof -
  have round: "metrics_round (mt_now t) (mt_pub_now t) (mt_attempt t) (mt_published t) (mt_pipe t) pb c =
      (turn_text c t, fst (publisher_send_metrics (mt_pub_now t) (mt_attempt t) (mt_published t) (turn_text c t) pb),
       turn_clock t)" for t pb c
    using metrics_payload_whole [of "mt_now t" "mt_pub_now t" "mt_attempt t" "mt_published t" "mt_pipe t" pb c]
    by (simp add: metrics_round_def Let_def turn_text_def turn_clock_def)
  have "\<exists>pb'. metrics_loop n turns pb c =
      (List.map (\<lambda>s. (metrics_wait n None, s)) (map2 turn_text (c # List.map turn_clock turns) turns), pb', False)" for n c
    using assms
  proof (induction turns arbitrary: pb c)
    case (Cons t ts)
    have "\<forall>t \<in> set ts. mt_running t \<and> mt_stop_at t = None" using Cons.prems by simp
    from Cons.IH [OF this, of "fst (publisher_send_metrics (mt_pub_now t) (mt_attempt t) (mt_published t) (turn_text c t) pb)" "turn_clock t"]
    show ?case using Cons.prems by (auto simp: round)
  qed simp
  then show ?thesis by (simp add: metrics_thread_def)
qed

theorem metrics_thread_stops:
  assumes "\<not> mt_running t \<or> mt_stop_at t \<noteq> None"
  shows "metrics_thread e start_ms (t # ts) pb = ([], pb, True)"
  using assms by (simp add: metrics_thread_def)

end
