(* ===== verification/Nta_Netifwin.thy ===== *)
theory Nta_Netifwin
  imports Nta_Homenet
begin

text \<open>
  The discovery of the local networks on Windows (\<open>src/agent/platform/netif_win32.c\<close>): the query of
  the adapters, which retries when the buffer was too small, and the walk over their addresses. What
  \<open>GetAdaptersAddresses\<close> and \<open>malloc\<close> return is an argument. The POSIX discovery is in \<open>Nta_Homenet\<close>.
\<close>

section \<open>The query\<close>

text \<open>An address: the family, the raw value and the 8-bit length of its on-link prefix.\<close>

record unicast_addr =
  sa_family :: nat
  s_addr :: u32
  on_link_prefix :: u8

record adapter =
  if_type :: nat
  adapter_name :: "string option"
  unicast :: "unicast_addr list"

definition IF_TYPE_SOFTWARE_LOOPBACK :: nat where "IF_TYPE_SOFTWARE_LOOPBACK = 24"

text \<open>The outcomes of one call with a buffer of a given size; an overflow says the size needed.\<close>

datatype gaa_result = Gaa_ok "adapter list" | Gaa_overflow nat | Gaa_error

text \<open>
  The loop of attempts, \<open>mallocs\<close> and \<open>calls\<close> being what each one meets. \<open>None\<close> is a null list or an
  error, for which the function returns 0.
\<close>

fun query_adapters :: "nat \<Rightarrow> nat \<Rightarrow> bool list \<Rightarrow> (nat \<Rightarrow> gaa_result) list \<Rightarrow> adapter list option" where
  "query_adapters (Suc n) sz (m # ms) (call # calls) =
     (if \<not> m then None
      else case call sz of
             Gaa_ok as \<Rightarrow> Some as
           | Gaa_overflow sz1 \<Rightarrow> query_adapters n sz1 ms calls
           | Gaa_error \<Rightarrow> None)"
| "query_adapters _ _ _ _ = None"

definition GAA_ATTEMPTS :: nat where "GAA_ATTEMPTS = 3"
definition GAA_SIZE :: nat where "GAA_SIZE = 16 * 1024"

section \<open>The walk\<close>

definition prefix_mask :: "int \<Rightarrow> u32" where
  "prefix_mask prefix = htonl (if prefix = 0 then 0 else push_bit (nat (32 - prefix)) 0xFFFFFFFF)"

fun unicast_loop :: "('h \<Rightarrow> string \<Rightarrow> 'h \<times> int) \<Rightarrow> unicast_addr list \<Rightarrow> 'h \<Rightarrow> int \<Rightarrow> 'h \<times> int" where
  "unicast_loop on_cidr [] h n = (h, n)"
| "unicast_loop on_cidr (u # us) h n =
     (if sa_family u \<noteq> AF_INET then unicast_loop on_cidr us h n
      else let prefix = uint (on_link_prefix u)
           in if prefix < 0 \<or> 32 < prefix then unicast_loop on_cidr us h n
              else let net = s_addr u AND prefix_mask prefix;
                       (h1, r) = on_cidr h (cidr_text net prefix)
                   in unicast_loop on_cidr us h1 (if r = 0 then n + 1 else n))"

definition adapter_selected :: "string \<Rightarrow> adapter \<Rightarrow> bool" where
  "adapter_selected iface a \<longleftrightarrow>
     if_type a = IF_TYPE_SOFTWARE_LOOPBACK \<or>
     (case adapter_name a of None \<Rightarrow> False | Some nm \<Rightarrow> strstr iface nm)"

fun adapter_loop ::
  "string \<Rightarrow> ('h \<Rightarrow> string \<Rightarrow> 'h \<times> int) \<Rightarrow> adapter list \<Rightarrow> 'h \<Rightarrow> int \<Rightarrow> 'h \<times> int" where
  "adapter_loop iface on_cidr [] h n = (h, n)"
| "adapter_loop iface on_cidr (a # as) h n =
     (if \<not> adapter_selected iface a then adapter_loop iface on_cidr as h n
      else case unicast_loop on_cidr (unicast a) h n of (h1, n1) \<Rightarrow> adapter_loop iface on_cidr as h1 n1)"

definition netif_home_cidrs_win ::
  "bool list \<Rightarrow> (nat \<Rightarrow> gaa_result) list \<Rightarrow> string \<Rightarrow> ('h \<Rightarrow> string \<Rightarrow> 'h \<times> int) \<Rightarrow> 'h \<Rightarrow> 'h \<times> int" where
  "netif_home_cidrs_win mallocs calls iface on_cidr h =
     (case query_adapters GAA_ATTEMPTS GAA_SIZE mallocs calls of
        None \<Rightarrow> (h, 0)
      | Some as \<Rightarrow> adapter_loop iface on_cidr as h 0)"

section \<open>The same machine seen by \<open>getifaddrs\<close>\<close>

text \<open>
  The entries the POSIX call has for the same adapters: one for every address, under the name of the
  monitored interface or of the loopback when the adapter is one of them. An address whose on-link
  prefix is no IPv4 prefix has no netmask.
\<close>

definition posix_entry :: "string option \<Rightarrow> unicast_addr \<Rightarrow> ifaddr" where
  "posix_entry nm u =
     \<lparr>ifa_name = (case nm of Some x \<Rightarrow> x | None \<Rightarrow> []),
      ifa_addr = Some (sa_family u, s_addr u),
      ifa_netmask = (if nm = None \<or> 32 < uint (on_link_prefix u) then None
                     else Some (prefix_mask (uint (on_link_prefix u))))\<rparr>"

definition posix_name :: "string \<Rightarrow> adapter \<Rightarrow> string option" where
  "posix_name iface a =
     (if if_type a = IF_TYPE_SOFTWARE_LOOPBACK then Some ''lo''
      else if adapter_selected iface a then Some iface else None)"

definition posix_view :: "string \<Rightarrow> adapter list \<Rightarrow> ifaddr list" where
  "posix_view iface as = concat (List.map (\<lambda>a. List.map (posix_entry (posix_name iface a)) (unicast a)) as)"

section \<open>Lemmas\<close>

lemma prefix_loop_mask:
  "k \<le> 32 \<Longrightarrow> (\<And>i. i < 32 \<Longrightarrow> bit m i \<longleftrightarrow> 32 - k \<le> i) \<Longrightarrow> prefix_loop p m = p + int k"
proof (induction k arbitrary: p m)
  case 0
  then have "\<not> m AND 0x80000000 \<noteq> 0" by (simp only: top_bit_set)
  then show ?case by (simp add: prefix_loop.simps)
next
  case (Suc k)
  have top: "m AND 0x80000000 \<noteq> 0" using Suc.prems by (simp only: top_bit_set)
  have "prefix_loop (p + 1) (push_bit 1 m) = p + 1 + int k"
  proof (rule Suc.IH)
    show "k \<le> 32" using Suc.prems(1) by simp
    fix i :: nat assume "i < 32"
    moreover have "bit (push_bit 1 m) i \<longleftrightarrow> 1 \<le> i \<and> i < 32 \<and> bit m (i - 1)"
      unfolding bit_push_bit_iff by simp
    moreover have "bit m (i - 1) \<longleftrightarrow> 32 - Suc k \<le> i - 1" by (rule Suc.prems(2)) (use calculation(1) in simp)
    ultimately show "bit (push_bit 1 m) i \<longleftrightarrow> 32 - k \<le> i" using Suc.prems(1) by auto
  qed
  then show ?case using top by (simp add: prefix_loop.simps [of p m])
qed

lemma prefix_from_prefix_mask:
  assumes "0 \<le> prefix" "prefix \<le> 32"
  shows "prefix_from_mask (htonl (prefix_mask prefix)) = prefix"
proof -
  let ?k = "nat prefix"
  let ?m = "if ?k = 0 then 0 else push_bit (32 - ?k) (0xFFFFFFFF :: u32)"
  have k: "?k \<le> 32" using assms by simp
  have "nat (32 - prefix) = 32 - ?k" "prefix = 0 \<longleftrightarrow> ?k = 0" using assms by simp_all
  then have m: "htonl (prefix_mask prefix) = ?m" by (simp only: prefix_mask_def htonl_htonl)
  have "bit ?m i \<longleftrightarrow> 32 - ?k \<le> i" if "i < 32" for i
    using bit_prefix_mask [OF k, of i] that by blast
  then have "prefix_loop 0 ?m = 0 + int ?k" by (rule prefix_loop_mask [OF k])
  then show ?thesis using assms(1) by (simp only: prefix_from_mask_def m)
qed

lemma posix_entry_fields [simp]:
  "ifa_name (posix_entry (Some nm) u) = nm" "ifa_addr (posix_entry o' u) = Some (sa_family u, s_addr u)"
  "ifa_netmask (posix_entry None u) = None"
  "uint (on_link_prefix u) \<le> 32 \<Longrightarrow> ifa_netmask (posix_entry (Some nm) u) = Some (prefix_mask (uint (on_link_prefix u)))"
  "\<not> uint (on_link_prefix u) \<le> 32 \<Longrightarrow> ifa_netmask (posix_entry (Some nm) u) = None"
  by (simp_all add: posix_entry_def)

lemma netif_loop_append:
  "netif_loop iface f (xs @ ys) h n = (case netif_loop iface f xs h n of (h1, n1) \<Rightarrow> netif_loop iface f ys h1 n1)"
  by (induction xs arbitrary: h n) (auto split: option.split prod.split)

lemma unicast_as_posix:
  "nm = iface \<or> nm = ''lo'' \<Longrightarrow>
   unicast_loop f us h n = netif_loop iface f (List.map (posix_entry (Some nm)) us) h n"
proof (induction us arbitrary: h n)
  case (Cons u us)
  show ?case
  proof (cases "sa_family u = AF_INET \<and> uint (on_link_prefix u) \<le> 32")
    case True
    then have "prefix_from_mask (htonl (prefix_mask (uint (on_link_prefix u)))) = uint (on_link_prefix u)"
      by (intro prefix_from_prefix_mask) simp_all
    moreover have "(nm \<noteq> iface \<and> nm \<noteq> ''lo'') = False" using Cons.prems by blast
    ultimately show ?thesis using True Cons.IH [OF Cons.prems]
      by (simp only: unicast_loop.simps netif_loop.simps list.map posix_entry_fields option.case prod.case Let_def if_False)
        (simp split: prod.split)
  next
    case False
    then consider "sa_family u \<noteq> AF_INET" | "sa_family u = AF_INET" "\<not> uint (on_link_prefix u) \<le> 32" by blast
    then show ?thesis by cases (simp_all add: Cons.IH [OF Cons.prems] Let_def)
  qed
qed simp

lemma unselected_skipped:
  "netif_loop iface f (List.map (posix_entry None) us) h n = (h, n)"
  by (induction us) simp_all

lemma adapters_as_posix: "adapter_loop iface f as h n = netif_loop iface f (posix_view iface as) h n"
proof (induction as arbitrary: h n)
  case (Cons a as)
  show ?case
  proof (cases "adapter_selected iface a")
    case True
    then have "posix_name iface a = Some ''lo'' \<or> posix_name iface a = Some iface" by (simp add: posix_name_def)
    then obtain nm where nm: "posix_name iface a = Some nm" "nm = iface \<or> nm = ''lo''" by blast
    from True Cons unicast_as_posix [OF nm(2), of f "unicast a" h n] nm(1) show ?thesis
      by (simp add: posix_view_def netif_loop_append split: prod.split)
  next
    case False
    then have "posix_name iface a = None" by (simp add: posix_name_def adapter_selected_def)
    with False Cons show ?thesis by (simp add: posix_view_def netif_loop_append unselected_skipped)
  qed
qed (simp add: posix_view_def)

section \<open>Properties\<close>

text \<open>
  The two implementations agree: whatever the callback does, the walk over the Windows adapters
  calls it with the networks, in the order, and returns the count of the POSIX discovery on the
  entries of the same addresses, where the netmask takes the place of the prefix length; and a
  buffer that is too small once is asked for again with the size the system named.
\<close>

theorem windows_discovery_is_posix:
  assumes "\<And>sz. call sz = (if sz < need then Gaa_overflow need else Gaa_ok as)"
  shows "netif_home_cidrs_win (True # True # ms) (call # call # calls) iface f h =
    netif_home_cidrs (Some (posix_view iface as)) iface f h"
  by (simp add: netif_home_cidrs_win_def netif_home_cidrs_def GAA_ATTEMPTS_def numeral_3_eq_3 assms adapters_as_posix)

theorem windows_discovery_is_posix_witness:
  "let guid = ''{4D36E972}'';
       as = [\<lparr>if_type = 6, adapter_name = Some guid,
              unicast = [\<lparr>sa_family = AF_INET, s_addr = raw32 10 1 2 3, on_link_prefix = 8\<rparr>]\<rparr>];
       call = (\<lambda>sz. if sz < 20000 then Gaa_overflow 20000 else Gaa_ok as);
       log = (\<lambda>h c. (h @ [c], 0));
       iface = ''NPF_'' @ guid
   in netif_home_cidrs_win [True, True] [call, call] iface log [] =
        netif_home_cidrs (Some (posix_view iface as)) iface log [] \<and>
      netif_home_cidrs_win [True, True] [call, call] iface log [] = ([''10.0.0.0/8''], 1)"
proof -
  let ?guid = "''{4D36E972}''"
  let ?as = "[\<lparr>if_type = 6, adapter_name = Some ?guid,
              unicast = [\<lparr>sa_family = AF_INET, s_addr = raw32 10 1 2 3, on_link_prefix = 8\<rparr>]\<rparr>]"
  let ?call = "\<lambda>sz. if sz < 20000 then Gaa_overflow 20000 else Gaa_ok ?as"
  let ?log = "\<lambda>h c. (h @ [c], 0)"
  have e: "netif_home_cidrs_win [True, True] [?call, ?call] (''NPF_'' @ ?guid) ?log [] =
      netif_home_cidrs (Some (posix_view (''NPF_'' @ ?guid) ?as)) (''NPF_'' @ ?guid) ?log []"
    by (rule windows_discovery_is_posix) (rule refl)
  have "adapter_selected (''NPF_'' @ ?guid) (hd ?as)" by code_simp
  moreover have "cidr_text (raw32 10 1 2 3 AND prefix_mask 8) 8 = ''10.0.0.0/8''" by code_simp
  ultimately have "netif_home_cidrs_win [True, True] [?call, ?call] (''NPF_'' @ ?guid) ?log [] = ([''10.0.0.0/8''], 1)"
    by (simp add: netif_home_cidrs_win_def GAA_ATTEMPTS_def GAA_SIZE_def numeral_3_eq_3 AF_INET_def)
  with e show ?thesis unfolding Let_def by blast
qed

end
