(* ===== verification/Nta_Service.thy ===== *)
theory Nta_Service
  imports Nta_Agentmain
begin

text \<open>
  The agent as a Windows service (\<open>src/agent/platform/service_win32.c\<close>): the statuses it reports, the
  control handler that runs beside the service's main function, and the run of the pipeline between
  them as one step relation with the capture thread of \<open>Nta_Agentmain\<close>. The two threads share the
  static \<open>g_status\<close> without a lock, so a step is one store of \<open>report_status\<close> or its
  \<open>SetServiceStatus\<close>, which takes the structure as it is then. The service manager follows
  its documentation: it sends a control only when the last status it received accepts it, and one at
  a time.
\<close>

section \<open>Statuses\<close>

definition SERVICE_STOPPED :: u32 where "SERVICE_STOPPED = 1"
definition SERVICE_START_PENDING :: u32 where "SERVICE_START_PENDING = 2"
definition SERVICE_STOP_PENDING :: u32 where "SERVICE_STOP_PENDING = 3"
definition SERVICE_RUNNING :: u32 where "SERVICE_RUNNING = 4"

lemma state_distinct [simp]:
  "SERVICE_STOPPED \<noteq> SERVICE_START_PENDING" "SERVICE_STOPPED \<noteq> SERVICE_STOP_PENDING" "SERVICE_STOPPED \<noteq> SERVICE_RUNNING"
  "SERVICE_START_PENDING \<noteq> SERVICE_STOPPED" "SERVICE_START_PENDING \<noteq> SERVICE_STOP_PENDING" "SERVICE_START_PENDING \<noteq> SERVICE_RUNNING"
  "SERVICE_STOP_PENDING \<noteq> SERVICE_STOPPED" "SERVICE_STOP_PENDING \<noteq> SERVICE_START_PENDING" "SERVICE_STOP_PENDING \<noteq> SERVICE_RUNNING"
  "SERVICE_RUNNING \<noteq> SERVICE_STOPPED" "SERVICE_RUNNING \<noteq> SERVICE_START_PENDING" "SERVICE_RUNNING \<noteq> SERVICE_STOP_PENDING"
  by (simp_all add: SERVICE_STOPPED_def SERVICE_START_PENDING_def SERVICE_STOP_PENDING_def SERVICE_RUNNING_def)

record service_status =
  service_type :: u32
  current_state :: u32
  win32_exit :: u32
  wait_hint :: u32
  controls_accepted :: u32
  check_point :: u32

definition SERVICE_WIN32_OWN_PROCESS :: u32 where "SERVICE_WIN32_OWN_PROCESS = 0x10"
definition SERVICE_ACCEPT_STOP :: u32 where "SERVICE_ACCEPT_STOP = 1"
definition SERVICE_ACCEPT_SHUTDOWN :: u32 where "SERVICE_ACCEPT_SHUTDOWN = 4"
definition SERVICE_CONTROL_STOP :: u32 where "SERVICE_CONTROL_STOP = 1"
definition SERVICE_CONTROL_INTERROGATE :: u32 where "SERVICE_CONTROL_INTERROGATE = 4"
definition SERVICE_CONTROL_SHUTDOWN :: u32 where "SERVICE_CONTROL_SHUTDOWN = 5"
definition ERROR_CALL_NOT_IMPLEMENTED :: u32 where "ERROR_CALL_NOT_IMPLEMENTED = 120"
definition ERROR_SERVICE_SPECIFIC_ERROR :: u32 where "ERROR_SERVICE_SPECIFIC_ERROR = 1066"
definition STOP_WAIT_HINT_MS :: u32 where "STOP_WAIT_HINT_MS = 30000"

text \<open>
  The statics \<open>g_status\<close>, zero at first, and \<open>checkpoint\<close>, and every status handed to
  \<open>SetServiceStatus\<close>, in order.
\<close>

record service_reports =
  g_status :: service_status
  next_checkpoint :: u32
  status_log :: "service_status list"

text \<open>The statements of \<open>report_status\<close>, and what each does.\<close>

datatype report_op = Set_type | Set_state u32 | Set_exit u32 | Set_hint u32 | Set_controls u32
  | Set_check_point bool | Set_service_status

fun do_op :: "report_op \<Rightarrow> service_reports \<Rightarrow> service_reports" where
  "do_op Set_type r = r\<lparr>g_status := (g_status r)\<lparr>service_type := SERVICE_WIN32_OWN_PROCESS\<rparr>\<rparr>"
| "do_op (Set_state state) r = r\<lparr>g_status := (g_status r)\<lparr>current_state := state\<rparr>\<rparr>"
| "do_op (Set_exit exit_code) r = r\<lparr>g_status := (g_status r)\<lparr>win32_exit := exit_code\<rparr>\<rparr>"
| "do_op (Set_hint hint) r = r\<lparr>g_status := (g_status r)\<lparr>wait_hint := hint\<rparr>\<rparr>"
| "do_op (Set_controls controls) r = r\<lparr>g_status := (g_status r)\<lparr>controls_accepted := controls\<rparr>\<rparr>"
| "do_op (Set_check_point settled) r =
     (if settled then r\<lparr>g_status := (g_status r)\<lparr>check_point := 0\<rparr>\<rparr>
      else r\<lparr>g_status := (g_status r)\<lparr>check_point := next_checkpoint r\<rparr>, next_checkpoint := next_checkpoint r + 1\<rparr>)"
| "do_op Set_service_status r = r\<lparr>status_log := status_log r @ [g_status r]\<rparr>"

definition report_ops :: "u32 \<Rightarrow> u32 \<Rightarrow> u32 \<Rightarrow> report_op list" where
  "report_ops state exit_code hint =
     [Set_type, Set_state state, Set_exit exit_code, Set_hint hint,
      Set_controls (if state = SERVICE_RUNNING then SERVICE_ACCEPT_STOP OR SERVICE_ACCEPT_SHUTDOWN else 0),
      Set_check_point (state = SERVICE_RUNNING \<or> state = SERVICE_STOPPED), Set_service_status]"

text \<open>A call that no other call interrupts.\<close>

definition report_status :: "u32 \<Rightarrow> u32 \<Rightarrow> u32 \<Rightarrow> service_reports \<Rightarrow> service_reports" where
  "report_status state exit_code hint r = fold do_op (report_ops state exit_code hint) r"

section \<open>The service and its manager\<close>

datatype service_pc = W_Register | W_Start | W_Redirect | W_Pipeline | W_Report int | W_End

text \<open>
  \<open>service_pc\<close> is where \<open>service_main\<close> goes on after the report it is in; \<open>main_ops\<close> and \<open>handler_ops\<close>
  are the statements left of the \<open>report_status\<close> each thread is in. \<open>sent\<close> is the control on its way
  to the handler, \<open>stopping\<close> that the handler has begun to report the stop and not yet asked the
  pipeline for it. Two ghosts: \<open>read_failed\<close> remembers a read error of the capture, \<open>overlapped\<close> that
  one thread began a report while the other was in one.
\<close>

record win_service =
  reports :: service_reports
  capture :: capture_state
  service_pc :: service_pc
  main_ops :: "report_op list"
  handler_ops :: "report_op list"
  sent :: "u32 option"
  stopping :: bool
  read_failed :: bool
  overlapped :: bool

definition no_reports :: service_reports where
  "no_reports = \<lparr>g_status = \<lparr>service_type = 0, current_state = 0, win32_exit = 0, wait_hint = 0, controls_accepted = 0, check_point = 0\<rparr>,
     next_checkpoint = 1, status_log = []\<rparr>"

definition service_start :: win_service where
  "service_start = \<lparr>reports = no_reports, capture = capture_start, service_pc = W_Register, main_ops = [], handler_ops = [],
     sent = None, stopping = False, read_failed = False, overlapped = False\<rparr>"

definition is_stop :: "u32 \<Rightarrow> bool" where
  "is_stop control \<longleftrightarrow> control = SERVICE_CONTROL_STOP \<or> control = SERVICE_CONTROL_SHUTDOWN"

text \<open>\<open>control_handler\<close>: the report it begins, its stop request and the value it returns.\<close>

definition control_report :: "u32 \<Rightarrow> win_service \<Rightarrow> win_service" where
  "control_report control s =
     (if is_stop control
      then s\<lparr>handler_ops := report_ops SERVICE_STOP_PENDING 0 STOP_WAIT_HINT_MS, sent := None, stopping := True,
             overlapped := (overlapped s \<or> main_ops s \<noteq> [])\<rparr>
      else s\<lparr>sent := None\<rparr>)"

definition control_stop :: "win_service \<Rightarrow> win_service" where
  "control_stop s = s\<lparr>capture := pipeline_request_stop (capture s), stopping := False\<rparr>"

definition control_result :: "u32 \<Rightarrow> u32" where
  "control_result control =
     (if is_stop control then 0 else if control = SERVICE_CONTROL_INTERROGATE then 0 else ERROR_CALL_NOT_IMPLEMENTED)"

text \<open>The report of \<open>service_main\<close> after \<open>pipeline_run\<close> returned \<open>rc\<close>.\<close>

definition service_exit :: "int \<Rightarrow> u32" where
  "service_exit rc = (if rc = 0 then 0 else ERROR_SERVICE_SPECIFIC_ERROR)"

definition main_report :: "report_op list \<Rightarrow> service_pc \<Rightarrow> win_service \<Rightarrow> win_service" where
  "main_report ops pc s = s\<lparr>main_ops := ops, service_pc := pc, overlapped := (overlapped s \<or> handler_ops s \<noteq> [])\<rparr>"

text \<open>Does the manager send this control to a service whose last status is the given one?\<close>

definition accepts :: "service_status list \<Rightarrow> u32 \<Rightarrow> bool" where
  "accepts hist control \<longleftrightarrow>
     (if control = SERVICE_CONTROL_STOP then hist \<noteq> [] \<and> controls_accepted (last hist) AND SERVICE_ACCEPT_STOP \<noteq> 0
      else if control = SERVICE_CONTROL_SHUTDOWN
      then hist \<noteq> [] \<and> controls_accepted (last hist) AND SERVICE_ACCEPT_SHUTDOWN \<noteq> 0 else True)"

inductive service_step :: "win_service \<Rightarrow> win_service \<Rightarrow> bool" where
  register: "service_pc s = W_Register \<Longrightarrow> service_step s (s\<lparr>service_pc := (if ok then W_Start else W_End)\<rparr>)"
| starting: "service_pc s = W_Start \<Longrightarrow> main_ops s = [] \<Longrightarrow>
    service_step s (main_report (report_ops SERVICE_START_PENDING 0 5000) W_Redirect s)"
| running: "service_pc s = W_Redirect \<Longrightarrow> main_ops s = [] \<Longrightarrow>
    service_step s (main_report (report_ops SERVICE_RUNNING 0 0) W_Pipeline s)"
| no_buffers: "service_pc s = W_Pipeline \<Longrightarrow> main_ops s = [] \<Longrightarrow> cap_pc (capture s) = C_Open \<Longrightarrow>
    service_step s (s\<lparr>service_pc := W_Report (pipeline_run False evt_ok [])\<rparr>)"
| capture: "service_pc s = W_Pipeline \<Longrightarrow> main_ops s = [] \<Longrightarrow> ev \<noteq> Request_stop \<Longrightarrow>
    service_step s (s\<lparr>capture := capture_step ev (capture s), read_failed := (read_failed s \<or> ev = Loop_round True)\<rparr>)"
| pipeline_end: "service_pc s = W_Pipeline \<Longrightarrow> main_ops s = [] \<Longrightarrow> capture_done (capture s) \<Longrightarrow>
    service_step s (s\<lparr>service_pc := W_Report (if g_capture_error (capture s) then - 1 else 0)\<rparr>)"
| stopped: "service_pc s = W_Report rc \<Longrightarrow> main_ops s = [] \<Longrightarrow>
    service_step s (main_report (report_ops SERVICE_STOPPED (service_exit rc) 0) W_End s)"
| main_op: "main_ops s = op # ops \<Longrightarrow> service_step s (s\<lparr>reports := do_op op (reports s), main_ops := ops\<rparr>)"
| handler_op: "handler_ops s = op # ops \<Longrightarrow> service_step s (s\<lparr>reports := do_op op (reports s), handler_ops := ops\<rparr>)"
| send: "sent s = None \<Longrightarrow> \<not> stopping s \<Longrightarrow> accepts (status_log (reports s)) control \<Longrightarrow>
    service_step s (s\<lparr>sent := Some control\<rparr>)"
| handle: "sent s = Some control \<Longrightarrow> service_step s (control_report control s)"
| stop: "stopping s \<Longrightarrow> handler_ops s = [] \<Longrightarrow> service_step s (control_stop s)"

section \<open>The histories\<close>

definition start_status :: service_status where
  "start_status = \<lparr>service_type = SERVICE_WIN32_OWN_PROCESS, current_state = SERVICE_START_PENDING, win32_exit = 0,
     wait_hint = 5000, controls_accepted = 0, check_point = 1\<rparr>"

definition run_status :: service_status where
  "run_status = \<lparr>service_type = SERVICE_WIN32_OWN_PROCESS, current_state = SERVICE_RUNNING, win32_exit = 0,
     wait_hint = 0, controls_accepted = 5, check_point = 0\<rparr>"

definition stopping_status :: service_status where
  "stopping_status = \<lparr>service_type = SERVICE_WIN32_OWN_PROCESS, current_state = SERVICE_STOP_PENDING, win32_exit = 0,
     wait_hint = 30000, controls_accepted = 0, check_point = 2\<rparr>"

definition end_status :: "u32 \<Rightarrow> service_status" where
  "end_status code = \<lparr>service_type = SERVICE_WIN32_OWN_PROCESS, current_state = SERVICE_STOPPED, win32_exit = code,
     wait_hint = 0, controls_accepted = 0, check_point = 0\<rparr>"

lemma accepted_of [simp]:
  "controls_accepted start_status = 0" "controls_accepted stopping_status = 0" "controls_accepted (end_status code) = 0"
  by (simp_all add: start_status_def stopping_status_def end_status_def)

lemma state_of [simp]:
  "current_state start_status = SERVICE_START_PENDING" "current_state run_status = SERVICE_RUNNING"
  "current_state stopping_status = SERVICE_STOP_PENDING" "current_state (end_status code) = SERVICE_STOPPED"
  by (simp_all add: start_status_def run_status_def stopping_status_def end_status_def)

definition start_report :: service_reports where
  "start_report = \<lparr>g_status = start_status, next_checkpoint = 2, status_log = [start_status]\<rparr>"

definition up_report :: service_reports where
  "up_report = \<lparr>g_status = run_status, next_checkpoint = 2, status_log = [start_status, run_status]\<rparr>"

definition stop_report :: service_reports where
  "stop_report = \<lparr>g_status = stopping_status, next_checkpoint = 3, status_log = [start_status, run_status, stopping_status]\<rparr>"

definition end_report :: "u32 \<Rightarrow> service_reports \<Rightarrow> service_reports" where
  "end_report code r = r\<lparr>g_status := end_status code, status_log := status_log r @ [end_status code]\<rparr>"

lemma log_of [simp]:
  "status_log no_reports = []" "status_log start_report = [start_status]" "status_log up_report = [start_status, run_status]"
  "status_log stop_report = [start_status, run_status, stopping_status]" "status_log (end_report code r) = status_log r @ [end_status code]"
  by (simp_all add: no_reports_def start_report_def up_report_def stop_report_def end_report_def)

text \<open>A whole call, from any state of the shared structure.\<close>

lemma report_status_result:
  "report_status st code hint r =
     (let settled = (st = SERVICE_RUNNING \<or> st = SERVICE_STOPPED);
          x = \<lparr>service_type = SERVICE_WIN32_OWN_PROCESS, current_state = st, win32_exit = code, wait_hint = hint,
            controls_accepted = (if st = SERVICE_RUNNING then SERVICE_ACCEPT_STOP OR SERVICE_ACCEPT_SHUTDOWN else 0),
            check_point = (if settled then 0 else next_checkpoint r)\<rparr>
      in \<lparr>g_status = x, next_checkpoint = (if settled then next_checkpoint r else next_checkpoint r + 1),
          status_log = status_log r @ [x]\<rparr>)"
  by (cases r; cases "g_status r") (simp add: report_status_def report_ops_def Let_def)

lemma reports_of_main:
  "report_status SERVICE_START_PENDING 0 5000 no_reports = start_report"
  "report_status SERVICE_RUNNING 0 0 start_report = up_report"
  "report_status SERVICE_STOP_PENDING 0 STOP_WAIT_HINT_MS up_report = stop_report"
  "report_status SERVICE_STOPPED code 0 r = end_report code r"
  by (simp_all add: report_status_result Let_def no_reports_def start_report_def up_report_def stop_report_def end_report_def
      start_status_def run_status_def stopping_status_def end_status_def SERVICE_ACCEPT_STOP_def SERVICE_ACCEPT_SHUTDOWN_def STOP_WAIT_HINT_MS_def)

lemma report_after_end:
  "report_status SERVICE_STOP_PENDING 0 STOP_WAIT_HINT_MS (end_report code up_report) =
     \<lparr>g_status = stopping_status, next_checkpoint = 3, status_log = [start_status, run_status, end_status code, stopping_status]\<rparr>"
  by (simp add: report_status_result Let_def up_report_def end_report_def stopping_status_def STOP_WAIT_HINT_MS_def)

section \<open>A call on its way\<close>

text \<open>The call has \<open>left\<close> to do, and no other thread has touched the structure since it began.\<close>

definition in_call :: "report_op list \<Rightarrow> service_reports \<Rightarrow> report_op list \<Rightarrow> service_reports \<Rightarrow> bool" where
  "in_call ops base left r \<longleftrightarrow> (\<exists>done. ops = done @ left \<and> r = fold do_op done base)"

lemma in_call_begin: "in_call ops base ops base"
  by (simp add: in_call_def)

lemma in_call_op: "in_call ops base (op # ops') r \<Longrightarrow> in_call ops base ops' (do_op op r)"
  unfolding in_call_def by (elim exE, rule_tac x = "done @ [op]" in exI) simp

lemma in_call_end: "in_call (report_ops st code hint) base [] r \<longleftrightarrow> r = report_status st code hint base"
  by (simp add: in_call_def report_status_def)

lemma fold_keeps_log: "Set_service_status \<notin> set ops \<Longrightarrow> status_log (fold do_op ops r) = status_log r"
proof (induction ops arbitrary: r)
  case (Cons op ops)
  then show ?case by (cases op) simp_all
qed simp

lemma in_call_log: "in_call (report_ops st code hint) base left r \<Longrightarrow> left \<noteq> [] \<Longrightarrow> status_log r = status_log base"
proof -
  assume a: "in_call (report_ops st code hint) base left r" "left \<noteq> []"
  then obtain ops where ops: "report_ops st code hint = ops @ left" "r = fold do_op ops base" by (auto simp: in_call_def)
  have "ops @ butlast left = butlast (report_ops st code hint)" using ops(1) a(2) by (simp add: butlast_append)
  then have "set ops \<subseteq> set (butlast (report_ops st code hint))" by (metis set_append Un_upper1)
  then have "Set_service_status \<notin> set ops" by (auto simp: report_ops_def)
  then show ?thesis by (simp add: ops(2) fold_keeps_log)
qed

text \<open>Its history: the one it began with, or the call is over.\<close>

lemma in_call_cases:
  assumes "in_call (report_ops st code hint) base left r"
  obtains "left \<noteq> []" "status_log r = status_log base" | "left = []" "r = report_status st code hint base"
  using assms in_call_log [OF assms] by (cases "left = []") (auto simp: in_call_end)

section \<open>The invariant\<close>

abbreviation start_ops :: "report_op list" where "start_ops \<equiv> report_ops SERVICE_START_PENDING 0 5000"
abbreviation running_ops :: "report_op list" where "running_ops \<equiv> report_ops SERVICE_RUNNING 0 0"
abbreviation stopping_ops :: "report_op list" where "stopping_ops \<equiv> report_ops SERVICE_STOP_PENDING 0 STOP_WAIT_HINT_MS"
abbreviation end_ops :: "u32 \<Rightarrow> report_op list" where "end_ops code \<equiv> report_ops SERVICE_STOPPED code 0"

text \<open>Every field is that of one of two statuses.\<close>

definition field_of_either :: "service_status \<Rightarrow> service_status \<Rightarrow> service_status \<Rightarrow> bool" where
  "field_of_either a b x \<longleftrightarrow> service_type x \<in> {service_type a, service_type b} \<and>
     current_state x \<in> {current_state a, current_state b} \<and> win32_exit x \<in> {win32_exit a, win32_exit b} \<and>
     wait_hint x \<in> {wait_hint a, wait_hint b} \<and> controls_accepted x \<in> {controls_accepted a, controls_accepted b} \<and>
     check_point x \<in> {check_point a, check_point b}"

text \<open>
  The two calls that may overlap, \<open>i\<close> statements into the report of the end and \<open>j\<close> into that of the
  stop.
\<close>

definition torn_at :: "u32 \<Rightarrow> nat \<Rightarrow> nat \<Rightarrow> service_reports \<Rightarrow> bool" where
  "torn_at code i j r \<longleftrightarrow>
     (\<exists>rest. status_log r = [start_status, run_status] @ rest \<and> length rest = of_bool (i = 7) + of_bool (j = 7) \<and>
        list_all (field_of_either stopping_status (end_status code)) rest) \<and>
     service_type (g_status r) = SERVICE_WIN32_OWN_PROCESS \<and>
     current_state (g_status r) \<in> {SERVICE_STOPPED, SERVICE_STOP_PENDING, SERVICE_RUNNING} \<and>
     (2 \<le> i \<or> 2 \<le> j \<longrightarrow> current_state (g_status r) \<noteq> SERVICE_RUNNING) \<and>
     win32_exit (g_status r) \<in> {0, code} \<and> wait_hint (g_status r) \<in> {0, 30000} \<and>
     (5 \<le> i \<or> 5 \<le> j \<longrightarrow> controls_accepted (g_status r) = 0) \<and> check_point (g_status r) \<in> {0, 2} \<and>
     next_checkpoint r = (if 6 \<le> j then 3 else 2)"

definition torn :: "u32 \<Rightarrow> report_op list \<Rightarrow> report_op list \<Rightarrow> service_reports \<Rightarrow> bool" where
  "torn code ops ops' r \<longleftrightarrow>
     (\<exists>i \<le> 7. \<exists>j \<le> 7. ops = drop i (end_ops code) \<and> ops' = drop j stopping_ops \<and> torn_at code i j r)"

lemma length_ops [simp]: "length (report_ops st code hint) = 7"
  by (simp add: report_ops_def)

lemma ops_nonempty: "report_ops st code hint \<noteq> []"
  by (simp add: report_ops_def)

lemma below7: "i < 7 \<longleftrightarrow> i \<in> {0, 1, 2, 3, 4, 5, 6 :: nat}"
  by auto

lemma drop_op: "op # ops = drop i (report_ops st code hint) \<Longrightarrow> i < 7 \<and> op = report_ops st code hint ! i \<and> ops = drop (Suc i) (report_ops st code hint)"
  by (metis Cons_nth_drop_Suc drop_eq_Nil length_ops list.distinct(1) list.inject not_le)

lemma torn_at_main:
  assumes "torn_at code i j r" "i < 7"
  shows "torn_at code (Suc i) j (do_op (end_ops code ! i) r)"
  using assms unfolding below7
  by (elim insertE emptyE)
    (auto simp: torn_at_def report_ops_def field_of_either_def stopping_status_def end_status_def)

lemma torn_at_handler:
  assumes "torn_at code i j r" "j < 7"
  shows "torn_at code i (Suc j) (do_op (stopping_ops ! j) r)"
  using assms unfolding below7
  by (elim insertE emptyE)
    (auto simp: torn_at_def report_ops_def field_of_either_def stopping_status_def end_status_def STOP_WAIT_HINT_MS_def)

lemma torn_main: "torn code (op # ops) ops' r \<Longrightarrow> torn code ops ops' (do_op op r)"
  unfolding torn_def by (metis drop_op torn_at_main Suc_leI)

lemma torn_handler: "torn code ops (op # ops') r \<Longrightarrow> torn code ops ops' (do_op op r)"
  unfolding torn_def by (metis drop_op torn_at_handler Suc_leI)

lemma torn_begin: "torn code (end_ops code) stopping_ops up_report"
  unfolding torn_def
  by (rule exI [of _ 0], intro conjI exI [of _ 0])
    (simp_all add: torn_at_def up_report_def run_status_def)

text \<open>A second call begins while the first is on its way.\<close>

lemma fold_torn_main: "torn code (ops @ left) ops' r \<Longrightarrow> torn code left ops' (fold do_op ops r)"
  by (induction ops arbitrary: r) (auto dest: torn_main)

lemma fold_torn_handler: "torn code ops' (ops @ left) r \<Longrightarrow> torn code ops' left (fold do_op ops r)"
  by (induction ops arbitrary: r) (auto dest: torn_handler)

lemma overlap_begins:
  "in_call (end_ops code) up_report left r \<Longrightarrow> torn code left stopping_ops r"
  "in_call stopping_ops up_report left r \<Longrightarrow> torn code (end_ops code) left r"
  using torn_begin fold_torn_main fold_torn_handler unfolding in_call_def by metis+

text \<open>While a call may be interrupted the manager sends no further stop once a report came through.\<close>

lemma torn_log:
  assumes "torn code ops ops' r"
  obtains rest where "status_log r = [start_status, run_status] @ rest" "length rest \<le> 2"
    "list_all (field_of_either stopping_status (end_status code)) rest" "ops' = [] \<Longrightarrow> rest \<noteq> []"
proof -
  from assms obtain i j where "i \<le> 7" "j \<le> 7" "ops' = drop j stopping_ops" "torn_at code i j r" by (auto simp: torn_def)
  then obtain rest where "status_log r = [start_status, run_status] @ rest" "length rest = of_bool (i = 7) + of_bool (j = 7)"
    "list_all (field_of_either stopping_status (end_status code)) rest" by (auto simp: torn_at_def)
  moreover have "ops' = [] \<Longrightarrow> j = 7" using \<open>ops' = drop j stopping_ops\<close> \<open>j \<le> 7\<close> by simp
  ultimately show thesis by (intro that) auto
qed

text \<open>The reports made at each point of \<open>service_main\<close>, and whether a stop can be on its way.\<close>

definition stop_sent :: "win_service \<Rightarrow> bool" where
  "stop_sent s \<longleftrightarrow> (case sent s of None \<Rightarrow> False | Some control \<Rightarrow> is_stop control)"

definition main_log :: "win_service \<Rightarrow> bool" where
  "main_log s \<longleftrightarrow> main_ops s = [] \<and>
     (reports s = up_report \<and> handler_ops s = [] \<or>
      in_call stopping_ops up_report (handler_ops s) (reports s) \<and> \<not> stop_sent s)"

definition solo_end :: "u32 \<Rightarrow> win_service \<Rightarrow> bool" where
  "solo_end code s \<longleftrightarrow>
     in_call (end_ops code) up_report (main_ops s) (reports s) \<and> handler_ops s = [] \<or>
     in_call (end_ops code) stop_report (main_ops s) (reports s) \<and> handler_ops s = [] \<and> \<not> stop_sent s \<or>
     in_call stopping_ops (end_report code up_report) (handler_ops s) (reports s) \<and> main_ops s = [] \<and> \<not> stop_sent s"

definition torn_end :: "u32 \<Rightarrow> win_service \<Rightarrow> bool" where
  "torn_end code s \<longleftrightarrow> torn code (main_ops s) (handler_ops s) (reports s) \<and> \<not> stop_sent s"

definition calm :: "win_service \<Rightarrow> bool" where
  "calm s \<longleftrightarrow> handler_ops s = [] \<and> \<not> stop_sent s"

definition end_log :: "win_service \<Rightarrow> bool" where
  "end_log s \<longleftrightarrow> reports s = no_reports \<and> main_ops s = [] \<and> calm s \<and> \<not> overlapped s \<or>
     (\<exists>code \<in> {0, ERROR_SERVICE_SPECIFIC_ERROR}. if overlapped s then torn_end code s else solo_end code s)"

definition service_inv :: "win_service \<Rightarrow> bool" where
  "service_inv s \<longleftrightarrow> (handler_ops s \<noteq> [] \<longrightarrow> stopping s) \<and> (service_pc s \<noteq> W_End \<longrightarrow> \<not> overlapped s) \<and>
     (case service_pc s of
        W_Register \<Rightarrow> reports s = no_reports \<and> main_ops s = [] \<and> calm s
      | W_Start \<Rightarrow> reports s = no_reports \<and> main_ops s = [] \<and> calm s
      | W_Redirect \<Rightarrow> in_call start_ops no_reports (main_ops s) (reports s) \<and> calm s
      | W_Pipeline \<Rightarrow> main_ops s \<noteq> [] \<and> in_call running_ops start_report (main_ops s) (reports s) \<and> calm s \<or> main_log s
      | W_Report rc \<Rightarrow> main_log s
      | W_End \<Rightarrow> end_log s)"

lemmas log_defs = main_log_def solo_end_def torn_end_def calm_def stop_sent_def

lemma service_exit_codes: "service_exit rc \<in> {0, ERROR_SERVICE_SPECIFIC_ERROR}"
  by (simp add: service_exit_def)

lemma pc_frame [simp]:
  "service_pc (control_report control s) = service_pc s" "service_pc (control_stop s) = service_pc s"
  by (simp_all add: control_report_def control_stop_def)

lemma control_report_frame [simp]:
  "reports (control_report control s) = reports s" "main_ops (control_report control s) = main_ops s"
  "overlapped (control_report control s) = (overlapped s \<or> is_stop control \<and> main_ops s \<noteq> [])"
  "stopping (control_report control s) = (is_stop control \<or> stopping s)"
  "handler_ops (control_report control s) = (if is_stop control then stopping_ops else handler_ops s)"
  by (simp_all add: control_report_def)

lemma control_stop_frame [simp]:
  "reports (control_stop s) = reports s" "main_ops (control_stop s) = main_ops s" "handler_ops (control_stop s) = handler_ops s"
  "overlapped (control_stop s) = overlapped s" "\<not> stopping (control_stop s)"
  by (simp_all add: control_stop_def)

text \<open>\<open>service_main\<close> begins its last report: alone, or while the handler is in its own.\<close>

lemma end_begins:
  assumes "main_log s"
  shows "if handler_ops s \<noteq> [] then torn_end code (main_report (end_ops code) W_End s)
    else solo_end code (main_report (end_ops code) W_End s)"
  using assms
  by (auto simp: log_defs main_report_def in_call_end reports_of_main overlap_begins intro: in_call_begin)

text \<open>The handler begins to report a stop.\<close>

lemma main_handle:
  assumes "main_log s" "sent s = Some control"
  shows "main_log (control_report control s)"
  using assms by (auto simp: log_defs control_report_def intro: in_call_begin)

lemma solo_handle:
  assumes "solo_end code s" "sent s = Some control"
  shows "if is_stop control \<and> main_ops s \<noteq> [] then torn_end code (control_report control s)
    else solo_end code (control_report control s)"
  using assms
  by (auto simp: log_defs control_report_def in_call_end reports_of_main overlap_begins intro: in_call_begin)

lemma end_handle:
  assumes "end_log s" "sent s = Some control"
  shows "end_log (control_report control s)"
proof -
  consider "reports s = no_reports" "main_ops s = []" "calm s" "\<not> overlapped s"
    | code where "code \<in> {0, ERROR_SERVICE_SPECIFIC_ERROR}" "overlapped s" "torn_end code s"
    | code where "code \<in> {0, ERROR_SERVICE_SPECIFIC_ERROR}" "\<not> overlapped s" "solo_end code s"
    using assms(1) by (auto simp: end_log_def split: if_splits)
  then show ?thesis
  proof cases
    case 1
    then show ?thesis using assms(2) by (auto simp: end_log_def calm_def stop_sent_def control_report_def)
  next
    case 2
    then have "\<not> is_stop control" using assms(2) by (simp add: torn_end_def stop_sent_def)
    with 2 show ?thesis by (auto simp: end_log_def torn_end_def stop_sent_def control_report_def)
  next
    case 3
    from solo_handle [OF 3(3) assms(2)] 3(1,2) show ?thesis
      unfolding end_log_def by (intro disjI2 bexI [of _ code]) (auto simp: control_report_def split: if_splits)
  qed
qed

text \<open>The manager sends no stop to a service whose last status accepts none.\<close>

lemma no_stop:
  assumes "accepts hist control" "hist = [] \<or> controls_accepted (last hist) = 0"
  shows "\<not> is_stop control"
  using assms by (auto simp: accepts_def is_stop_def split: if_splits)

lemma torn_refuses:
  assumes "torn_end code s" "handler_ops s = []" "accepts (status_log (reports s)) control"
  shows "\<not> is_stop control"
proof -
  from assms(1) have "torn code (main_ops s) (handler_ops s) (reports s)" by (simp add: torn_end_def)
  then obtain rest where r: "status_log (reports s) = [start_status, run_status] @ rest" "rest \<noteq> []"
    "list_all (field_of_either stopping_status (end_status code)) rest" using assms(2) by (auto elim: torn_log)
  then have "field_of_either stopping_status (end_status code) (last rest)" by (simp add: list_all_iff)
  then have "controls_accepted (last (status_log (reports s))) = 0" using r(1,2) by (simp add: field_of_either_def)
  then show ?thesis using no_stop [OF assms(3)] by simp
qed

lemma main_send:
  assumes "main_log s" "\<not> stopping s" "handler_ops s \<noteq> [] \<longrightarrow> stopping s" "accepts (status_log (reports s)) control"
  shows "main_log (s\<lparr>sent := Some control\<rparr>)"
proof -
  have h: "handler_ops s = []" using assms(2,3) by blast
  have "reports s \<noteq> up_report \<Longrightarrow> \<not> is_stop control"
    using assms(1) h no_stop [OF assms(4)] by (auto simp: main_log_def in_call_end reports_of_main stop_report_def)
  with assms(1) h show ?thesis by (auto simp: main_log_def stop_sent_def)
qed

lemma solo_send:
  assumes "solo_end code s" "handler_ops s = []" "accepts (status_log (reports s)) control"
  shows "solo_end code (s\<lparr>sent := Some control\<rparr>)"
proof -
  have b: "\<not> is_stop control" if "in_call (end_ops code) stop_report (main_ops s) (reports s)"
    using that no_stop [OF assms(3)]
    by (elim in_call_cases) (auto simp: reports_of_main stop_report_def end_report_def)
  have c: "\<not> is_stop control" if "in_call stopping_ops (end_report code up_report) (handler_ops s) (reports s)"
    using that no_stop [OF assms(3)] assms(2) by (auto simp: in_call_end report_after_end)
  from assms(1) b c assms(2) show ?thesis by (auto simp: solo_end_def stop_sent_def)
qed

lemma end_send:
  assumes "end_log s" "handler_ops s = []" "accepts (status_log (reports s)) control"
  shows "end_log (s\<lparr>sent := Some control\<rparr>)"
proof -
  consider "reports s = no_reports" "main_ops s = []" "calm s" "\<not> overlapped s"
    | code where "code \<in> {0, ERROR_SERVICE_SPECIFIC_ERROR}" "overlapped s" "torn_end code s"
    | code where "code \<in> {0, ERROR_SERVICE_SPECIFIC_ERROR}" "\<not> overlapped s" "solo_end code s"
    using assms(1) by (auto simp: end_log_def split: if_splits)
  then show ?thesis
  proof cases
    case 1
    then show ?thesis using no_stop [OF assms(3)] by (auto simp: end_log_def calm_def stop_sent_def no_reports_def)
  next
    case 2
    then show ?thesis using torn_refuses [OF 2(3) assms(2,3)] by (auto simp: end_log_def torn_end_def stop_sent_def)
  next
    case 3
    then show ?thesis using solo_send [OF 3(3) assms(2,3)] by (auto simp: end_log_def)
  qed
qed

lemma calm_send:
  assumes "calm s" "accepts (status_log (reports s)) control" "status_log (reports s) \<in> {[], [start_status]}"
  shows "calm (s\<lparr>sent := Some control\<rparr>)"
  using assms no_stop [OF assms(2)] by (auto simp: calm_def stop_sent_def)

text \<open>One statement of a report.\<close>

lemma main_op_end:
  assumes "end_log s" "main_ops s = op # ops"
  shows "end_log (s\<lparr>reports := do_op op (reports s), main_ops := ops\<rparr>)"
proof -
  have "solo_end code (s\<lparr>reports := do_op op (reports s), main_ops := ops\<rparr>)" if "solo_end code s" for code
    using that assms(2) by (auto simp: solo_end_def stop_sent_def intro: in_call_op)
  moreover have "torn_end code (s\<lparr>reports := do_op op (reports s), main_ops := ops\<rparr>)" if "torn_end code s" for code
    using that assms(2) by (auto simp: torn_end_def stop_sent_def intro: torn_main)
  ultimately show ?thesis using assms by (auto simp: end_log_def split: if_splits)
qed

lemma handler_op_main:
  assumes "main_log s" "handler_ops s = op # ops"
  shows "main_log (s\<lparr>reports := do_op op (reports s), handler_ops := ops\<rparr>)"
  using assms by (auto simp: main_log_def stop_sent_def intro: in_call_op)

lemma handler_op_end:
  assumes "end_log s" "handler_ops s = op # ops"
  shows "end_log (s\<lparr>reports := do_op op (reports s), handler_ops := ops\<rparr>)"
proof -
  have "solo_end code (s\<lparr>reports := do_op op (reports s), handler_ops := ops\<rparr>)" if "solo_end code s" for code
    using that assms(2) by (auto simp: solo_end_def stop_sent_def intro: in_call_op)
  moreover have "torn_end code (s\<lparr>reports := do_op op (reports s), handler_ops := ops\<rparr>)" if "torn_end code s" for code
    using that assms(2) by (auto simp: torn_end_def stop_sent_def intro: torn_handler)
  ultimately show ?thesis using assms by (auto simp: end_log_def calm_def split: if_splits)
qed

lemma log_frame [simp]:
  "main_log (s\<lparr>service_pc := pc\<rparr>) = main_log s" "main_log (s\<lparr>capture := c, read_failed := b\<rparr>) = main_log s"
  "main_log (control_stop s) = main_log s" "calm (control_stop s) = calm s" "calm (s\<lparr>service_pc := pc\<rparr>) = calm s"
  "end_log (control_stop s) = end_log s"
  by (simp_all add: log_defs control_stop_def end_log_def)

lemma service_step_inv: "service_step s t \<Longrightarrow> service_inv s \<Longrightarrow> service_inv t"
proof (induction rule: service_step.induct)
  case (register s ok)
  then show ?case by (auto simp: service_inv_def end_log_def log_defs)
next
  case (starting s)
  then show ?case by (auto simp: service_inv_def main_report_def log_defs intro: in_call_begin)
next
  case (running s)
  then show ?case
    by (auto simp: service_inv_def main_report_def log_defs in_call_end reports_of_main ops_nonempty intro: in_call_begin)
next
  case (no_buffers s evt_ok)
  then show ?case by (simp add: service_inv_def)
next
  case (capture s ev)
  then show ?case by (simp add: service_inv_def)
next
  case (pipeline_end s)
  then show ?case by (simp add: service_inv_def)
next
  case (stopped s rc)
  then have m: "main_log s" "\<not> overlapped s" "handler_ops s \<noteq> [] \<longrightarrow> stopping s" by (simp_all add: service_inv_def)
  have "end_log (main_report (end_ops (service_exit rc)) W_End s)"
    unfolding end_log_def
    by (intro disjI2 bexI [OF _ service_exit_codes [of rc]])
      (use end_begins [OF m(1), of "service_exit rc"] m(2) in \<open>auto simp: main_report_def split: if_splits\<close>)
  with m(3) show ?case by (simp add: service_inv_def main_report_def)
next
  case (main_op s op ops)
  then show ?case
    using main_op_end [OF _ main_op(1)]
    by (cases "service_pc s") (auto simp: service_inv_def log_defs in_call_end reports_of_main dest!: in_call_op)
next
  case (handler_op s op ops)
  then show ?case
    using handler_op_main [OF _ handler_op(1)] handler_op_end [OF _ handler_op(1)]
    by (cases "service_pc s") (auto simp: service_inv_def calm_def)
next
  case (send s control)
  have h: "handler_ops s = []" using send(2,4) by (auto simp: service_inv_def)
  have logs: "status_log r \<in> {[], [start_status]}"
    if "r = no_reports \<or> in_call start_ops no_reports left r \<or> left \<noteq> [] \<and> in_call running_ops start_report left r" for r left
    using that by (auto elim!: in_call_cases simp: reports_of_main)
  from send show ?case
    using main_send [OF _ send(2) _ send(3)] end_send [OF _ h send(3)] calm_send [OF _ send(3)] logs
    by (cases "service_pc s") (auto simp: service_inv_def h)
next
  case (handle s control)
  have c: "calm s \<Longrightarrow> calm (control_report control s)" "calm s \<Longrightarrow> \<not> is_stop control"
    using handle(1) by (auto simp: calm_def stop_sent_def control_report_def)
  from handle(2) show ?case
    using main_handle [OF _ handle(1)] end_handle [OF _ handle(1)] c
    by (cases "service_pc s") (auto simp: service_inv_def main_log_def)
next
  case (stop s)
  then show ?case by (cases "service_pc s") (auto simp: service_inv_def)
qed

interpretation service_sys: step_system service_step service_inv
  by unfold_locales (rule service_step_inv)

lemma service_start_inv: "service_inv service_start"
  by (simp add: service_inv_def service_start_def calm_def stop_sent_def)

section \<open>The capture under the service\<close>

lemma service_step_capture: "service_step s t \<Longrightarrow> capture_inv (capture s) \<Longrightarrow> capture_inv (capture t)"
proof (induction rule: service_step.induct)
  case (stop s)
  then show ?case using capture_step_inv [of "capture s" Request_stop] by (simp add: control_stop_def)
qed (simp_all add: capture_step_inv control_report_def main_report_def)

interpretation service_capture: step_system service_step "\<lambda>s. capture_inv (capture s)"
  by unfold_locales (rule service_step_capture)

lemma service_reach:
  assumes "service_step\<^sup>*\<^sup>* service_start s"
  shows "service_inv s" "capture_inv (capture s)"
proof -
  show "service_inv s" by (rule service_sys.steps_inv [OF assms service_start_inv])
  have "capture_inv (capture service_start)" by (simp add: service_start_def capture_start_inv)
  then show "capture_inv (capture s)" by (rule service_capture.steps_inv [OF assms])
qed

text \<open>A stop was reported and asked for, but the loop has no break: nothing is left that ends it.\<close>

definition stop_stuck :: "service_status list \<Rightarrow> win_service \<Rightarrow> bool" where
  "stop_stuck hist s \<longleftrightarrow> service_pc s = W_Pipeline \<and> status_log (reports s) = hist \<and> last hist = stopping_status \<and>
     hist \<noteq> [] \<and> main_ops s = [] \<and> handler_ops s = [] \<and> \<not> stopping s \<and> \<not> stop_sent s \<and> cap_pc (capture s) = C_Loop \<and>
     \<not> break_loop (capture s) \<and> \<not> capture_done (capture s)"

lemma stuck_step: "service_step s t \<Longrightarrow> stop_stuck hist s \<or> read_failed s \<Longrightarrow> stop_stuck hist t \<or> read_failed t"
proof (induction rule: service_step.induct)
  case (capture s ev)
  then show ?case by (cases ev) (auto simp: stop_stuck_def stop_sent_def)
next
  case (send s control)
  then have "stop_stuck hist s \<Longrightarrow> \<not> is_stop control"
    using no_stop [OF send(3)] by (auto simp: stop_stuck_def)
  with send(4) show ?case by (auto simp: stop_stuck_def stop_sent_def)
next
  case (handle s control)
  then have "stop_stuck hist s \<Longrightarrow> \<not> is_stop control" by (auto simp: stop_stuck_def stop_sent_def)
  with handle(2) show ?case by (auto simp: stop_stuck_def stop_sent_def control_report_def)
qed (auto simp: stop_stuck_def control_stop_def main_report_def)

interpretation service_stuck: step_system service_step "\<lambda>s. stop_stuck hist s \<or> read_failed s" for hist
  by unfold_locales (rule stuck_step)

text \<open>In the pipeline a pending stop in the log means that the handler has made its whole report.\<close>

lemma pipeline_pending:
  assumes "service_inv s" "service_pc s = W_Pipeline" "current_state (last (status_log (reports s))) = SERVICE_STOP_PENDING"
  shows "reports s = stop_report" "main_ops s = []" "handler_ops s = []" "\<not> stop_sent s"
proof -
  have "\<not> (main_ops s \<noteq> [] \<and> in_call running_ops start_report (main_ops s) (reports s))"
    using assms(3) by (auto elim!: in_call_cases)
  then have "main_log s" using assms(1,2) by (auto simp: service_inv_def)
  then have "main_ops s = []" "in_call stopping_ops up_report (handler_ops s) (reports s)" "\<not> stop_sent s"
    using assms(3) by (auto simp: main_log_def)
  moreover from this(2) have "handler_ops s = [] \<and> reports s = stop_report"
    using assms(3) by (elim in_call_cases) (auto simp: reports_of_main)
  ultimately show "reports s = stop_report" "main_ops s = []" "handler_ops s = []" "\<not> stop_sent s" by simp_all
qed

section \<open>Runs of the service\<close>

text \<open>A schedule of the two calls on their way: \<open>True\<close> is a statement of \<open>service_main\<close>'s.\<close>

fun interleave_ops :: "bool list \<Rightarrow> report_op list \<Rightarrow> report_op list \<Rightarrow> service_reports \<Rightarrow> report_op list \<times> report_op list \<times> service_reports" where
  "interleave_ops [] ms hs r = (ms, hs, r)"
| "interleave_ops (True # bs) (m # ms) hs r = interleave_ops bs ms hs (do_op m r)"
| "interleave_ops (True # bs) [] hs r = interleave_ops bs [] hs r"
| "interleave_ops (False # bs) ms (h # hs) r = interleave_ops bs ms hs (do_op h r)"
| "interleave_ops (False # bs) ms [] r = interleave_ops bs ms [] r"

lemma interleave_steps:
  assumes "interleave_ops bs (main_ops s) (handler_ops s) (reports s) = (ms, hs, r)"
  shows "service_step\<^sup>*\<^sup>* s (s\<lparr>reports := r, main_ops := ms, handler_ops := hs\<rparr>)"
  using assms
proof (induction bs "main_ops s" "handler_ops s" "reports s" arbitrary: s rule: interleave_ops.induct)
  case 1
  then have "s\<lparr>reports := r, main_ops := ms, handler_ops := hs\<rparr> = s" by (cases s) simp
  then show ?case by simp
next
  case (2 bs m ops)
  let ?t = "s\<lparr>reports := do_op m (reports s), main_ops := ops\<rparr>"
  have "service_step s ?t" using 2(2) by (intro service_step.main_op) simp
  moreover have "service_step\<^sup>*\<^sup>* ?t (?t\<lparr>reports := r, main_ops := ms, handler_ops := hs\<rparr>)"
    using 2(1) [of ?t] 2(3) by (simp add: 2(2) [symmetric])
  ultimately show ?case by (simp add: converse_rtranclp_into_rtranclp)
next
  case (4 bs h ops)
  let ?t = "s\<lparr>reports := do_op h (reports s), handler_ops := ops\<rparr>"
  have "service_step s ?t" using 4(2) by (intro service_step.handler_op) simp
  moreover have "service_step\<^sup>*\<^sup>* ?t (?t\<lparr>reports := r, main_ops := ms, handler_ops := hs\<rparr>)"
    using 4(1) [of ?t] 4(3) by (simp add: 4(2) [symmetric])
  ultimately show ?case by (simp add: converse_rtranclp_into_rtranclp)
qed simp_all

text \<open>A call that runs to its end alone.\<close>

lemma main_call_runs: "main_ops s = ops \<Longrightarrow> service_step\<^sup>*\<^sup>* s (s\<lparr>reports := fold do_op ops (reports s), main_ops := []\<rparr>)"
proof (induction ops arbitrary: s)
  case (Cons op ops)
  have "service_step s (s\<lparr>reports := do_op op (reports s), main_ops := ops\<rparr>)" using Cons.prems by (rule service_step.main_op)
  with Cons.IH [of "s\<lparr>reports := do_op op (reports s), main_ops := ops\<rparr>"] show ?case
    by (simp add: converse_rtranclp_into_rtranclp)
next
  case Nil
  then have "s\<lparr>main_ops := []\<rparr> = s" by (cases s) simp
  then show ?case by simp
qed

lemma handler_call_runs: "handler_ops s = ops \<Longrightarrow> service_step\<^sup>*\<^sup>* s (s\<lparr>reports := fold do_op ops (reports s), handler_ops := []\<rparr>)"
proof (induction ops arbitrary: s)
  case (Cons op ops)
  have "service_step s (s\<lparr>reports := do_op op (reports s), handler_ops := ops\<rparr>)" using Cons.prems by (rule service_step.handler_op)
  with Cons.IH [of "s\<lparr>reports := do_op op (reports s), handler_ops := ops\<rparr>"] show ?case
    by (simp add: converse_rtranclp_into_rtranclp)
next
  case Nil
  then have "s\<lparr>handler_ops := []\<rparr> = s" by (cases s) simp
  then show ?case by simp
qed

lemma main_report_runs:
  assumes "service_step s (main_report (report_ops st code hint) pc s)" "handler_ops s = []" "\<not> overlapped s"
  shows "service_step\<^sup>*\<^sup>* s (s\<lparr>reports := report_status st code hint (reports s), service_pc := pc, main_ops := []\<rparr>)"
proof -
  let ?t = "main_report (report_ops st code hint) pc s"
  have "?t\<lparr>reports := fold do_op (report_ops st code hint) (reports ?t), main_ops := []\<rparr> =
      s\<lparr>reports := report_status st code hint (reports s), service_pc := pc, main_ops := []\<rparr>"
    by (cases s) (use assms(2,3) in \<open>simp add: main_report_def report_status_def\<close>)
  moreover have "main_ops ?t = report_ops st code hint" by (simp add: main_report_def)
  ultimately show ?thesis using main_call_runs [of ?t] assms(1) by (metis converse_rtranclp_into_rtranclp)
qed

definition in_pipeline :: win_service where
  "in_pipeline = service_start\<lparr>reports := up_report, service_pc := W_Pipeline\<rparr>"

lemma service_comes_up: "service_step\<^sup>*\<^sup>* service_start in_pipeline"
proof -
  let ?a = "service_start\<lparr>service_pc := W_Start\<rparr>"
  let ?b = "service_start\<lparr>reports := start_report, service_pc := W_Redirect\<rparr>"
  have "service_step service_start ?a"
    using service_step.register [of service_start True] by (simp add: service_start_def)
  moreover have "service_step\<^sup>*\<^sup>* ?a ?b"
    using main_report_runs [OF service_step.starting [of ?a]] reports_of_main(1) by (simp add: service_start_def)
  moreover have "service_step\<^sup>*\<^sup>* ?b in_pipeline"
    using main_report_runs [OF service_step.running [of ?b]] reports_of_main(2)
    by (simp add: service_start_def in_pipeline_def)
  ultimately show ?thesis by (meson converse_rtranclp_into_rtranclp rtranclp_trans)
qed

text \<open>A stop is sent while the last status is that of a running service, and its report begins.\<close>

lemma stop_begins:
  assumes "status_log (reports s) = [start_status, run_status]" "sent s = None" "\<not> stopping s"
  shows "service_step s (s\<lparr>sent := Some SERVICE_CONTROL_STOP\<rparr>)"
proof -
  have "accepts [start_status, run_status] SERVICE_CONTROL_STOP"
    by (simp add: accepts_def run_status_def SERVICE_ACCEPT_STOP_def)
  with assms show ?thesis using service_step.send [of s SERVICE_CONTROL_STOP] by simp
qed

lemma stop_handled:
  assumes "sent s = Some SERVICE_CONTROL_STOP"
  shows "service_step s (s\<lparr>handler_ops := stopping_ops, sent := None, stopping := True, overlapped := (overlapped s \<or> main_ops s \<noteq> [])\<rparr>)"
  using service_step.handle [OF assms] by (simp add: control_report_def is_stop_def)

text \<open>A stop sent, reported and asked for while the service runs.\<close>

lemma stop_runs:
  assumes "reports s = up_report" "sent s = None" "\<not> stopping s" "main_ops s = []" "handler_ops s = []" "\<not> overlapped s"
  shows "service_step\<^sup>*\<^sup>* s (s\<lparr>reports := stop_report, capture := pipeline_request_stop (capture s)\<rparr>)"
proof -
  let ?a = "s\<lparr>sent := Some SERVICE_CONTROL_STOP\<rparr>"
  let ?b = "?a\<lparr>handler_ops := stopping_ops, sent := None, stopping := True\<rparr>"
  let ?c = "?b\<lparr>reports := stop_report, handler_ops := []\<rparr>"
  have a: "service_step s ?a" using stop_begins assms by (simp add: up_report_def)
  have "?a\<lparr>handler_ops := stopping_ops, sent := None, stopping := True, overlapped := (overlapped ?a \<or> main_ops ?a \<noteq> [])\<rparr> = ?b"
    by (cases s) (use assms in simp)
  then have b: "service_step ?a ?b" using stop_handled [of ?a] by simp
  have c: "service_step\<^sup>*\<^sup>* ?b ?c"
    using handler_call_runs [of ?b stopping_ops] reports_of_main(3) assms(1) by (simp add: report_status_def)
  have d: "service_step ?c (control_stop ?c)" by (rule service_step.stop) simp_all
  have "service_step\<^sup>*\<^sup>* s ?c" by (rule converse_rtranclp_into_rtranclp [OF a converse_rtranclp_into_rtranclp [OF b c]])
  then have "service_step\<^sup>*\<^sup>* s (control_stop ?c)" using d by (rule rtranclp.rtrancl_into_rtrancl)
  moreover have "control_stop ?c = s\<lparr>reports := stop_report, capture := pipeline_request_stop (capture s)\<rparr>"
    by (cases s) (use assms in \<open>simp add: control_stop_def\<close>)
  ultimately show ?thesis by simp
qed

definition stop_asked :: win_service where
  "stop_asked = in_pipeline\<lparr>reports := stop_report, capture := pipeline_request_stop capture_start\<rparr>"

lemma stop_is_asked: "service_step\<^sup>*\<^sup>* service_start stop_asked"
proof -
  have "service_step\<^sup>*\<^sup>* in_pipeline stop_asked"
    using stop_runs [of in_pipeline] by (simp add: in_pipeline_def stop_asked_def service_start_def)
  with service_comes_up show ?thesis by (rule rtranclp_trans)
qed

text \<open>A stop is on its way while the interface fails to open: both threads begin a report.\<close>

definition stop_and_fail :: win_service where
  "stop_and_fail = in_pipeline\<lparr>sent := Some SERVICE_CONTROL_STOP, service_pc := W_Report (- 1)\<rparr>"

definition both_reporting :: win_service where
  "both_reporting = in_pipeline\<lparr>service_pc := W_End, main_ops := end_ops ERROR_SERVICE_SPECIFIC_ERROR,
     handler_ops := stopping_ops, stopping := True, overlapped := True\<rparr>"

lemma stop_meets_failure: "service_step\<^sup>*\<^sup>* service_start stop_and_fail"
proof -
  let ?a = "in_pipeline\<lparr>sent := Some SERVICE_CONTROL_STOP\<rparr>"
  have "service_step in_pipeline ?a" by (rule stop_begins) (simp_all add: in_pipeline_def service_start_def)
  moreover have "service_step ?a stop_and_fail"
    using service_step.no_buffers [of ?a True]
    by (simp add: in_pipeline_def stop_and_fail_def service_start_def capture_start_def pipeline_run_def)
  ultimately show ?thesis using service_comes_up by (meson rtranclp.rtrancl_into_rtrancl)
qed

lemma reports_meet: "service_step\<^sup>*\<^sup>* service_start both_reporting"
proof -
  let ?a = "main_report (end_ops (service_exit (- 1))) W_End stop_and_fail"
  have "service_step stop_and_fail ?a"
    by (rule service_step.stopped) (simp_all add: stop_and_fail_def in_pipeline_def service_start_def)
  moreover have "service_step ?a both_reporting"
    using stop_handled [of ?a]
    by (simp add: stop_and_fail_def in_pipeline_def service_start_def main_report_def both_reporting_def service_exit_def ops_nonempty)
  ultimately show ?thesis using stop_meets_failure by (meson rtranclp.rtrancl_into_rtrancl)
qed

lemma both_interleaved:
  assumes "interleave_ops bs (end_ops ERROR_SERVICE_SPECIFIC_ERROR) stopping_ops up_report = (ms, hs, r)"
  shows "service_step\<^sup>*\<^sup>* service_start (both_reporting\<lparr>reports := r, main_ops := ms, handler_ops := hs\<rparr>)"
  by (rule rtranclp_trans [OF reports_meet interleave_steps])
    (use assms in \<open>simp add: both_reporting_def in_pipeline_def\<close>)

text \<open>What three of the schedules report.\<close>

definition torn_stop :: service_status where
  "torn_stop = (end_status 0)\<lparr>wait_hint := 30000, check_point := 2\<rparr>"

lemma end_in_stop:
  "interleave_ops [False, False, False, False, False, False, True, True, False, True, True, True, True, True]
     (end_ops code) stopping_ops up_report =
   ([], [], \<lparr>g_status = end_status code, next_checkpoint = 3, status_log = [start_status, run_status, torn_stop, end_status code]\<rparr>)"
  by (simp add: report_ops_def up_report_def STOP_WAIT_HINT_MS_def torn_stop_def end_status_def run_status_def)

lemma stop_in_end:
  "interleave_ops [True, True, True, True, True, True, False, False, True, False, False, False, False, False]
     (end_ops code) stopping_ops up_report =
   ([], [], \<lparr>g_status = stopping_status, next_checkpoint = 3,
      status_log = [start_status, run_status, (end_status code)\<lparr>current_state := SERVICE_STOP_PENDING\<rparr>, stopping_status]\<rparr>)"
  by (simp add: report_ops_def up_report_def STOP_WAIT_HINT_MS_def end_status_def stopping_status_def run_status_def)

lemma stop_after_end:
  "interleave_ops [True, True, True, True, True, True, True, False, False, False, False, False, False, False]
     (end_ops code) stopping_ops up_report =
   ([], [], \<lparr>g_status = stopping_status, next_checkpoint = 3, status_log = [start_status, run_status, end_status code, stopping_status]\<rparr>)"
  by (simp add: report_ops_def up_report_def STOP_WAIT_HINT_MS_def end_status_def stopping_status_def run_status_def)

section \<open>Properties of the service\<close>

text \<open>What a service may report: Windows' rules for each field by the state.\<close>

definition status_ok :: "service_status \<Rightarrow> bool" where
  "status_ok x \<longleftrightarrow> service_type x = SERVICE_WIN32_OWN_PROCESS \<and>
     (let settled = (current_state x = SERVICE_RUNNING \<or> current_state x = SERVICE_STOPPED)
      in (check_point x = 0 \<longleftrightarrow> settled) \<and> (wait_hint x = 0 \<longleftrightarrow> settled)) \<and>
     (controls_accepted x \<noteq> 0 \<longleftrightarrow> current_state x = SERVICE_RUNNING) \<and>
     (win32_exit x \<noteq> 0 \<longrightarrow> current_state x = SERVICE_STOPPED)"

lemma statuses_ok: "status_ok start_status" "status_ok run_status" "status_ok stopping_status" "status_ok (end_status code)"
  by (simp_all add: status_ok_def start_status_def run_status_def stopping_status_def end_status_def)

lemma check_points: "check_point start_status = 1" "check_point run_status = 0" "check_point stopping_status = 2"
  "check_point (end_status code) = 0"
  by (simp_all add: start_status_def run_status_def stopping_status_def end_status_def)

lemma either_of_both: "field_of_either a b a" "field_of_either a b b"
  by (simp_all add: field_of_either_def)

text \<open>The histories while no two reports overlap.\<close>

lemma solo_logs:
  assumes "service_inv s" "\<not> overlapped s"
  obtains code where "code \<in> {0, ERROR_SERVICE_SPECIFIC_ERROR}"
    "status_log (reports s) \<in> {[], [start_status], [start_status, run_status], [start_status, run_status, stopping_status],
       [start_status, run_status, end_status code], [start_status, run_status, stopping_status, end_status code],
       [start_status, run_status, end_status code, stopping_status]}"
proof -
  have m: "status_log (reports s) \<in> {[start_status, run_status], [start_status, run_status, stopping_status]}" if "main_log s"
    using that unfolding main_log_def by (auto elim!: in_call_cases simp: reports_of_main)
  have e: "status_log (reports s) \<in> {[start_status, run_status], [start_status, run_status, stopping_status],
       [start_status, run_status, end_status code], [start_status, run_status, stopping_status, end_status code],
       [start_status, run_status, end_status code, stopping_status]}" if "solo_end code s" for code
    using that unfolding solo_end_def by (auto elim!: in_call_cases simp: reports_of_main report_after_end)
  have b: "status_log (reports s) = []" if "in_call start_ops no_reports (main_ops s) (reports s)" "main_ops s \<noteq> []"
    using in_call_log [OF that] by simp
  have r: "status_log (reports s) = [start_status]" if "in_call running_ops start_report (main_ops s) (reports s)" "main_ops s \<noteq> []"
    using in_call_log [OF that] by simp
  show thesis
  proof (cases "service_pc s = W_End \<and> reports s \<noteq> no_reports")
    case True
    then obtain code where "code \<in> {0, ERROR_SERVICE_SPECIFIC_ERROR}" "solo_end code s"
      using assms by (auto simp: service_inv_def end_log_def)
    with e [of code] show thesis by (intro that [of code]) auto
  next
    case False
    then have "status_log (reports s) \<in> {[], [start_status], [start_status, run_status], [start_status, run_status, stopping_status]}"
      using assms(1) m b r by (cases "service_pc s"; cases "main_ops s = []") (auto simp: service_inv_def in_call_end reports_of_main)
    then show thesis by (intro that [of 0]) auto
  qed
qed

text \<open>
  C24. What the agent reports to the service manager, under any interleaving of the service, the
  capture and the control handler, store by store: at most four statuses, a start and a run first;
  each later one takes every field from the pending stop or from the end of the service, so it accepts
  no control. Two reports overlap only after the pipeline has returned. While none has overlapped
  every status is well formed: a pending state has a check point, never used before, and a wait hint,
  a settled one neither; controls are accepted exactly while running, and only a stopped service has
  an exit code. (When two do overlap this can fail: see \<open>torn_status\<close>.)
\<close>

theorem service_status_typed:
  assumes "service_step\<^sup>*\<^sup>* service_start s"
  shows "length (status_log (reports s)) \<le> 4 \<and>
    take 2 (status_log (reports s)) = take (length (status_log (reports s))) [start_status, run_status] \<and>
    (\<exists>code \<in> {0, ERROR_SERVICE_SPECIFIC_ERROR}.
       list_all (field_of_either stopping_status (end_status code)) (drop 2 (status_log (reports s)))) \<and>
    (overlapped s \<longrightarrow> service_pc s = W_End) \<and>
    (\<not> overlapped s \<longrightarrow> list_all status_ok (status_log (reports s)) \<and>
       distinct (filter (\<lambda>c. c \<noteq> 0) (List.map check_point (status_log (reports s)))))"
proof (cases "overlapped s")
  case True
  then have "service_pc s = W_End" "end_log s" using service_reach(1) [OF assms]
    by (auto simp: service_inv_def split: service_pc.splits)
  with True obtain code where code: "code \<in> {0, ERROR_SERVICE_SPECIFIC_ERROR}"
    "torn code (main_ops s) (handler_ops s) (reports s)"
    by (auto simp: end_log_def torn_end_def)
  from this(2) show ?thesis
    by (rule torn_log) (use True \<open>service_pc s = W_End\<close> code(1) in auto)
next
  case False
  with service_reach(1) [OF assms] obtain code where "code \<in> {0, ERROR_SERVICE_SPECIFIC_ERROR}"
    "status_log (reports s) \<in> {[], [start_status], [start_status, run_status], [start_status, run_status, stopping_status],
       [start_status, run_status, end_status code], [start_status, run_status, stopping_status, end_status code],
       [start_status, run_status, end_status code, stopping_status]}"
    by (rule solo_logs)
  with False show ?thesis
    by (elim insertE emptyE) (auto simp: statuses_ok check_points either_of_both)
qed

theorem service_status_typed_witness:
  "list_all status_ok (status_log (reports stop_asked)) \<and> length (status_log (reports stop_asked)) = 3 \<and>
   (\<exists>code. list_all (field_of_either stopping_status (end_status code)) [torn_stop, end_status ERROR_SERVICE_SPECIFIC_ERROR])"
proof -
  have n: "\<not> overlapped stop_asked" by (simp add: stop_asked_def in_pipeline_def service_start_def)
  have "list_all status_ok (status_log (reports stop_asked))"
    using service_status_typed [OF stop_is_asked] n by blast
  moreover have "length (status_log (reports stop_asked)) = 3" by (simp add: stop_asked_def)
  moreover from service_status_typed [OF both_interleaved [OF end_in_stop]]
  have "\<exists>code. list_all (field_of_either stopping_status (end_status code)) [torn_stop, end_status ERROR_SERVICE_SPECIFIC_ERROR]"
    by auto
  ultimately show ?thesis by blast
qed

text \<open>
  Two reports that overlap: the handler has stored its check point when \<open>service_main\<close> stores the
  state of its end, and reports a stopped service with a check point, a wait hint and no exit code.
\<close>

theorem torn_status:
  "\<exists>s x. service_step\<^sup>*\<^sup>* service_start s \<and> service_pc s = W_End \<and> main_ops s = [] \<and> handler_ops s = [] \<and>
     x \<in> set (status_log (reports s)) \<and> current_state x = SERVICE_STOPPED \<and> check_point x = 2 \<and> wait_hint x = 30000 \<and> win32_exit x = 0"
  using both_interleaved [OF end_in_stop]
  by (intro exI [of _ torn_stop] exI conjI, assumption) (simp_all add: both_reporting_def torn_stop_def end_status_def)

text \<open>Or the handler stores its state last: both statuses are a pending stop, the end is never reported.\<close>

theorem end_never_reported:
  "\<exists>s. service_step\<^sup>*\<^sup>* service_start s \<and> service_pc s = W_End \<and> main_ops s = [] \<and> handler_ops s = [] \<and>
     List.map current_state (status_log (reports s)) =
       [SERVICE_START_PENDING, SERVICE_RUNNING, SERVICE_STOP_PENDING, SERVICE_STOP_PENDING]"
  using both_interleaved [OF stop_in_end] by (intro exI conjI, assumption) (simp_all add: both_reporting_def)

text \<open>
  While no two reports overlap the manager sees the states in order: starting, running, at most one
  stop, stopped; the one exception is a stop handled after the service reported its end on its own.
\<close>

theorem service_histories:
  assumes "service_step\<^sup>*\<^sup>* service_start s" "\<not> overlapped s"
  shows "List.map current_state (status_log (reports s)) \<in>
    {[], [SERVICE_START_PENDING], [SERVICE_START_PENDING, SERVICE_RUNNING],
     [SERVICE_START_PENDING, SERVICE_RUNNING, SERVICE_STOP_PENDING],
     [SERVICE_START_PENDING, SERVICE_RUNNING, SERVICE_STOPPED],
     [SERVICE_START_PENDING, SERVICE_RUNNING, SERVICE_STOP_PENDING, SERVICE_STOPPED],
     [SERVICE_START_PENDING, SERVICE_RUNNING, SERVICE_STOPPED, SERVICE_STOP_PENDING]}"
proof -
  from service_reach(1) [OF assms(1)] assms(2) obtain code where
    "status_log (reports s) \<in> {[], [start_status], [start_status, run_status], [start_status, run_status, stopping_status],
       [start_status, run_status, end_status code], [start_status, run_status, stopping_status, end_status code],
       [start_status, run_status, end_status code, stopping_status]}"
    by (rule solo_logs)
  then show ?thesis by (elim insertE emptyE) simp_all
qed

theorem service_histories_witness:
  "List.map current_state (status_log (reports stop_asked)) =
     [SERVICE_START_PENDING, SERVICE_RUNNING, SERVICE_STOP_PENDING]"
  using service_histories [OF stop_is_asked] by (simp add: stop_asked_def in_pipeline_def service_start_def)

text \<open>
  C39. A stop of the service is lost when it comes before the interface is open: the capture loop is
  then entered without a break, the stop is reported as pending, and since that status accepts no
  control the manager cannot ask again. Whatever happens next, short of a read error, the service
  stays in the loop and its last report stays the pending stop.
\<close>

theorem service_stop_lost:
  assumes "service_step\<^sup>*\<^sup>* service_start s" and "service_pc s = W_Pipeline"
    and "current_state (last (status_log (reports s))) = SERVICE_STOP_PENDING" and "\<not> stopping s"
    and "cap_pc (capture s) = C_Loop" and "\<not> break_loop (capture s)"
    and "service_step\<^sup>*\<^sup>* s t" and "\<not> read_failed t"
  shows "service_pc t = W_Pipeline \<and> cap_pc (capture t) = C_Loop \<and> \<not> capture_done (capture t) \<and>
    status_log (reports t) = status_log (reports s)"
proof -
  note p = pipeline_pending [OF service_reach(1) [OF assms(1)] assms(2,3)]
  have d: "\<not> capture_done (capture s)" using service_reach(2) [OF assms(1)] assms(5) by (simp add: capture_inv_def)
  have "stop_stuck (status_log (reports s)) s"
    using p assms d by (simp add: stop_stuck_def)
  then have "stop_stuck (status_log (reports s)) t \<or> read_failed t"
    by (intro service_stuck.steps_inv [OF assms(7)]) simp
  then show ?thesis using assms(8) by (simp add: stop_stuck_def)
qed

definition stop_then_open :: win_service where
  "stop_then_open = stop_asked\<lparr>capture := capture_step (Open_live True) (pipeline_request_stop capture_start)\<rparr>"

lemma stop_then_opens: "service_step\<^sup>*\<^sup>* service_start stop_then_open"
proof -
  have "service_step stop_asked stop_then_open"
    using service_step.capture [of stop_asked "Open_live True"]
    by (simp add: stop_asked_def stop_then_open_def in_pipeline_def service_start_def)
  with stop_is_asked show ?thesis by (rule rtranclp.rtrancl_into_rtrancl)
qed

theorem service_stop_lost_witness:
  "cap_pc (capture (stop_then_open\<lparr>capture := capture_step (Loop_round False) (capture stop_then_open), sent := Some 4\<rparr>)) = C_Loop"
proof -
  let ?s = stop_then_open
  let ?u = "?s\<lparr>capture := capture_step (Loop_round False) (capture ?s), read_failed := False\<rparr>"
  let ?t = "?u\<lparr>sent := Some 4\<rparr>"
  have f: "service_pc ?s = W_Pipeline" "cap_pc (capture ?s) = C_Loop" "\<not> break_loop (capture ?s)" "\<not> stopping ?s"
    "\<not> read_failed ?s" "current_state (last (status_log (reports ?s))) = SERVICE_STOP_PENDING" "sent ?s = None" "main_ops ?s = []"
    by (simp_all add: stop_then_open_def stop_asked_def in_pipeline_def service_start_def capture_start_def pipeline_request_stop_def)
  have "service_step ?s ?u" using service_step.capture [OF f(1,8), of "Loop_round False"] f(5) by simp
  moreover have "service_step ?u ?t"
    using service_step.send [of ?u 4] f
    by (simp add: accepts_def SERVICE_CONTROL_STOP_def SERVICE_CONTROL_SHUTDOWN_def)
  ultimately have "service_step\<^sup>*\<^sup>* ?s ?t" by (meson rtranclp.intros)
  from service_stop_lost [OF stop_then_opens f(1,6,4,2,3) this] show ?thesis by simp
qed

text \<open>
  A stop that finds the interface open ends the service: from there it can always run to its last
  report, stopped with exit code 0.
\<close>

theorem service_stop_ends:
  assumes "service_step\<^sup>*\<^sup>* service_start s" and "service_pc s = W_Pipeline"
    and "cap_pc (capture s) = C_Loop" and "break_loop (capture s)"
  shows "\<exists>t. service_step\<^sup>*\<^sup>* s t \<and> service_pc t = W_End \<and> last (status_log (reports t)) = end_status 0"
proof -
  let ?m = "s\<lparr>reports := fold do_op (main_ops s) (reports s), main_ops := []\<rparr>"
  let ?u = "?m\<lparr>reports := fold do_op (handler_ops s) (reports ?m), handler_ops := []\<rparr>"
  let ?c1 = "capture_step (Loop_round False) (capture s)"
  let ?c2 = "capture_step Clear_handle ?c1"
  let ?t1 = "?u\<lparr>capture := ?c1\<rparr>"
  let ?t2 = "?u\<lparr>capture := ?c2\<rparr>"
  let ?t3 = "?t2\<lparr>service_pc := W_Report 0\<rparr>"
  let ?t4 = "?t3\<lparr>reports := report_status SERVICE_STOPPED (service_exit 0) 0 (reports ?t3), service_pc := W_End, main_ops := []\<rparr>"
  have e: "\<not> g_capture_error (capture s)" using service_reach(2) [OF assms(1)] assms(3) by (auto simp: capture_inv_def)
  have o: "\<not> overlapped s" using service_reach(1) [OF assms(1)] assms(2) by (simp add: service_inv_def)
  have "service_step\<^sup>*\<^sup>* s ?m" by (rule main_call_runs) simp
  moreover have "service_step\<^sup>*\<^sup>* ?m ?u" by (rule handler_call_runs) simp
  moreover have "service_step ?u ?t1" using service_step.capture [of ?u "Loop_round False"] assms(2) by simp
  moreover have "service_step ?t1 ?t2" using service_step.capture [of ?t1 Clear_handle] assms(2) by simp
  moreover have "service_step ?t2 ?t3" using service_step.pipeline_end [of ?t2] assms e by simp
  moreover have "service_step\<^sup>*\<^sup>* ?t3 ?t4" by (rule main_report_runs [OF service_step.stopped]) (simp_all add: o)
  ultimately have "service_step\<^sup>*\<^sup>* s ?t4" by (meson rtranclp.rtrancl_into_rtrancl rtranclp_trans)
  moreover have "last (status_log (reports ?t4)) = end_status 0" by (simp add: reports_of_main service_exit_def)
  ultimately show ?thesis by (intro exI [of _ ?t4]) simp
qed

theorem service_stop_ends_witness:
  "\<exists>t. service_step\<^sup>*\<^sup>* service_start t \<and> last (status_log (reports t)) = end_status 0"
proof -
  let ?s = "in_pipeline\<lparr>capture := capture_step (Open_live True) capture_start\<rparr>"
  let ?t = "?s\<lparr>reports := stop_report, capture := pipeline_request_stop (capture ?s)\<rparr>"
  have "service_step in_pipeline ?s"
    using service_step.capture [of in_pipeline "Open_live True"] by (simp add: in_pipeline_def service_start_def)
  moreover have "service_step\<^sup>*\<^sup>* ?s ?t" by (rule stop_runs) (simp_all add: in_pipeline_def service_start_def)
  ultimately have r: "service_step\<^sup>*\<^sup>* service_start ?t" using service_comes_up by (meson rtranclp.intros rtranclp_trans)
  have "service_pc ?t = W_Pipeline" "cap_pc (capture ?t) = C_Loop" "break_loop (capture ?t)"
    by (simp_all add: in_pipeline_def capture_start_def pipeline_request_stop_def)
  from service_stop_ends [OF r this] r show ?thesis by (meson rtranclp_trans)
qed

text \<open>
  The handler can report a pending stop after the service has reported its end on its own (the
  interface did not open): the manager's last word is then a stop that never completes.
\<close>

theorem stop_after_stopped:
  "\<exists>s. service_step\<^sup>*\<^sup>* service_start s \<and> service_pc s = W_End \<and>
     List.map current_state (status_log (reports s)) =
       [SERVICE_START_PENDING, SERVICE_RUNNING, SERVICE_STOPPED, SERVICE_STOP_PENDING]"
  using both_interleaved [OF stop_after_end] by (intro exI conjI, assumption) (simp_all add: both_reporting_def)

end
