(* ===== verification/Nta_Winmain.thy ===== *)
theory Nta_Winmain
  imports Nta_Service
begin

text \<open>
  Installing, starting and removing the Windows service (\<open>src/agent/platform/service_win32.c\<close>), and the
  Windows branches of \<open>main\<close> and of the configuration (\<open>src/agent/main.c\<close>, \<open>src/agent/core/config.c\<close>).
  The command line stored with the service is split into \<open>argv\<close> by the C runtime's start-up code,
  whose documented rules are \<open>win_argv\<close>. What the service manager and the file system answer are
  arguments.
\<close>

section \<open>The command line of a process\<close>

definition bslash :: char where "bslash = CHR 0x5C"
definition dquote :: char where "dquote = CHR 0x22"

definition win_blank :: "char \<Rightarrow> bool" where
  "win_blank c \<longleftrightarrow> c = CHR '' '' \<or> c = CHR 0x09"

text \<open>The name of the program: quotes group, backslashes are plain.\<close>

fun prog_name :: "bool \<Rightarrow> string \<Rightarrow> string \<times> string" where
  "prog_name q [] = ([], [])"
| "prog_name q (c # s) =
     (if c = dquote then prog_name (\<not> q) s
      else if \<not> q \<and> win_blank c then ([], c # s)
      else map_prod (Cons c) id (prog_name q s))"

text \<open>
  One further argument, after \<open>n\<close> backslashes not yet written: before a quote every two of them stand
  for one and an odd one escapes the quote; a doubled quote inside quotes is a quote.
\<close>

fun win_arg :: "bool \<Rightarrow> nat \<Rightarrow> string \<Rightarrow> string \<times> string" where
  "win_arg q n [] = (replicate n bslash, [])"
| "win_arg q n (c # s) =
     (if c = bslash then win_arg q (n + 1) s
      else if c = dquote then
        (if odd n then map_prod (\<lambda>a. replicate (n div 2) bslash @ dquote # a) id (win_arg q 0 s)
         else if q \<and> take 1 s = [dquote]
         then map_prod (\<lambda>a. replicate (n div 2) bslash @ dquote # a) id (win_arg q 0 (tl s))
         else map_prod (\<lambda>a. replicate (n div 2) bslash @ a) id (win_arg (\<not> q) 0 s))
      else if \<not> q \<and> win_blank c then (replicate n bslash, c # s)
      else map_prod (\<lambda>a. replicate n bslash @ c # a) id (win_arg q 0 s))"

lemma win_arg_shorter: "length (snd (win_arg q n s)) \<le> length s"
proof (induction q n s rule: win_arg.induct)
  case (2 q n c s)
  have "length (tl s) \<le> length s" by simp
  with 2 show ?case by (auto intro: le_SucI le_trans)
qed simp

lemma win_arg_consumes:
  assumes "s \<noteq> []" "\<not> win_blank (hd s)"
  shows "length (snd (win_arg q n s)) < length s"
proof (cases s)
  case (Cons c cs)
  have "length (snd (win_arg q 0 (tl cs))) \<le> length cs"
    using win_arg_shorter [of q 0 "tl cs"] by simp
  then show ?thesis using assms Cons win_arg_shorter [of _ _ cs] by (auto simp: le_imp_less_Suc)
qed (use assms in simp)

lemma win_arg_rest:
  assumes "s1 = dropWhile win_blank s" "s1 \<noteq> []" "(a, rest) = win_arg False 0 s1"
  shows "length rest < length s"
proof -
  have "\<not> win_blank (hd s1)" using assms(1,2) hd_dropWhile [of win_blank s] by simp
  then have "length (snd (win_arg False 0 s1)) < length s1" by (rule win_arg_consumes [OF assms(2)])
  also have "length s1 \<le> length s" unfolding assms(1) by (rule length_dropWhile_le)
  finally show ?thesis using assms(3) by (metis snd_conv)
qed

function win_args :: "string \<Rightarrow> string list" where
  "win_args s =
     (let s1 = dropWhile win_blank s
      in if s1 = [] then [] else case win_arg False 0 s1 of (a, rest) \<Rightarrow> a # win_args rest)"
  by pat_completeness auto
termination
  by (relation "measure length") (simp_all add: win_arg_rest)

declare win_args.simps [simp del]

definition win_argv :: "string \<Rightarrow> string list" where
  "win_argv cmd = (case prog_name False cmd of (a, rest) \<Rightarrow> a # win_args rest)"

section \<open>Installing the service\<close>

definition MAX_PATH :: nat where "MAX_PATH = 260"

definition quoted_word :: "string \<Rightarrow> string" where
  "quoted_word s = dquote # s @ [dquote]"

definition service_command :: "string \<Rightarrow> string \<Rightarrow> string option \<Rightarrow> string" where
  "service_command exe cfg ifc =
     cstr_copy (3 * MAX_PATH)
       (quoted_word exe @ '' --service --config '' @ quoted_word cfg @
        (case ifc of None \<Rightarrow> [] | Some i \<Rightarrow> '' '' @ quoted_word i))"

text \<open>What the manager keeps of the service, with the delays in ms of the restarts after a failure.\<close>

record service_entry =
  entry_command :: string
  entry_restarts :: "nat list"

datatype install_error = No_module_name | Bad_config_path | No_config_file | No_manager | Not_created

text \<open>
  \<open>service_install\<close>: \<open>GetModuleFileName\<close> cuts a longer name to the buffer and reports no error;
  \<open>fullpath\<close> fails when the absolute path does not fit.
\<close>

definition service_install ::
  "string option \<Rightarrow> (string \<Rightarrow> string option) \<Rightarrow> (string \<Rightarrow> bool) \<Rightarrow> bool \<Rightarrow> bool \<Rightarrow> string \<Rightarrow> string option \<Rightarrow>
   install_error + service_entry" where
  "service_install modname fullpath exists scm_ok create_ok config_path ifc =
     (case modname of
        None \<Rightarrow> Inl No_module_name
      | Some m \<Rightarrow>
          case fullpath config_path of
            None \<Rightarrow> Inl Bad_config_path
          | Some cfg \<Rightarrow>
              if \<not> exists cfg then Inl No_config_file
              else if \<not> scm_ok then Inl No_manager
              else if \<not> create_ok then Inl Not_created
              else Inr \<lparr>entry_command = service_command (cstr_copy MAX_PATH m) cfg ifc,
                        entry_restarts = [10000, 30000, 60000]\<rparr>)"

definition install_exit :: "install_error + service_entry \<Rightarrow> int" where
  "install_exit r = (case r of Inl _ \<Rightarrow> 1 | Inr _ \<Rightarrow> 0)"

section \<open>Removing it\<close>

text \<open>
  The wait of \<open>service_uninstall\<close> for the service to stop, \<open>polls\<close> being what the queries answer
  (\<open>None\<close>: the query failed): the number of half-second sleeps.
\<close>

fun uninstall_wait :: "nat \<Rightarrow> (nat \<Rightarrow> u32 option) \<Rightarrow> nat \<Rightarrow> nat" where
  "uninstall_wait 0 polls i = 0"
| "uninstall_wait (Suc n) polls i =
     (if polls i = None \<or> polls i = Some SERVICE_STOPPED then 0 else Suc (uninstall_wait n polls (i + 1)))"

definition UNINSTALL_POLLS :: nat where "UNINSTALL_POLLS = 30000 div 500"

text \<open>\<open>service_uninstall\<close>: the exit status, the milliseconds slept and whether the delete was asked for.\<close>

definition service_uninstall ::
  "bool \<Rightarrow> bool \<Rightarrow> bool \<Rightarrow> (nat \<Rightarrow> u32 option) \<Rightarrow> bool \<Rightarrow> int \<times> nat \<times> bool" where
  "service_uninstall scm_ok open_ok stop_taken polls delete_ok =
     (if \<not> scm_ok then (1, 0, False)
      else if \<not> open_ok then (1, 0, False)
      else let slept = (if stop_taken then 500 * uninstall_wait UNINSTALL_POLLS polls 0 else 0)
           in (if delete_ok then 0 else 1, slept, True))"

section \<open>The log of the service\<close>

definition NTA_DEFAULT_LOG :: string where
  "NTA_DEFAULT_LOG = ''C:'' @ [bslash] @ ''ProgramData'' @ [bslash] @ ''NTA'' @ [bslash] @ ''agent.log''"

text \<open>\<open>redirect_output\<close>: the file both streams go to, and the folder it makes for it.\<close>

definition redirect_output :: "env \<Rightarrow> string \<times> string option" where
  "redirect_output e =
     (let lg = (case e ''AGENT_LOG_FILE'' of None \<Rightarrow> NTA_DEFAULT_LOG | Some v \<Rightarrow> if v = [] then NTA_DEFAULT_LOG else v);
          dir = cstr_copy MAX_PATH lg
      in (lg, if bslash \<in> set dir then Some (rev (tl (dropWhile (\<lambda>c. c \<noteq> bslash) (rev dir)))) else None))"

section \<open>\<open>main\<close> and the configuration on Windows\<close>

text \<open>\<open>_putenv_s\<close> overwrites, and refuses a name that is empty or contains \<open>=\<close>.\<close>

definition set_env_if_unset_win :: "string \<Rightarrow> string \<Rightarrow> env \<Rightarrow> env \<times> int" where
  "set_env_if_unset_win key val e =
     (case e key of
        Some (c # cs) \<Rightarrow> (e, 0)
      | _ \<Rightarrow> (if key = [] \<or> CHR ''='' \<in> set key then (e, 0) else (e(key \<mapsto> val), 1)))"

fun config_lines_win :: "bool \<Rightarrow> string list \<Rightarrow> env \<Rightarrow> int \<Rightarrow> env \<times> int" where
  "config_lines_win first [] e applied = (e, applied)"
| "config_lines_win first (line # lines) e applied =
     (case config_entry first line of
        None \<Rightarrow> config_lines_win False lines e applied
      | Some (key, val) \<Rightarrow>
          (case set_env_if_unset_win key val e of (e1, n) \<Rightarrow> config_lines_win False lines e1 (applied + n)))"

definition config_load_file_win :: "string option \<Rightarrow> env \<Rightarrow> env \<times> int" where
  "config_load_file_win file e =
     (case file of None \<Rightarrow> (e, - 1) | Some s \<Rightarrow> config_lines_win True (fgets_lines s) e 0)"

text \<open>
  \<open>load_npcap\<close>: the folder it adds to the search path. \<open>GetSystemDirectory\<close> returns the length of the
  path, one more when it does not fit, and 0 on failure.
\<close>

definition npcap_dir :: "string option \<Rightarrow> string option" where
  "npcap_dir sysdir =
     (case sysdir of
        None \<Rightarrow> None
      | Some d \<Rightarrow>
          let n = (if length d < MAX_PATH then length d else length d + 1); suffix = bslash # ''Npcap''
          in if n > 0 \<and> n + (length suffix + 1) \<le> MAX_PATH then Some (d @ suffix) else None)"

datatype win_plan = Install_service string "string option" | Uninstall_service | Run_service string env | Console plan

definition live_plan_win :: "bool \<Rightarrow> string option \<Rightarrow> env \<Rightarrow> win_plan" where
  "live_plan_win as_service ifc e =
     (case live_plan True ifc e of
        Run_live i e1 \<Rightarrow> if as_service then Run_service i e1 else Console (Run_live i e1)
      | p \<Rightarrow> Console p)"

definition main_plan_win :: "(string \<Rightarrow> string option) \<Rightarrow> bool \<Rightarrow> string list \<Rightarrow> env \<Rightarrow> win_plan" where
  "main_plan_win files npcap argv e =
     (case parse_args argv of
        None \<Rightarrow> Console (Exit 1)
      | Some args \<Rightarrow>
          (case (case config_file args of None \<Rightarrow> (e, 0) | Some f \<Rightarrow> config_load_file_win (files f) e) of
             (e1, n) \<Rightarrow>
               if n < 0 then Console (Exit 1)
               else if run_mode args = MODE_SERVICE_INSTALL
               then (case config_file args of None \<Rightarrow> Console (Exit 1) | Some c \<Rightarrow> Install_service c (iface args))
               else if run_mode args = MODE_SERVICE_UNINSTALL then Uninstall_service
               else if \<not> npcap then Console (Exit 1)
               else case run_mode args of
                      MODE_LIVE \<Rightarrow> live_plan_win (service args) (iface args) e1
                    | MODE_REPLAY_FILE \<Rightarrow> Console (Replay_one (the (pcap_file args)) (expect_file args))
                    | MODE_REPLAY_DIR \<Rightarrow>
                        Console (Replay_directory (the (replay_dir_arg args)) (report_file args \<noteq> None))
                    | MODE_LIST_IFACES \<Rightarrow> Console List_ifaces
                    | _ \<Rightarrow> Console (Exit 0)))"

text \<open>\<open>service_run\<close>: its status, given whether the dispatcher could be started.\<close>

definition service_run :: "bool \<Rightarrow> int" where
  "service_run dispatched = (if dispatched then 0 else 1)"

section \<open>Splitting the stored command\<close>

lemma quote_chars [simp]:
  "dquote \<noteq> bslash" "bslash \<noteq> dquote" "\<not> win_blank dquote" "\<not> win_blank bslash" "win_blank (CHR '' '')"
  "CHR '' '' \<noteq> dquote" "CHR '' '' \<noteq> bslash"
  by (simp_all add: dquote_def bslash_def win_blank_def)

lemma prog_quoted:
  "dquote \<notin> set s \<Longrightarrow> prog_name False r = (a, r') \<Longrightarrow> prog_name True (s @ dquote # r) = (s @ a, r')"
  by (induction s) auto

lemma prog_word: "dquote \<notin> set s \<Longrightarrow> prog_name False (quoted_word s @ CHR '' '' # r) = (s, CHR '' '' # r)"
  using prog_quoted [of s "CHR '' '' # r" "[]"] by (simp add: quoted_word_def)

text \<open>The inside of a quoted word that does not end with a backslash.\<close>

lemma quoted_inside:
  assumes "win_arg False 0 r = (a, r')" "take 1 r \<noteq> [dquote]"
    and "dquote \<notin> set s" "s \<noteq> [] \<longrightarrow> last s \<noteq> bslash" "s = [] \<longrightarrow> n = 0"
  shows "win_arg True n (s @ dquote # r) = (replicate n bslash @ s @ a, r')"
  using assms(3-5)
proof (induction s arbitrary: n)
  case Nil
  then show ?case using assms(1,2) by simp
next
  case (Cons c s)
  show ?case
  proof (cases "c = bslash")
    case True
    then have "s \<noteq> []" using Cons.prems(2) by auto
    with Cons True have "win_arg True (Suc n) (s @ dquote # r) = (replicate (Suc n) bslash @ s @ a, r')"
      by (intro Cons.IH) auto
    then show ?thesis using True by (simp add: replicate_app_Cons_same)
  next
    case False
    have "win_arg True 0 (s @ dquote # r) = (replicate 0 bslash @ s @ a, r')"
      by (rule Cons.IH) (use Cons.prems in auto)
    then show ?thesis using False Cons.prems(1) by auto
  qed
qed

definition plain_word :: "string \<Rightarrow> bool" where
  "plain_word s \<longleftrightarrow> dquote \<notin> set s \<and> (s \<noteq> [] \<longrightarrow> last s \<noteq> bslash)"

lemma win_args_quoted:
  assumes "plain_word s"
  shows "win_args (CHR '' '' # quoted_word s) = [s]"
    and "win_args (CHR '' '' # quoted_word s @ CHR '' '' # r) = s # win_args (CHR '' '' # r)"
proof -
  have w: "dquote \<notin> set s" "s \<noteq> [] \<longrightarrow> last s \<noteq> bslash" using assms by (simp_all add: plain_word_def)
  have "win_arg False 0 (quoted_word s @ CHR '' '' # r) = (s, CHR '' '' # r)"
    using quoted_inside [OF _ _ w, of "CHR '' '' # r" "[]" "CHR '' '' # r" 0] by (simp add: quoted_word_def)
  then show "win_args (CHR '' '' # quoted_word s @ CHR '' '' # r) = s # win_args (CHR '' '' # r)"
    by (subst win_args.simps) (simp add: quoted_word_def)
  have "win_arg False 0 (quoted_word s) = (s, [])"
    using quoted_inside [OF _ _ w, of "[]" "[]" "[]" 0] by (simp add: quoted_word_def)
  then show "win_args (CHR '' '' # quoted_word s) = [s]"
    by (subst win_args.simps) (simp add: quoted_word_def win_args.simps [of "[]"])
qed

lemma arg_plain:
  "list_all (\<lambda>c. \<not> win_blank c \<and> c \<noteq> dquote \<and> c \<noteq> bslash) w \<Longrightarrow> win_arg False 0 (w @ CHR '' '' # r) = (w, CHR '' '' # r)"
  by (induction w) auto

lemma win_args_plain:
  assumes "list_all (\<lambda>c. \<not> win_blank c \<and> c \<noteq> dquote \<and> c \<noteq> bslash) w" "w \<noteq> []"
  shows "win_args (CHR '' '' # w @ CHR '' '' # r) = w # win_args (CHR '' '' # r)"
proof -
  have "dropWhile win_blank (w @ CHR '' '' # r) = w @ CHR '' '' # r" using assms by (cases w) auto
  then show ?thesis using arg_plain [OF assms(1)] assms(2) by (subst win_args.simps) simp
qed

lemma option_words:
  "win_args ('' --service --config '' @ s) = ''--service'' # ''--config'' # win_args (CHR '' '' # s)"
proof -
  have p: "list_all (\<lambda>c. \<not> win_blank c \<and> c \<noteq> dquote \<and> c \<noteq> bslash) ''--service''"
    "list_all (\<lambda>c. \<not> win_blank c \<and> c \<noteq> dquote \<and> c \<noteq> bslash) ''--config''"
    by (simp_all add: win_blank_def dquote_def bslash_def)
  have "'' --service --config '' @ s = CHR '' '' # ''--service'' @ CHR '' '' # ''--config'' @ CHR '' '' # s" by simp
  then show ?thesis using win_args_plain [OF p(1)] win_args_plain [OF p(2)] by (simp only: list.simps) simp
qed

definition service_words :: "string \<Rightarrow> string \<Rightarrow> string option \<Rightarrow> string list" where
  "service_words exe cfg ifc =
     [exe, ''--service'', ''--config'', cfg] @ (case ifc of None \<Rightarrow> [] | Some i \<Rightarrow> [i])"

definition service_iface_ok :: "string option \<Rightarrow> bool" where
  "service_iface_ok ifc \<longleftrightarrow> (case ifc of None \<Rightarrow> True | Some i \<Rightarrow> plain_word i \<and> take 1 i \<noteq> ''-'' \<and> length i \<le> 230)"

lemma service_command_words:
  assumes "dquote \<notin> set exe" "plain_word cfg" "service_iface_ok ifc" "length exe < MAX_PATH" "length cfg < MAX_PATH"
  shows "win_argv (service_command exe cfg ifc) = service_words exe cfg ifc"
proof -
  let ?i = "case ifc of None \<Rightarrow> [] | Some i \<Rightarrow> '' '' @ quoted_word i"
  let ?t = "quoted_word exe @ '' --service --config '' @ quoted_word cfg @ ?i"
  have "length ?t < 3 * MAX_PATH"
    using assms(3-5) by (cases ifc) (simp_all add: quoted_word_def service_iface_ok_def MAX_PATH_def)
  then have c: "service_command exe cfg ifc = ?t" by (simp add: service_command_def)
  have o: "'' --service --config '' @ quoted_word cfg @ ?i = CHR '' '' # ''--service --config '' @ quoted_word cfg @ ?i" by simp
  have "prog_name False ?t = (exe, '' --service --config '' @ quoted_word cfg @ ?i)"
    unfolding o by (rule prog_word [OF assms(1)])
  then have "win_argv ?t = exe # ''--service'' # ''--config'' # win_args (CHR '' '' # quoted_word cfg @ ?i)"
    by (simp only: win_argv_def prod.case option_words)
  also have "win_args (CHR '' '' # quoted_word cfg @ ?i) = cfg # (case ifc of None \<Rightarrow> [] | Some i \<Rightarrow> [i])"
    using win_args_quoted [OF assms(2)] assms(3)
    by (cases ifc) (simp_all add: service_iface_ok_def win_args_quoted)
  finally show ?thesis by (simp add: c service_words_def)
qed

lemma service_words_parse:
  "service_iface_ok ifc \<Longrightarrow> parse_args (service_words exe cfg ifc) =
     Some (no_args\<lparr>service := True, config_file := Some cfg, iface := ifc\<rparr>)"
  by (cases ifc)
    (simp_all add: service_words_def parse_args_def parse_words parse_word(2) parse_iface service_iface_ok_def no_args_def)

section \<open>Properties\<close>

text \<open>
  C23. The service starts what was installed: Windows splits the stored command line back into the
  program, the absolute configuration path and the interface that were given to
  \<open>--install-service\<close>, backslashes and spaces included, and the process then runs as a service on
  that interface (or on the one its configuration names) with that configuration.
\<close>

theorem installed_service_starts:
  assumes "service_install (Some exe) fullpath exists scm_ok create_ok path ifc = Inr entry"
    and "fullpath path = Some cfg" and "files cfg = Some content"
    and "dquote \<notin> set exe" and "plain_word cfg" and "service_iface_ok ifc"
    and "length exe < MAX_PATH" and "length cfg < MAX_PATH"
  shows "main_plan_win files True (win_argv (entry_command entry)) e =
    live_plan_win True ifc (fst (config_load_file_win (Some content) e))"
proof -
  have ent: "entry_command entry = service_command exe cfg ifc"
    using assms(1,2,7) by (auto simp: service_install_def split: if_splits)
  have c: "config_load_file_win (Some content) e = (e1, n) \<Longrightarrow> 0 \<le> n" for e1 n
  proof -
    have "0 \<le> m \<Longrightarrow> 0 \<le> snd (config_lines_win first ls e m)" for first ls e m
      by (induction ls arbitrary: first e m)
        (auto simp: set_env_if_unset_win_def split: option.split prod.split list.split)
    then show "config_load_file_win (Some content) e = (e1, n) \<Longrightarrow> 0 \<le> n"
      by (simp add: config_load_file_win_def) (metis order_refl snd_conv)
  qed
  obtain e1 n where l: "config_load_file_win (Some content) e = (e1, n)" by (cases "config_load_file_win (Some content) e")
  from c [OF l] show ?thesis
    by (simp add: ent service_command_words [OF assms(4-8)] main_plan_win_def service_words_parse [OF assms(6)]
        assms(3) no_args_def l)
qed

theorem installed_service_starts_witness:
  "let exe = ''C:'' @ [bslash] @ ''Program Files'' @ [bslash] @ ''agent.exe''; cfg = ''C:'' @ [bslash] @ ''agent.env'';
       ifc = [bslash] @ ''Device'' @ [bslash] @ ''NPF_1'';
       cmd = service_command exe cfg (Some ifc)
   in service_install (Some exe) (\<lambda>p. Some cfg) (\<lambda>p. True) True True ''agent.env'' (Some ifc) =
        Inr \<lparr>entry_command = cmd, entry_restarts = [10000, 30000, 60000]\<rparr> \<and>
      main_plan_win (\<lambda>f. Some []) True (win_argv cmd) (\<lambda>k. None) = Run_service ifc (\<lambda>k. None)"
proof -
  let ?exe = "''C:'' @ [bslash] @ ''Program Files'' @ [bslash] @ ''agent.exe''"
  let ?cfg = "''C:'' @ [bslash] @ ''agent.env''"
  let ?ifc = "[bslash] @ ''Device'' @ [bslash] @ ''NPF_1''"
  have i: "service_install (Some ?exe) (\<lambda>p. Some ?cfg) (\<lambda>p. True) True True ''agent.env'' (Some ?ifc) =
      Inr \<lparr>entry_command = service_command ?exe ?cfg (Some ?ifc), entry_restarts = [10000, 30000, 60000]\<rparr>"
    by (simp add: service_install_def MAX_PATH_def)
  have p: "dquote \<notin> set ?exe" "plain_word ?cfg" "service_iface_ok (Some ?ifc)"
    by (simp_all add: dquote_def bslash_def plain_word_def service_iface_ok_def)
  have l: "config_load_file_win (Some []) (\<lambda>k. None) = (\<lambda>k. None, 0)"
    by (simp add: config_load_file_win_def fgets_lines.simps)
  have "main_plan_win (\<lambda>f. Some []) True (win_argv (service_command ?exe ?cfg (Some ?ifc))) (\<lambda>k. None) =
      live_plan_win True (Some ?ifc) (\<lambda>k. None)"
    using installed_service_starts [OF i _ _ p, where files = "\<lambda>f. Some []" and content = "[]" and e = "\<lambda>k. None"]
    by (simp add: l MAX_PATH_def)
  then show ?thesis using i by (simp add: live_plan_win_def live_plan_def)
qed

text \<open>
  An executable in a longer folder is installed under a cut path: \<open>GetModuleFileName\<close> fills the
  buffer and reports no failure, so the installation succeeds and the service points elsewhere.
\<close>

theorem install_long_path_cut:
  assumes "MAX_PATH \<le> length exe" and "dquote \<notin> set exe" and "plain_word cfg" and "service_iface_ok ifc"
    and "length cfg < MAX_PATH" and "fullpath path = Some cfg" and "exists cfg"
  shows "\<exists>entry. service_install (Some exe) fullpath exists True True path ifc = Inr entry \<and>
    hd (win_argv (entry_command entry)) = take 259 exe \<and> take 259 exe \<noteq> exe"
proof -
  have d: "dquote \<notin> set (cstr_copy MAX_PATH exe)" using assms(2) by (auto simp: cstr_copy_def dest: in_set_takeD)
  have l: "length (cstr_copy MAX_PATH exe) < MAX_PATH" by (simp add: cstr_copy_def MAX_PATH_def)
  have "take 259 exe \<noteq> exe" using assms(1) by (auto simp: MAX_PATH_def dest: arg_cong [of _ _ length])
  then show ?thesis using service_command_words [OF d assms(3,4) l assms(5)] assms(6,7)
    by (simp add: service_install_def service_words_def) (simp add: cstr_copy_def MAX_PATH_def)
qed

theorem install_long_path_cut_witness:
  "\<exists>entry. service_install (Some (replicate 300 CHR ''x'')) (\<lambda>p. Some p) (\<lambda>p. True) True True ''a.env'' None = Inr entry \<and>
     hd (win_argv (entry_command entry)) = replicate 259 CHR ''x''"
proof -
  have h: "MAX_PATH \<le> length (replicate 300 CHR ''x'')" "dquote \<notin> set (replicate 300 CHR ''x'')" "plain_word ''a.env''"
    "service_iface_ok None" "length ''a.env'' < MAX_PATH"
    by (simp_all add: MAX_PATH_def dquote_def bslash_def plain_word_def service_iface_ok_def)
  have "take 259 (replicate 300 (CHR ''x'')) = replicate 259 (CHR ''x'')" by (simp only: take_replicate) simp
  with install_long_path_cut [OF h, of "\<lambda>p. Some p" "''a.env''" "\<lambda>p. True"] show ?thesis by auto
qed

lemma uninstall_wait_spec:
  "uninstall_wait n polls i \<le> n \<and>
   (\<forall>j < uninstall_wait n polls i. polls (i + j) \<noteq> None \<and> polls (i + j) \<noteq> Some SERVICE_STOPPED) \<and>
   (uninstall_wait n polls i < n \<longrightarrow>
      polls (i + uninstall_wait n polls i) = None \<or> polls (i + uninstall_wait n polls i) = Some SERVICE_STOPPED)"
proof (induction n arbitrary: i)
  case (Suc n)
  show ?case
  proof (cases "polls i = None \<or> polls i = Some SERVICE_STOPPED")
    case False
    have e: "uninstall_wait (Suc n) polls i = Suc (uninstall_wait n polls (i + 1))" using False by auto
    from Suc.IH [of "i + 1"] False show ?thesis unfolding e by (auto simp: less_Suc_eq_0_disj)
  qed auto
qed simp

text \<open>
  Removing the service waits for it to stop, in half seconds until the first answer that it has or
  that it cannot be asked, and never more than the 30 seconds the service announces; then it is
  removed, stopped or not.
\<close>

theorem uninstall_waits:
  "case service_uninstall True True stop_taken polls delete_ok of
     (rc, slept, asked) \<Rightarrow> asked \<and> rc = (if delete_ok then 0 else 1) \<and> slept \<le> 30000 \<and>
       (slept = 30000 \<or> \<not> stop_taken \<or> polls (slept div 500) = None \<or> polls (slept div 500) = Some SERVICE_STOPPED)"
proof -
  have "UNINSTALL_POLLS = 60" by (simp add: UNINSTALL_POLLS_def)
  with uninstall_wait_spec [of UNINSTALL_POLLS polls 0] show ?thesis
    by (auto simp: service_uninstall_def Let_def)
qed

text \<open>The folder added to the search path fits its buffer, wherever Windows is installed.\<close>

theorem npcap_dir_fits: "case npcap_dir sysdir of None \<Rightarrow> True | Some d \<Rightarrow> length d < MAX_PATH"
  by (auto simp: npcap_dir_def Let_def MAX_PATH_def split: option.splits if_splits)

section \<open>The configuration on Windows\<close>

lemma set_env_win_cases:
  assumes "key \<noteq> []" "CHR ''='' \<notin> set key"
  shows "set_env_if_unset_win key val e =
     (if e key = None \<or> e key = Some [] then (e(key \<mapsto> val), 1) else (e, 0))"
  using assms by (auto simp: set_env_if_unset_win_def split: option.splits list.splits)

lemma map_add_upd_new: "w k = None \<Longrightarrow> m ++ w(k \<mapsto> v) = m(k \<mapsto> v) ++ w"
  by (auto simp: fun_eq_iff map_add_def split: option.split)

lemma map_add_upd_old: "w k = Some x \<Longrightarrow> m(k \<mapsto> v) ++ w = m ++ w"
  by (auto simp: fun_eq_iff map_add_def split: option.split)

definition without_empty :: "env \<Rightarrow> env" where
  "without_empty e = (\<lambda>k. if e k = Some [] then None else e k)"

lemma config_lines_win_env:
  "without_empty (fst (config_lines_win first lines e n)) = map_of (config_entries first lines) ++ without_empty e"
proof (induction lines arbitrary: first e n)
  case (Cons line lines)
  show ?case
  proof (cases "config_entry first line")
    case None
    then show ?thesis by (simp add: Cons.IH)
  next
    case (Some kv)
    obtain key val where kv: "kv = (key, val)" by (cases kv)
    from Some kv config_entry_key have k: "key \<noteq> []" "CHR ''='' \<notin> set key" "val \<noteq> []" by blast+
    have u: "without_empty (e(key \<mapsto> val)) = (without_empty e)(key \<mapsto> val)"
      using k(3) by (auto simp: without_empty_def fun_eq_iff)
    let ?m = "map_of (config_entries False lines)"
    show ?thesis
    proof (cases "e key = None \<or> e key = Some []")
      case True
      then have w: "without_empty e key = None" by (auto simp: without_empty_def)
      have "config_lines_win first (line # lines) e n = config_lines_win False lines (e(key \<mapsto> val)) (n + 1)"
        using True by (simp add: Some kv set_env_win_cases [OF k(1,2)])
      then have "without_empty (fst (config_lines_win first (line # lines) e n)) = ?m ++ (without_empty e)(key \<mapsto> val)"
        by (simp only: Cons.IH u)
      also have "\<dots> = ?m(key \<mapsto> val) ++ without_empty e" using w by (rule map_add_upd_new [of "without_empty e" key])
      also have "?m(key \<mapsto> val) = map_of (config_entries first (line # lines))" by (simp add: Some kv)
      finally show ?thesis .
    next
      case False
      then obtain x where w: "without_empty e key = Some x" by (auto simp: without_empty_def)
      have "config_lines_win first (line # lines) e n = config_lines_win False lines e n"
        using False by (auto simp: Some kv set_env_win_cases [OF k(1,2)])
      then have "without_empty (fst (config_lines_win first (line # lines) e n)) = ?m ++ without_empty e"
        by (simp only: Cons.IH)
      also have "\<dots> = ?m(key \<mapsto> val) ++ without_empty e"
        using map_add_upd_old [of "without_empty e" key x ?m val] w by simp
      also have "?m(key \<mapsto> val) = map_of (config_entries first (line # lines))" by (simp add: Some kv)
      finally show ?thesis .
    qed
  qed
qed simp

text \<open>
  On Windows the file acts as a map under the environment as on POSIX, except that a variable that is
  present but empty counts as missing and takes the file's value, as the configuration promises.
\<close>

theorem config_first_wins_win:
  "without_empty (fst (config_load_file_win (Some s) e)) =
     map_of (config_entries True (fgets_lines s)) ++ without_empty e"
  by (simp add: config_load_file_win_def config_lines_win_env)

text \<open>The folder of the log file is the part of its path before the last backslash.\<close>

theorem log_folder:
  assumes "e ''AGENT_LOG_FILE'' = Some (d @ bslash # f)" and "bslash \<notin> set f" and "length d + length f < 259"
  shows "redirect_output e = (d @ bslash # f, Some d)"
proof -
  have c: "cstr_copy MAX_PATH (d @ bslash # f) = d @ bslash # f" using assms(3) by (simp add: MAX_PATH_def)
  have "dropWhile (\<lambda>c. c \<noteq> bslash) (rev f @ bslash # rev d) = bslash # rev d"
    using assms(2) by (subst dropWhile_append2) auto
  then show ?thesis using assms(1) by (simp add: redirect_output_def Let_def c)
qed

theorem log_folder_witness:
  "redirect_output [''AGENT_LOG_FILE'' \<mapsto> ''D:'' @ bslash # ''agent.log''] = (''D:'' @ bslash # ''agent.log'', Some ''D:'')"
  by (rule log_folder) (simp_all add: bslash_def)

end
