(* ===== verification/Nta_Host.thy ===== *)
theory Nta_Host
  imports Nta_Winmain
begin

text \<open>
  What the agent asks its host: the monotonic clock of the publisher and of the pipeline, in a \<open>long\<close>
  of 64 bits on POSIX systems and of 32 bits in the Windows build (\<open>src/agent/output/publisher.c\<close>,
  \<open>src/agent/core/pipeline.c\<close>, \<open>CMakeLists.txt\<close>: MinGW-w64), the privileges to capture, the priority of
  the capture thread, the signal handler and the loading of Npcap (\<open>src/agent/main.c\<close>).
\<close>

section \<open>Clocks\<close>

record timespec =
  tv_sec :: int
  tv_nsec :: int

text \<open>The milliseconds since the clock's start, the boot of the host.\<close>

definition uptime_ms :: "timespec \<Rightarrow> int" where
  "uptime_ms ts = tv_sec ts * 1000 + tv_nsec ts div 1000000"

text \<open>A number converted to a \<open>long\<close> of the given width.\<close>

definition to_long :: "nat \<Rightarrow> int \<Rightarrow> int" where
  "to_long bits n = signed_take_bit (bits - 1) n"

definition mono_ms :: "nat \<Rightarrow> timespec \<Rightarrow> int" where
  "mono_ms bits ts = to_long bits (tv_sec ts * 1000 + tv_nsec ts div 1000000)"

definition now_ms_monotonic :: "nat \<Rightarrow> timespec \<Rightarrow> int" where
  "now_ms_monotonic bits ts = to_long bits (tv_sec ts * 1000 + tv_nsec ts div 1000000)"

text \<open>\<open>idle_sleep\<close>: the time it asks for, which \<open>nanosleep\<close> refuses from a second on.\<close>

definition idle_sleep :: "int \<Rightarrow> timespec" where
  "idle_sleep ns = \<lparr>tv_sec = 0, tv_nsec = ns\<rparr>"

definition nanosleep_valid :: "timespec \<Rightarrow> bool" where
  "nanosleep_valid ts \<longleftrightarrow> 0 \<le> tv_sec ts \<and> 0 \<le> tv_nsec ts \<and> tv_nsec ts \<le> 999999999"

definition IDLE_SLEEP_NS :: int where "IDLE_SLEEP_NS = 100000"
definition PUBLISH_RETRY_SLEEP_NS :: int where "PUBLISH_RETRY_SLEEP_NS = 100000000"

text \<open>The test of the publish thread for its batch timeout.\<close>

definition batch_timed_out :: "nat \<Rightarrow> int \<Rightarrow> timespec \<Rightarrow> int \<Rightarrow> int \<Rightarrow> bool" where
  "batch_timed_out bits filled now batch_start batch_timeout \<longleftrightarrow>
     filled > 0 \<and> to_long bits (now_ms_monotonic bits now - batch_start) \<ge> batch_timeout"

section \<open>Privileges, priority and signals\<close>

datatype platform = Windows | Linux | Other_posix

definition CAP_NET_RAW :: nat where "CAP_NET_RAW = 13"

text \<open>\<open>capget\<close>: the effective set of the process, low word first, or its failure.\<close>

definition has_cap_net_raw :: "(u32 \<times> u32) option \<Rightarrow> bool" where
  "has_cap_net_raw data =
     (case data of None \<Rightarrow> False | Some (effective0, effective1) \<Rightarrow> effective0 AND push_bit CAP_NET_RAW 1 \<noteq> 0)"

fun has_privileges :: "platform \<Rightarrow> nat \<Rightarrow> (u32 \<times> u32) option \<Rightarrow> bool" where
  "has_privileges Windows uid data = True"
| "has_privileges Linux uid data = (uid = 0 \<or> has_cap_net_raw data)"
| "has_privileges Other_posix uid data = (uid = 0)"

definition backquote :: char where "backquote = CHR 0x60"

fun PRIVILEGE_MSG :: "platform \<Rightarrow> string" where
  "PRIVILEGE_MSG Windows = []"
| "PRIVILEGE_MSG Linux = ''Execute com sudo/root ou aplique '' @ [backquote] @
     ''sudo setcap cap_net_raw,cap_net_admin+ep'' @ [backquote] @ '' no bin'' @ [CHR 0xC3, CHR 0xA1] @ ''rio.''"
| "PRIVILEGE_MSG Other_posix = ''Execute com sudo ou como root.''"

text \<open>The start of the capture thread: what it prints when its priority cannot be raised. It goes on.\<close>

fun capture_priority :: "platform \<Rightarrow> bool \<Rightarrow> string" where
  "capture_priority Windows raised =
     (if raised then [] else ''[PIPE] Aviso: nao foi possivel elevar a prioridade da thread de captura.'' @ nl)"
| "capture_priority _ raised =
     (if raised then []
      else ''[PIPE] Aviso: nao foi possivel aplicar SCHED_FIFO (continuando em SCHED_OTHER).'' @ nl)"

definition agent_on_signal :: "capture_state \<Rightarrow> capture_state" where
  "agent_on_signal c = pipeline_request_stop c"

text \<open>\<open>load_npcap\<close>: the folder added to the search path, what is printed, and the result.\<close>

definition load_npcap :: "string option \<Rightarrow> bool \<Rightarrow> string option \<times> string \<times> bool" where
  "load_npcap sysdir loaded =
     (npcap_dir sysdir,
      if loaded then [] else ''Erro: Npcap n'' @ [CHR 0xC3, CHR 0xA3] @
        ''o encontrado. Instale em https://npcap.com/#download e tente novamente.'' @ nl,
      loaded)"

text \<open>\<open>main\<close> with the probe of its platform.\<close>

definition agent_plan :: "platform \<Rightarrow> nat \<Rightarrow> (u32 \<times> u32) option \<Rightarrow> (string \<Rightarrow> string option) \<Rightarrow> string list \<Rightarrow> env \<Rightarrow> plan" where
  "agent_plan pf uid data files argv e = main_plan files (has_privileges pf uid data) argv e"

section \<open>Clocks of 32 bits\<close>

lemma to_long_id: "0 < bits \<Longrightarrow> - (2 ^ (bits - 1)) \<le> n \<Longrightarrow> n < 2 ^ (bits - 1) \<Longrightarrow> to_long bits n = n"
  by (simp add: to_long_def signed_take_bit_int_eq_self)

lemma to_long_32: "to_long 32 n = to_int32 n"
  by (simp add: to_long_def to_int32_def signed_of_int)

lemma to_long_32_wrapped: "2 ^ 31 \<le> n \<Longrightarrow> n < 2 ^ 32 \<Longrightarrow> to_long 32 n = n - 2 ^ 32"
proof -
  assume n: "2 ^ 31 \<le> n" "n < (2 ^ 32 :: int)"
  have "(word_of_int n :: 32 word) = word_of_int (n - 2 ^ 32)" by (simp add: word_of_int_eq_iff take_bit_eq_mod)
  then have "to_long 32 n = to_int32 (n - 2 ^ 32)" unfolding to_long_32 to_int32_def by (rule arg_cong)
  also have "\<dots> = n - 2 ^ 32" using n by (intro to_int32_id) simp_all
  finally show ?thesis .
qed

lemma to_long_32_diff: "to_long 32 (to_long 32 m - to_long 32 n) = to_long 32 (m - n)"
  by (simp add: to_long_32 to_int32_def)

text \<open>
  Intervals survive the wrap-around: the batch timeout is measured right on both builds, as long as the
  interval itself stays under the range of the \<open>long\<close>.
\<close>

theorem batch_timeout_exact:
  assumes "uptime_ms start \<le> uptime_ms now" "uptime_ms now - uptime_ms start < 2 ^ 31"
  shows "batch_timed_out 32 filled now (now_ms_monotonic 32 start) timeout \<longleftrightarrow>
    filled > 0 \<and> uptime_ms now - uptime_ms start \<ge> timeout"
proof -
  have "to_long 32 (uptime_ms now - uptime_ms start) = uptime_ms now - uptime_ms start"
    using assms by (intro to_long_id) simp_all
  then show ?thesis
    by (simp add: batch_timed_out_def now_ms_monotonic_def to_long_32_diff flip: uptime_ms_def)
qed

text \<open>
  C26. Deadlines do not: in the Windows build, once the host is up for \<open>2 ^ 31\<close> milliseconds (24.8 days)
  the clock of the publisher is negative until \<open>2 ^ 32\<close>, below any deadline set before and below the
  initial one of zero. An agent that starts then, or loses its connection then, makes no attempt to
  connect, however often it is polled and whatever the broker would answer. The 64-bit build connects
  at the first poll after the deadline.
\<close>

theorem windows_uptime_no_connection:
  assumes "\<not> g_connected p" "0 \<le> g_next_retry_ms p"
    and "\<forall>x \<in> set xs. 2 ^ 31 \<le> uptime_ms (fst x) \<and> uptime_ms (fst x) < 2 ^ 32 \<and> g_next_retry_ms p \<le> uptime_ms (fst x)"
  shows "foldl poll p (List.map (map_prod (mono_ms 32) id) xs) = p \<and>
    attempts p (List.map (map_prod (mono_ms 32) id) xs) = 0 \<and>
    (\<forall>x \<in> set xs. snd (connect_locked (snd x) p) = 0 \<longrightarrow> g_connected (poll p (map_prod (mono_ms 64) id x)))"
proof -
  have clock: "mono_ms 32 (fst x) < g_next_retry_ms p" "mono_ms 64 (fst x) = uptime_ms (fst x)" if "x \<in> set xs" for x
  proof -
    have u: "2 ^ 31 \<le> uptime_ms (fst x)" "uptime_ms (fst x) < 2 ^ 32" using assms(3) that by auto
    from to_long_32_wrapped [OF this] u assms(2) show "mono_ms 32 (fst x) < g_next_retry_ms p"
      by (simp add: mono_ms_def flip: uptime_ms_def)
    have "to_long 64 (uptime_ms (fst x)) = uptime_ms (fst x)" using u by (intro to_long_id) simp_all
    then show "mono_ms 64 (fst x) = uptime_ms (fst x)" by (simp add: mono_ms_def flip: uptime_ms_def)
  qed
  have stay: "poll p (map_prod (mono_ms 32) id x) = p" if "x \<in> set xs" for x
    using clock(1) [OF that] assms(1) by (simp add: poll_def ensure_connected_locked_def)
  then have "foldl poll p (List.map (map_prod (mono_ms 32) id) xs) = p" by (induction xs) auto
  moreover have "attempts p (List.map (map_prod (mono_ms 32) id) xs) = 0"
    using stay clock(1) by (induction xs) (auto simp: not_le)
  moreover have "g_connected (poll p (map_prod (mono_ms 64) id x))"
    if "x \<in> set xs" "snd (connect_locked (snd x) p) = 0" for x
    using assms that clock(2) [OF that(1)] by (rule_tac ensure_cases [of p "mono_ms 64 (fst x)" "snd x"]) (auto simp: poll_def)
  ultimately show ?thesis by blast
qed

definition reachable_broker :: amqp_attempt where
  "reachable_broker = \<lparr>new_connection_ok = True, ssl_socket_ok = True, set_key_ok = True, tcp_socket_ok = True,
     socket_open_ok = True, login_ok = True, channel_open_ok = True, queue_declare_ok = True, metrics_declare_ok = True\<rparr>"

text \<open>The host is up for thirty days and an hour.\<close>

theorem windows_uptime_no_connection_witness:
  "attempts initial_publisher [(mono_ms 32 \<lparr>tv_sec = 2595600, tv_nsec = 0\<rparr>, reachable_broker)] = 0 \<and>
   g_connected (poll initial_publisher (mono_ms 64 \<lparr>tv_sec = 2595600, tv_nsec = 0\<rparr>, reachable_broker))"
  using windows_uptime_no_connection [of initial_publisher "[(\<lparr>tv_sec = 2595600, tv_nsec = 0\<rparr>, reachable_broker)]"]
  by (simp add: initial_publisher_def uptime_ms_def reachable_broker_def connect_locked_def)

section \<open>Privileges\<close>

lemma has_cap_net_raw_bit: "has_cap_net_raw (Some (e0, e1)) \<longleftrightarrow> bit e0 CAP_NET_RAW"
proof -
  have "e0 AND push_bit CAP_NET_RAW 1 \<noteq> 0 \<longleftrightarrow> bit e0 CAP_NET_RAW"
    by (auto simp: CAP_NET_RAW_def bit_iff_and_push_bit_not_eq_0)
  then show ?thesis by (simp add: has_cap_net_raw_def)
qed

text \<open>On Linux a live capture needs root or the capability bit; the other modes need neither.\<close>

theorem live_needs_privilege:
  assumes "agent_plan Linux uid data files argv e = Run_live i e1"
  shows "uid = 0 \<or> (\<exists>e0 e2. data = Some (e0, e2) \<and> bit e0 CAP_NET_RAW)"
proof (rule ccontr)
  assume n: "\<not> ?thesis"
  have "\<not> has_privileges Linux uid data"
    using n has_cap_net_raw_bit by (cases data) (auto simp: has_cap_net_raw_def)
  with assms show False
    by (auto simp: agent_plan_def main_plan_def live_plan_def Let_def split: option.splits if_splits run_mode.splits prod.splits)
qed

text \<open>Every sleep of the agent is one \<open>nanosleep\<close> accepts.\<close>

lemma sleeps_valid:
  "nanosleep_valid (idle_sleep IDLE_SLEEP_NS)" "nanosleep_valid (idle_sleep PUBLISH_RETRY_SLEEP_NS)"
  by (simp_all add: nanosleep_valid_def idle_sleep_def IDLE_SLEEP_NS_def PUBLISH_RETRY_SLEEP_NS_def)

end
