(* ===== verification/Nta_Replaydir.thy ===== *)
theory Nta_Replaydir
  imports Nta_Winmain
begin

text \<open>
  The directory replay of the Windows build (\<open>replay_dir\<close> of \<open>src/agent/replay/replay.c\<close>, its \<open>_WIN32\<close>
  branch) against the POSIX one of \<open>Nta_Replay\<close>, and what both do with captures that cannot be read.
  \<open>found\<close> is what \<open>FindFirstFile\<close> and \<open>FindNextFile\<close> give for a pattern.
\<close>

section \<open>The Windows walk\<close>

definition win_pcap_path :: "string \<Rightarrow> string \<Rightarrow> string" where
  "win_pcap_path dir_path name = cstr_copy 512 (dir_path @ [bslash] @ name)"

text \<open>The loop: no suffix is tested here, the pattern selects the files.\<close>

fun replay_entries_win ::
  "(string \<Rightarrow> json option) \<Rightarrow> (string \<Rightarrow> string option) \<Rightarrow> (string \<Rightarrow> pcap_packet list option) \<Rightarrow> string \<Rightarrow>
   string list \<Rightarrow> replay_result list \<Rightarrow> string \<Rightarrow> ids \<Rightarrow> (ids \<times> replay_result list \<times> string) option" where
  "replay_entries_win parse files pcaps dir [] rs buf st = Some (st, rs, buf)"
| "replay_entries_win parse files pcaps dir (name # names) rs buf st =
     (let path = win_pcap_path dir name
      in case derive_gabarito_path path of
           None \<Rightarrow> None
         | Some gpath \<Rightarrow>
             (case replay_file (pcaps path) Loop_buffer (gabarito_load parse (files gpath)) st of
                None \<Rightarrow> None
              | Some (st1, r) \<Rightarrow>
                  replay_entries_win parse files pcaps dir names
                    (if length rs < 256 then rs @ [r] else rs) path st1))"

definition find_pattern :: "string \<Rightarrow> string" where
  "find_pattern dir_path = cstr_copy 512 (dir_path @ bslash # ''*.pcap'')"

definition replay_dir_win ::
  "(string \<Rightarrow> json option) \<Rightarrow> (string \<Rightarrow> string option) \<Rightarrow> (string \<Rightarrow> pcap_packet list option) \<Rightarrow>
   (string \<Rightarrow> string list option) \<Rightarrow> string \<Rightarrow> bool \<Rightarrow> ids \<Rightarrow> (ids \<times> json option \<times> int) option" where
  "replay_dir_win parse files pcaps found dir_path report_out st =
     (case found (find_pattern dir_path) of
        None \<Rightarrow> Some (st, None, 0)
      | Some names \<Rightarrow>
          (case replay_entries_win parse files pcaps dir_path names [] [] st of
             None \<Rightarrow> None
           | Some (st1, rs, buf) \<Rightarrow>
               if rs = [] then Some (st1, None, 0)
               else Some (st1, if report_out then Some (report_json buf rs (aggregate_score rs)) else None,
                          if sum_list (List.map r_expected_count rs) > 0 \<and> aggregate_score rs < 80 then 1 else 0)))"

section \<open>The two walks\<close>

text \<open>The same capture and answer key under the path each build makes of a name.\<close>

definition same_capture ::
  "(string \<Rightarrow> string option) \<Rightarrow> (string \<Rightarrow> pcap_packet list option) \<Rightarrow> string \<Rightarrow>
   (string \<Rightarrow> string option) \<Rightarrow> (string \<Rightarrow> pcap_packet list option) \<Rightarrow> string \<Rightarrow> string \<Rightarrow> bool" where
  "same_capture filesw pcapsw dirw filesp pcapsp dirp name \<longleftrightarrow>
     pcapsw (win_pcap_path dirw name) = pcapsp (pcap_path_of dirp name) \<and>
     map_option filesw (derive_gabarito_path (win_pcap_path dirw name)) =
       map_option filesp (derive_gabarito_path (pcap_path_of dirp name))"

lemma replay_entries_same:
  assumes "\<forall>name \<in> set (filter has_pcap_suffix names). same_capture filesw pcapsw dirw filesp pcapsp dirp name"
  shows "map_option (\<lambda>(st, rs, buf). (st, rs)) (replay_entries_win parse filesw pcapsw dirw (filter has_pcap_suffix names) rs bufw st) =
    map_option (\<lambda>(st, rs, buf). (st, rs)) (replay_entries parse filesp pcapsp dirp names rs bufp st)"
  using assms
proof (induction names arbitrary: rs bufw bufp st)
  case Nil
  then show ?case by simp
next
  case (Cons name names)
  show ?case
  proof (cases "has_pcap_suffix name")
    case False
    then show ?thesis using Cons by simp
  next
    case True
    let ?w = "win_pcap_path dirw name" and ?p = "pcap_path_of dirp name"
    have same: "pcapsw ?w = pcapsp ?p"
        "map_option filesw (derive_gabarito_path ?w) = map_option filesp (derive_gabarito_path ?p)"
      using Cons.prems True by (simp_all add: same_capture_def)
    show ?thesis
    proof (cases "derive_gabarito_path ?p")
      case None
      then show ?thesis using same(2) True by simp
    next
      case (Some gp)
      then obtain gw where gw: "derive_gabarito_path ?w = Some gw" "filesw gw = filesp gp" using same(2) by auto
      show ?thesis
      proof (cases "replay_file (pcapsp ?p) Loop_buffer (gabarito_load parse (filesp gp)) st")
        case None
        then show ?thesis using True Some gw same(1) by simp
      next
        case run: (Some res)
        obtain st1 r where res: "res = (st1, r)" by (cases res)
        have "\<forall>name \<in> set (filter has_pcap_suffix names). same_capture filesw pcapsw dirw filesp pcapsp dirp name"
          using Cons.prems by simp
        from Cons.IH [OF this] show ?thesis using True Some gw same(1) run res by simp
      qed
    qed
  qed
qed

text \<open>
  The two builds judge a directory alike: on the same captures and answer keys, found in the same
  order, the Windows walk ends in the state and with the exit status of the POSIX one.
\<close>

theorem windows_replay_is_posix:
  assumes "found (find_pattern dirw) = Some (filter has_pcap_suffix names)" and "dirs dirp = Some names"
    and "\<forall>name \<in> set (filter has_pcap_suffix names). same_capture filesw pcapsw dirw filesp pcapsp dirp name"
  shows "map_option (\<lambda>(st, rep, code). (st, code)) (replay_dir_win parse filesw pcapsw found dirw out st) =
    map_option (\<lambda>(st, rep, code). (st, code)) (replay_dir parse filesp pcapsp dirs dirp out st)"
proof -
  note same = replay_entries_same [OF assms(3), of parse "[]" "[]" st "[]"]
  show ?thesis
  proof (cases "replay_entries parse filesp pcapsp dirp names [] [] st")
    case None
    then show ?thesis using same assms(1,2) by (simp add: replay_dir_win_def replay_dir_def)
  next
    case (Some res)
    then obtain buf where "replay_entries_win parse filesw pcapsw dirw (filter has_pcap_suffix names) [] [] st =
        Some (fst res, fst (snd res), buf)"
      using same by (auto simp: case_prod_beta)
    then show ?thesis using Some assms(1,2)
      by (cases res) (simp add: replay_dir_win_def replay_dir_def)
  qed
qed

theorem windows_replay_is_posix_witness:
  "map_option (\<lambda>(st, rep, code). (st, code)) (replay_dir_win (\<lambda>s. None) (\<lambda>p. None) (\<lambda>p. Some []) (\<lambda>p. Some [''a.pcap'']) ''d'' True (initial_ids False)) =
   map_option (\<lambda>(st, rep, code). (st, code)) (replay_dir (\<lambda>s. None) (\<lambda>p. None) (\<lambda>p. Some []) (\<lambda>d. Some [''a.pcap'', ''b.txt'']) ''d'' True (initial_ids False))"
proof (rule windows_replay_is_posix [where names = "[''a.pcap'', ''b.txt'']"])
  show "\<forall>name\<in>set (filter has_pcap_suffix [''a.pcap'', ''b.txt'']).
      same_capture (\<lambda>p. None) (\<lambda>p. Some []) ''d'' (\<lambda>p. None) (\<lambda>p. Some []) ''d'' name"
  proof -
    have "win_pcap_path ''d'' ''a.pcap'' = [CHR ''d'', bslash, CHR ''a''] @ ''.pcap''" "pcap_path_of ''d'' ''a.pcap'' = ''d/a'' @ ''.pcap''"
      by (simp_all add: win_pcap_path_def pcap_path_of_def)
    then have "derive_gabarito_path (win_pcap_path ''d'' ''a.pcap'') = Some ([CHR ''d'', bslash, CHR ''a''] @ ''.json'')"
      "derive_gabarito_path (pcap_path_of ''d'' ''a.pcap'') = Some (''d/a'' @ ''.json'')"
      using gabarito_path_of_pcap [of "[CHR ''d'', bslash, CHR ''a'']"] gabarito_path_of_pcap [of "''d/a''"] by simp_all
    then show ?thesis by (simp add: has_pcap_suffix_def same_capture_def)
  qed
qed (simp_all add: has_pcap_suffix_def)

section \<open>Captures that cannot be read\<close>

lemma unreadable_entries:
  assumes "\<And>p. pcaps p = None" "replay_entries parse files pcaps dir names rs buf st = Some (st', rs', buf')"
  shows "st' = st \<and> sum_list (List.map r_expected_count rs') = sum_list (List.map r_expected_count rs)"
  using assms(2)
proof (induction names arbitrary: rs buf)
  case (Cons name names)
  have none: "replay_file (pcaps p) path g st = Some (st, zero_replay path)" for p path g
    by (simp add: assms(1) replay_file_def)
  show ?case
  proof (cases "has_pcap_suffix name")
    case True
    then have "replay_entries parse files pcaps dir names
        (if length rs < 256 then rs @ [zero_replay Loop_buffer] else rs) (pcap_path_of dir name) st = Some (st', rs', buf')"
      using Cons.prems by (simp add: none Let_def split: option.splits if_splits)
    from Cons.IH [OF this] show ?thesis by (auto simp: zero_replay_def split: if_splits)
  qed (use Cons in simp)
qed simp

text \<open>
  A capture that cannot be opened leaves a result without expectations, whatever its answer key asks
  for. So a directory of captures that are all unreadable passes the gate, as an empty or missing one does.
\<close>

theorem unreadable_captures_pass:
  assumes "\<And>p. pcaps p = None" "replay_dir parse files pcaps dirs dir out st = Some (st', rep, code)"
  shows "code = 0 \<and> st' = st"
proof (cases "dirs dir")
  case None
  then show ?thesis using assms(2) by (simp add: replay_dir_def)
next
  case (Some names)
  then show ?thesis using assms(2) unreadable_entries [of pcaps parse files dir names "[]" "[]" st] assms(1)
    by (auto simp: replay_dir_def split: option.splits if_splits)
qed

theorem unreadable_captures_pass_witness:
  "\<exists>rep. replay_dir (\<lambda>s. Some one_expected) (\<lambda>p. Some []) (\<lambda>p. None) (\<lambda>d. Some [''a.pcap'']) ''d'' False (initial_ids False) =
     Some (initial_ids False, rep, 0)"
proof -
  obtain st' rep code where
    d: "replay_dir (\<lambda>s. Some one_expected) (\<lambda>p. Some []) (\<lambda>p. None) (\<lambda>d. Some [''a.pcap'']) ''d'' False (initial_ids False) =
      Some (st', rep, code)"
    using replay_dir_returns [of "\<lambda>p. None" "\<lambda>d. Some [''a.pcap'']" "''d''"] by fastforce
  from unreadable_captures_pass [OF refl d] d show ?thesis by auto
qed

end
