(* ===== verification/Nta_Console.thy ===== *)
theory Nta_Console
  imports Nta_Host Nta_Replaydir
begin

text \<open>
  What the agent prints about its results: the verdicts and scores of the replay mode
  (\<open>src/agent/replay/replay.c\<close>), the list of home networks (\<open>analyzer_home_dump\<close>), the usage message
  (\<open>src/agent/cli.c\<close>) and the errors of the service commands (\<open>print_last_error\<close>), as the bytes of the
  texts, in UTF-8.
\<close>

section \<open>Formats\<close>

definition em_dash :: string where "em_dash = [CHR 0xE2, CHR 0x80, CHR 0x94]"
definition c_cedilla :: string where "c_cedilla = [CHR 0xC3, CHR 0xA7]"
definition o_tilde :: string where "o_tilde = [CHR 0xC3, CHR 0xB5]"
definition a_tilde :: string where "a_tilde = [CHR 0xC3, CHR 0xA3]"
definition a_acute :: string where "a_acute = [CHR 0xC3, CHR 0xA1]"
definition o_acute :: string where "o_acute = [CHR 0xC3, CHR 0xB3]"

text \<open>\<open>"%.1f"\<close> of a value that is not negative, and \<open>"%-15s"\<close>.\<close>

definition fmt_f1 :: "double \<Rightarrow> string" where
  "fmt_f1 x = (let n = nat (rne (x * 10)) in dec_digits (n div 10) @ ''.'' @ dec_digits (n mod 10))"

definition pad_right :: "nat \<Rightarrow> string \<Rightarrow> string" where
  "pad_right n s = s @ replicate (n - length s) (CHR '' '')"

section \<open>The replay mode\<close>

definition verdict_line :: "int \<Rightarrow> detected_event list \<Rightarrow> expected_detection \<Rightarrow> string" where
  "verdict_line start ds e =
     (if list_ex (detection_matches start e) ds then ''[PASS]         '' else ''[FAIL]         '') @
     pad_right 15 (x_attack_type e) @ '' '' @ x_src_ip e @ nl"

text \<open>\<open>compare_results\<close>: the lines under the heading, if there is an answer key with entries.\<close>

definition compare_lines :: "gabarito option \<Rightarrow> collector \<Rightarrow> string list" where
  "compare_lines g c =
     (case g of
        None \<Rightarrow> []
      | Some g \<Rightarrow>
          if entries g = [] then []
          else [nl @ pad_right 14 ''RESULTADO'' @ '' '' @ pad_right 15 ''ATTACK_TYPE'' @ '' SRC_IP'' @ nl,
                pad_right 14 ''---------'' @ '' '' @ pad_right 15 ''-----------'' @ '' ------'' @ nl] @
               List.map (verdict_line (pcap_start_ts g) (g_events c)) (entries g))"

definition detection_line :: "detected_event \<Rightarrow> string" where
  "detection_line d = ''  '' @ pad_right 15 (ev_attack d) @ '' '' @ ev_src_ip d @ nl"

definition print_replay_result :: "string \<Rightarrow> collector \<Rightarrow> replay_result \<Rightarrow> string" where
  "print_replay_result pcap_name c r =
     nl @ ''--- Resultado: '' @ pcap_name @ '' ---'' @ nl @
     (if r_expected_count r > 0
      then ''Score: '' @ fmt_f1 (r_score r) @ ''%  ('' @ fmt_d (r_passed r) @ ''/'' @ fmt_d (r_expected_count r) @
           '' detec'' @ c_cedilla @ o_tilde @ ''es corretas)'' @ nl
      else ''Nenhum gabarito fornecido '' @ em_dash @ '' replay conclu'' @ [CHR 0xC3, CHR 0xAD] @ ''do sem valida'' @
           c_cedilla @ a_tilde @ ''o.'' @ nl @
           ''Detec'' @ c_cedilla @ o_tilde @ ''es capturadas: '' @ fmt_d (collector_count c) @ nl @
           concat (List.map detection_line (g_events c)))"

text \<open>The end of \<open>replay_dir\<close>: the line of the aggregate score and the one before \<open>exit (1)\<close>.\<close>

definition aggregate_line :: "replay_result list \<Rightarrow> string" where
  "aggregate_line rs =
     nl @ ''=== Score agregado: '' @ fmt_f1 (aggregate_score rs) @ ''% ('' @
     fmt_d (sum_list (List.map r_passed rs)) @ ''/'' @ fmt_d (sum_list (List.map r_expected_count rs)) @ '') ==='' @ nl"

definition gate_line :: "replay_result list \<Rightarrow> string" where
  "gate_line rs =
     (if sum_list (List.map r_expected_count rs) > 0 \<and> aggregate_score rs < 80
      then ''[REPLAY] Score abaixo de 80% '' @ em_dash @ '' falha no CI.'' @ nl else [])"

text \<open>The report: the file written when it can be opened, and the message.\<close>

definition save_report :: "(json \<Rightarrow> string) \<Rightarrow> bool \<Rightarrow> string \<Rightarrow> json \<Rightarrow> (string \<Rightarrow> string option) \<Rightarrow> (string \<Rightarrow> string option) \<times> string" where
  "save_report print_json opened path doc files =
     (if opened then (files(path \<mapsto> print_json doc), ''[REPLAY] Relat'' @ o_acute @ ''rio salvo em: '' @ path @ nl)
      else (files, ''[REPLAY] N'' @ a_tilde @ ''o foi poss'' @ [CHR 0xC3, CHR 0xAD] @ ''vel salvar relat'' @ o_acute @
                   ''rio: '' @ path @ nl))"

section \<open>Home networks, usage and errors\<close>

definition analyzer_home_dump :: "home_cidr list \<Rightarrow> string" where
  "analyzer_home_dump hs =
     ''[ANALYZER] HOME_NET ('' @ fmt_d (analyzer_home_count hs) @ ''):'' @
     concat (List.map (\<lambda>h. '' '' @ cidr_str h) hs) @ nl"

definition print_usage :: "platform \<Rightarrow> string \<Rightarrow> string" where
  "print_usage pf prog =
     ''Uso:'' @ nl @
     ''  '' @ prog @ '' [--config <arq>] [<interface>]       '' @ em_dash @ '' captura ao vivo'' @ nl @
     ''        (sem <interface>: usa AGENT_IFACE do ambiente/config)'' @ nl @
     ''  '' @ prog @ '' --list-interfaces                    '' @ em_dash @ '' lista interfaces de captura'' @ nl @
     (if pf = Windows
      then ''  --install-service --config <arq> [<interface>] '' @ em_dash @ '' instala servi'' @ c_cedilla @ ''o NTAAgent'' @ nl @
           ''  --uninstall-service                     '' @ em_dash @ '' remove o servi'' @ c_cedilla @ ''o'' @ nl
      else []) @
     ''  '' @ prog @ '' --replay <file.pcap>                 '' @ em_dash @ '' replay de arquivo'' @ nl @
     ''        [--expect <gabarito.json>]         '' @ em_dash @ '' valida detec'' @ c_cedilla @ o_tilde @ ''es'' @ nl @
     ''  '' @ prog @ '' --replay-dir <diret'' @ o_acute @ ''rio>             '' @ em_dash @ '' replay de diret'' @ o_acute @ ''rio'' @ nl @
     ''        [--report <relat'' @ o_acute @ ''rio.json>]        '' @ em_dash @ '' salva relat'' @ o_acute @ ''rio'' @ nl"

definition ERROR_ACCESS_DENIED :: nat where "ERROR_ACCESS_DENIED = 5"

definition print_last_error :: "nat \<Rightarrow> string \<Rightarrow> string" where
  "print_last_error err what =
     ''Erro em '' @ what @ '' (c'' @ o_acute @ ''digo '' @ dec_digits err @ '')'' @
     (if err = ERROR_ACCESS_DENIED then '' '' @ em_dash @ '' execute como Administrador.'' else ''.'') @ nl"

section \<open>What the lines say\<close>

text \<open>There are as many lines of each verdict as the result counts.\<close>

theorem verdict_lines_counted:
  "r_expected_count (compare_results g c (zero_replay f)) > 0 \<Longrightarrow>
   int (length (filter (has_prefix ''[PASS]'') (compare_lines g c))) = r_passed (compare_results g c (zero_replay f)) \<and>
   int (length (filter (has_prefix ''[FAIL]'') (compare_lines g c))) = r_failed (compare_results g c (zero_replay f))"
proof -
  have v: "has_prefix ''[PASS]'' (verdict_line s ds e) = list_ex (detection_matches s e) ds"
     "has_prefix ''[FAIL]'' (verdict_line s ds e) = (\<not> list_ex (detection_matches s e) ds)" for s ds e
    by (simp_all add: verdict_line_def)
  assume "r_expected_count (compare_results g c (zero_replay f)) > 0"
  then show ?thesis
    by (auto simp: compare_results_def compare_lines_def compare_loop_counts zero_replay_def filter_map comp_def v
        nl_def pad_right_def split: option.splits)
qed

text \<open>
  The score is printed with one decimal, rounded: from 79.96 percent on, a directory that fails the
  gate of 80 percent prints the score 80.0.
\<close>

theorem failing_score_printed_80:
  assumes "e = sum_list (List.map r_expected_count rs)" "p = sum_list (List.map r_passed rs)"
    and "0 < e" "e \<le> 65536" "7996 * e \<le> 10000 * p" "5 * p < 4 * e"
  shows "fmt_f1 (aggregate_score rs) = ''80.0'' \<and> gate_line rs \<noteq> []"
proof -
  have pe: "0 \<le> p" "p \<le> e" using assms(3-6) by auto
  have s: "aggregate_score rs = score_percent p e" using assms(1-3) by (simp add: aggregate_score_def Let_def)
  have lt: "score_percent p e < 80" using score_percent_less_80 [OF pe(1) assms(3) pe(2) assms(4)] assms(6) by simp
  let ?q = "13414000 / 16777216 :: real"
  have dp: "double_of_int p = of_int p" and de: "double_of_int e = of_int e" using pe assms(3,4) by simp_all
  have "7996 * real_of_int e \<le> 10000 * real_of_int p" using assms(5) by linarith
  then have "?q \<le> of_int p / of_int e" using assms(3) by (simp add: field_simps)
  moreover have "is_double ?q" using is_double_scaled [of 13414000 "- 24"] by (simp add: power_int_def power_divide)
  ultimately have "?q \<le> ddiv (of_int p) (of_int e)" unfolding ddiv_def by (rule rnd64_ge)
  then have "1341400000 / 16777216 \<le> ddiv (of_int p) (of_int e) * 100" by simp
  moreover have "is_double (1341400000 / 16777216)"
    using is_double_scaled [of 1341400000 "- 24"] by (simp add: power_int_def power_divide)
  ultimately have ge: "1341400000 / 16777216 \<le> score_percent p e"
    unfolding score_percent_def dmul_def dp de by (rule rnd64_ge)
  have "\<lfloor>score_percent p e * 10\<rfloor> = 799" using lt ge by (simp add: floor_eq_iff)
  then have "rne (score_percent p e * 10) = 800" using ge by (simp add: rne_def Let_def)
  moreover have "dec_digits 80 @ ''.'' @ dec_digits 0 = ''80.0''" by code_simp
  ultimately show ?thesis using s lt assms(1,3) by (simp add: fmt_f1_def gate_line_def)
qed

text \<open>
  The usage message offers a live capture without an interface, taken from \<open>AGENT_IFACE\<close>; without any
  argument the program prints that message and ends, whatever the environment has.
\<close>

theorem no_argument_no_capture: "agent_plan pf uid data files [prog] e = Exit 1"
  by (simp add: agent_plan_def main_plan_def parse_args_def)

end
