(* ===== verification/Nta_Wire.thy ===== *)
theory Nta_Wire
  imports Nta_Analyzer
begin

text \<open>
  The headers as they are on the wire (\<open>include/agent/nta_net.h\<close>): one record per struct, with the
  bytes it stands for. The analyzer reads them through casts of the packet buffer at computed
  offsets; the properties here say that, on a frame made of these headers, it reads the fields meant,
  whatever the other fields and the options, and follow a port scan from its frames to the event.
  A 16-bit field has the value of its two bytes in network order, an address is kept raw.
\<close>

section \<open>Headers\<close>

definition NTA_ETH_HLEN :: nat where "NTA_ETH_HLEN = 14"
definition NTA_PROTO_ICMP :: u8 where "NTA_PROTO_ICMP = 1"
definition NTA_PROTO_TCP :: u8 where "NTA_PROTO_TCP = 6"
definition NTA_PROTO_UDP :: u8 where "NTA_PROTO_UDP = 17"

record nta_ipv4_hdr =
  ver_ihl :: u8
  ip_tos :: u8
  ip_tot_len :: u16
  ip_id :: u16
  ip_frag_off :: u16
  ip_ttl :: u8
  ip_proto :: u8
  ip_check :: u16
  ip_saddr :: u32
  ip_daddr :: u32

record nta_tcp_hdr =
  tcp_sport :: u16
  tcp_dport :: u16
  tcp_seq :: u32
  tcp_ack :: u32
  tcp_data_off :: u8
  tcp_flags :: u8
  tcp_window :: u16
  tcp_check :: u16
  tcp_urg_ptr :: u16

record nta_udp_hdr =
  udp_sport :: u16
  udp_dport :: u16
  udp_len :: u16
  udp_check :: u16

definition NTA_IPV4_HLEN :: "nta_ipv4_hdr \<Rightarrow> nat" where
  "NTA_IPV4_HLEN h = unat (ver_ihl h AND 0x0F) * 4"

text \<open>The bytes of a packed struct, field by field.\<close>

definition wire16 :: "u16 \<Rightarrow> bytes" where
  "wire16 w = [ucast (drop_bit 8 w), ucast w]"

definition wire32 :: "u32 \<Rightarrow> bytes" where
  "wire32 w = [raw_byte 0 w, raw_byte (Suc 0) w, raw_byte 2 w, raw_byte 3 w]"

definition ipv4_bytes :: "nta_ipv4_hdr \<Rightarrow> bytes" where
  "ipv4_bytes h = [ver_ihl h, ip_tos h] @ wire16 (ip_tot_len h) @ wire16 (ip_id h) @ wire16 (ip_frag_off h) @
     [ip_ttl h, ip_proto h] @ wire16 (ip_check h) @ wire32 (ip_saddr h) @ wire32 (ip_daddr h)"

definition tcp_bytes :: "nta_tcp_hdr \<Rightarrow> bytes" where
  "tcp_bytes t = wire16 (tcp_sport t) @ wire16 (tcp_dport t) @ wire32 (tcp_seq t) @ wire32 (tcp_ack t) @
     [tcp_data_off t, tcp_flags t] @ wire16 (tcp_window t) @ wire16 (tcp_check t) @ wire16 (tcp_urg_ptr t)"

definition udp_bytes :: "nta_udp_hdr \<Rightarrow> bytes" where
  "udp_bytes u = wire16 (udp_sport u) @ wire16 (udp_dport u) @ wire16 (udp_len u) @ wire16 (udp_check u)"

section \<open>Frames\<close>

text \<open>What an IPv4 packet carries; the length of its payload is what is left of the frame.\<close>

datatype segment = Icmp bytes | Tcp nta_tcp_hdr bytes | Udp nta_udp_hdr bytes

fun segment_proto :: "segment \<Rightarrow> u8" where
  "segment_proto (Icmp b) = NTA_PROTO_ICMP"
| "segment_proto (Tcp t b) = NTA_PROTO_TCP"
| "segment_proto (Udp u b) = NTA_PROTO_UDP"

fun segment_bytes :: "segment \<Rightarrow> bytes" where
  "segment_bytes (Icmp b) = b"
| "segment_bytes (Tcp t b) = tcp_bytes t @ b"
| "segment_bytes (Udp u b) = udp_bytes u @ b"

text \<open>An Ethernet frame with both addresses \<open>macs\<close>, the IPv4 header, its options and the segment.\<close>

definition frame :: "bytes \<Rightarrow> nta_ipv4_hdr \<Rightarrow> bytes \<Rightarrow> segment \<Rightarrow> bytes" where
  "frame macs h opts seg = macs @ [0x08, 0x00] @ ipv4_bytes h @ opts @ segment_bytes seg"

definition frame_ok :: "bytes \<Rightarrow> nta_ipv4_hdr \<Rightarrow> bytes \<Rightarrow> segment \<Rightarrow> bool" where
  "frame_ok macs h opts seg \<longleftrightarrow> length macs = 12 \<and> ip_proto h = segment_proto seg \<and>
     NTA_IPV4_HLEN h = 20 + length opts"

text \<open>What the headers ask of the analysis of the suspect.\<close>

fun segment_analysis :: "suspect \<Rightarrow> segment \<Rightarrow> int \<Rightarrow> time_t \<Rightarrow> (suspect \<times> string option) option" where
  "segment_analysis s (Icmp b) len now = Some (analyze_icmp s now)"
| "segment_analysis s (Tcp t b) len now = Some (analyze_tcp s (tcp_dport t) (tcp_flags t) now)"
| "segment_analysis s (Udp u b) len now = analyze_udp s (udp_sport u) (udp_dport u) b (length b) len now"

fun segment_port :: "segment \<Rightarrow> int" where
  "segment_port (Icmp b) = 0"
| "segment_port (Tcp t b) = uint (tcp_dport t)"
| "segment_port (Udp u b) = uint (udp_dport u)"

fun segment_name :: "segment \<Rightarrow> string" where
  "segment_name (Icmp b) = ''ICMP''"
| "segment_name (Tcp t b) = ''TCP''"
| "segment_name (Udp u b) = ''UDP''"

section \<open>Reading a header back\<close>

lemma be16_wire: "be16 (ucast (drop_bit 8 w)) (ucast w) = w"
proof (rule bit_word_eqI)
  fix i assume "i < LENGTH(16)"
  then show "bit (be16 (ucast (drop_bit 8 w)) (ucast w)) i = bit w i"
    by (cases "i < 8") (auto simp: be16_def bit_or_iff bit_push_bit_iff bit_unsigned_iff bit_drop_bit_eq)
qed

lemma byte_at_drop: "k \<le> i \<Longrightarrow> byte_at p i = byte_at (drop k p) (i - k)"
  by (auto simp: byte_at_def)

lemma be16_at_drop: "k \<le> i \<Longrightarrow> be16_at p i = be16_at (drop k p) (i - k)"
  using byte_at_drop [of k i p] byte_at_drop [of k "i + 1" p] by (simp add: be16_at_def Suc_diff_le)

lemma raw32_at_drop: "k \<le> i \<Longrightarrow> raw32_at p i = raw32_at (drop k p) (i - k)"
  using byte_at_drop [of k i p] byte_at_drop [of k "i + 1" p] byte_at_drop [of k "i + 2" p] byte_at_drop [of k "i + 3" p]
  by (simp add: raw32_at_def Suc_diff_le)

lemma be16_at_wire: "length a = i \<Longrightarrow> be16_at (a @ wire16 w @ b) i = Some w"
  by (simp add: be16_at_def byte_at_def wire16_def nth_append be16_wire)

lemma raw32_at_wire: "length a = i \<Longrightarrow> raw32_at (a @ wire32 w @ b) i = Some w"
  by (simp add: raw32_at_def byte_at_def wire32_def nth_append)

lemma byte_at_wire: "length a = i \<Longrightarrow> byte_at (a @ x # b) i = Some x"
  by (simp add: byte_at_def nth_append)

lemma wire_lengths [simp]:
  "length (wire16 w) = 2" "length (wire32 v) = 4" "length (ipv4_bytes h) = 20" "length (tcp_bytes t) = 20" "length (udp_bytes u) = 8"
  by (simp_all add: wire16_def wire32_def ipv4_bytes_def tcp_bytes_def udp_bytes_def)

lemma frame_reads:
  assumes "frame_ok macs h opts seg"
  shows "be16_at (frame macs h opts seg) 12 = Some 0x0800"
    and "byte_at (frame macs h opts seg) 14 = Some (ver_ihl h)"
    and "raw32_at (frame macs h opts seg) 26 = Some (ip_saddr h)"
    and "byte_at (frame macs h opts seg) 23 = Some (ip_proto h)"
    and "drop (14 + NTA_IPV4_HLEN h) (frame macs h opts seg) = segment_bytes seg"
    and "length (frame macs h opts seg) = 14 + NTA_IPV4_HLEN h + length (segment_bytes seg)"
proof -
  let ?p = "frame macs h opts seg"
  have m: "length macs = 12" "NTA_IPV4_HLEN h = 20 + length opts" using assms by (simp_all add: frame_ok_def)
  let ?eth = "macs @ [0x08, 0x00]" and ?rest = "opts @ segment_bytes seg"
  let ?a = "[ver_ihl h, ip_tos h] @ wire16 (ip_tot_len h) @ wire16 (ip_id h) @ wire16 (ip_frag_off h) @ [ip_ttl h]"
  let ?b = "?a @ [ip_proto h] @ wire16 (ip_check h)"
  have e: "[0x08, 0x00] = wire16 0x0800" by (simp add: wire16_def)
  have "?p = macs @ wire16 0x0800 @ ipv4_bytes h @ ?rest" by (simp add: frame_def e [symmetric])
  then show "be16_at ?p 12 = Some 0x0800" using be16_at_wire [of macs 12] m by simp
  have "?p = ?eth @ ver_ihl h # tl (ipv4_bytes h) @ ?rest" by (simp add: frame_def ipv4_bytes_def)
  then show "byte_at ?p 14 = Some (ver_ihl h)" using byte_at_wire [of ?eth 14] m by simp
  have "?p = (?eth @ ?b) @ wire32 (ip_saddr h) @ wire32 (ip_daddr h) @ ?rest" by (simp add: frame_def ipv4_bytes_def)
  then show "raw32_at ?p 26 = Some (ip_saddr h)" using raw32_at_wire [of "?eth @ ?b" 26] m by simp
  have "?p = (?eth @ ?a) @ ip_proto h # wire16 (ip_check h) @ wire32 (ip_saddr h) @ wire32 (ip_daddr h) @ ?rest"
    by (simp add: frame_def ipv4_bytes_def)
  then show "byte_at ?p 23 = Some (ip_proto h)" using byte_at_wire [of "?eth @ ?a" 23] m by simp
  have "length (?eth @ ipv4_bytes h @ opts) = 14 + NTA_IPV4_HLEN h" "?p = (?eth @ ipv4_bytes h @ opts) @ segment_bytes seg"
    using m by (simp_all add: frame_def)
  then show "drop (14 + NTA_IPV4_HLEN h) ?p = segment_bytes seg" by (metis append_eq_conv_conj)
  show "length ?p = 14 + NTA_IPV4_HLEN h + length (segment_bytes seg)" using m by (simp add: frame_def)
qed

text \<open>The reads of the transport headers, at the offset the IPv4 header gives.\<close>

lemma reads_at:
  assumes "drop k p = q"
  shows "be16_at p (k + i) = be16_at q i" and "byte_at p (k + i) = byte_at q i"
  using be16_at_drop [of k "k + i" p] byte_at_drop [of k "k + i" p] by (simp_all only: assms le_add1 diff_add_inverse)

lemma tcp_reads:
  assumes "drop k p = tcp_bytes t @ b"
  shows "be16_at p (k + 2) = Some (tcp_dport t)" and "byte_at p (k + 13) = Some (tcp_flags t)"
proof -
  have e: "tcp_bytes t @ b = wire16 (tcp_sport t) @ wire16 (tcp_dport t) @ drop 4 (tcp_bytes t) @ b"
    by (simp add: tcp_bytes_def wire16_def)
  show "be16_at p (k + 2) = Some (tcp_dport t)"
    unfolding reads_at [OF assms] e by (rule be16_at_wire) simp
  have e: "tcp_bytes t @ b = take 13 (tcp_bytes t) @ tcp_flags t # drop 14 (tcp_bytes t) @ b"
    by (simp add: tcp_bytes_def wire16_def wire32_def)
  show "byte_at p (k + 13) = Some (tcp_flags t)"
    unfolding reads_at [OF assms] by (subst e) (rule byte_at_wire, simp)
qed

lemma udp_reads:
  assumes "drop k p = udp_bytes u @ b"
  shows "be16_at p k = Some (udp_sport u)" and "be16_at p (k + 2) = Some (udp_dport u)" and "drop (k + 8) p = b"
proof -
  have e: "udp_bytes u @ b = wire16 (udp_sport u) @ wire16 (udp_dport u) @ drop 4 (udp_bytes u) @ b"
    by (simp add: udp_bytes_def wire16_def)
  have "be16_at p (k + 0) = Some (udp_sport u)"
    unfolding reads_at [OF assms] by (subst e) (rule be16_at_wire [of "[]", simplified], simp)
  then show "be16_at p k = Some (udp_sport u)" by simp
  show "be16_at p (k + 2) = Some (udp_dport u)"
    unfolding reads_at [OF assms] by (subst e) (rule be16_at_wire, simp)
  have "drop (k + 8) p = drop 8 (drop k p)" by (simp add: add.commute)
  then show "drop (k + 8) p = b" by (simp add: assms)
qed

lemma frame_ipv4:
  assumes ok: "frame_ok macs h opts seg" and home: "\<not> is_home_ip (home_nets st) (ip_saddr h)"
    and f: "find_or_create_suspect (suspects st) (ip_saddr h) now = (ss, Some i)"
    and seg: "segment_analysis (ss ! i) seg (int (length (frame macs h opts seg))) now = Some res"
  shows "analyze_ipv4 st (frame macs h opts seg) (int (length (frame macs h opts seg))) now =
    Some (finish_packet (st\<lparr>suspects := ss\<rparr>) i res (ip_saddr h) (segment_port seg) (segment_name seg)
      (int (length (frame macs h opts seg))) now)"
proof -
  let ?p = "frame macs h opts seg"
  note r = frame_reads [OF ok]
  have hl: "unat (ver_ihl h AND 0x0F) * 4 = NTA_IPV4_HLEN h" by (simp add: NTA_IPV4_HLEN_def)
  have b: "20 \<le> NTA_IPV4_HLEN h" "ip_proto h = segment_proto seg" using ok by (simp_all add: frame_ok_def)
  define len where "len = int (length ?p)"
  have len: "len = 14 + int (NTA_IPV4_HLEN h) + int (length (segment_bytes seg))" by (simp add: len_def r(6))
  have "34 \<le> len" "14 + int (NTA_IPV4_HLEN h) \<le> len" using b(1) len by simp_all
  then have body: "analyze_ipv4 st ?p len now = ipv4_segment (st\<lparr>suspects := ss\<rparr>) i (ss ! i) (ip_saddr h) (ip_proto h) ?p
      (14 + NTA_IPV4_HLEN h) (len - 14 - int (NTA_IPV4_HLEN h)) len now"
    using analyze_ipv4_segment [OF r(3,2,4) _ _ _ home f] b(1) by (simp add: hl)
  show ?thesis
  proof (cases seg)
    case (Icmp c)
    then show ?thesis using seg b(2) body by (simp add: len_def ipv4_segment_def NTA_PROTO_ICMP_def)
  next
    case (Tcp t c)
    then have d: "drop (14 + NTA_IPV4_HLEN h) ?p = tcp_bytes t @ c" using r(5) by simp
    from Tcp show ?thesis using seg b(2) body len tcp_reads [OF d] by (simp add: len_def ipv4_segment_def NTA_PROTO_TCP_def)
  next
    case (Udp u c)
    then have d: "drop (14 + NTA_IPV4_HLEN h) ?p = udp_bytes u @ c" using r(5) by simp
    have n: "nat (len - 14 - int (NTA_IPV4_HLEN h) - 8) = length c" using len Udp by simp
    from Udp show ?thesis using seg b(2) body len n udp_reads [OF d] by (simp add: len_def ipv4_segment_def NTA_PROTO_UDP_def)
  qed
qed

lemma frame_packet:
  assumes "frame_ok macs h opts seg" and "\<not> is_home_ip (home_nets st) (ip_saddr h)"
    and "find_or_create_suspect (suspects (cleanup_suspects st now)) (ip_saddr h) now = (ss, Some i)"
    and "segment_analysis (ss ! i) seg (int (length (frame macs h opts seg))) now = Some res"
  shows "analyze_packet st (frame macs h opts seg) (int (length (frame macs h opts seg))) now =
    Some (finish_packet ((cleanup_suspects st now)\<lparr>suspects := ss\<rparr>) i res (ip_saddr h) (segment_port seg)
      (segment_name seg) (int (length (frame macs h opts seg))) now)"
proof -
  have l: "14 \<le> int (length (frame macs h opts seg))" using frame_reads(6) [OF assms(1)] by simp
  have "\<not> is_home_ip (home_nets (cleanup_suspects st now)) (ip_saddr h)" using assms(2) by simp
  from frame_ipv4 [OF assms(1) this assms(3,4)] show ?thesis
    using l frame_reads(1) [OF assms(1)] by (simp add: analyze_packet_def Let_def)
qed

section \<open>A port scan, from the frames to the event\<close>

text \<open>One SYN of a scan: the parts of its frame and when it is captured.\<close>

record syn_frame =
  sf_macs :: bytes
  sf_hdr :: nta_ipv4_hdr
  sf_opts :: bytes
  sf_tcp :: nta_tcp_hdr
  sf_data :: bytes
  sf_time :: time_t

definition sf_bytes :: "syn_frame \<Rightarrow> bytes" where
  "sf_bytes f = frame (sf_macs f) (sf_hdr f) (sf_opts f) (Tcp (sf_tcp f) (sf_data f))"

definition sf_packet :: "syn_frame \<Rightarrow> bytes \<times> int \<times> time_t" where
  "sf_packet f = (sf_bytes f, int (length (sf_bytes f)), sf_time f)"

definition sf_port :: "syn_frame \<Rightarrow> u16" where
  "sf_port f = tcp_dport (sf_tcp f)"

definition syn_of :: "u32 \<Rightarrow> syn_frame \<Rightarrow> bool" where
  "syn_of src f \<longleftrightarrow> frame_ok (sf_macs f) (sf_hdr f) (sf_opts f) (Tcp (sf_tcp f) (sf_data f)) \<and>
     ip_saddr (sf_hdr f) = src \<and> tcp_flags (sf_tcp f) = TH_SYN"

text \<open>A suspect of which only the SYNs to \<open>ps\<close> have been seen, the last at \<open>t\<close>.\<close>

definition scanned :: "u32 \<Rightarrow> u16 list \<Rightarrow> suspect \<Rightarrow> bool" where
  "scanned src ps s \<longleftrightarrow> ip s = src \<and> ports s = ps \<and> syn_count s \<le> int (length ps) \<and>
     brute_count s \<le> int (length ps) \<and> sample_count (baseline s) \<le> int (length ps) \<and>
     kc_stage s = KC_IDLE \<and> kc_stages_hit s = 0"

lemma syn_not_stealth: "detect_stealth_scan s TH_SYN = (s, None)"
  by (simp add: detect_stealth_scan_def Let_def TH_SYN_def TH_FIN_def TH_PUSH_def TH_URG_def)

lemma syn_no_flood:
  assumes "sample_count (baseline s) < 100" "syn_count s < 100"
  shows "detect_syn_flood s TH_SYN = (s\<lparr>syn_count := syn_count s + 1\<rparr>, None)"
  using assms
  by (simp add: detect_syn_flood_def Let_def TH_SYN_def TH_ACK_def EWMA_CALIBRATION_def SYN_FLOOD_THRESHOLD_def)

lemma syn_no_brute:
  assumes "brute_count s < 29" "0 \<le> n" "brute_count s \<le> n"
  obtains s' where "detect_brute_force s TH_SYN p now = (s', None)" "brute_count s' \<le> n + 1"
    "ports s' = ports s" "ip s' = ip s" "last_seen s' = last_seen s" "syn_count s' = syn_count s"
    "baseline s' = baseline s" "kc_stage s' = kc_stage s" "kc_stages_hit s' = kc_stages_hit s"
proof (cases "auth_syn (TH_SYN, p, now)")
  case False
  then show thesis using that [of s] assms by (simp add: detect_brute_force_alt)
next
  case auth: True
  show thesis
  proof (cases "now - brute_window_start s > 60")
    case True
    then show thesis
      using that [of "s\<lparr>brute_count := 1, brute_window_start := now\<rparr>"] auth assms by (simp add: detect_brute_force_alt)
  next
    case False
    then show thesis
      using that [of "s\<lparr>brute_count := brute_count s + 1\<rparr>"] auth assms by (simp add: detect_brute_force_alt)
  qed
qed

text \<open>The next SYN of the scan: recorded, and reported when it is the fifteenth.\<close>

lemma scan_tcp:
  assumes s: "scanned src ps s" and p: "p \<notin> set ps" "length ps \<le> 14"
  obtains s' where "analyze_tcp s p TH_SYN now = (s', if length ps = 14 then Some ''PORT_SCAN'' else None)"
    "scanned src (ps @ [p]) s'" "last_seen s' = last_seen s"
proof -
  let ?n = "int (length ps)"
  let ?s = "s\<lparr>baseline := update_baseline (baseline s) (\<not> list_ex (\<lambda>q. q = p) (ports s)) False now\<rparr>"
  let ?t = "?s\<lparr>syn_count := syn_count s + 1\<rparr>"
  have sc: "sample_count (baseline ?s) \<le> ?n + 1"
    using s update_baseline_samples [of "baseline s" "\<not> list_ex (\<lambda>q. q = p) (ports s)" False now]
    by (simp add: scanned_def)
  have fl: "detect_syn_flood ?s TH_SYN = (?t, None)"
    using syn_no_flood [of ?s] s sc p(2) by (simp add: scanned_def)
  have "brute_count ?t < 29" "0 \<le> ?n" "brute_count ?t \<le> ?n" using s p(2) by (simp_all add: scanned_def)
  from syn_no_brute [OF this, of p now] obtain s1 where b: "detect_brute_force ?t TH_SYN p now = (s1, None)"
    "brute_count s1 \<le> ?n + 1" "ports s1 = ports ?t" "ip s1 = ip ?t" "last_seen s1 = last_seen ?t" "syn_count s1 = syn_count ?t"
    "baseline s1 = baseline ?t" "kc_stage s1 = kc_stage ?t" "kc_stages_hit s1 = kc_stages_hit ?t" .
  let ?u = "s1\<lparr>ports := ports s1 @ [p]\<rparr>"
  have ps: "detect_port_scan s1 p = (?u, if length ps = 14 then Some ''PORT_SCAN'' else None)"
    using s p b(3) by (auto simp: detect_port_scan_def Let_def scanned_def SCAN_THRESHOLD_def list_ex_iff)
  have "analyze_tcp s p TH_SYN now = (?u, if length ps = 14 then Some ''PORT_SCAN'' else None)"
    by (simp add: analyze_tcp_def Let_def syn_not_stealth or_else_def fl b(1) ps)
  moreover have "scanned src (ps @ [p]) ?u" using s b sc by (simp add: scanned_def)
  moreover have "last_seen ?u = last_seen s" using b(5) by simp
  ultimately show thesis by (rule that)
qed

text \<open>The table while the scan goes on: no entry for the source yet, or the one with its ports.\<close>

definition scan_state :: "u32 \<Rightarrow> u16 list \<Rightarrow> time_t \<Rightarrow> suspect list \<Rightarrow> bool" where
  "scan_state src ps t ss \<longleftrightarrow>
     (if ps = [] then find_index (\<lambda>s. ip s = src) ss = None \<and> length ss < MAX_SUSPECTS
      else \<exists>i. find_index (\<lambda>s. ip s = src) ss = Some i \<and> scanned src ps (ss ! i) \<and> last_seen (ss ! i) = t)"

lemma find_index_filter:
  "find_index P xs = Some i \<Longrightarrow> Q (xs ! i) \<Longrightarrow> \<exists>j. find_index P (filter Q xs) = Some j \<and> filter Q xs ! j = xs ! i"
proof (induction xs arbitrary: i)
  case (Cons x xs)
  show ?case
  proof (cases "P x")
    case True
    with Cons.prems show ?thesis by auto
  next
    case False
    with Cons.prems(1) obtain k where k: "find_index P xs = Some k" "i = Suc k" by auto
    with Cons.prems(2) Cons.IH [of k] obtain j where "find_index P (filter Q xs) = Some j" "filter Q xs ! j = xs ! k" by auto
    with k(2) False show ?thesis by auto
  qed
qed simp

lemma find_index_update: "find_index P xs = Some i \<Longrightarrow> P y \<Longrightarrow> find_index P (xs[i := y]) = Some i"
proof (induction xs arbitrary: i)
  case (Cons x xs)
  then show ?case by (cases "P x") auto
qed simp

lemma find_index_snoc: "find_index P xs = None \<Longrightarrow> P y \<Longrightarrow> find_index P (xs @ [y]) = Some (length xs)"
  by (induction xs) (auto split: if_splits)

lemma scan_cleanup:
  assumes "scan_state src ps t (suspects st)" "ps \<noteq> [] \<Longrightarrow> now - t < INACTIVE_TIMEOUT"
  shows "scan_state src ps t (suspects (cleanup_suspects st now))"
proof -
  let ?Q = "\<lambda>s. difftime now (last_seen s) < of_int INACTIVE_TIMEOUT"
  have "scan_state src ps t (filter ?Q (suspects st))"
  proof (cases "ps = []")
    case True
    then have "find_index (\<lambda>s. ip s = src) (filter ?Q (suspects st)) = None" "length (filter ?Q (suspects st)) < MAX_SUSPECTS"
      using assms(1) le_less_trans [OF length_filter_le [of ?Q "suspects st"]] by (auto simp: scan_state_def find_index_None)
    with True show ?thesis by (simp add: scan_state_def)
  next
    case False
    with assms(1) obtain i where i: "find_index (\<lambda>s. ip s = src) (suspects st) = Some i"
      "scanned src ps (suspects st ! i)" "last_seen (suspects st ! i) = t" by (auto simp: scan_state_def)
    have "?Q (suspects st ! i)"
      using assms(2) [OF False] i(3) difftime_less [of INACTIVE_TIMEOUT now t] by (simp add: INACTIVE_TIMEOUT_def)
    with find_index_filter [OF i(1), of ?Q] i(2,3) False show ?thesis by (auto simp: scan_state_def)
  qed
  then show ?thesis using assms(1) by (simp add: cleanup_suspects_def)
qed

lemma scan_found:
  assumes "scan_state src ps t ss"
  obtains ss' i where "find_or_create_suspect ss src now = (ss', Some i)" "find_index (\<lambda>s. ip s = src) ss' = Some i"
    "scanned src ps (ss' ! i)" "last_seen (ss' ! i) = now"
proof (cases "ps = []")
  case True
  let ?s = "new_suspect src now"
  have n: "ip ?s = src" "scanned src [] ?s" "last_seen ?s = now"
    by (simp_all add: new_suspect_def scanned_def zero_suspect_def zero_baseline_def)
  have f: "find_index (\<lambda>s. ip s = src) ss = None" "\<not> length ss \<ge> MAX_SUSPECTS" using assms True by (simp_all add: scan_state_def)
  show thesis
    by (rule that [of "ss @ [?s]" "length ss"])
      (use n f True find_index_snoc [OF f(1), of ?s] in \<open>simp_all add: find_or_create_suspect_def\<close>)
next
  case False
  with assms obtain i where i: "find_index (\<lambda>s. ip s = src) ss = Some i" "scanned src ps (ss ! i)" by (auto simp: scan_state_def)
  have l: "i < length ss" "ip (ss ! i) = src" using find_index_SomeD [OF i(1)] by auto
  show thesis
    by (rule that [of "ss[i := (ss ! i)\<lparr>last_seen := now\<rparr>]" i])
      (use i l find_index_update [OF i(1), of "(ss ! i)\<lparr>last_seen := now\<rparr>"] in
        \<open>simp_all add: find_or_create_suspect_def scanned_def\<close>)
qed

definition scan_event :: "u32 \<Rightarrow> u16 \<Rightarrow> int \<Rightarrow> event_slot" where
  "scan_event src port len =
     \<lparr>evt_src_ip = inet_ntop src, evt_port = uint port, evt_proto = ''TCP'', evt_bytes = len, evt_is_scan = 1,
      evt_attack_type = ''PORT_SCAN'', evt_kill_chain_stage = ''RECON'', evt_kc_score = 20, evt_mitre = ''T1046''\<rparr>"

lemma scan_advance:
  assumes "kc_stage s = KC_IDLE" "kc_stages_hit s = 0"
  shows "kc_stage (advance_kill_chain s (Some ''PORT_SCAN'') now) = KC_RECON"
    and "kc_score (advance_kill_chain s (Some ''PORT_SCAN'') now) = 20"
  using assms
  by (simp_all add: advance_kill_chain_def Let_def attack_to_stage_def calculate_kc_score_def kc_order)


lemma scan_step:
  assumes st: "scan_state src ps t (suspects st)" "ps \<noteq> [] \<Longrightarrow> sf_time f - t < INACTIVE_TIMEOUT"
    and f: "syn_of src f" "sf_port f \<notin> set ps" "length ps \<le> 14"
    and home: "\<not> is_home_ip (home_nets st) src" and live: "\<not> g_replay_mode (detections st)"
  obtains st' e where
    "analyze_packet st (sf_bytes f) (int (length (sf_bytes f))) (sf_time f) = Some (st', if length ps = 14 then 1 else 0, Some e)"
    "home_nets st' = home_nets st" "length ps < 14 \<Longrightarrow> \<not> g_replay_mode (detections st')"
    "length ps < 14 \<Longrightarrow> scan_state src (ps @ [sf_port f]) (sf_time f) (suspects st')"
    "length ps = 14 \<Longrightarrow> e = scan_event src (sf_port f) (int (length (sf_bytes f)))"
proof -
  let ?st = "cleanup_suspects st (sf_time f)" and ?len = "int (length (sf_bytes f))"
  have c: "scan_state src ps t (suspects ?st)" by (rule scan_cleanup [OF st])
  obtain ss i where ss: "find_or_create_suspect (suspects ?st) src (sf_time f) = (ss, Some i)"
    "find_index (\<lambda>s. ip s = src) ss = Some i" "scanned src ps (ss ! i)" "last_seen (ss ! i) = sf_time f"
    by (rule scan_found [OF c])
  obtain s' where s': "analyze_tcp (ss ! i) (sf_port f) TH_SYN (sf_time f) = (s', if length ps = 14 then Some ''PORT_SCAN'' else None)"
    "scanned src (ps @ [sf_port f]) s'" "last_seen s' = sf_time f"
    using scan_tcp [OF ss(3) f(2,3), of "sf_time f"] ss(4) by metis
  have ok: "frame_ok (sf_macs f) (sf_hdr f) (sf_opts f) (Tcp (sf_tcp f) (sf_data f))" "ip_saddr (sf_hdr f) = src"
    "tcp_flags (sf_tcp f) = TH_SYN" using f(1) by (simp_all add: syn_of_def)
  let ?r = "(s', if length ps = 14 then Some ''PORT_SCAN'' else None)"
  have "segment_analysis (ss ! i) (Tcp (sf_tcp f) (sf_data f)) ?len (sf_time f) = Some ?r"
    using s'(1) by (simp add: sf_port_def ok(3))
  from frame_packet [OF ok(1), of st "sf_time f" ss i, unfolded ok(2), OF home ss(1), folded sf_bytes_def, OF this]
  have a: "analyze_packet st (sf_bytes f) ?len (sf_time f) =
      Some (finish_packet (?st\<lparr>suspects := ss\<rparr>) i ?r src (uint (sf_port f)) ''TCP'' ?len (sf_time f))"
    by (simp add: sf_port_def)
  have l: "i < length ss" "ip s' = src" using find_index_SomeD [OF ss(2)] s'(2) by (auto simp: scanned_def)
  show thesis
  proof (cases "length ps = 14")
    case False
    obtain e where p: "finish_packet (?st\<lparr>suspects := ss\<rparr>) i ?r src (uint (sf_port f)) ''TCP'' ?len (sf_time f) =
        (?st\<lparr>suspects := ss[i := s']\<rparr>, 0, Some e)"
      using False live by (auto simp: finish_packet_def publish_packet_def Let_def)
    have "scan_state src (ps @ [sf_port f]) (sf_time f) (ss[i := s'])"
      using find_index_update [OF ss(2), of s'] l s'(2,3) by (simp add: scan_state_def)
    moreover have "analyze_packet st (sf_bytes f) ?len (sf_time f) = Some (?st\<lparr>suspects := ss[i := s']\<rparr>, 0, Some e)"
      using a p by simp
    ultimately show thesis using False live by (intro that [of "?st\<lparr>suspects := ss[i := s']\<rparr>" e]) simp_all
  next
    case True
    have k: "kc_stage s' = KC_IDLE" "kc_stages_hit s' = 0" using s'(2) by (simp_all add: scanned_def)
    have "length (inet_ntop src) < 16" using length_inet_ntop [of src] by simp
    with True live scan_advance [OF k, of "sf_time f"]
    have "snd (finish_packet (?st\<lparr>suspects := ss\<rparr>) i ?r src (uint (sf_port f)) ''TCP'' ?len (sf_time f)) =
        (1, Some (scan_event src (sf_port f) ?len))"
      by (simp add: finish_packet_def publish_packet_def Let_def scan_event_def collector_record_def kc_stage_name_def attack_to_mitre_def)
    moreover have "home_nets (fst (finish_packet (?st\<lparr>suspects := ss\<rparr>) i ?r src (uint (sf_port f)) ''TCP'' ?len (sf_time f))) = home_nets st"
      by (simp add: finish_packet_def Let_def)
    ultimately show thesis using True a
      by (intro that [of "fst (finish_packet (?st\<lparr>suspects := ss\<rparr>) i ?r src (uint (sf_port f)) ''TCP'' ?len (sf_time f))"
            "scan_event src (sf_port f) ?len"]) (simp_all add: prod_eq_iff)
  qed
qed

fun paced :: "time_t \<Rightarrow> syn_frame list \<Rightarrow> bool" where
  "paced t [] = True"
| "paced t (f # fs) = (sf_time f - t < INACTIVE_TIMEOUT \<and> paced (sf_time f) fs)"

lemma analyze_frame_cons:
  "analyze_packet st (sf_bytes f) (int (length (sf_bytes f))) (sf_time f) = Some (st1, r, Some e) \<Longrightarrow>
   analyze_all st1 ps = Some (st2, rs, evts) \<Longrightarrow> analyze_all st (sf_packet f # ps) = Some (st2, r # rs, e # evts)"
  by (simp add: sf_packet_def)

lemma scan_run_frames:
  assumes "scan_state src ps t (suspects st)" "ps \<noteq> [] \<Longrightarrow> paced t fs" "fs \<noteq> [] \<Longrightarrow> paced (sf_time (hd fs)) (tl fs)"
    and "list_all (syn_of src) fs" "distinct (ps @ List.map sf_port fs)" "length ps + length fs = 15" "fs \<noteq> []"
    and "\<not> is_home_ip (home_nets st) src" "\<not> g_replay_mode (detections st)"
  shows "\<exists>st' evts. analyze_all st (List.map sf_packet fs) =
    Some (st', replicate (length fs - 1) 0 @ [1],
      evts @ [scan_event src (sf_port (last fs)) (int (length (sf_bytes (last fs))))])"
  using assms
proof (induction fs arbitrary: ps t st)
  case (Cons f fs)
  have p: "ps \<noteq> [] \<Longrightarrow> sf_time f - t < INACTIVE_TIMEOUT" "syn_of src f" "sf_port f \<notin> set ps" "length ps \<le> 14"
    using Cons.prems by auto
  obtain st1 e where a: "analyze_packet st (sf_bytes f) (int (length (sf_bytes f))) (sf_time f) =
      Some (st1, if length ps = 14 then 1 else 0, Some e)" "home_nets st1 = home_nets st"
    "length ps < 14 \<Longrightarrow> \<not> g_replay_mode (detections st1)"
    "length ps < 14 \<Longrightarrow> scan_state src (ps @ [sf_port f]) (sf_time f) (suspects st1)"
    "length ps = 14 \<Longrightarrow> e = scan_event src (sf_port f) (int (length (sf_bytes f)))"
    by (rule scan_step [OF Cons.prems(1) p(1) p(2-4) Cons.prems(8,9)]) blast+
  show ?case
  proof (cases "fs = []")
    case True
    then show ?thesis using a(1,5) Cons.prems(6) by (simp add: sf_packet_def)
  next
    case False
    then have l: "length ps < 14" using Cons.prems(6) by (cases fs) auto
    have "\<exists>st' evts. analyze_all st1 (List.map sf_packet fs) =
        Some (st', replicate (length fs - 1) 0 @ [1], evts @ [scan_event src (sf_port (last fs)) (int (length (sf_bytes (last fs))))])"
      by (rule Cons.IH [OF a(4) [OF l]]) (use Cons.prems False a(2,3) l in \<open>cases fs; auto\<close>)+
    then obtain st' evts where "analyze_all st1 (List.map sf_packet fs) =
        Some (st', replicate (length fs - 1) 0 @ [1], evts @ [scan_event src (sf_port (last fs)) (int (length (sf_bytes (last fs))))])"
      by blast
    then have "analyze_all st (List.map sf_packet (f # fs)) =
        Some (st', 0 # replicate (length fs - 1) 0 @ [1],
          e # evts @ [scan_event src (sf_port (last fs)) (int (length (sf_bytes (last fs))))])"
      using a(1) l by (simp only: list.map) (rule analyze_frame_cons, simp_all)
    moreover have "0 # replicate (length fs - 1) 0 = replicate (length fs) (0::int)" using False by (cases fs) auto
    ultimately show ?thesis using False by (intro exI [of _ st'] exI [of _ "e # evts"]) simp
  qed
qed simp

section \<open>Properties\<close>

text \<open>
  C21. The analyzer reads the headers of a frame as they were written: for any IPv4 header of 20 to 60
  bytes, options, transport header and payload, it analyses the source address of the header with
  the ports and flags of the transport header, hands the DNS checks exactly the payload, and reports
  the destination port, the protocol and the length of the frame; nothing else of the frame matters.
\<close>

theorem frame_analyzed:
  assumes "frame_ok macs h opts seg" and "\<not> is_home_ip (home_nets st) (ip_saddr h)"
    and "find_or_create_suspect (suspects (cleanup_suspects st now)) (ip_saddr h) now = (ss, Some i)"
    and "segment_analysis (ss ! i) seg (int (length (frame macs h opts seg))) now = Some res"
  shows "analyze_packet st (frame macs h opts seg) (int (length (frame macs h opts seg))) now =
    Some (finish_packet ((cleanup_suspects st now)\<lparr>suspects := ss\<rparr>) i res (ip_saddr h) (segment_port seg)
      (segment_name seg) (int (length (frame macs h opts seg))) now)"
  by (rule frame_packet [OF assms])

definition demo_hdr :: "u8 \<Rightarrow> nta_ipv4_hdr" where
  "demo_hdr proto = \<lparr>ver_ihl = 0x46, ip_tos = 0, ip_tot_len = 52, ip_id = 1, ip_frag_off = 0, ip_ttl = 64, ip_proto = proto,
     ip_check = 0, ip_saddr = raw32 203 0 113 7, ip_daddr = raw32 10 0 0 1\<rparr>"

definition demo_frame :: "u16 \<Rightarrow> syn_frame" where
  "demo_frame port = \<lparr>sf_macs = replicate 12 0, sf_hdr = demo_hdr 6, sf_opts = [1, 1, 1, 0],
     sf_tcp = \<lparr>tcp_sport = 40000, tcp_dport = port, tcp_seq = 0, tcp_ack = 0, tcp_data_off = 0x50, tcp_flags = TH_SYN,
       tcp_window = 1024, tcp_check = 0, tcp_urg_ptr = 0\<rparr>, sf_data = [], sf_time = 1000\<rparr>"

lemma demo_frame_syn: "syn_of (raw32 203 0 113 7) (demo_frame p)"
  by (simp add: syn_of_def demo_frame_def frame_ok_def demo_hdr_def NTA_IPV4_HLEN_def NTA_PROTO_TCP_def)

theorem frame_analyzed_witness:
  "let st = initial_ids False; f = demo_frame 80; src = raw32 203 0 113 7; s = new_suspect src 1000;
       len = int (length (sf_bytes f))
   in analyze_packet st (sf_bytes f) len 1000 =
        Some (finish_packet ((cleanup_suspects st 1000)\<lparr>suspects := [s]\<rparr>) 0 (analyze_tcp s 80 TH_SYN 1000) src 80 ''TCP'' len 1000)"
proof -
  let ?st = "initial_ids False" and ?f = "demo_frame 80" and ?s = "new_suspect (raw32 203 0 113 7) 1000"
  have ok: "frame_ok (sf_macs ?f) (sf_hdr ?f) (sf_opts ?f) (Tcp (sf_tcp ?f) (sf_data ?f))"
    "ip_saddr (sf_hdr ?f) = raw32 203 0 113 7" "tcp_flags (sf_tcp ?f) = TH_SYN" "tcp_dport (sf_tcp ?f) = 80"
    using demo_frame_syn [of 80] by (simp_all add: syn_of_def) (simp add: demo_frame_def)
  have home: "\<not> is_home_ip (home_nets ?st) (ip_saddr (sf_hdr ?f))" by (simp add: initial_ids_def)
  have n: "find_or_create_suspect (suspects (cleanup_suspects ?st 1000)) (ip_saddr (sf_hdr ?f)) 1000 = ([?s], Some 0)"
    by (simp add: ok(2) cleanup_suspects_def initial_ids_def find_or_create_suspect_def MAX_SUSPECTS_def)
  have seg: "segment_analysis ([?s] ! 0) (Tcp (sf_tcp ?f) (sf_data ?f))
      (int (length (frame (sf_macs ?f) (sf_hdr ?f) (sf_opts ?f) (Tcp (sf_tcp ?f) (sf_data ?f))))) 1000 =
      Some (analyze_tcp ?s 80 TH_SYN 1000)" by (simp add: ok)
  from frame_analyzed [OF ok(1) home n seg] show ?thesis
    by (simp add: sf_bytes_def [symmetric] ok Let_def)
qed

text \<open>
  C3. A port scan is followed from the wire to the alert: fifteen SYN frames of one foreign source to
  distinct ports, less than the inactivity timeout apart, whatever their other fields, ports,
  options and payloads, make the analyzer answer 0 fourteen times and then 1, and push at the
  fifteenth the event that names the source, the port, the scan, the reconnaissance stage and its
  technique; no other detector interferes.
\<close>

theorem scan_on_the_wire:
  assumes "list_all (syn_of src) fs" and "length fs = 15" and "distinct (List.map sf_port fs)"
    and "paced (sf_time (hd fs)) (tl fs)" and "src \<notin> ip ` set (suspects st)" and "length (suspects st) < MAX_SUSPECTS"
    and "\<not> is_home_ip (home_nets st) src" and "\<not> g_replay_mode (detections st)"
  shows "\<exists>st' evts. analyze_all st (List.map sf_packet fs) =
    Some (st', replicate 14 0 @ [1],
      evts @ [scan_event src (sf_port (last fs)) (int (length (sf_bytes (last fs))))])"
proof -
  have "scan_state src [] 0 (suspects st)" using assms(5,6) by (auto simp: scan_state_def find_index_None)
  moreover have "fs \<noteq> []" using assms(2) by auto
  ultimately show ?thesis using scan_run_frames [of src "[]" 0 st fs] assms by simp
qed

theorem scan_on_the_wire_witness:
  "\<exists>st' evts. analyze_all (initial_ids False) (List.map sf_packet (List.map demo_frame [21, 22, 23, 25, 53, 80, 110, 135, 139, 143, 443, 445, 993, 3306, 3389])) =
    Some (st', replicate 14 0 @ [1], evts @ [scan_event (raw32 203 0 113 7) 3389 58])"
proof -
  let ?fs = "List.map demo_frame [21, 22, 23, 25, 53, 80, 110, 135, 139, 143, 443, 445, 993, 3306, 3389]"
  have "sf_port (demo_frame p) = p" "sf_time (demo_frame p) = 1000" "length (sf_bytes (demo_frame p)) = 58" for p
    by (simp_all add: demo_frame_def sf_port_def sf_bytes_def frame_def)
  then show ?thesis
    using scan_on_the_wire [of "raw32 203 0 113 7" ?fs "initial_ids False"] demo_frame_syn
    by (simp add: initial_ids_def INACTIVE_TIMEOUT_def MAX_SUSPECTS_def)
qed

end
