(* ===== verification/Nta_Chain.thy ===== *)
theory Nta_Chain
  imports Nta_Util
begin

text \<open>
  The tables of \<open>Nta_Util\<close> as the server's modules build them: entries allocated one by one and linked
  by their \<open>next\<close> pointers (\<open>src/server/nta_geoip.c\<close>, \<open>nta_abuse.c\<close>, \<open>nta_whois.c\<close>, \<open>nta_ioc.c\<close>). Memory
  is a map from addresses to live entries; following a pointer to an address that is not live, or
  freeing one, has no value, and neither has a walk that does not end. What \<open>calloc\<close> returns is an
  argument. The properties refine the lists of \<open>Nta_Util\<close>, and show that closing a table frees every
  entry once.
\<close>

section \<open>Memory\<close>

record 'v chain_entry =
  e_ip :: string
  e_val :: 'v
  e_next :: "nat option"

type_synonym 'v heap = "nat \<Rightarrow> 'v chain_entry option"

record 'v chained =
  heap :: "'v heap"
  buckets :: "nat option list"

definition chain_bucket :: "'v chained \<Rightarrow> string \<Rightarrow> nat" where
  "chain_bucket c ip = unat (hash_ip ip) mod length (buckets c)"

section \<open>Operations\<close>

text \<open>The walk all the lookups share: the entry with the key, or the end of the chain.\<close>

partial_function (option) find_entry :: "'v heap \<Rightarrow> string \<Rightarrow> nat option \<Rightarrow> nat option option" where
  "find_entry h ip p =
     (case p of
        None \<Rightarrow> Some None
      | Some a \<Rightarrow>
          (case h a of
             None \<Rightarrow> None
           | Some e \<Rightarrow> if e_ip e = ip then Some (Some a) else find_entry h ip (e_next e)))"

text \<open>\<open>cache_get\<close>: the value of the first match, if any.\<close>

definition chain_get :: "string \<Rightarrow> 'v chained \<Rightarrow> 'v option option" where
  "chain_get ip c =
     (case find_entry (heap c) ip (buckets c ! chain_bucket c ip) of
        None \<Rightarrow> None
      | Some None \<Rightarrow> Some None
      | Some (Some a) \<Rightarrow> map_option (\<lambda>e. Some (e_val e)) (heap c a))"

text \<open>A new entry at the head of its bucket; \<open>None\<close> for the address is a failed allocation.\<close>

definition chain_push :: "nat option \<Rightarrow> string \<Rightarrow> 'v \<Rightarrow> 'v chained \<Rightarrow> 'v chained" where
  "chain_push new ip v c =
     (case new of
        None \<Rightarrow> c
      | Some a \<Rightarrow>
          (let i = chain_bucket c ip
           in c\<lparr>heap := (heap c)(a \<mapsto> \<lparr>e_ip = cstr_copy IP_KEY_MAX ip, e_val = v, e_next = buckets c ! i\<rparr>),
                buckets := (buckets c)[i := Some a]\<rparr>))"

text \<open>\<open>cache_put\<close> of the GeoIP module.\<close>

definition chain_put_front :: "nat option \<Rightarrow> string \<Rightarrow> 'v \<Rightarrow> 'v chained \<Rightarrow> 'v chained" where
  "chain_put_front new ip v c = (if length ip \<ge> IP_KEY_MAX then c else chain_push new ip v c)"

text \<open>\<open>cache_put_locked\<close> of the abuse and WHOIS modules.\<close>

definition chain_put_update :: "nat option \<Rightarrow> string \<Rightarrow> 'v \<Rightarrow> 'v chained \<Rightarrow> 'v chained option" where
  "chain_put_update new ip v c =
     (if length ip \<ge> IP_KEY_MAX then Some c
      else case find_entry (heap c) ip (buckets c ! chain_bucket c ip) of
             None \<Rightarrow> None
           | Some (Some a) \<Rightarrow> map_option (\<lambda>e. c\<lparr>heap := (heap c)(a \<mapsto> e\<lparr>e_val := v\<rparr>)\<rparr>) (heap c a)
           | Some None \<Rightarrow> Some (chain_push new ip v c))"

text \<open>\<open>ioc_insert\<close> with its result.\<close>

definition chain_insert :: "nat option \<Rightarrow> string \<Rightarrow> 'v \<Rightarrow> 'v chained \<Rightarrow> ('v chained \<times> int) option" where
  "chain_insert new ip v c =
     (if length ip \<ge> IP_KEY_MAX then Some (c, - 1)
      else case find_entry (heap c) ip (buckets c ! chain_bucket c ip) of
             None \<Rightarrow> None
           | Some (Some a) \<Rightarrow> Some (c, 0)
           | Some None \<Rightarrow> Some (chain_push new ip v c, if new = None then - 1 else 1))"

text \<open>The loops of the close functions: the next pointer is read before the entry is freed.\<close>

partial_function (option) free_chain :: "nat option \<Rightarrow> 'v heap \<Rightarrow> 'v heap option" where
  "free_chain p h =
     (case p of
        None \<Rightarrow> Some h
      | Some a \<Rightarrow> (case h a of None \<Rightarrow> None | Some e \<Rightarrow> free_chain (e_next e) (h(a := None))))"

fun free_buckets :: "nat option list \<Rightarrow> 'v heap \<Rightarrow> 'v heap option" where
  "free_buckets [] h = Some h"
| "free_buckets (p # ps) h = (case free_chain p h of None \<Rightarrow> None | Some h1 \<Rightarrow> free_buckets ps h1)"

definition chain_close :: "'v chained \<Rightarrow> 'v heap option" where
  "chain_close c = free_buckets (buckets c) (heap c)"

section \<open>The table a memory stands for\<close>

text \<open>From \<open>p\<close>, the entries at the given addresses, in this order, and then the end.\<close>

fun links :: "'v heap \<Rightarrow> nat option \<Rightarrow> nat list \<Rightarrow> (string \<times> 'v) list \<Rightarrow> bool" where
  "links h p [] es \<longleftrightarrow> p = None \<and> es = []"
| "links h p (a # as) es \<longleftrightarrow> p = Some a \<and>
     (case h a of None \<Rightarrow> False | Some e \<Rightarrow> es \<noteq> [] \<and> hd es = (e_ip e, e_val e) \<and> links h (e_next e) as (tl es))"

text \<open>
  Every bucket is a chain of its own entries, no address is in two places, and nothing else is live.
\<close>

definition chain_table :: "nat list list \<Rightarrow> 'v chained \<Rightarrow> 'v table \<Rightarrow> bool" where
  "chain_table ass c t \<longleftrightarrow> length ass = length t \<and> length (buckets c) = length t \<and>
     (\<forall>i < length t. links (heap c) (buckets c ! i) (ass ! i) (t ! i)) \<and>
     distinct (concat ass) \<and> dom (heap c) = set (concat ass)"

definition empty_chains :: "nat \<Rightarrow> 'v chained" where
  "empty_chains n = \<lparr>heap = (\<lambda>a. None), buckets = replicate n None\<rparr>"

lemma empty_chains_table: "chain_table (replicate n []) (empty_chains n) (new_table n)"
  by (simp add: chain_table_def empty_chains_def new_table_def)

section \<open>Walks\<close>

declare find_entry.simps [simp del] free_chain.simps [simp del]

lemma links_find:
  "links h p as es \<Longrightarrow>
   (case map_of es ip of
      None \<Rightarrow> find_entry h ip p = Some None
    | Some v \<Rightarrow> \<exists>a e. find_entry h ip p = Some (Some a) \<and> a \<in> set as \<and> h a = Some e \<and> e_ip e = ip \<and> e_val e = v)"
proof (induction as arbitrary: p es)
  case Nil
  then show ?case by (simp add: find_entry.simps)
next
  case (Cons a as)
  then obtain e es' where e: "p = Some a" "h a = Some e" "es = (e_ip e, e_val e) # es'" "links h (e_next e) as es'"
    by (cases es) (auto split: option.splits)
  show ?case
  proof (cases "e_ip e = ip")
    case True
    with e show ?thesis by (auto simp: find_entry.simps [of h ip "Some a"])
  next
    case False
    then have "find_entry h ip p = find_entry h ip (e_next e)" by (simp add: e find_entry.simps [of h ip "Some a"])
    moreover have "map_of es ip = map_of es' ip" using False by (simp add: e(3))
    ultimately show ?thesis using Cons.IH [OF e(4)] by (cases "map_of es' ip") auto
  qed
qed

lemma links_frame: "(\<And>a. a \<in> set as \<Longrightarrow> h' a = h a) \<Longrightarrow> links h' p as es = links h p as es"
  by (induction as arbitrary: p es) (auto split: option.split)

lemma links_free:
  assumes "links h p as es" "distinct as"
  shows "free_chain p h = Some (\<lambda>a. if a \<in> set as then None else h a)"
  using assms
proof (induction as arbitrary: h p es)
  case Nil
  then show ?case by (simp add: free_chain.simps)
next
  case (Cons a as)
  then obtain e where e: "p = Some a" "h a = Some e" "links h (e_next e) as (tl es)" by (auto split: option.splits)
  have "links (h(a := None)) (e_next e) as (tl es)"
    using e(3) Cons.prems(2) by (subst links_frame [where h = h]) auto
  moreover have "distinct as" using Cons.prems(2) by simp
  ultimately have "free_chain (e_next e) (h(a := None)) = Some (\<lambda>b. if b \<in> set as then None else (h(a := None)) b)"
    by (rule Cons.IH)
  moreover have "free_chain p h = free_chain (e_next e) (h(a := None))"
    by (simp add: e free_chain.simps [of "Some a"])
  ultimately show ?case by (auto simp: fun_eq_iff)
qed

lemma free_buckets_links:
  assumes "length ps = length ass" "length es = length ass"
    "\<forall>i < length ass. links h (ps ! i) (ass ! i) (es ! i)" "distinct (concat ass)"
  shows "free_buckets ps h = Some (\<lambda>a. if a \<in> set (concat ass) then None else h a)"
  using assms
proof (induction ass arbitrary: ps es h)
  case Nil
  then show ?case by simp
next
  case (Cons as ass)
  obtain p ps' where ps: "ps = p # ps'" using Cons.prems(1) by (cases ps) auto
  obtain e es' where es: "es = e # es'" using Cons.prems(2) by (cases es) auto
  have dist: "distinct as" "distinct (concat ass)" "set as \<inter> set (concat ass) = {}"
    using Cons.prems(4) by auto
  let ?h = "\<lambda>a. if a \<in> set as then None else h a"
  have first: "free_chain p h = Some ?h"
    using Cons.prems(3) dist(1) by (intro links_free [where es = e]) (auto simp: ps es)
  have "\<forall>i < length ass. links ?h (ps' ! i) (ass ! i) (es' ! i)"
  proof (intro allI impI)
    fix i
    assume i: "i < length ass"
    have "links h (ps' ! i) (ass ! i) (es' ! i)" using spec [OF Cons.prems(3), of "Suc i"] i by (simp add: ps es)
    moreover have "\<And>a. a \<in> set (ass ! i) \<Longrightarrow> ?h a = h a" using dist(3) i nth_mem by fastforce
    ultimately show "links ?h (ps' ! i) (ass ! i) (es' ! i)" by (simp add: links_frame [where h' = ?h and h = h])
  qed
  then have "free_buckets ps' ?h = Some (\<lambda>a. if a \<in> set (concat ass) then None else ?h a)"
    using Cons.prems(1,2) dist(2) by (intro Cons.IH) (auto simp: ps es)
  then show ?case by (auto simp: ps first fun_eq_iff)
qed

section \<open>The operations implement the tables\<close>

lemma chain_bucket_eq: "chain_table ass c t \<Longrightarrow> chain_bucket c ip = bucket_of t ip"
  by (simp add: chain_table_def chain_bucket_def bucket_of_def)

lemma chain_links:
  assumes "chain_table ass c t" "table_ok t"
  shows "links (heap c) (buckets c ! bucket_of t ip) (ass ! bucket_of t ip) (t ! bucket_of t ip)"
  using assms bucket_in [OF assms(2)] by (simp add: chain_table_def)

lemma chain_find:
  assumes "chain_table ass c t" "table_ok t"
  shows "case table_find t ip of
           None \<Rightarrow> find_entry (heap c) ip (buckets c ! chain_bucket c ip) = Some None
         | Some v \<Rightarrow> \<exists>a e. find_entry (heap c) ip (buckets c ! chain_bucket c ip) = Some (Some a) \<and>
             a \<in> set (ass ! bucket_of t ip) \<and> heap c a = Some e \<and> e_ip e = ip \<and> e_val e = v"
  using links_find [OF chain_links [OF assms], of ip ip]
  unfolding chain_bucket_eq [OF assms(1)] table_find_def .

lemma chain_get_table:
  assumes "chain_table ass c t" "table_ok t"
  shows "chain_get ip c = Some (table_find t ip)"
  using chain_find [OF assms, of ip] by (cases "table_find t ip") (auto simp: chain_get_def)

lemma chain_close_table:
  assumes "chain_table ass c t"
  shows "chain_close c = Some (\<lambda>a. None)"
proof -
  have "free_buckets (buckets c) (heap c) = Some (\<lambda>a. if a \<in> set (concat ass) then None else heap c a)"
    using assms by (intro free_buckets_links [where es = t]) (auto simp: chain_table_def)
  moreover have "heap c a = None" if "a \<notin> set (concat ass)" for a
    using assms that unfolding chain_table_def by blast
  ultimately show ?thesis by (auto simp: chain_close_def fun_eq_iff)
qed

lemma concat_cons_at:
  assumes "i < length xss" "x \<notin> set (concat xss)" "distinct (concat xss)"
  shows "distinct (concat (xss[i := x # xss ! i]))" "set (concat (xss[i := x # xss ! i])) = insert x (set (concat xss))"
proof -
  obtain us ys vs where d: "xss = us @ ys # vs" "length us = i"
    using id_take_nth_drop [OF assms(1)] assms(1) by (metis length_take less_imp_le min.absorb2)
  show "distinct (concat (xss[i := x # xss ! i]))" using assms(2,3) by (auto simp: d(1) d(2) [symmetric])
  show "set (concat (xss[i := x # xss ! i])) = insert x (set (concat xss))" by (auto simp: d(1) d(2) [symmetric])
qed

lemma chain_push_table:
  assumes T: "chain_table ass c t" "table_ok t" and new: "heap c a = None" and ip: "length ip < IP_KEY_MAX"
  shows "\<exists>ass'. chain_table ass' (chain_push (Some a) ip v c) (table_push t ip v)"
proof -
  let ?i = "bucket_of t ip" and ?e = "\<lparr>e_ip = cstr_copy IP_KEY_MAX ip, e_val = v, e_next = buckets c ! bucket_of t ip\<rparr>"
  let ?h = "(heap c)(a \<mapsto> ?e)" and ?ass = "ass[bucket_of t ip := a # ass ! bucket_of t ip]"
  note T' = T(1) [unfolded chain_table_def]
  have i: "?i < length t" by (rule bucket_in [OF T(2)])
  have a: "a \<notin> set (concat ass)" using T' new by (metis domIff)
  have old: "links ?h (buckets c ! j) (ass ! j) (t ! j)" if "j < length t" for j
  proof -
    have "ass ! j \<in> set ass" using that T' by simp
    then have "a \<notin> set (ass ! j)" using a by auto
    then have "links ?h (buckets c ! j) (ass ! j) (t ! j) = links (heap c) (buckets c ! j) (ass ! j) (t ! j)"
      by (intro links_frame) auto
    then show ?thesis using T' that by blast
  qed
  have "links ?h ((buckets c)[?i := Some a] ! j) (?ass ! j) (table_push t ip v ! j)" if "j < length t" for j
    using old [OF that] old [OF i] i T' that by (cases "j = ?i") (simp_all add: table_push_def)
  moreover have "distinct (concat ?ass)" "dom ?h = set (concat ?ass)"
    using concat_cons_at [OF _ a, of ?i] i T' by auto
  ultimately have "chain_table ?ass (chain_push (Some a) ip v c) (table_push t ip v)"
    using T' by (simp add: chain_table_def chain_push_def chain_bucket_eq [OF T(1)] Let_def table_push_def)
  then show ?thesis by blast
qed

lemma links_update:
  assumes "links h p as es" "distinct as" "find_entry h ip p = Some (Some a)" "h a = Some e"
  shows "links (h(a \<mapsto> e\<lparr>e_val := v\<rparr>)) p as (chain_update ip v es)"
  using assms
proof (induction as arbitrary: p es)
  case Nil
  then show ?case by (simp add: find_entry.simps)
next
  case (Cons b as)
  then obtain f es' where f: "p = Some b" "h b = Some f" "es = (e_ip f, e_val f) # es'" "links h (e_next f) as es'"
    by (cases es) (auto split: option.splits)
  note step = find_entry.simps [of h ip "Some b"]
  show ?case
  proof (cases "e_ip f = ip")
    case True
    then have "a = b" using Cons.prems(3) by (simp add: f step)
    moreover have "links (h(b \<mapsto> e\<lparr>e_val := v\<rparr>)) (e_next f) as es'"
      using Cons.prems(2) f(4) by (subst links_frame [where h = h]) auto
    ultimately show ?thesis using True Cons.prems(4) by (simp add: f fun_upd_def)
  next
    case False
    then have at: "find_entry h ip (e_next f) = Some (Some a)" using Cons.prems(3) by (simp add: f step)
    have "links (h(a \<mapsto> e\<lparr>e_val := v\<rparr>)) (e_next f) as (chain_update ip v es')"
      by (rule Cons.IH [OF f(4) _ at Cons.prems(4)]) (use Cons.prems(2) in simp)
    moreover have "e_ip e = ip" "a \<noteq> b"
      using links_find [OF f(4), of ip] at Cons.prems(2,4) by (auto split: option.splits)
    ultimately have "links (h(a \<mapsto> e\<lparr>e_val := v\<rparr>)) (Some b) (b # as) ((e_ip f, e_val f) # chain_update ip v es')"
      by (simp add: f fun_upd_def)
    then show ?thesis using False by (simp add: f fun_upd_def)
  qed
qed

lemma chain_update_table:
  assumes T: "chain_table ass c t" "table_ok t"
    and at: "find_entry (heap c) ip (buckets c ! chain_bucket c ip) = Some (Some a)" "heap c a = Some e"
      "a \<in> set (ass ! bucket_of t ip)"
  shows "chain_table ass (c\<lparr>heap := (heap c)(a \<mapsto> e\<lparr>e_val := v\<rparr>)\<rparr>)
     (t[bucket_of t ip := chain_update ip v (t ! bucket_of t ip)])"
proof -
  let ?i = "bucket_of t ip" and ?h = "(heap c)(a \<mapsto> e\<lparr>e_val := v\<rparr>)"
  note T' = T(1) [unfolded chain_table_def]
  have i: "?i < length ass" using bucket_in [OF T(2)] T' by simp
  have dist: "distinct (concat ass)" using T' by blast
  obtain us ys vs where d: "ass = us @ ys # vs" "length us = ?i"
    using id_take_nth_drop [OF i] i by (metis length_take less_imp_le min.absorb2)
  have "links ?h (buckets c ! j) (ass ! j) (t[?i := chain_update ip v (t ! ?i)] ! j)" if j: "j < length t" for j
  proof (cases "j = ?i")
    case True
    have "distinct (ass ! ?i)" using dist by (simp add: d(1) d(2) [symmetric])
    then have "links ?h (buckets c ! ?i) (ass ! ?i) (chain_update ip v (t ! ?i))"
      using at unfolding chain_bucket_eq [OF T(1)] by (intro links_update [OF chain_links [OF T]])
    then show ?thesis using True j by simp
  next
    case False
    have "a \<notin> set (ass ! j)"
    proof -
      have "ass ! j \<in> set us \<union> set vs"
      proof (cases "j < ?i")
        case True
        then show ?thesis by (simp add: d nth_append)
      next
        case False
        moreover have "length t = length us + Suc (length vs)" using T' by (simp add: d(1))
        ultimately show ?thesis using \<open>j \<noteq> ?i\<close> j by (simp add: d nth_append nth_Cons')
      qed
      then show ?thesis using dist at(3) by (auto simp: d(1) d(2) [symmetric])
    qed
    then have "links ?h (buckets c ! j) (ass ! j) (t ! j) = links (heap c) (buckets c ! j) (ass ! j) (t ! j)"
      by (intro links_frame) auto
    then show ?thesis using False T' j by auto
  qed
  moreover have "dom ?h = dom (heap c)" using at(2) by auto
  ultimately show ?thesis using T' by (simp add: chain_table_def)
qed

section \<open>Runs\<close>

text \<open>
  A run of the three puts, each with what \<open>calloc\<close> gives it, on chains and on the lists of
  \<open>Nta_Util\<close>: an allocation that fails drops the entry and leaves the table as it was.
\<close>

datatype put_kind = Put_front | Put_update | Put_first

record 'v put_op =
  p_kind :: put_kind
  p_new :: "nat option"
  p_ip :: string
  p_val :: 'v

definition chain_put :: "'v put_op \<Rightarrow> 'v chained \<Rightarrow> 'v chained option" where
  "chain_put op c =
     (case p_kind op of
        Put_front \<Rightarrow> Some (chain_put_front (p_new op) (p_ip op) (p_val op) c)
      | Put_update \<Rightarrow> chain_put_update (p_new op) (p_ip op) (p_val op) c
      | Put_first \<Rightarrow> map_option fst (chain_insert (p_new op) (p_ip op) (p_val op) c))"

definition table_put :: "'v put_op \<Rightarrow> 'v table \<Rightarrow> 'v table" where
  "table_put op t =
     (if length (p_ip op) \<ge> IP_KEY_MAX \<or>
         p_new op = None \<and> (p_kind op = Put_front \<or> table_find t (p_ip op) = None) then t
      else case p_kind op of
             Put_front \<Rightarrow> put_front t (p_ip op) (p_val op)
           | Put_update \<Rightarrow> put_update t (p_ip op) (p_val op)
           | Put_first \<Rightarrow> fst (put_first t (p_ip op) (p_val op)))"

fun chain_run :: "'v put_op list \<Rightarrow> 'v chained \<Rightarrow> 'v chained option" where
  "chain_run [] c = Some c"
| "chain_run (op # ops) c = (case chain_put op c of None \<Rightarrow> None | Some c1 \<Rightarrow> chain_run ops c1)"

text \<open>The documented behaviour of \<open>calloc\<close>: what it returns is not in use.\<close>

definition fresh_put :: "'v put_op \<Rightarrow> 'v chained \<Rightarrow> bool" where
  "fresh_put op c = (case p_new op of None \<Rightarrow> True | Some a \<Rightarrow> heap c a = None)"

fun fresh_run :: "'v put_op list \<Rightarrow> 'v chained \<Rightarrow> bool" where
  "fresh_run [] c = True"
| "fresh_run (op # ops) c =
     (fresh_put op c \<and> (case chain_put op c of None \<Rightarrow> True | Some c1 \<Rightarrow> fresh_run ops c1))"

lemma table_put_ok: "table_ok t \<Longrightarrow> table_ok (table_put op t)"
  by (auto simp: table_put_def put_front_def put_update_def put_first_def table_push_def
      split: put_kind.split option.split)

lemma chain_put_table:
  assumes T: "chain_table ass c t" "table_ok t" and fresh: "fresh_put op c"
  shows "\<exists>ass' c'. chain_put op c = Some c' \<and> chain_table ass' c' (table_put op t)"
proof (cases "length (p_ip op) \<ge> IP_KEY_MAX")
  case True
  then show ?thesis using T(1)
    by (auto simp: chain_put_def table_put_def chain_put_front_def chain_put_update_def chain_insert_def split: put_kind.split)
next
  case False
  let ?ip = "p_ip op" and ?v = "p_val op"
  have push: "\<exists>ass'. chain_table ass' (chain_push (p_new op) ?ip ?v c) (if p_new op = None then t else table_push t ?ip ?v)"
  proof (cases "p_new op")
    case None
    then show ?thesis using T(1) by (auto simp: chain_push_def)
  next
    case (Some a)
    then have "heap c a = None" using fresh by (simp add: fresh_put_def)
    then show ?thesis using chain_push_table [OF T] False Some by simp
  qed
  note find = chain_find [OF T, of ?ip]
  note defs = chain_put_def table_put_def chain_put_front_def chain_put_update_def chain_insert_def
    put_front_def put_update_def put_first_def
  show ?thesis
  proof (cases "p_kind op = Put_front \<or> table_find t ?ip = None")
    case True
    have "p_kind op = Put_front \<or> find_entry (heap c) ?ip (buckets c ! chain_bucket c ?ip) = Some None"
      using find True by auto
    then have "chain_put op c = Some (chain_push (p_new op) ?ip ?v c)"
      "table_put op t = (if p_new op = None then t else table_push t ?ip ?v)"
      using False True by (auto simp: defs split: put_kind.split)
    with push show ?thesis by simp
  next
    case hit: False
    then obtain v0 where v0: "table_find t ?ip = Some v0" by blast
    then obtain a e where a: "find_entry (heap c) ?ip (buckets c ! chain_bucket c ?ip) = Some (Some a)"
        "a \<in> set (ass ! bucket_of t ?ip)" "heap c a = Some e"
      using find by auto
    show ?thesis
    proof (cases "p_kind op = Put_update")
      case True
      show ?thesis
        using chain_update_table [OF T a(1,3,2), of ?v] False a v0 True by (auto simp: defs)
    next
      case other: False
      then have "p_kind op = Put_first" using hit by (cases "p_kind op") auto
      then show ?thesis using False a v0 T(1) by (auto simp: defs)
    qed
  qed
qed

lemma chain_run_table:
  assumes "chain_table ass c t" "table_ok t" "fresh_run ops c"
  shows "\<exists>ass' c'. chain_run ops c = Some c' \<and> chain_table ass' c' (fold table_put ops t) \<and>
           table_ok (fold table_put ops t)"
  using assms
proof (induction ops arbitrary: ass c t)
  case Nil
  then show ?case by auto
next
  case (Cons op ops)
  obtain ass' c' where c': "chain_put op c = Some c'" "chain_table ass' c' (table_put op t)"
    using chain_put_table [OF Cons.prems(1,2), of op] Cons.prems(3) by auto
  show ?case using Cons.IH [OF c'(2) table_put_ok [OF Cons.prems(2)]] Cons.prems(3) by (simp add: c'(1))
qed

text \<open>
  C13. The chained tables of the server, built with allocated entries and next pointers, behave as the
  lists of \<open>Nta_Util\<close>: after any run of puts that starts from the empty buckets, with allocations that
  may fail at any point, no walk loops or follows a dead pointer, every lookup of every module's walk
  returns the first entry of the list, and closing the table frees every entry exactly once and leaves
  none.
\<close>

theorem chains_implement_tables:
  assumes "0 < n" "fresh_run ops (empty_chains n)"
  shows "\<exists>c. chain_run ops (empty_chains n) = Some c \<and>
    (\<forall>ip. chain_get ip c = Some (table_find (fold table_put ops (new_table n)) ip)) \<and>
    chain_close c = Some (\<lambda>a. None)"
proof -
  have "table_ok (new_table n)" using assms(1) by simp
  then obtain ass c where c: "chain_run ops (empty_chains n) = Some c"
      "chain_table ass c (fold table_put ops (new_table n))" "table_ok (fold table_put ops (new_table n))"
    using chain_run_table [OF empty_chains_table _ assms(2)] by blast
  show ?thesis using chain_get_table [OF c(2,3)] chain_close_table [OF c(2)] c(1) by blast
qed

definition sample_puts :: "int put_op list" where
  "sample_puts =
     [\<lparr>p_kind = Put_update, p_new = Some 7, p_ip = ''8.8.8.8'', p_val = 1\<rparr>,
      \<lparr>p_kind = Put_update, p_new = None, p_ip = ''8.8.8.8'', p_val = 2\<rparr>,
      \<lparr>p_kind = Put_first, p_new = Some 9, p_ip = ''1.1.1.1'', p_val = 3\<rparr>]"

theorem chains_implement_tables_witness:
  "\<exists>c. chain_run sample_puts (empty_chains 1) = Some c \<and> chain_get ''8.8.8.8'' c = Some (Some 2) \<and>
    chain_get ''1.1.1.1'' c = Some (Some 3) \<and> chain_close c = Some (\<lambda>a. None)"
proof -
  have fresh: "fresh_run sample_puts (empty_chains 1)"
    by (simp add: sample_puts_def empty_chains_def fresh_put_def chain_put_def chain_put_update_def chain_insert_def
        chain_push_def chain_bucket_def cstr_copy_def IP_KEY_MAX_def find_entry.simps)
  have "table_find (fold table_put sample_puts (new_table 1)) ''8.8.8.8'' = Some 2"
    "table_find (fold table_put sample_puts (new_table 1)) ''1.1.1.1'' = Some 3"
    by (simp_all add: sample_puts_def new_table_def table_put_def table_find_def put_update_def put_first_def
        table_push_def bucket_of_def cstr_copy_def IP_KEY_MAX_def)
  with chains_implement_tables [OF _ fresh] show ?thesis by auto
qed

end
