(* ===== verification/Nta_Lineproto.thy ===== *)
theory Nta_Lineproto
  imports Nta_Http
begin

text \<open>
  The text side of \<open>src/server/nta_influx.c\<close>: the escapes of the InfluxDB line protocol into
  bounded buffers, the \<open>printf\<close> conversions of its fields, and the bounded concatenation the
  points are built with. The decoders \<open>lp_scan\<close>, \<open>lp_tags\<close> and \<open>str_scan\<close> are the abstract
  specification: what a reader of the protocol recovers from an escaped text.
\<close>

section \<open>Conversions\<close>

text \<open>The decimal exponent of a positive number; 400 steps cover every double.\<close>

fun dec_exp :: "nat \<Rightarrow> real \<Rightarrow> int" where
  "dec_exp 0 x = 0"
| "dec_exp (Suc n) x =
     (if x \<ge> 10 then dec_exp n (x / 10) + 1 else if x < 1 then dec_exp n (x * 10) - 1 else 0)"

definition join_frac :: "string \<Rightarrow> string \<Rightarrow> string" where
  "join_frac ip fp =
     (let fp' = rev (dropWhile (\<lambda>c. c = CHR ''0'') (rev fp))
      in if fp' = [] then ip else ip @ ''.'' @ fp')"

text \<open>\<open>"%.6g"\<close> of a finite number: six digits \<open>ds\<close> and the exponent \<open>e\<close>, in one of three styles.\<close>

definition g6_body :: "string \<Rightarrow> int \<Rightarrow> string" where
  "g6_body ds e =
     (if e < - 4 \<or> e \<ge> 6 then
        join_frac (take 1 ds) (drop 1 ds) @ ''e'' @ (if e < 0 then ''-'' else ''+'') @
        pad0 2 (dec_digits (nat \<bar>e\<bar>))
      else if e < 0 then join_frac ''0'' (replicate (nat (- e) - 1) (CHR ''0'') @ ds)
      else join_frac (take (nat e + 1) ds) (drop (nat e + 1) ds))"

definition fmt_g6 :: "double \<Rightarrow> string" where
  "fmt_g6 x =
     (if x = 0 then ''0''
      else let a = \<bar>x\<bar>; e = dec_exp 400 a; m = rne (a * 10 powi (5 - e))
           in (if x < 0 then ''-'' else []) @
              (if m \<ge> 1000000 then g6_body ''100000'' (e + 1) else g6_body (pad0 6 (dec_digits (nat m))) e))"

text \<open>\<open>"%.6f"\<close>.\<close>

definition fmt_f6 :: "double \<Rightarrow> string" where
  "fmt_f6 x =
     (let n = nat (rne (\<bar>x\<bar> * 1000000))
      in (if x < 0 then ''-'' else []) @ dec_digits (n div 1000000) @ ''.'' @ pad0 6 (dec_digits (n mod 1000000)))"

text \<open>Only these characters occur in a formatted number.\<close>

definition number_char :: "char \<Rightarrow> bool" where
  "number_char c \<longleftrightarrow> is_digit c \<or> c = CHR ''-'' \<or> c = CHR ''+'' \<or> c = CHR ''.'' \<or> c = CHR ''e''"

lemma number_char_digits [simp]: "list_all number_char (dec_digits n)"
  using dec_digits_all [of n] by (auto simp: number_char_def list_all_iff)

lemma number_char_consts [simp]:
  "number_char (CHR ''0'')" "number_char (CHR ''1'')" "number_char (CHR ''-'')" "number_char (CHR ''+'')"
  "number_char (CHR ''.'')" "number_char (CHR ''e'')"
  by (simp_all add: number_char_def is_digit_def)

lemma number_char_parts [simp]:
  "list_all number_char s \<Longrightarrow> list_all number_char (take n s)"
  "list_all number_char s \<Longrightarrow> list_all number_char (drop n s)"
  "list_all number_char (replicate n (CHR ''0''))"
  "list_all number_char s \<Longrightarrow> list_all number_char (pad0 n s)"
  by (auto simp: list_all_iff pad0_def dest: in_set_takeD in_set_dropD)

lemma number_char_join [simp]:
  "list_all number_char a \<Longrightarrow> list_all number_char b \<Longrightarrow> list_all number_char (join_frac a b)"
  by (auto simp: join_frac_def Let_def list_all_iff dest!: set_dropWhileD)

lemma number_char_g6_body [simp]: "list_all number_char ds \<Longrightarrow> list_all number_char (g6_body ds e)"
  by (simp add: g6_body_def)

lemma fmt_g6_chars [simp]: "list_all number_char (fmt_g6 x)"
  by (simp add: fmt_g6_def Let_def)

lemma fmt_d_chars [simp]: "list_all number_char (fmt_d n)"
  by (simp add: fmt_d_def)

lemma fmt_f6_chars [simp]: "list_all number_char (fmt_f6 x)"
  by (simp add: fmt_f6_def Let_def)

lemma number_char_no_newline: "list_all number_char s \<Longrightarrow> CHR 0x0A \<notin> set s"
  by (auto simp: list_all_iff number_char_def is_digit_def)

section \<open>Tag escapes\<close>

definition lp_special :: "char \<Rightarrow> bool" where
  "lp_special c \<longleftrightarrow> c = CHR '','' \<or> c = CHR ''='' \<or> c = CHR '' ''"

definition backslash :: char where "backslash = CHR 0x5C"

text \<open>\<open>lp_escape\<close>: \<open>w\<close> bytes are already in the buffer of \<open>cap\<close>.\<close>

fun lp_escape_loop :: "nat \<Rightarrow> nat \<Rightarrow> string \<Rightarrow> string" where
  "lp_escape_loop cap w [] = []"
| "lp_escape_loop cap w (c # s) =
     (if \<not> w + 2 < cap then []
      else if lp_special c then
        (if w + 1 + 1 \<ge> cap then [backslash] else backslash # c # lp_escape_loop cap (w + 2) s)
      else c # lp_escape_loop cap (w + 1) s)"

definition lp_escape :: "nat \<Rightarrow> string \<Rightarrow> string" where
  "lp_escape cap s = (if cap = 0 then [] else lp_escape_loop cap 0 s)"

definition MAX_TAG_LEN :: nat where "MAX_TAG_LEN = 128"

text \<open>The escape without a buffer.\<close>

fun esc_char :: "char \<Rightarrow> string" where
  "esc_char c = (if lp_special c then [backslash, c] else [c])"

definition esc_tag :: "string \<Rightarrow> string" where
  "esc_tag s = concat (List.map esc_char s)"

lemma esc_tag_simps [simp]: "esc_tag [] = []" "esc_tag (c # s) = esc_char c @ esc_tag s"
  by (simp_all add: esc_tag_def)

declare esc_char.simps [simp del]

lemma lp_escape_loop_len: "w < cap \<Longrightarrow> w + length (lp_escape_loop cap w s) < cap"
proof (induction cap w s rule: lp_escape_loop.induct)
  case (2 cap w c s)
  show ?case
  proof (cases "w + 2 < cap")
    case True
    then show ?thesis using "2.IH" by (cases "lp_special c") auto
  qed (use 2 in auto)
qed simp

text \<open>A value that does not fit is cut between two characters, never inside an escape.\<close>

lemma lp_escape_loop_prefix: "\<exists>k. lp_escape_loop cap w s = esc_tag (take k s)"
proof (induction cap w s rule: lp_escape_loop.induct)
  case (2 cap w c s)
  show ?case
  proof (cases "w + 2 < cap")
    case False
    then have "lp_escape_loop cap w (c # s) = esc_tag (take 0 (c # s))" by simp
    then show ?thesis by blast
  next
    case True
    show ?thesis
    proof (cases "lp_special c")
      case sp: True
      with True "2.IH"(1) obtain k where "lp_escape_loop cap (w + 2) s = esc_tag (take k s)" by auto
      then have "lp_escape_loop cap w (c # s) = esc_tag (take (Suc k) (c # s))"
        using True sp by (simp add: esc_char.simps)
      then show ?thesis by blast
    next
      case sp: False
      with True "2.IH"(2) obtain k where "lp_escape_loop cap (w + 1) s = esc_tag (take k s)" by auto
      then have "lp_escape_loop cap w (c # s) = esc_tag (take (Suc k) (c # s))"
        using True sp by (simp add: esc_char.simps)
      then show ?thesis by blast
    qed
  qed
qed (use exI [of _ 0] in simp)

lemma lp_escape_loop_fits:
  "w + length (esc_tag s) + 2 \<le> cap \<Longrightarrow> lp_escape_loop cap w s = esc_tag s"
  by (induction cap w s rule: lp_escape_loop.induct) (auto simp: esc_char.simps split: if_splits)

lemma lp_escape_fits: "length (esc_tag s) + 2 \<le> cap \<Longrightarrow> lp_escape cap s = esc_tag s"
  by (simp add: lp_escape_def lp_escape_loop_fits)

lemma lp_escape_len: "0 < cap \<Longrightarrow> length (lp_escape cap s) < cap"
  using lp_escape_loop_len [of 0 cap s] by (simp add: lp_escape_def)

section \<open>Reading tags back\<close>

text \<open>
  A token up to an unescaped separator, decoded, and the rest. A backslash escapes a separator and
  stands for itself before anything else.
\<close>

fun lp_scan :: "string \<Rightarrow> string \<times> string" where
  "lp_scan [] = ([], [])"
| "lp_scan [c] = (if lp_special c then ([], [c]) else ([c], []))"
| "lp_scan (c # d # s) =
     (if lp_special c then ([], c # d # s)
      else if c = backslash \<and> lp_special d then (case lp_scan s of (t, r) \<Rightarrow> (d # t, r))
      else (case lp_scan (d # s) of (t, r) \<Rightarrow> (c # t, r)))"

lemma lp_scan_length: "length (snd (lp_scan s)) \<le> length s"
  by (induction s rule: lp_scan.induct) (auto split: prod.splits)

lemma not_special_backslash [simp]: "\<not> lp_special backslash"
  by (simp add: lp_special_def backslash_def)

definition sep_start :: "string \<Rightarrow> bool" where
  "sep_start r \<longleftrightarrow> (case r of [] \<Rightarrow> True | c # _ \<Rightarrow> lp_special c)"

definition clean_end :: "string \<Rightarrow> bool" where
  "clean_end v \<longleftrightarrow> v = [] \<or> last v \<noteq> backslash"

lemma lp_scan_sep: "sep_start r \<Longrightarrow> lp_scan r = ([], r)"
  by (cases r rule: lp_scan.cases) (auto simp: sep_start_def)

lemma lp_scan_plain: "\<not> lp_special c \<Longrightarrow> c \<noteq> backslash \<Longrightarrow>
  lp_scan (c # s) = (c # fst (lp_scan s), snd (lp_scan s))"
  by (cases s) (auto split: prod.splits)

lemma lp_scan_backslash: "s \<noteq> [] \<Longrightarrow> \<not> lp_special (hd s) \<Longrightarrow>
  lp_scan (backslash # s) = (backslash # fst (lp_scan s), snd (lp_scan s))"
  by (cases s) (auto split: prod.splits)

lemma lp_scan_escaped: "lp_special d \<Longrightarrow> lp_scan (backslash # d # s) = (d # fst (lp_scan s), snd (lp_scan s))"
  by (auto split: prod.splits)

lemma lp_scan_esc: "sep_start r \<Longrightarrow> clean_end v \<Longrightarrow> lp_scan (esc_tag v @ r) = (v, r)"
proof (induction v)
  case Nil
  then show ?case by (simp add: lp_scan_sep)
next
  case (Cons c v)
  have ce: "clean_end v" using Cons.prems(2) by (auto simp: clean_end_def split: if_splits)
  have IH: "lp_scan (esc_tag v @ r) = (v, r)" using Cons.IH Cons.prems(1) ce by simp
  consider "lp_special c" | "c = backslash" | "\<not> lp_special c" "c \<noteq> backslash" by blast
  then show ?case
  proof cases
    case 1
    then have e: "esc_tag (c # v) @ r = backslash # c # esc_tag v @ r" by (simp add: esc_char.simps)
    show ?thesis unfolding e using lp_scan_escaped [OF 1, of "esc_tag v @ r"] IH by simp
  next
    case 2
    then obtain d v' where v: "v = d # v'" using Cons.prems(2) by (cases v) (auto simp: clean_end_def)
    have h: "esc_tag v @ r \<noteq> []" "\<not> lp_special (hd (esc_tag v @ r))"
      by (simp_all add: v esc_char.simps)
    have e: "esc_tag (c # v) @ r = backslash # esc_tag v @ r" using 2 by (simp add: esc_char.simps)
    show ?thesis unfolding e using lp_scan_backslash [OF h] IH 2 by simp
  next
    case 3
    then have e: "esc_tag (c # v) @ r = c # esc_tag v @ r" by (simp add: esc_char.simps)
    show ?thesis unfolding e using lp_scan_plain [OF 3, of "esc_tag v @ r"] IH by simp
  qed
qed

lemma lp_scan_shorter: "(k, e # s2) = lp_scan s1 \<Longrightarrow> length (snd (lp_scan s2)) < Suc (length s1)"
  using lp_scan_length [of s1] lp_scan_length [of s2] by (metis Suc_le_eq le_imp_less_Suc length_Cons less_le_trans less_imp_le_nat le_trans snd_conv)

text \<open>The tag set of a point, up to the space before the fields.\<close>

function lp_tags :: "string \<Rightarrow> ((string \<times> string) list \<times> string) option" where
  "lp_tags s =
     (case s of
        [] \<Rightarrow> None
      | c # s1 \<Rightarrow>
          if c = CHR '' '' then Some ([], s1)
          else if c \<noteq> CHR '','' then None
          else (case lp_scan s1 of
                  (k, []) \<Rightarrow> None
                | (k, e # s2) \<Rightarrow>
                    if e \<noteq> CHR ''='' then None
                    else map_option (\<lambda>(ts, f). ((k, fst (lp_scan s2)) # ts, f)) (lp_tags (snd (lp_scan s2)))))"
  by pat_completeness auto
termination
  by (relation "measure length") (auto dest!: lp_scan_shorter)

declare lp_tags.simps [simp del]

definition tag_text :: "string \<times> string \<Rightarrow> string" where
  "tag_text kv = '','' @ fst kv @ ''='' @ esc_tag (snd kv)"

text \<open>A plain key: no separator, no backslash.\<close>

definition plain :: "string \<Rightarrow> bool" where
  "plain k \<longleftrightarrow> (\<forall>c \<in> set k. \<not> lp_special c \<and> c \<noteq> backslash)"

lemma esc_tag_plain: "plain k \<Longrightarrow> esc_tag k = k"
  by (induction k) (auto simp: plain_def esc_char.simps)

lemma plain_clean: "plain k \<Longrightarrow> clean_end k"
  by (cases k rule: rev_cases) (auto simp: plain_def clean_end_def)

lemma lp_tags_text:
  "\<forall>(k, v) \<in> set kvs. plain k \<and> clean_end v \<Longrightarrow>
   lp_tags (concat (List.map tag_text kvs) @ CHR '' '' # f) = Some (kvs, f)"
proof (induction kvs)
  case Nil
  then show ?case by (subst lp_tags.simps) simp
next
  case (Cons kv kvs)
  obtain k v where kv: "kv = (k, v)" by (cases kv)
  let ?rest = "concat (List.map tag_text kvs) @ CHR '' '' # f"
  have k: "plain k" and v: "clean_end v" using Cons.prems by (auto simp: kv)
  have r: "sep_start ?rest" by (cases kvs) (auto simp: sep_start_def lp_special_def tag_text_def)
  have "lp_scan (k @ CHR ''='' # esc_tag v @ ?rest) = (k, CHR ''='' # esc_tag v @ ?rest)"
    using lp_scan_esc [of "CHR ''='' # esc_tag v @ ?rest" k] k
    by (simp add: esc_tag_plain plain_clean sep_start_def lp_special_def)
  moreover have "lp_scan (esc_tag v @ ?rest) = (v, ?rest)" using r v by (rule lp_scan_esc)
  moreover have "lp_tags ?rest = Some (kvs, f)" using Cons by simp
  moreover have "concat (List.map tag_text (kv # kvs)) @ CHR '' '' # f = CHR '','' # k @ CHR ''='' # esc_tag v @ ?rest"
    by (simp add: kv tag_text_def)
  ultimately show ?case by (subst lp_tags.simps) (simp add: kv)
qed

text \<open>A tag set that stops inside a value, before the space, is not one.\<close>

lemma lp_scan_esc_end: "lp_scan (esc_tag v) = (v, [])"
proof (cases "clean_end v")
  case True
  then show ?thesis using lp_scan_esc [of "[]" v] by (simp add: sep_start_def)
next
  case False
  then obtain u where v: "v = u @ [backslash]"
    by (cases v rule: rev_cases) (auto simp: clean_end_def)
  show ?thesis unfolding v
  proof (induction u)
    case (Cons c u)
    consider "lp_special c" | "c = backslash" | "\<not> lp_special c" "c \<noteq> backslash" by blast
    then show ?case
    proof cases
      case 2
      have "esc_tag (u @ [backslash]) \<noteq> []" "\<not> lp_special (hd (esc_tag (u @ [backslash])))"
        by (cases u; simp add: esc_char.simps)+
      from lp_scan_backslash [OF this] Cons 2 show ?thesis by (simp add: esc_char.simps)
    qed (use Cons lp_scan_plain [of c "esc_tag (u @ [backslash])"]
        lp_scan_escaped [of c "esc_tag (u @ [backslash])"] in \<open>simp_all add: esc_char.simps\<close>)
  qed (simp add: esc_char.simps)
qed

lemma lp_tags_open:
  "\<forall>(k, v) \<in> set kvs. plain k \<and> clean_end v \<Longrightarrow> plain k \<Longrightarrow>
   lp_tags (concat (List.map tag_text kvs) @ tag_text (k, v)) = None"
proof (induction kvs)
  case Nil
  have "lp_scan (k @ CHR ''='' # esc_tag v) = (k, CHR ''='' # esc_tag v)"
    using lp_scan_esc [of "CHR ''='' # esc_tag v" k] Nil(2)
    by (simp add: esc_tag_plain plain_clean sep_start_def lp_special_def)
  moreover have "lp_tags [] = None" by (subst lp_tags.simps) simp
  ultimately show ?case
    by (subst lp_tags.simps) (simp add: tag_text_def lp_scan_esc_end)
next
  case (Cons kv kvs)
  obtain k' v' where kv: "kv = (k', v')" by (cases kv)
  let ?rest = "concat (List.map tag_text kvs) @ tag_text (k, v)"
  have k: "plain k'" and v: "clean_end v'" using Cons.prems by (auto simp: kv)
  have r: "sep_start ?rest" by (cases kvs) (auto simp: sep_start_def lp_special_def tag_text_def)
  have "lp_scan (k' @ CHR ''='' # esc_tag v' @ ?rest) = (k', CHR ''='' # esc_tag v' @ ?rest)"
    using lp_scan_esc [of "CHR ''='' # esc_tag v' @ ?rest" k'] k
    by (simp add: esc_tag_plain plain_clean sep_start_def lp_special_def)
  moreover have "lp_scan (esc_tag v' @ ?rest) = (v', ?rest)" using r v by (rule lp_scan_esc)
  moreover have "lp_tags ?rest = None" using Cons by simp
  moreover have "concat (List.map tag_text (kv # kvs)) @ tag_text (k, v) = CHR '','' # k' @ CHR ''='' # esc_tag v' @ ?rest"
    by (simp add: kv tag_text_def)
  ultimately show ?case by (subst lp_tags.simps) (simp add: kv)
qed

section \<open>String fields\<close>

fun lp_escape_str_loop :: "nat \<Rightarrow> nat \<Rightarrow> string \<Rightarrow> string" where
  "lp_escape_str_loop cap w [] = []"
| "lp_escape_str_loop cap w (c # s) =
     (if \<not> w + 2 < cap then []
      else if c = backslash \<or> c = CHR 0x22 then
        (if w + 1 + 1 \<ge> cap then [backslash] else backslash # c # lp_escape_str_loop cap (w + 2) s)
      else if c = CHR 0x0A then
        (if w + 1 + 1 \<ge> cap then [backslash] else backslash # CHR ''n'' # lp_escape_str_loop cap (w + 2) s)
      else if c = CHR 0x0D then lp_escape_str_loop cap w s
      else c # lp_escape_str_loop cap (w + 1) s)"

definition lp_escape_str_field :: "nat \<Rightarrow> string \<Rightarrow> string" where
  "lp_escape_str_field cap s = (if cap = 0 then [] else lp_escape_str_loop cap 0 s)"

text \<open>The content of a quoted field up to its closing quote, decoded, and the rest.\<close>

fun str_scan :: "string \<Rightarrow> (string \<times> string) option" where
  "str_scan [] = None"
| "str_scan [c] = (if c = CHR 0x22 then Some ([], []) else None)"
| "str_scan (c # d # s) =
     (if c = CHR 0x22 then Some ([], d # s)
      else if c = backslash then
        map_option (\<lambda>(t, r). ((if d = CHR ''n'' then CHR 0x0A else d) # t, r)) (str_scan s)
      else map_option (\<lambda>(t, r). (c # t, r)) (str_scan (d # s)))"

lemma str_scan_plain: "c \<noteq> CHR 0x22 \<Longrightarrow> c \<noteq> backslash \<Longrightarrow>
  str_scan (c # s) = map_option (\<lambda>(t, r). (c # t, r)) (str_scan s)"
  by (cases s) auto

lemma quote_not_backslash: "CHR 0x22 \<noteq> backslash" "CHR ''n'' \<noteq> backslash"
  by (simp_all add: backslash_def)

lemma str_scan_escape:
  "w + 2 * length s + 2 < cap \<Longrightarrow>
   str_scan (lp_escape_str_loop cap w s @ CHR 0x22 # r) = Some (filter (\<lambda>c. c \<noteq> CHR 0x0D) s, r)"
proof (induction cap w s rule: lp_escape_str_loop.induct)
  case (1 cap w)
  show ?case by (cases r) auto
next
  case (2 cap w c s)
  have w: "w + 2 < cap" using "2.prems" by simp
  consider "c = backslash \<or> c = CHR 0x22" | "c = CHR 0x0A" | "c = CHR 0x0D"
    | "c \<noteq> backslash" "c \<noteq> CHR 0x22" "c \<noteq> CHR 0x0A" "c \<noteq> CHR 0x0D" by blast
  then show ?case
  proof cases
    case 1
    moreover have "\<not> cap \<le> w + 1 + 1" using w by simp
    moreover have "c \<noteq> CHR ''n''" "c \<noteq> CHR 0x0D" using 1 by (auto simp: backslash_def)
    ultimately show ?thesis using 2 w by (auto simp: quote_not_backslash [symmetric] backslash_def)
  next
    case 2
    moreover have "\<not> cap \<le> w + 1 + 1" using w by simp
    ultimately show ?thesis using "2.IH"(2) "2.prems" w by (auto simp: backslash_def)
  next
    case 3
    then show ?thesis using "2.IH"(3) "2.prems" w by (simp add: backslash_def)
  next
    case 4
    then show ?thesis using "2.IH"(4) "2.prems" w by (simp add: str_scan_plain)
  qed
qed

lemma lp_escape_str_loop_len: "length (lp_escape_str_loop cap w s) \<le> 2 * length s"
  by (induction cap w s rule: lp_escape_str_loop.induct) auto

section \<open>Bounded concatenation\<close>

text \<open>
  One \<open>snprintf\<close> at the end of the text in a buffer of \<open>cap\<close> bytes, with the test the code makes
  after each of them.
\<close>

definition sn_put :: "nat \<Rightarrow> string \<Rightarrow> string \<Rightarrow> string option" where
  "sn_put cap out s = (if length s = 0 \<or> length s \<ge> cap - length out then None else Some (out @ s))"

fun sn_puts :: "nat \<Rightarrow> string \<Rightarrow> string list \<Rightarrow> string option" where
  "sn_puts cap out [] = Some out"
| "sn_puts cap out (s # ss) =
     (case sn_put cap out s of None \<Rightarrow> None | Some out1 \<Rightarrow> sn_puts cap out1 ss)"

lemma sn_puts_append:
  "sn_puts cap out (xs @ ys) = (case sn_puts cap out xs of None \<Rightarrow> None | Some o1 \<Rightarrow> sn_puts cap o1 ys)"
  by (induction xs arbitrary: out) (auto split: option.splits)

text \<open>The steps succeed together exactly when the whole text fits with its terminator.\<close>

lemma sn_puts_whole:
  "[] \<notin> set ss \<Longrightarrow> length out < cap \<Longrightarrow>
   sn_puts cap out ss = (if length out + length (concat ss) < cap then Some (out @ concat ss) else None)"
proof (induction ss arbitrary: out)
  case (Cons s ss)
  show ?case
  proof (cases "length out + length s < cap")
    case True
    then have "sn_put cap out s = Some (out @ s)" using Cons.prems by (auto simp: sn_put_def)
    with Cons.IH [of "out @ s"] Cons.prems True show ?thesis by (simp add: add.assoc)
  next
    case False
    then have "sn_put cap out s = None" using Cons.prems by (auto simp: sn_put_def)
    with False show ?thesis by simp
  qed
qed simp

end
