(* ===== verification/Nta_Srvconf.thy ===== *)
theory Nta_Srvconf
  imports Nta_Util
begin

text \<open>
  The configuration of the server (\<open>NtaConfig\<close> of \<open>include/server/nta_server.h\<close>,
  \<open>nta_config_load\<close> and \<open>nta_config_print\<close> of \<open>src/server/nta_server.c\<close>).
\<close>

record nta_config =
  influx_url :: string
  influx_token :: string
  influx_org :: string
  influx_bucket :: string
  rabbit_host :: string
  rabbit_port :: int
  rabbit_user :: string
  rabbit_pass :: string
  rabbit_vhost :: string
  queue_name :: string
  metrics_queue :: string
  narrator_queue :: string
  narrator_min_score :: int
  geoip_db_path :: string
  geoip_asn_db_path :: string
  ioc_path :: string
  num_workers :: int

definition nta_config_load :: "env \<Rightarrow> nta_config" where
  "nta_config_load e =
     (let n0 = env_nat e ''NTA_WORKERS'' 4;
          n1 = (if n0 < 1 then 1 else n0);
          n2 = (if n1 > 32 then 32 else n1)
      in \<lparr>influx_url = env_or e ''INFLUX_URL'' ''http://localhost:8086'',
          influx_token = env_or e ''INFLUX_TOKEN'' ''my-super-secret-auth-token'',
          influx_org = env_or e ''INFLUX_ORG'' ''cybersecurity'',
          influx_bucket = env_or e ''INFLUX_BUCKET'' ''network_traffic'',
          rabbit_host = env_or e ''RABBIT_HOST'' ''localhost'',
          rabbit_port = env_nat e ''RABBIT_PORT'' 5674,
          rabbit_user = env_or e ''RABBIT_USER'' ''guest'',
          rabbit_pass = env_or e ''RABBIT_PASS'' ''guest'',
          rabbit_vhost = env_or e ''RABBIT_VHOST'' ''/'',
          queue_name = env_or e ''QUEUE_NAME'' ''traffic_queue'',
          metrics_queue = env_or e ''METRICS_QUEUE'' ''traffic_metrics'',
          narrator_queue = env_or e ''NARRATOR_QUEUE'' ''narrator_queue'',
          narrator_min_score = env_nat e ''NARRATOR_MIN_SCORE'' 80,
          geoip_db_path = env_or e ''GEOIP_DB_PATH'' ''./data/GeoLite2-City.mmdb'',
          geoip_asn_db_path = env_or e ''GEOIP_ASN_DB_PATH'' ''./data/GeoLite2-ASN.mmdb'',
          ioc_path = env_or e ''IOC_PATH'' ''./deploy/ioc/blocklist.json'',
          num_workers = n2\<rparr>)"

lemma workers_range: "1 \<le> num_workers (nta_config_load e) \<and> num_workers (nta_config_load e) \<le> 32"
  by (simp add: nta_config_load_def Let_def)

text \<open>The token as it is printed: at most its last four characters, and only of a longer one.\<close>

definition tok_masked :: "string \<Rightarrow> string" where
  "tok_masked tok =
     (let tlen = length tok
      in if tlen \<le> 4 then cstr_copy 16 ''****'' else cstr_copy 16 (''****'' @ drop (tlen - 4) tok))"

lemma tok_masked_cases:
  "tok_masked tok = ''****'' \<or> (4 < length tok \<and> (\<exists>t. length t = 4 \<and> tok_masked tok = ''****'' @ t))"
  by (auto simp: tok_masked_def Let_def cstr_copy_def)

end
