(* ===== verification/Nta_Geo.thy ===== *)
theory Nta_Geo
  imports Nta_Http
begin

text \<open>
  GeoIP enrichment (\<open>src/server/nta_geoip.c\<close>): the two databases of libmaxminddb, which are not
  under \<open>src/\<close> and stand as what a lookup of an address finds in each, and the cache in front of
  them. The module's lock covers the cache read and the cache write separately, so a lookup is two
  steps: \<open>geo_find\<close>, and \<open>geo_finish\<close> after a miss; \<open>nta_geo_lookup\<close> runs them without another
  thread in between.
\<close>

record geo_result =
  has_geo :: bool
  has_asn :: bool
  lat :: double
  lon :: double
  asn_number :: u32
  asn_org :: string

definition zero_result :: geo_result where
  "zero_result = \<lparr>has_geo = False, has_asn = False, lat = 0, lon = 0, asn_number = 0, asn_org = []\<rparr>"

definition NTA_ASN_ORG_MAX :: nat where "NTA_ASN_ORG_MAX = 96"

text \<open>
  What the databases hold for an address: latitude and longitude when the City entry has both, and
  the number and the organisation of the ASN entry, each when present with its type.
\<close>

type_synonym city_db = "string \<Rightarrow> (double \<times> double) option"
type_synonym asn_db = "string \<Rightarrow> (u32 option \<times> string option) option"

record geo =
  mmdb_city :: city_db
  mmdb_asn :: asn_db
  city_open :: bool
  asn_open :: bool
  geo_buckets :: "geo_result table"

definition GEO_BUCKETS :: nat where "GEO_BUCKETS = 4096"

text \<open>\<open>None\<close> stands for a path that is null or empty or that \<open>MMDB_open\<close> refuses.\<close>

definition nta_geo_open :: "city_db option \<Rightarrow> asn_db option \<Rightarrow> geo option" where
  "nta_geo_open city asn =
     (if city = None \<and> asn = None then None
      else Some \<lparr>mmdb_city = (case city of Some d \<Rightarrow> d | None \<Rightarrow> (\<lambda>ip. None)),
                 mmdb_asn = (case asn of Some d \<Rightarrow> d | None \<Rightarrow> (\<lambda>ip. None)),
                 city_open = (city \<noteq> None), asn_open = (asn \<noteq> None),
                 geo_buckets = new_table GEO_BUCKETS\<rparr>)"

definition cache_get :: "geo \<Rightarrow> string \<Rightarrow> geo_result option" where
  "cache_get g ip = table_find (geo_buckets g) ip"

definition cache_put :: "geo \<Rightarrow> string \<Rightarrow> geo_result \<Rightarrow> geo" where
  "cache_put g ip res = g\<lparr>geo_buckets := put_front (geo_buckets g) ip res\<rparr>"

definition lookup_city :: "geo \<Rightarrow> string \<Rightarrow> geo_result \<Rightarrow> geo_result" where
  "lookup_city g ip out =
     (if \<not> city_open g then out
      else case mmdb_city g ip of
             None \<Rightarrow> out
           | Some (la, lo) \<Rightarrow> out\<lparr>lat := la, lon := lo, has_geo := True\<rparr>)"

definition lookup_asn :: "geo \<Rightarrow> string \<Rightarrow> geo_result \<Rightarrow> geo_result" where
  "lookup_asn g ip out =
     (if \<not> asn_open g then out
      else case mmdb_asn g ip of
             None \<Rightarrow> out
           | Some (num, org) \<Rightarrow>
               (let out1 = (case num of Some n \<Rightarrow> out\<lparr>asn_number := n\<rparr> | None \<Rightarrow> out);
                    out2 = (case org of Some s \<Rightarrow> out1\<lparr>asn_org := cstr_copy NTA_ASN_ORG_MAX s\<rparr> | None \<Rightarrow> out1)
                in if num \<noteq> None \<or> org \<noteq> None then out2\<lparr>has_asn := True\<rparr> else out2))"

text \<open>
  \<open>nta_geo_lookup\<close>: the result written to \<open>out\<close> and whether it has anything; \<open>ip\<close> is null as
  \<open>None\<close>.
\<close>

definition geo_answer :: "geo_result \<Rightarrow> int" where
  "geo_answer out = (if has_geo out \<or> has_asn out then 1 else 0)"

definition geo_fetch :: "geo \<Rightarrow> string \<Rightarrow> geo_result" where
  "geo_fetch g ip = lookup_asn g ip (lookup_city g ip zero_result)"

definition nta_geo_lookup :: "geo \<Rightarrow> string option \<Rightarrow> geo \<times> geo_result \<times> int" where
  "nta_geo_lookup g ip =
     (case ip of
        None \<Rightarrow> (g, zero_result, 0)
      | Some ip \<Rightarrow>
          if is_private_ip ip then (g, zero_result, 0)
          else case cache_get g ip of
                 Some out \<Rightarrow> (g, out, geo_answer out)
               | None \<Rightarrow>
                   (let out = geo_fetch g ip in (cache_put g ip out, out, geo_answer out)))"

section \<open>The cache never lies\<close>

text \<open>
  A cached result is the one the databases would give. Two threads that miss on the same address
  both put it; the step relation lets them interleave.
\<close>

definition geo_ok :: "geo \<Rightarrow> bool" where
  "geo_ok g \<longleftrightarrow> table_ok (geo_buckets g) \<and>
     (\<forall>ip out. cache_get g ip = Some out \<longrightarrow> out = geo_fetch g ip)"

lemma fetch_put [simp]: "geo_fetch (cache_put g ip out) ip' = geo_fetch g ip'"
proof -
  have "lookup_city (cache_put g ip out) ip' z = lookup_city g ip' z" for z
    by (simp add: lookup_city_def cache_put_def)
  moreover have "lookup_asn (cache_put g ip out) ip' z = lookup_asn g ip' z" for z
    by (simp add: lookup_asn_def cache_put_def)
  ultimately show ?thesis by (simp add: geo_fetch_def)
qed

lemma geo_open_ok: "nta_geo_open c a = Some g \<Longrightarrow> geo_ok g"
  by (auto simp: nta_geo_open_def geo_ok_def cache_get_def GEO_BUCKETS_def split: if_splits)

lemma geo_put_ok:
  assumes "geo_ok g" "out = geo_fetch g ip"
  shows "geo_ok (cache_put g ip out)"
proof -
  have "out' = geo_fetch g ip'" if *: "cache_get (cache_put g ip out) ip' = Some out'" for ip' out'
  proof (cases "ip' = ip \<and> length ip < IP_KEY_MAX")
    case True
    then show ?thesis using * assms
      by (simp add: cache_get_def cache_put_def geo_ok_def)
  next
    case False
    then have "cache_get g ip' = Some out'" using * assms(1)
      by (cases "length ip < IP_KEY_MAX")
        (simp_all add: cache_get_def cache_put_def geo_ok_def front.find_put front.put_long split: if_splits)
    then show ?thesis using assms(1) by (simp add: geo_ok_def)
  qed
  then show ?thesis using assms(1)
    unfolding geo_ok_def fetch_put by (auto simp: cache_put_def front.put_inv)
qed

text \<open>Threads of the worker pool that look addresses up in the one shared cache.\<close>

inductive geo_step :: "geo \<times> string list \<Rightarrow> geo \<times> string list \<Rightarrow> bool" where
  miss: "\<not> is_private_ip ip \<Longrightarrow> cache_get g ip = None \<Longrightarrow> geo_step (g, pend) (g, ip # pend)"
| put: "pend = ips @ ip # ips' \<Longrightarrow> geo_step (g, pend) (cache_put g ip (geo_fetch g ip), ips @ ips')"

inductive geo_reach :: "geo \<Rightarrow> geo \<times> string list \<Rightarrow> bool" for g0 where
  start: "geo_reach g0 (g0, [])"
| step: "geo_reach g0 c \<Longrightarrow> geo_step c c' \<Longrightarrow> geo_reach g0 c'"

inductive_cases geo_stepE: "geo_step (g, pend) c'"

lemma geo_reach_ok:
  "geo_reach g0 c \<Longrightarrow> geo_ok g0 \<Longrightarrow> geo_ok (fst c) \<and> (\<forall>ip. geo_fetch (fst c) ip = geo_fetch g0 ip)"
proof (induction rule: geo_reach.induct)
  case (step c c')
  then show ?case by (cases c) (auto elim!: geo_stepE simp: geo_put_ok)
qed simp

lemma lookup_ok:
  "geo_ok g \<Longrightarrow> \<not> is_private_ip ip \<Longrightarrow>
   \<exists>g'. nta_geo_lookup g (Some ip) = (g', geo_fetch g ip, geo_answer (geo_fetch g ip)) \<and> geo_ok g'"
proof (cases "cache_get g ip")
  case None
  assume "geo_ok g" "\<not> is_private_ip ip"
  then show ?thesis using None geo_put_ok [of g "geo_fetch g ip" ip] by (simp add: nta_geo_lookup_def Let_def)
next
  case (Some out)
  assume "geo_ok g" "\<not> is_private_ip ip"
  moreover from this Some have "out = geo_fetch g ip" by (simp add: geo_ok_def)
  ultimately show ?thesis using Some by (simp add: nta_geo_lookup_def)
qed

section \<open>Properties\<close>

text \<open>
  C27. However the workers' lookups interleave (a worker that missed may put its result after any
  number of other puts), a lookup of a public address returns what the databases hold for it, and a
  private one nothing: the shared cache is invisible.
\<close>

theorem geo_cache_transparent:
  assumes "nta_geo_open city asn = Some g0" and "geo_reach g0 (g, pend)"
  shows "\<exists>g'. nta_geo_lookup g (Some ip) =
    (if is_private_ip ip then (g, zero_result, 0)
     else (g', geo_fetch g0 ip, geo_answer (geo_fetch g0 ip)))"
  using geo_reach_ok [OF assms(2) geo_open_ok [OF assms(1)]] lookup_ok [of g ip]
  by (cases "is_private_ip ip") (auto simp: nta_geo_lookup_def)

definition demo_city :: city_db where
  "demo_city ip = (if ip = ''8.8.8.8'' then Some (37, - 122) else None)"

definition demo_geo :: geo where
  "demo_geo = \<lparr>mmdb_city = demo_city, mmdb_asn = (\<lambda>ip. None), city_open = True, asn_open = False,
     geo_buckets = new_table GEO_BUCKETS\<rparr>"

definition demo_result :: geo_result where
  "demo_result = zero_result\<lparr>lat := 37, lon := - 122, has_geo := True\<rparr>"

theorem geo_cache_transparent_witness:
  "\<exists>g'. nta_geo_lookup (cache_put demo_geo ''8.8.8.8'' demo_result) (Some ''8.8.8.8'') = (g', demo_result, 1)"
proof -
  have o: "nta_geo_open (Some demo_city) None = Some demo_geo"
    by (simp add: nta_geo_open_def demo_geo_def)
  have f: "geo_fetch demo_geo ''8.8.8.8'' = demo_result"
    by (simp add: geo_fetch_def demo_geo_def lookup_city_def lookup_asn_def demo_city_def demo_result_def)
  have "geo_step (demo_geo, []) (demo_geo, [''8.8.8.8''])"
    by (rule miss) (simp_all add: is_private_ip_def demo_geo_def cache_get_def GEO_BUCKETS_def)
  then have "geo_reach demo_geo (demo_geo, [''8.8.8.8''])"
    by (rule geo_reach.step [OF start])
  moreover have "geo_step (demo_geo, [] @ ''8.8.8.8'' # [])
      (cache_put demo_geo ''8.8.8.8'' (geo_fetch demo_geo ''8.8.8.8''), [] @ [])"
    by (rule put) (rule refl)
  ultimately have "geo_reach demo_geo (cache_put demo_geo ''8.8.8.8'' demo_result, [])"
    unfolding f append_Nil by (rule geo_reach.step)
  from geo_cache_transparent [OF o this, of "''8.8.8.8''"] show ?thesis
    by (simp add: f is_private_ip_def geo_answer_def demo_result_def)
qed

end
