(* ===== verification/Nta_Ioc.thy ===== *)
theory Nta_Ioc
  imports Nta_Http
begin

text \<open>
  Indicators of compromise (\<open>src/server/nta_ioc.c\<close>): the lists of a JSON file loaded into a chained
  table from address to list name, read-only afterwards. The file's content (\<open>None\<close> when it cannot
  be read or is over 64 MB) and the JSON parser are arguments; allocation is taken to succeed.
\<close>

record ioc =
  ioc_buckets :: "string table"
  list_names :: "string list"
  n_ips :: int

definition IOC_BUCKETS :: nat where "IOC_BUCKETS = 8192"

definition slurp_file :: "string option \<Rightarrow> string option" where
  "slurp_file file =
     (case file of None \<Rightarrow> None | Some s \<Rightarrow> if length s > 64 * 1024 * 1024 then None else Some s)"

definition ioc_insert :: "ioc \<Rightarrow> string \<Rightarrow> string \<Rightarrow> ioc \<times> int" where
  "ioc_insert ioc ip list_name =
     (if length ip \<ge> IP_KEY_MAX then (ioc, - 1)
      else case put_first (ioc_buckets ioc) ip list_name of
             (t, inserted) \<Rightarrow>
               if inserted then (ioc\<lparr>ioc_buckets := t, n_ips := n_ips ioc + 1\<rparr>, 1) else (ioc, 0))"

text \<open>The loop over the addresses of one list, and the loop over the lists.\<close>

fun ioc_add_ips :: "ioc \<Rightarrow> string \<Rightarrow> json list \<Rightarrow> ioc" where
  "ioc_add_ips ioc name [] = ioc"
| "ioc_add_ips ioc name (j # js) =
     (case valuestring j of
        None \<Rightarrow> ioc_add_ips ioc name js
      | Some ip \<Rightarrow> ioc_add_ips (fst (ioc_insert ioc ip name)) name js)"

definition ioc_add_list :: "ioc \<Rightarrow> json \<Rightarrow> ioc" where
  "ioc_add_list ioc lst =
     (if \<not> is_object lst then ioc
      else case (get_item_cs lst ''name'', get_item_cs lst ''ips'') of
             (Some (JString name), Some (JArray ips)) \<Rightarrow>
               ioc_add_ips (ioc\<lparr>list_names := list_names ioc @ [name]\<rparr>) name ips
           | _ \<Rightarrow> ioc)"

definition empty_ioc :: ioc where
  "empty_ioc = \<lparr>ioc_buckets = new_table IOC_BUCKETS, list_names = [], n_ips = 0\<rparr>"

definition nta_ioc_load ::
  "(string \<Rightarrow> string option) \<Rightarrow> (string \<Rightarrow> json option) \<Rightarrow> string option \<Rightarrow> ioc option" where
  "nta_ioc_load files parse path =
     (case path of
        None \<Rightarrow> None
      | Some p \<Rightarrow>
          if p = [] then None
          else case slurp_file (files p) of
                 None \<Rightarrow> None
               | Some buf \<Rightarrow>
                   (case parse buf of
                      Some doc \<Rightarrow>
                        if \<not> is_object doc then None
                        else (case get_item_cs doc ''lists'' of
                                Some (JArray lsts) \<Rightarrow>
                                  (let ioc = foldl ioc_add_list empty_ioc lsts
                                   in if n_ips ioc = 0 then None else Some ioc)
                              | _ \<Rightarrow> None)
                    | None \<Rightarrow> None))"

definition nta_ioc_match_ip :: "ioc option \<Rightarrow> string option \<Rightarrow> string option" where
  "nta_ioc_match_ip ioc ip =
     (case (ioc, ip) of
        (Some i, Some a) \<Rightarrow> if a = [] then None else table_find (ioc_buckets i) a
      | _ \<Rightarrow> None)"

definition nta_ioc_size :: "ioc option \<Rightarrow> int" where
  "nta_ioc_size ioc = (case ioc of None \<Rightarrow> 0 | Some i \<Rightarrow> n_ips i)"

section \<open>The table keeps the first insert\<close>

definition ioc_ok :: "ioc \<Rightarrow> bool" where
  "ioc_ok ioc \<longleftrightarrow> table_ok (ioc_buckets ioc) \<and> finite (dom (table_find (ioc_buckets ioc))) \<and>
     n_ips ioc = int (card (dom (table_find (ioc_buckets ioc))))"

definition ioc_find :: "ioc \<Rightarrow> string \<Rightarrow> string option" where
  "ioc_find ioc ip = table_find (ioc_buckets ioc) ip"

definition ioc_ins :: "ioc \<Rightarrow> string \<Rightarrow> string \<Rightarrow> ioc" where
  "ioc_ins ioc ip name = fst (ioc_insert ioc ip name)"

lemma ioc_ins_cases:
  "ioc_ins ioc ip name =
     (if IP_KEY_MAX \<le> length ip \<or> ioc_find ioc ip \<noteq> None then ioc
      else ioc\<lparr>ioc_buckets := table_push (ioc_buckets ioc) ip name, n_ips := n_ips ioc + 1\<rparr>)"
  by (auto simp: ioc_ins_def ioc_insert_def put_first_def ioc_find_def split: option.splits)

interpretation ioc_tab: kv_first ioc_ok ioc_find ioc_ins
proof unfold_locales
  fix s :: ioc and k v
  assume ok: "ioc_ok s"
  let ?new = "s\<lparr>ioc_buckets := table_push (ioc_buckets s) k v, n_ips := n_ips s + 1\<rparr>"
  have find: "ioc_find ?new = (ioc_find s)(k \<mapsto> v)" if "\<not> IP_KEY_MAX \<le> length k"
    using ok that by (auto simp: fun_eq_iff ioc_ok_def table_push_find ioc_find_def)
  have fresh: "k \<notin> dom (ioc_find s)" if "ioc_find s k = None"
    using that by auto
  have dom: "dom (table_find (ioc_buckets x)) = dom (ioc_find x)" for x
    by (auto simp: ioc_find_def)
  have "ioc_ok ?new" if "\<not> IP_KEY_MAX \<le> length k" "ioc_find s k = None"
    using ok fresh [OF that(2)] find [OF that(1)] unfolding ioc_ok_def dom
    by (simp add: table_push_def)
  then show "ioc_ok (ioc_ins s k v)" using ok by (simp add: ioc_ins_cases)
  show "ioc_find (ioc_ins s k v) =
      (if IP_KEY_MAX \<le> length k \<or> ioc_find s k \<noteq> None then ioc_find s else (ioc_find s)(k \<mapsto> v))"
    using find by (simp add: ioc_ins_cases)
qed

text \<open>What a list of the file contributes, and the whole file, in order.\<close>

definition list_pairs :: "json \<Rightarrow> (string \<times> string) list" where
  "list_pairs lst =
     (if \<not> is_object lst then []
      else case (get_item_cs lst ''name'', get_item_cs lst ''ips'') of
             (Some (JString name), Some (JArray ips)) \<Rightarrow>
               List.map (\<lambda>ip. (ip, name)) (List.map_filter valuestring ips)
           | _ \<Rightarrow> [])"

definition ioc_pairs :: "json list \<Rightarrow> (string \<times> string) list" where
  "ioc_pairs lsts = concat (List.map list_pairs lsts)"

definition ins_all :: "ioc \<Rightarrow> (string \<times> string) list \<Rightarrow> ioc" where
  "ins_all ioc kvs = foldl (\<lambda>s (k, v). ioc_ins s k v) ioc kvs"

lemma ins_all_append: "ins_all s (xs @ ys) = ins_all (ins_all s xs) ys"
  by (simp add: ins_all_def)

lemma ins_all_names: "list_names (ins_all s kvs) = list_names s"
proof -
  have "list_names (ioc_ins s k v) = list_names s" for s k v by (simp add: ioc_ins_cases)
  then show ?thesis unfolding ins_all_def by (induction kvs arbitrary: s) auto
qed

lemma add_ips_ins_all:
  "ioc_add_ips ioc name js = ins_all ioc (List.map (\<lambda>ip. (ip, name)) (List.map_filter valuestring js))"
proof (induction js arbitrary: ioc)
  case (Cons j js)
  then show ?case
    by (cases "valuestring j") (simp_all add: ins_all_def ioc_ins_def map_filter_simps)
qed (simp add: ins_all_def map_filter_simps)

lemma add_list_find:
  "ioc_ok ioc \<Longrightarrow> ioc_ok (ioc_add_list ioc l) \<and>
   ioc_find (ioc_add_list ioc l) = map_of (filter (\<lambda>(k, v). length k < IP_KEY_MAX) (list_pairs l)) ++ ioc_find ioc"
proof -
  assume ok: "ioc_ok ioc"
  obtain s where s: "ioc_add_list ioc l = ins_all s (list_pairs l)" and "ioc_ok s" "ioc_find s = ioc_find ioc"
  proof (cases "is_object l \<and> (\<exists>name ips. get_item_cs l ''name'' = Some (JString name) \<and> get_item_cs l ''ips'' = Some (JArray ips))")
    case True
    then obtain name ips where "get_item_cs l ''name'' = Some (JString name)" "get_item_cs l ''ips'' = Some (JArray ips)"
      by blast
    then show thesis using that [of "ioc\<lparr>list_names := list_names ioc @ [name]\<rparr>"] ok True
      by (simp add: ioc_add_list_def list_pairs_def add_ips_ins_all ioc_ok_def ioc_find_def fun_eq_iff)
  next
    case False
    then have "ioc_add_list ioc l = ioc" "list_pairs l = []"
      by (auto simp: ioc_add_list_def list_pairs_def split: option.splits json.splits)
    then show thesis using that [of ioc] ok by (simp add: ins_all_def)
  qed
  then show ?thesis using ioc_tab.inserts_find [of s "list_pairs l"] by (simp add: ins_all_def)
qed

lemma load_find:
  "ioc_ok ioc \<Longrightarrow> ioc_ok (foldl ioc_add_list ioc lsts) \<and>
   ioc_find (foldl ioc_add_list ioc lsts) =
     map_of (filter (\<lambda>(k, v). length k < IP_KEY_MAX) (ioc_pairs lsts)) ++ ioc_find ioc"
proof (induction lsts arbitrary: ioc)
  case (Cons l ls)
  from add_list_find [OF Cons.prems, of l] have 1: "ioc_ok (ioc_add_list ioc l)"
    "ioc_find (ioc_add_list ioc l) = map_of (filter (\<lambda>(k, v). length k < IP_KEY_MAX) (list_pairs l)) ++ ioc_find ioc"
    by simp_all
  with Cons.IH [OF 1(1)] show ?case
    by (simp add: ioc_pairs_def map_of_append fun_eq_iff map_add_def split: option.splits)
qed (simp add: ioc_pairs_def)

lemma empty_ioc_ok: "ioc_ok empty_ioc" "ioc_find empty_ioc = (\<lambda>ip. None)"
  by (auto simp: ioc_ok_def empty_ioc_def IOC_BUCKETS_def ioc_find_def fun_eq_iff dom_def)

section \<open>Properties\<close>

text \<open>
  C28. A loaded indicator table answers with the first list of the file that names the address (of
  those shorter than 46 characters), and its size is the number of distinct addresses it holds: the
  hashed table is equivalent to a scan of the file.
\<close>

theorem ioc_first_list_wins:
  assumes "nta_ioc_load files parse (Some p) = Some ioc"
    and "files p = Some buf" and "parse buf = Some doc" and "get_item_cs doc ''lists'' = Some (JArray lsts)"
  shows "nta_ioc_match_ip (Some ioc) (Some ip) =
      (if ip = [] then None else map_of (filter (\<lambda>(k, v). length k < IP_KEY_MAX) (ioc_pairs lsts)) ip) \<and>
    nta_ioc_size (Some ioc) = int (card {k. \<exists>v. (k, v) \<in> set (ioc_pairs lsts) \<and> length k < IP_KEY_MAX})"
proof -
  have ioc: "ioc = foldl ioc_add_list empty_ioc lsts"
    using assms by (auto simp: nta_ioc_load_def Let_def slurp_file_def split: if_splits)
  let ?short = "filter (\<lambda>(k, v). length k < IP_KEY_MAX) (ioc_pairs lsts)"
  from load_find [OF empty_ioc_ok(1), of lsts] have ok: "ioc_ok ioc" and f: "ioc_find ioc = map_of ?short"
    by (simp_all add: ioc empty_ioc_ok)
  have "dom (table_find (ioc_buckets ioc)) = dom (map_of ?short)"
    by (simp flip: f add: ioc_find_def dom_def)
  also have "\<dots> = {k. \<exists>v. (k, v) \<in> set (ioc_pairs lsts) \<and> length k < IP_KEY_MAX}"
    by (auto simp: dom_map_of_conv_image_fst image_iff)
  finally show ?thesis using ok f by (auto simp: nta_ioc_match_ip_def nta_ioc_size_def ioc_ok_def fun_eq_iff ioc_find_def)
qed

definition demo_lists :: "json list" where
  "demo_lists = [JObject [(''name'', JString ''a''), (''ips'', JArray [JString ''1.2.3.4''])],
     JObject [(''name'', JString ''b''), (''ips'', JArray [JString ''1.2.3.4'', JNull, JString ''5.6.7.8''])]]"

definition demo_doc :: json where
  "demo_doc = JObject [(''lists'', JArray demo_lists)]"

lemma demo_pairs: "ioc_pairs demo_lists = [(''1.2.3.4'', ''a''), (''1.2.3.4'', ''b''), (''5.6.7.8'', ''b'')]"
  by (simp add: ioc_pairs_def demo_lists_def list_pairs_def map_filter_simps)

lemma demo_load:
  "nta_ioc_load (\<lambda>p. Some ''x'') (\<lambda>s. Some demo_doc) (Some ''f'') = Some (foldl ioc_add_list empty_ioc demo_lists)"
proof -
  from load_find [OF empty_ioc_ok(1), of demo_lists]
  have ok: "ioc_ok (foldl ioc_add_list empty_ioc demo_lists)"
    and f: "ioc_find (foldl ioc_add_list empty_ioc demo_lists) ''1.2.3.4'' = Some ''a''"
    by (simp_all add: demo_pairs empty_ioc_ok IP_KEY_MAX_def)
  from f have "''1.2.3.4'' \<in> dom (table_find (ioc_buckets (foldl ioc_add_list empty_ioc demo_lists)))"
    by (simp add: ioc_find_def domI)
  with ok have n: "n_ips (foldl ioc_add_list empty_ioc demo_lists) \<noteq> 0"
    by (auto simp only: ioc_ok_def card_eq_0_iff of_nat_eq_0_iff)
  have o: "is_object demo_doc" "get_item_cs demo_doc ''lists'' = Some (JArray demo_lists)"
    by (simp_all add: demo_doc_def)
  show ?thesis using n by (simp add: nta_ioc_load_def slurp_file_def o Let_def)
qed

theorem ioc_first_list_wins_witness:
  "nta_ioc_match_ip (Some (foldl ioc_add_list empty_ioc demo_lists)) (Some ''1.2.3.4'') = Some ''a''"
proof -
  have g: "get_item_cs demo_doc ''lists'' = Some (JArray demo_lists)" by (simp add: demo_doc_def)
  have m: "map_of (filter (\<lambda>(k, v). length k < IP_KEY_MAX) (ioc_pairs demo_lists)) ''1.2.3.4'' = Some ''a''"
    by (simp add: demo_pairs IP_KEY_MAX_def)
  from ioc_first_list_wins [OF demo_load refl refl g, of "''1.2.3.4''"] show ?thesis
    unfolding m by simp
qed

end
