(* ===== verification/Nta_Abuse.thy ===== *)
theory Nta_Abuse
  imports Nta_Http
begin

text \<open>
  The AbuseIPDB enricher (\<open>src/server/nta_abuse.c\<close>): configuration, the cache with its positive and
  negative lifetimes, the HTTP query and the public lookup. The lookup runs under the module's lock
  from the cache read to the cache write, so one call is one step. The clock reading and what the
  service answers if it is asked are arguments of a call; every URL fetched is appended to a log.
\<close>

record abuse_cfg =
  ac_api_key :: string
  ac_url :: string
  ac_timeout_sec :: int
  ac_max_age_days :: int
  ac_ttl_sec :: int
  ac_neg_ttl_sec :: int
  ac_min_republish_score :: int
  ac_enabled :: bool

record abuse =
  ab_cfg :: abuse_cfg
  ab_buckets :: "(int \<times> time_t) table"
  ab_fetched :: "string list"

definition ABUSE_BUCKETS :: nat where "ABUSE_BUCKETS = 4096"

text \<open>\<open>nta_abuse_load\<close>: the file of the repository, then the environment it completes.\<close>

definition nta_abuse_load :: "(string \<Rightarrow> string option) \<Rightarrow> string option \<Rightarrow> env \<Rightarrow> abuse_cfg \<times> env" where
  "nta_abuse_load files repo_root e0 =
     (let e = (case repo_root of
                 None \<Rightarrow> e0
               | Some r \<Rightarrow> load_env_file (files (cstr_copy 1024 (r @ ''/deploy/secrets/abuseipdb.env''))) e0);
          key = cstr_copy 128 (env_or e ''ABUSEIPDB_API_KEY'' [])
      in (\<lparr>ac_api_key = key,
           ac_url = cstr_copy 256 (env_or e ''ABUSEIPDB_URL'' ''https://api.abuseipdb.com/api/v2/check''),
           ac_timeout_sec = env_any_int e ''ABUSEIPDB_TIMEOUT'' 5,
           ac_max_age_days = env_any_int e ''ABUSEIPDB_MAX_AGE_DAYS'' 90,
           ac_ttl_sec = env_any_int e ''ABUSEIPDB_TTL'' 86400,
           ac_neg_ttl_sec = env_any_int e ''ABUSEIPDB_NEG_TTL'' 300,
           ac_min_republish_score = env_any_int e ''ABUSEIPDB_MIN_REPUBLISH_SCORE'' 75,
           ac_enabled = (key \<noteq> [])\<rparr>, e))"

text \<open>\<open>have_curl\<close> is whether \<open>curl_easy_init\<close> gave a handle.\<close>

definition nta_abuse_open :: "bool \<Rightarrow> abuse_cfg option \<Rightarrow> abuse option" where
  "nta_abuse_open have_curl cfg =
     (case cfg of
        None \<Rightarrow> None
      | Some c \<Rightarrow> if \<not> ac_enabled c \<or> \<not> have_curl then None
                  else Some \<lparr>ab_cfg = c, ab_buckets = new_table ABUSE_BUCKETS, ab_fetched = []\<rparr>)"

section \<open>Cache\<close>

definition cache_get_locked :: "abuse \<Rightarrow> string \<Rightarrow> time_t \<Rightarrow> int option" where
  "cache_get_locked a ip now =
     (case table_find (ab_buckets a) ip of
        None \<Rightarrow> None
      | Some (score, expires_at) \<Rightarrow> if expires_at < now then None else Some score)"

definition cache_put_locked :: "abuse \<Rightarrow> string \<Rightarrow> int \<Rightarrow> time_t \<Rightarrow> abuse" where
  "cache_put_locked a ip score expires_at =
     a\<lparr>ab_buckets := put_update (ab_buckets a) ip (score, expires_at)\<rparr>"

section \<open>HTTP\<close>

definition abuse_write_cb :: "resp_buf \<Rightarrow> string \<Rightarrow> resp_buf option" where
  "abuse_write_cb r p =
     (if rsp_len r + length p + 1 > rsp_cap r then
        let nc = grow (if rsp_cap r \<noteq> 0 then rsp_cap r * 2 else 1024) (rsp_len r + length p + 1)
        in if nc > 64 * 1024 then None else Some (rsp_append r p nc)
      else Some (rsp_append r p (rsp_cap r)))"

definition abuse_url :: "abuse_cfg \<Rightarrow> string \<Rightarrow> string" where
  "abuse_url c ip =
     cstr_copy 512 (ac_url c @ ''?ipAddress='' @ ip @ ''&maxAgeInDays='' @ fmt_d (ac_max_age_days c))"

text \<open>The score in a parsed answer.\<close>

definition abuse_json_score :: "json option \<Rightarrow> int" where
  "abuse_json_score doc =
     (if \<not> opt_is is_object doc then - 1
      else case get_item_cs (the doc) ''data'' of
             None \<Rightarrow> - 1
           | Some data \<Rightarrow>
               (case get_item_cs data ''abuseConfidenceScore'' of
                  Some (JNumber d) \<Rightarrow>
                    (let score = cast_int d;
                         score = (if score < 0 then 0 else score)
                     in if score > 100 then 100 else score)
                | _ \<Rightarrow> - 1))"

definition http_query_locked :: "(string \<Rightarrow> json option) \<Rightarrow> http_reply \<Rightarrow> abuse \<Rightarrow> string \<Rightarrow> abuse \<times> int" where
  "http_query_locked parse reply a ip =
     (let a1 = a\<lparr>ab_fetched := ab_fetched a @ [abuse_url (ab_cfg a) ip]\<rparr>;
          (ok, r) = curl_easy_perform abuse_write_cb reply
      in if \<not> ok then (a1, - 1)
         else if http_code reply < 200 \<or> http_code reply \<ge> 300 then (a1, - 1)
         else (a1, abuse_json_score (parse_resp parse r)))"

section \<open>Lookup\<close>

definition nta_abuse_score ::
  "(string \<Rightarrow> json option) \<Rightarrow> time_t \<Rightarrow> http_reply \<Rightarrow> abuse \<Rightarrow> string \<Rightarrow> abuse \<times> int" where
  "nta_abuse_score parse now reply a ip =
     (if ip = [] then (a, - 1)
      else if is_private_ip ip then (a, - 1)
      else case cache_get_locked a ip now of
             Some score \<Rightarrow> (a, score)
           | None \<Rightarrow>
               (case http_query_locked parse reply a ip of
                  (a1, score) \<Rightarrow>
                    (let exp = (if score \<ge> 0 then now + ac_ttl_sec (ab_cfg a1)
                                else now + ac_neg_ttl_sec (ab_cfg a1))
                     in (cache_put_locked a1 ip score exp, score))))"

section \<open>Lemmas\<close>

definition score_ok :: "int \<Rightarrow> bool" where
  "score_ok s \<longleftrightarrow> - 1 \<le> s \<and> s \<le> 100"

definition abuse_ok :: "abuse \<Rightarrow> bool" where
  "abuse_ok a \<longleftrightarrow> table_ok (ab_buckets a) \<and>
     (\<forall>ip s t. table_find (ab_buckets a) ip = Some (s, t) \<longrightarrow> score_ok s)"

lemma abuse_ok_table [simp]: "abuse_ok a \<Longrightarrow> table_ok (ab_buckets a)"
  by (simp add: abuse_ok_def)

lemma abuse_open_ok: "nta_abuse_open c cfg = Some a \<Longrightarrow> abuse_ok a \<and> ab_fetched a = []"
  by (auto simp: nta_abuse_open_def abuse_ok_def ABUSE_BUCKETS_def split: option.splits if_splits)

lemma json_score_ok: "score_ok (abuse_json_score j)"
  by (auto simp: abuse_json_score_def score_ok_def Let_def split: option.splits json.splits)

lemma query_result:
  "http_query_locked parse reply a ip = (a1, s) \<Longrightarrow>
   a1 = a\<lparr>ab_fetched := ab_fetched a @ [abuse_url (ab_cfg a) ip]\<rparr> \<and> score_ok s"
  using json_score_ok by (auto simp: http_query_locked_def Let_def score_ok_def split: prod.splits if_splits)

lemma put_ok: "abuse_ok a \<Longrightarrow> score_ok s \<Longrightarrow> abuse_ok (cache_put_locked a ip s t)"
proof -
  assume ok: "abuse_ok a" and s: "score_ok s"
  have "score_ok (fst w)" if "table_find (put_update (ab_buckets a) ip (s, t)) k = Some w" for k w
  proof (rule upd.find_put_all [OF _ _ _ that])
    fix k' v assume "table_find (ab_buckets a) k' = Some v"
    then show "score_ok (fst v)" using ok by (cases v) (auto simp: abuse_ok_def)
  qed (use ok s in simp_all)
  then show ?thesis using ok by (force simp: abuse_ok_def cache_put_locked_def upd.put_inv)
qed

text \<open>The three outcomes of a lookup.\<close>

lemma score_cases:
  assumes "nta_abuse_score parse now reply a ip = (a', s)"
  obtains (skip) "ip = [] \<or> is_private_ip ip" "a' = a" "s = - 1"
  | (hit) "\<not> is_private_ip ip" "cache_get_locked a ip now = Some s" "a' = a"
  | (miss) "\<not> is_private_ip ip" "cache_get_locked a ip now = None" "score_ok s"
      "a' = cache_put_locked (a\<lparr>ab_fetched := ab_fetched a @ [abuse_url (ab_cfg a) ip]\<rparr>) ip s
         (now + (if s \<ge> 0 then ac_ttl_sec (ab_cfg a) else ac_neg_ttl_sec (ab_cfg a)))"
proof -
  consider "ip = [] \<or> is_private_ip ip"
    | sc where "\<not> (ip = [] \<or> is_private_ip ip)" "cache_get_locked a ip now = Some sc"
    | "\<not> (ip = [] \<or> is_private_ip ip)" "cache_get_locked a ip now = None"
    by (cases "cache_get_locked a ip now") auto
  then show thesis
  proof cases
    case 1
    then have "nta_abuse_score parse now reply a ip = (a, - 1)" by (auto simp: nta_abuse_score_def)
    then show thesis using assms 1 by (intro skip) simp_all
  next
    case (2 sc)
    then show thesis using assms by (intro hit) (simp_all add: nta_abuse_score_def)
  next
    case 3
    obtain a1 sc where q: "http_query_locked parse reply a ip = (a1, sc)"
      by (cases "http_query_locked parse reply a ip")
    have a1: "a1 = a\<lparr>ab_fetched := ab_fetched a @ [abuse_url (ab_cfg a) ip]\<rparr>" "score_ok sc"
      using query_result [OF q] by simp_all
    have "a' = cache_put_locked a1 ip sc (now + (if sc \<ge> 0 then ac_ttl_sec (ab_cfg a1) else ac_neg_ttl_sec (ab_cfg a1)))"
      "s = sc"
      using assms 3 by (auto simp: nta_abuse_score_def q Let_def)
    then show thesis using 3 a1 by (intro miss) simp_all
  qed
qed

lemma cached_range: "abuse_ok a \<Longrightarrow> cache_get_locked a ip now = Some s \<Longrightarrow> score_ok s"
  by (auto simp: abuse_ok_def cache_get_locked_def split: option.splits prod.splits if_splits)

lemma score_step:
  assumes "abuse_ok a" "nta_abuse_score parse now reply a ip = (a', s)"
  shows "abuse_ok a' \<and> score_ok s \<and> ab_cfg a' = ab_cfg a"
proof (rule score_cases [OF assms(2)])
  assume m: "score_ok s" "a' = cache_put_locked (a\<lparr>ab_fetched := ab_fetched a @ [abuse_url (ab_cfg a) ip]\<rparr>) ip s
         (now + (if s \<ge> 0 then ac_ttl_sec (ab_cfg a) else ac_neg_ttl_sec (ab_cfg a)))"
  have "abuse_ok (a\<lparr>ab_fetched := ab_fetched a @ [abuse_url (ab_cfg a) ip]\<rparr>)"
    using assms(1) by (simp add: abuse_ok_def)
  from put_ok [OF this m(1)] show ?thesis by (simp only: m) (simp add: m(1) cache_put_locked_def)
qed (use assms cached_range in \<open>auto simp: score_ok_def\<close>)

text \<open>A sequence of calls, each with its clock reading and its answer.\<close>

fun abuse_calls ::
  "(string \<Rightarrow> json option) \<Rightarrow> (string \<times> time_t \<times> http_reply) list \<Rightarrow> abuse \<Rightarrow> abuse \<times> int list" where
  "abuse_calls parse [] a = (a, [])"
| "abuse_calls parse ((ip, now, reply) # cs) a =
     (case nta_abuse_score parse now reply a ip of
        (a1, s) \<Rightarrow> case abuse_calls parse cs a1 of (a2, ss) \<Rightarrow> (a2, s # ss))"

lemma abuse_calls_ok:
  "abuse_ok a \<Longrightarrow> abuse_calls parse cs a = (a', ss) \<Longrightarrow> abuse_ok a' \<and> (\<forall>s \<in> set ss. score_ok s) \<and> ab_cfg a' = ab_cfg a"
proof (induction cs arbitrary: a ss)
  case (Cons c cs)
  obtain ip now reply where c: "c = (ip, now, reply)" by (cases c)
  obtain a1 s where 1: "nta_abuse_score parse now reply a ip = (a1, s)" by force
  obtain a2 ts where 2: "abuse_calls parse cs a1 = (a2, ts)" by force
  have e: "a' = a2" "ss = s # ts" using Cons.prems(2) by (simp_all add: c 1 2)
  have s1: "abuse_ok a1" "score_ok s" "ab_cfg a1 = ab_cfg a" using score_step [OF Cons.prems(1) 1] by simp_all
  from Cons.IH [OF s1(1)] 2 e(1) have "abuse_ok a' \<and> (\<forall>s \<in> set ts. score_ok s) \<and> ab_cfg a' = ab_cfg a1" by blast
  with s1 e show ?case by simp
qed simp

text \<open>An entry survives every call for another address, and every call it answers.\<close>

lemma entry_kept:
  assumes "abuse_ok a" "table_find (ab_buckets a) ip = Some (s, t)"
    and "nta_abuse_score parse now reply a ip' = (a', s')" and "ip' \<noteq> ip \<or> now \<le> t"
  shows "table_find (ab_buckets a') ip = Some (s, t)"
proof (rule score_cases [OF assms(3)])
  assume m: "cache_get_locked a ip' now = None"
    "a' = cache_put_locked (a\<lparr>ab_fetched := ab_fetched a @ [abuse_url (ab_cfg a) ip']\<rparr>) ip' s'
         (now + (if s' \<ge> 0 then ac_ttl_sec (ab_cfg a) else ac_neg_ttl_sec (ab_cfg a)))"
  have "ip' \<noteq> ip" using m(1) assms(2,4) by (auto simp: cache_get_locked_def split: if_splits)
  then show ?thesis using m(2) assms(1,2) by (simp add: cache_put_locked_def upd.find_put_other)
qed (use assms in auto)

lemma entry_kept_calls:
  "abuse_ok a \<Longrightarrow> table_find (ab_buckets a) ip = Some (s, t) \<Longrightarrow>
   \<forall>(ip', now, reply) \<in> set cs. ip' \<noteq> ip \<or> now \<le> t \<Longrightarrow>
   table_find (ab_buckets (fst (abuse_calls parse cs a))) ip = Some (s, t)"
proof (induction cs arbitrary: a)
  case (Cons c cs)
  obtain ip' now reply where c: "c = (ip', now, reply)" by (cases c)
  obtain a1 s1 where 1: "nta_abuse_score parse now reply a ip' = (a1, s1)" by force
  have "table_find (ab_buckets a1) ip = Some (s, t)"
    using entry_kept [OF Cons.prems(1,2) 1] Cons.prems(3) by (auto simp: c)
  with Cons.IH [of a1] score_step [OF Cons.prems(1) 1] Cons.prems(3) show ?case
    by (simp add: c 1 case_prod_beta)
qed simp

section \<open>Properties\<close>

text \<open>
  Every score a lookup returns is -1 (unknown) or lies in 0..100, whatever the service answers and
  however the calls interleave; the cache keeps that invariant, so a hostile or broken answer never
  puts a score outside the range into the data base.
\<close>

theorem abuse_score_range:
  assumes "nta_abuse_open have_curl cfg = Some a" and "abuse_calls parse cs a = (a', ss)"
  shows "abuse_ok a' \<and> (\<forall>s \<in> set ss. - 1 \<le> s \<and> s \<le> 100)"
  using abuse_calls_ok [OF _ assms(2)] abuse_open_ok [OF assms(1)] by (auto simp: score_ok_def)

definition demo_abuse_cfg :: abuse_cfg where
  "demo_abuse_cfg = \<lparr>ac_api_key = ''k'', ac_url = ''u'', ac_timeout_sec = 5, ac_max_age_days = 90,
     ac_ttl_sec = 86400, ac_neg_ttl_sec = 300, ac_min_republish_score = 75, ac_enabled = True\<rparr>"

definition demo_abuse :: abuse where
  "demo_abuse = \<lparr>ab_cfg = demo_abuse_cfg, ab_buckets = new_table ABUSE_BUCKETS, ab_fetched = []\<rparr>"

definition demo_answer :: http_reply where
  "demo_answer = \<lparr>curl_ok = True, http_code = 200, chunks = [''x'']\<rparr>"

definition demo_parse :: "string \<Rightarrow> json option" where
  "demo_parse s = Some (JObject [(''data'', JObject [(''abuseConfidenceScore'', JNumber 250)])])"

lemma demo_open: "nta_abuse_open True (Some demo_abuse_cfg) = Some demo_abuse"
  by (simp add: nta_abuse_open_def demo_abuse_cfg_def demo_abuse_def)

lemma demo_first_score:
  "nta_abuse_score demo_parse 1000 demo_answer demo_abuse ''8.8.8.8'' =
     (cache_put_locked (demo_abuse\<lparr>ab_fetched := [abuse_url demo_abuse_cfg ''8.8.8.8'']\<rparr>) ''8.8.8.8'' 100 87400, 100)"
proof -
  have "cast_int 250 = 250" using cast_int_of_int [of 250] by simp
  then have "abuse_json_score (demo_parse s) = 100" for s
    by (simp add: abuse_json_score_def demo_parse_def opt_is_def)
  moreover have "curl_easy_perform abuse_write_cb demo_answer = (True, \<lparr>rsp_data = Some ''x'', rsp_cap = 1024\<rparr>)"
    by (simp add: curl_easy_perform_def demo_answer_def empty_resp_def abuse_write_cb_def rsp_len_def
        rsp_append_def Let_def grow.simps)
  moreover have "cache_get_locked demo_abuse ''8.8.8.8'' 1000 = None"
    by (simp add: cache_get_locked_def demo_abuse_def ABUSE_BUCKETS_def)
  ultimately show ?thesis
    by (simp add: nta_abuse_score_def is_private_ip_def http_query_locked_def demo_answer_def parse_resp_def
        demo_abuse_def demo_abuse_cfg_def)
qed

theorem abuse_score_range_witness:
  "\<exists>a' ss. abuse_calls demo_parse [(''8.8.8.8'', 1000, demo_answer)] demo_abuse = (a', ss) \<and> ss = [100] \<and>
     abuse_ok a' \<and> (\<forall>s \<in> set ss. - 1 \<le> s \<and> s \<le> 100)"
proof -
  obtain a' ss where e: "abuse_calls demo_parse [(''8.8.8.8'', 1000, demo_answer)] demo_abuse = (a', ss)"
    by force
  then have "ss = [100]" by (auto simp: demo_first_score)
  with abuse_score_range [OF demo_open e] e show ?thesis by blast
qed

text \<open>
  C29. One answer serves a whole lifetime: once a lookup of a public address has returned, then however
  many lookups follow (of other addresses at any time, of the same one up to the expiry, which is the
  time of the first one plus \<open>ttl_sec\<close> for a score and \<open>neg_ttl_sec\<close> for a failure), a lookup up to
  the expiry returns the same score, whatever the service would answer, and fetches nothing.
\<close>

theorem abuse_cached_for_ttl:
  assumes ok: "abuse_ok a" and pub: "\<not> is_private_ip ip" "length ip < IP_KEY_MAX"
    and miss: "cache_get_locked a ip t0 = None"
    and first: "nta_abuse_score parse t0 reply a ip = (a1, s)"
    and exp: "t = t0 + (if s \<ge> 0 then ac_ttl_sec (ab_cfg a) else ac_neg_ttl_sec (ab_cfg a))"
    and between: "\<forall>(ip', now, reply') \<in> set cs. ip' \<noteq> ip \<or> now \<le> t"
    and a2: "abuse_calls parse cs a1 = (a2, ss)" and later: "t1 \<le> t"
  shows "nta_abuse_score parse t1 reply1 a2 ip = (a2, s)"
proof -
  have ok1: "abuse_ok a1" using score_step [OF ok first] by simp
  have "table_find (ab_buckets a1) ip = Some (s, t)"
    by (rule score_cases [OF first])
      (use ok pub miss exp in \<open>auto simp: cache_put_locked_def is_private_ip_def\<close>)
  then have "table_find (ab_buckets a2) ip = Some (s, t)"
    using entry_kept_calls [OF ok1 _ between, of s parse] a2 by simp
  then show ?thesis using later pub
    by (simp add: nta_abuse_score_def cache_get_locked_def is_private_ip_def)
qed

theorem abuse_cached_for_ttl_witness:
  "nta_abuse_score demo_parse 80000 demo_answer
     (fst (nta_abuse_score demo_parse 1000 demo_answer demo_abuse ''8.8.8.8'')) ''8.8.8.8'' =
   (fst (nta_abuse_score demo_parse 1000 demo_answer demo_abuse ''8.8.8.8''), 100)"
proof -
  have ok: "abuse_ok demo_abuse" using abuse_open_ok [OF demo_open] by simp
  have "cache_get_locked demo_abuse ''8.8.8.8'' 1000 = None"
    by (simp add: cache_get_locked_def demo_abuse_def ABUSE_BUCKETS_def)
  note c = abuse_cached_for_ttl [OF ok _ _ this demo_first_score refl, of "[]" _ "[]" 80000 demo_answer]
  show ?thesis
    by (simp only: demo_first_score fst_conv, rule c)
      (simp_all add: is_private_ip_def IP_KEY_MAX_def demo_abuse_def demo_abuse_cfg_def)
qed

end
