(* ===== verification/Nta_Influx.thy ===== *)
theory Nta_Influx
  imports Nta_Lineproto Nta_Srvconf Nta_Geo Nta_Ioc Nta_Abuse
begin

text \<open>
  The InfluxDB writer (\<open>src/server/nta_influx.c\<close>): one point of line protocol per traffic event with
  its enrichment, and the four writes (traffic, metrics, narrative, pool). A handle keeps the log of
  the bodies it posted; what the HTTP request returns is an argument. The enrichment state \<open>enrich\<close>
  holds the three shared modules, and for the abuse lookups the clock reading and the service's
  answer of each call in turn.
\<close>

record influx =
  inf_endpoint :: string
  inf_ready :: bool
  inf_posted :: "string list"

record enrich =
  en_geo :: "geo option"
  en_ioc :: "ioc option"
  en_abuse :: "abuse option"
  en_answers :: "nat \<Rightarrow> time_t \<times> http_reply"
  en_asked :: nat

text \<open>\<open>nta_abuse_score\<close> on the shared instance; -1 when there is none.\<close>

definition ask_abuse :: "(string \<Rightarrow> json option) \<Rightarrow> enrich \<Rightarrow> string \<Rightarrow> enrich \<times> int" where
  "ask_abuse parse en ip =
     (case en_abuse en of
        None \<Rightarrow> (en, - 1)
      | Some a \<Rightarrow>
          (case en_answers en (en_asked en) of
             (now, reply) \<Rightarrow>
               (case nta_abuse_score parse now reply a ip of
                  (a', s) \<Rightarrow> (en\<lparr>en_abuse := Some a', en_asked := en_asked en + 1\<rparr>, s))))"

definition ask_geo :: "enrich \<Rightarrow> string \<Rightarrow> enrich \<times> geo_result" where
  "ask_geo en ip =
     (case en_geo en of
        None \<Rightarrow> (en, zero_result)
      | Some g \<Rightarrow> (case nta_geo_lookup g (Some ip) of (g', gr, r) \<Rightarrow> (en\<lparr>en_geo := Some g'\<rparr>, gr)))"

section \<open>One point\<close>

definition json_get_str :: "json \<Rightarrow> string \<Rightarrow> string option \<Rightarrow> string option" where
  "json_get_str obj key fallback = (case item_string obj key of Some s \<Rightarrow> Some s | None \<Rightarrow> fallback)"

definition num_or :: "json \<Rightarrow> string \<Rightarrow> double \<Rightarrow> double" where
  "num_or obj key d = (case item_number obj key of Some x \<Rightarrow> x | None \<Rightarrow> d)"

text \<open>An optional tag of the event: left out when missing or empty.\<close>

definition opt_tag :: "string \<Rightarrow> string option \<Rightarrow> (string \<times> string) list" where
  "opt_tag key v = (case v of Some (c # cs) \<Rightarrow> [(key, c # cs)] | _ \<Rightarrow> [])"

text \<open>The tags after the three fixed ones, in the order they are written, before escaping.\<close>

definition extra_tags :: "json \<Rightarrow> ioc option \<Rightarrow> string \<Rightarrow> geo_result \<Rightarrow> (string \<times> string) list" where
  "extra_tags evt ioc src_ip gr =
     opt_tag ''attack_type'' (json_get_str evt ''attack_type'' None) @
     opt_tag ''kill_chain_stage'' (json_get_str evt ''kill_chain_stage'' None) @
     opt_tag ''mitre'' (json_get_str evt ''mitre'' None) @
     (case nta_ioc_match_ip ioc (Some src_ip) of
        None \<Rightarrow> []
      | Some src \<Rightarrow> [(''ioc_hit'', ''1''), (''ioc_source'', src)]) @
     (if has_asn gr then
        (''asn'', cstr_copy 16 (''AS'' @ dec_digits (unat (asn_number gr)))) #
        (if asn_org gr \<noteq> [] then [(''asn_org'', asn_org gr)] else [])
      else [])"

text \<open>\<open>",key=%s"\<close> of the escaped value.\<close>

definition put_tag :: "string \<times> string \<Rightarrow> string" where
  "put_tag kv = '','' @ fst kv @ ''='' @ lp_escape MAX_TAG_LEN (snd kv)"

definition base_tags :: "string option \<Rightarrow> json \<Rightarrow> string \<Rightarrow> (string \<times> string) list" where
  "base_tags agent_id evt src_ip =
     [(''agent_id'', case agent_id of Some a \<Rightarrow> a | None \<Rightarrow> ''unknown''), (''src_ip'', src_ip),
      (''protocol'', the (json_get_str evt ''proto'' (Some ''UNKNOWN'')))]"

definition event_src_ip :: "json \<Rightarrow> string" where
  "event_src_ip evt = the (json_get_str evt ''src_ip'' (Some ''0.0.0.0''))"

text \<open>
  The pieces \<open>snprintf\<close> writes before the abuse lookup: the head with the fixed tags is one call,
  \<open>ioc_hit\<close> and \<open>ioc_source\<close> share a call (writing them in two steps fails for the same texts),
  then the fields.
\<close>

definition field_pieces :: "json \<Rightarrow> geo_result \<Rightarrow> string list" where
  "field_pieces evt gr =
     ['' port='' @ fmt_d (cast_llong (num_or evt ''port'' 0)) @ ''i,bytes='' @ fmt_g6 (num_or evt ''bytes'' 0) @
      '',is_scan='' @ fmt_g6 (num_or evt ''is_scan'' 0)] @
     (case item_number evt ''kc_score'' of Some kc \<Rightarrow> ['',kc_score='' @ fmt_g6 kc] | None \<Rightarrow> []) @
     (if has_geo gr then ['',lat='' @ fmt_f6 (lat gr) @ '',lon='' @ fmt_f6 (lon gr)] else [])"

definition point_pieces :: "json \<Rightarrow> string option \<Rightarrow> ioc option \<Rightarrow> string \<Rightarrow> geo_result \<Rightarrow> string list" where
  "point_pieces evt agent_id ioc src_ip gr =
     [''traffic'' @ concat (List.map put_tag (base_tags agent_id evt src_ip))] @
     List.map put_tag (extra_tags evt ioc src_ip gr) @ field_pieces evt gr"

definition abuse_piece :: "int \<Rightarrow> string list" where
  "abuse_piece s = (if s \<ge> 0 then ['',abuse_score='' @ fmt_d s] else [])"

text \<open>\<open>build_traffic_point\<close>: the text written (none on an error, when the code returns 0).\<close>

definition build_traffic_point ::
  "(string \<Rightarrow> json option) \<Rightarrow> nat \<Rightarrow> json \<Rightarrow> string option \<Rightarrow> enrich \<Rightarrow> enrich \<times> string" where
  "build_traffic_point parse cap evt agent_id en =
     (if cap < 64 then (en, [])
      else let src_ip = event_src_ip evt
           in case ask_geo en src_ip of
                (en1, gr) \<Rightarrow>
                  (case sn_puts cap [] (point_pieces evt agent_id (en_ioc en1) src_ip gr) of
                     None \<Rightarrow> (en1, [])
                   | Some out \<Rightarrow>
                       (case ask_abuse parse en1 src_ip of
                          (en2, s) \<Rightarrow>
                            (en2, case sn_puts cap out (abuse_piece s @ [[CHR 0x0A]]) of
                                    None \<Rightarrow> [] | Some lp \<Rightarrow> lp))))"

section \<open>Opening and posting\<close>

text \<open>\<open>nta_influx_open\<close>: the handle and the result; \<open>have_curl\<close> is \<open>curl_easy_init\<close>.\<close>

definition nta_influx_open :: "bool \<Rightarrow> nta_config \<Rightarrow> influx \<times> int" where
  "nta_influx_open have_curl cfg =
     (let url = influx_url cfg @ ''/api/v2/write?org='' @ influx_org cfg @ ''&bucket='' @
                influx_bucket cfg @ ''&precision=ns'';
          h = \<lparr>inf_endpoint = cstr_copy 512 url, inf_ready = False, inf_posted = []\<rparr>
      in if length url \<ge> 512 then (h, - 1)
         else if \<not> have_curl then (h, - 1)
         else (h\<lparr>inf_ready := True\<rparr>, 0))"

definition influx_post :: "http_reply \<Rightarrow> string \<Rightarrow> influx \<Rightarrow> influx \<times> int" where
  "influx_post reply body h =
     (let inf1 = h\<lparr>inf_posted := inf_posted h @ [body]\<rparr>
      in if \<not> curl_ok reply then (inf1, - 1)
         else if http_code reply < 200 \<or> http_code reply \<ge> 300 then (inf1, - 1)
         else (inf1, 0))"

section \<open>Writes\<close>

definition LP_BUF_SIZE :: nat where "LP_BUF_SIZE = 16384"

text \<open>The loop over the events of a batch: the text so far.\<close>

fun traffic_batch ::
  "(string \<Rightarrow> json option) \<Rightarrow> string option \<Rightarrow> enrich \<Rightarrow> string \<Rightarrow> json list \<Rightarrow> enrich \<times> string" where
  "traffic_batch parse agent_id en lp [] = (en, lp)"
| "traffic_batch parse agent_id en lp (evt # evts) =
     (if \<not> is_object evt then traffic_batch parse agent_id en lp evts
      else case build_traffic_point parse (LP_BUF_SIZE - length lp) evt agent_id en of
             (en1, w) \<Rightarrow> traffic_batch parse agent_id en1 (lp @ w) evts)"

definition nta_influx_write_traffic ::
  "(string \<Rightarrow> json option) \<Rightarrow> http_reply \<Rightarrow> string \<Rightarrow> string option \<Rightarrow> influx \<Rightarrow> enrich \<Rightarrow>
   influx \<times> enrich \<times> int" where
  "nta_influx_write_traffic parse reply body agent_id h en =
     (if \<not> inf_ready h \<or> body = [] then (h, en, - 1)
      else case parse body of
             None \<Rightarrow> (h, en, - 1)
           | Some doc \<Rightarrow>
               (case (if is_array doc then traffic_batch parse agent_id en [] (array_items doc)
                      else if is_object doc then build_traffic_point parse LP_BUF_SIZE doc agent_id en
                      else (en, [])) of
                  (en1, lp) \<Rightarrow>
                    if lp = [] then (h, en1, 0)
                    else case influx_post reply lp h of (inf1, rc) \<Rightarrow> (inf1, en1, rc)))"

text \<open>The numeric members of a metrics object, until one does not fit: text and count.\<close>

fun metrics_fields :: "string \<Rightarrow> nat \<Rightarrow> (string \<times> json) list \<Rightarrow> string \<times> nat" where
  "metrics_fields lp n [] = (lp, n)"
| "metrics_fields lp n ((k, j) # kvs) =
     (case j of
        JNumber d \<Rightarrow>
          (case sn_put LP_BUF_SIZE lp ((if n = 0 then [] else '','') @ lp_escape MAX_TAG_LEN k @ ''='' @ fmt_g6 d) of
             None \<Rightarrow> (lp, n)
           | Some lp1 \<Rightarrow> metrics_fields lp1 (n + 1) kvs)
      | _ \<Rightarrow> metrics_fields lp n kvs)"

definition nta_influx_write_metrics ::
  "(string \<Rightarrow> json option) \<Rightarrow> http_reply \<Rightarrow> string \<Rightarrow> string option \<Rightarrow> influx \<Rightarrow> influx \<times> int" where
  "nta_influx_write_metrics parse reply body agent_id h =
     (if \<not> inf_ready h \<or> body = [] then (h, - 1)
      else case parse body of
             Some (JObject kvs) \<Rightarrow>
               (case sn_put LP_BUF_SIZE []
                       (''pipeline_metrics,agent_id='' @
                        lp_escape MAX_TAG_LEN (case agent_id of Some a \<Rightarrow> a | None \<Rightarrow> ''unknown'') @ '' '') of
                  None \<Rightarrow> (h, - 1)
                | Some lp \<Rightarrow>
                    (case metrics_fields lp 0 kvs of
                       (lp1, n) \<Rightarrow>
                         if n = 0 then (h, 0)
                         else case sn_put LP_BUF_SIZE lp1 [CHR 0x0A] of
                                None \<Rightarrow> (h, - 1)
                              | Some lp2 \<Rightarrow> influx_post reply lp2 h))
           | _ \<Rightarrow> (h, - 1))"

text \<open>The tags of a narrative: a copy of the event's string, cut to a tag buffer before the escape.\<close>

definition narrative_tag :: "json option \<Rightarrow> string \<Rightarrow> string \<Rightarrow> string" where
  "narrative_tag doc key fallback =
     lp_escape MAX_TAG_LEN (cstr_copy MAX_TAG_LEN
       (case doc of
          Some (JObject kvs) \<Rightarrow> (case item_string (JObject kvs) key of Some s \<Rightarrow> s | None \<Rightarrow> fallback)
        | _ \<Rightarrow> fallback))"

definition narrative_text ::
  "json option \<Rightarrow> string \<Rightarrow> string option \<Rightarrow> string option \<Rightarrow> string" where
  "narrative_text doc narrative agent_id backend =
     ''incident_narrative,agent_id='' @ lp_escape MAX_TAG_LEN (case agent_id of Some a \<Rightarrow> a | None \<Rightarrow> ''unknown'') @
     '',src_ip='' @ narrative_tag doc ''src_ip'' ''0.0.0.0'' @
     '',attack_type='' @ narrative_tag doc ''attack_type'' ''UNKNOWN'' @
     '',kill_chain_stage='' @ narrative_tag doc ''kill_chain_stage'' ''UNKNOWN'' @
     '',backend='' @ lp_escape MAX_TAG_LEN (case backend of Some b \<Rightarrow> b | None \<Rightarrow> ''unknown'') @
     '' narrative='' @ [CHR 0x22] @ lp_escape_str_field (length narrative * 2 + 16) narrative @
     [CHR 0x22] @ '',kc_score='' @
     fmt_g6 (case doc of Some (JObject kvs) \<Rightarrow> num_or (JObject kvs) ''kc_score'' 0 | _ \<Rightarrow> 0) @ [CHR 0x0A]"

definition nta_influx_write_narrative ::
  "(string \<Rightarrow> json option) \<Rightarrow> http_reply \<Rightarrow> string \<Rightarrow> string \<Rightarrow> string option \<Rightarrow> string option \<Rightarrow>
   influx \<Rightarrow> influx \<times> int" where
  "nta_influx_write_narrative parse reply event_json narrative agent_id backend h =
     (if \<not> inf_ready h \<or> narrative = [] then (h, - 1)
      else let doc = (if event_json \<noteq> [] then parse event_json else None);
               lp = narrative_text doc narrative agent_id backend;
               lp_cap = length narrative * 2 + 16 + 1024
           in if length lp \<ge> lp_cap then (h, - 1) else influx_post reply lp h)"

definition nta_influx_write_pool :: "http_reply \<Rightarrow> int \<Rightarrow> int \<Rightarrow> int \<Rightarrow> int \<Rightarrow> influx \<Rightarrow> influx \<times> int" where
  "nta_influx_write_pool reply pool_size backlog unacked consumers h =
     (if \<not> inf_ready h then (h, - 1)
      else let lp = ''nta_pool pool_size='' @ fmt_d pool_size @ ''i,backlog='' @ fmt_d backlog @
                    ''i,unacked='' @ fmt_d unacked @ ''i,consumers='' @ fmt_d consumers @ [CHR ''i'', CHR 0x0A]
           in if length lp \<ge> 256 then (h, - 1) else influx_post reply lp h)"

section \<open>Points without a buffer\<close>

text \<open>The specification of a point: its whole text, with the same use of the enrichment.\<close>

definition event_text ::
  "(string \<Rightarrow> json option) \<Rightarrow> json \<Rightarrow> string option \<Rightarrow> enrich \<Rightarrow> enrich \<times> string" where
  "event_text parse evt agent_id en =
     (case ask_geo en (event_src_ip evt) of
        (en1, gr) \<Rightarrow>
          (case ask_abuse parse en1 (event_src_ip evt) of
             (en2, s) \<Rightarrow>
               (en2, concat (point_pieces evt agent_id (en_ioc en1) (event_src_ip evt) gr) @
                     concat (abuse_piece s) @ [CHR 0x0A])))"

lemma pieces_nonempty: "[] \<notin> set (point_pieces evt agent_id ioc ip gr)" "[] \<notin> set (abuse_piece s @ [[CHR 0x0A]])"
  by (auto simp: point_pieces_def field_pieces_def put_tag_def abuse_piece_def split: option.splits)

lemma build_spec:
  assumes "event_text parse evt agent_id en = (en', text)"
  shows "\<exists>en''. build_traffic_point parse cap evt agent_id en =
    (if 64 \<le> cap \<and> length text < cap then (en', text) else (en'', []))"
proof (cases "cap < 64")
  case True
  then show ?thesis by (auto simp: build_traffic_point_def)
next
  case False
  obtain en1 gr where g: "ask_geo en (event_src_ip evt) = (en1, gr)" by force
  obtain en2 s where a: "ask_abuse parse en1 (event_src_ip evt) = (en2, s)" by force
  let ?ps = "point_pieces evt agent_id (en_ioc en1) (event_src_ip evt) gr"
  let ?qs = "abuse_piece s @ [[CHR 0x0A]]"
  have tx: "en' = en2" "text = concat ?ps @ concat ?qs"
    using assms by (simp_all add: event_text_def g a)
  have ps: "sn_puts cap [] ?ps = (if length (concat ?ps) < cap then Some (concat ?ps) else None)"
    using sn_puts_whole [OF pieces_nonempty(1), of "[]" cap evt agent_id "en_ioc en1" "event_src_ip evt" gr] False
    by simp
  show ?thesis
  proof (cases "length (concat ?ps) < cap")
    case True
    have "sn_puts cap (concat ?ps) ?qs =
        (if length (concat ?ps) + length (concat ?qs) < cap then Some (concat ?ps @ concat ?qs) else None)"
      using pieces_nonempty(2) True by (rule sn_puts_whole)
    with True False ps show ?thesis by (simp add: build_traffic_point_def g a Let_def tx)
  next
    case False
    with ps show ?thesis by (simp add: build_traffic_point_def g Let_def tx)
  qed
qed

text \<open>All tags of a point, in order.\<close>

definition point_tags :: "json \<Rightarrow> string option \<Rightarrow> ioc option \<Rightarrow> geo_result \<Rightarrow> (string \<times> string) list" where
  "point_tags evt agent_id ioc gr =
     base_tags agent_id evt (event_src_ip evt) @ extra_tags evt ioc (event_src_ip evt) gr"

definition tag_fits :: "string \<Rightarrow> bool" where
  "tag_fits v \<longleftrightarrow> clean_end v \<and> length (esc_tag v) + 2 \<le> MAX_TAG_LEN"

lemma put_tag_text: "tag_fits v \<Longrightarrow> put_tag (k, v) = tag_text (k, v)"
  by (simp add: put_tag_def tag_text_def tag_fits_def lp_escape_fits)

lemma plain_keys: "(k, v) \<in> set (point_tags evt agent_id ioc gr) \<Longrightarrow> plain k"
proof -
  assume "(k, v) \<in> set (point_tags evt agent_id ioc gr)"
  then have "k \<in> {''agent_id'', ''src_ip'', ''protocol'', ''attack_type'', ''kill_chain_stage'', ''mitre'',
      ''ioc_hit'', ''ioc_source'', ''asn'', ''asn_org''}"
    by (auto simp: point_tags_def base_tags_def extra_tags_def opt_tag_def
        split: option.splits list.splits if_splits)
  then show ?thesis by (auto simp: plain_def lp_special_def backslash_def)
qed

lemma text_tags:
  "concat (point_pieces evt agent_id ioc (event_src_ip evt) gr) =
     ''traffic'' @ concat (List.map put_tag (point_tags evt agent_id ioc gr)) @ concat (field_pieces evt gr)"
  by (simp add: point_pieces_def point_tags_def)

lemma fields_space: "\<exists>f. concat (field_pieces evt gr) = CHR '' '' # f"
  by (simp add: field_pieces_def)

section \<open>Batches\<close>

text \<open>The texts of the events of a batch one after the other, without a buffer.\<close>

fun batch_text ::
  "(string \<Rightarrow> json option) \<Rightarrow> string option \<Rightarrow> enrich \<Rightarrow> json list \<Rightarrow> enrich \<times> string" where
  "batch_text parse agent_id en [] = (en, [])"
| "batch_text parse agent_id en (evt # evts) =
     (if \<not> is_object evt then batch_text parse agent_id en evts
      else case event_text parse evt agent_id en of
             (en1, w) \<Rightarrow> (case batch_text parse agent_id en1 evts of (en2, ws) \<Rightarrow> (en2, w @ ws)))"

lemma batch_fits:
  "batch_text parse agent_id en evts = (en', ws) \<Longrightarrow> length lp + length ws + 64 \<le> LP_BUF_SIZE \<Longrightarrow>
   traffic_batch parse agent_id en lp evts = (en', lp @ ws)"
proof (induction evts arbitrary: en lp ws en')
  case (Cons evt evts)
  show ?case
  proof (cases "is_object evt")
    case False
    then show ?thesis using Cons by simp
  next
    case True
    obtain en1 w where w: "event_text parse evt agent_id en = (en1, w)" by force
    obtain en2 v where v: "batch_text parse agent_id en1 evts = (en2, v)" by force
    have eq: "en' = en2" "ws = w @ v" using Cons.prems(1) True by (simp_all add: w v)
    have fit: "64 \<le> LP_BUF_SIZE - length lp" "length w < LP_BUF_SIZE - length lp"
      using Cons.prems(2) by (simp_all add: eq)
    obtain en'' where "build_traffic_point parse (LP_BUF_SIZE - length lp) evt agent_id en =
        (if 64 \<le> LP_BUF_SIZE - length lp \<and> length w < LP_BUF_SIZE - length lp then (en1, w) else (en'', []))"
      using build_spec [OF w] by blast
    then have b: "build_traffic_point parse (LP_BUF_SIZE - length lp) evt agent_id en = (en1, w)"
      using fit by simp
    have "traffic_batch parse agent_id en1 (lp @ w) evts = (en2, (lp @ w) @ v)"
      by (rule Cons.IH [OF v]) (use Cons.prems(2) eq in simp)
    then show ?thesis using True b eq by simp
  qed
qed simp

definition newline_ended :: "string \<Rightarrow> bool" where
  "newline_ended s \<longleftrightarrow> s = [] \<or> last s = CHR 0x0A"

lemma build_newline_ended:
  "build_traffic_point parse cap evt agent_id en = (en', w) \<Longrightarrow> newline_ended w \<and> (w = [] \<or> length w < cap)"
proof -
  assume b: "build_traffic_point parse cap evt agent_id en = (en', w)"
  obtain en1 t where t: "event_text parse evt agent_id en = (en1, t)" by force
  then have "newline_ended t" by (auto simp: event_text_def newline_ended_def split: prod.splits)
  with build_spec [OF t, of cap] b show ?thesis by (auto simp: newline_ended_def split: if_splits)
qed

lemma batch_bounded:
  "length lp < LP_BUF_SIZE \<Longrightarrow> newline_ended lp \<Longrightarrow> traffic_batch parse agent_id en lp evts = (en', lp') \<Longrightarrow>
   length lp' < LP_BUF_SIZE \<and> newline_ended lp'"
proof (induction evts arbitrary: en lp)
  case (Cons evt evts)
  show ?case
  proof (cases "is_object evt")
    case False
    then show ?thesis using Cons by simp
  next
    case True
    obtain en1 w where b: "build_traffic_point parse (LP_BUF_SIZE - length lp) evt agent_id en = (en1, w)" by force
    from build_newline_ended [OF b] Cons.prems(1,2)
    have "length (lp @ w) < LP_BUF_SIZE" "newline_ended (lp @ w)" by (auto simp: newline_ended_def last_append)
    with Cons.IH [of "lp @ w" en1] Cons.prems(3) True b show ?thesis by simp
  qed
qed simp

section \<open>Properties\<close>

text \<open>
  C30. A point is written whole or not at all: the sequence of bounded writes gives the full text of
  the event exactly when it fits the buffer with its terminator (and the buffer has the 64 bytes the
  code asks for), and nothing otherwise, never a truncated point.
\<close>

theorem point_whole_or_nothing:
  "snd (build_traffic_point parse cap evt agent_id en) =
     (let t = snd (event_text parse evt agent_id en) in if 64 \<le> cap \<and> length t < cap then t else [])"
proof -
  obtain en1 t where t: "event_text parse evt agent_id en = (en1, t)" by force
  from build_spec [OF t, of cap] show ?thesis by (auto simp: t)
qed

lemma event_text_decoded:
  assumes "event_text parse evt agent_id en = (en2, t)" and "ask_geo en (event_src_ip evt) = (en1, gr)"
    and "\<forall>(k, v) \<in> set (point_tags evt agent_id (en_ioc en1) gr). tag_fits v"
  shows "\<exists>f. t = ''traffic'' @ drop 7 t \<and> lp_tags (drop 7 t) = Some (point_tags evt agent_id (en_ioc en1) gr, f)"
proof -
  let ?tags = "point_tags evt agent_id (en_ioc en1) gr"
  obtain f where f: "t = concat (point_pieces evt agent_id (en_ioc en1) (event_src_ip evt) gr) @ f"
    using assms(1,2) by (auto simp: event_text_def split: prod.splits)
  moreover obtain g where g: "concat (field_pieces evt gr) = CHR '' '' # g" using fields_space by blast
  moreover have "List.map put_tag ?tags = List.map tag_text ?tags"
    using assms(3) by (auto simp: put_tag_text)
  ultimately have t: "t = ''traffic'' @ concat (List.map tag_text ?tags) @ CHR '' '' # g @ f"
    by (simp add: text_tags)
  have "lp_tags (concat (List.map tag_text ?tags) @ CHR '' '' # g @ f) = Some (?tags, g @ f)"
    using assms(3) plain_keys by (intro lp_tags_text) (auto simp: tag_fits_def)
  then show ?thesis by (simp add: t)
qed

text \<open>
  What the data base reads is what the event said: the tag section of a written point, decoded
  with the escapes of the line protocol, gives back every tag with its value, in order, for values
  that fit a tag buffer and do not end in a backslash.
\<close>

theorem point_tags_roundtrip:
  assumes "build_traffic_point parse cap evt agent_id en = (en', lp)" and "lp \<noteq> []"
    and "ask_geo en (event_src_ip evt) = (en1, gr)"
    and "\<forall>(k, v) \<in> set (point_tags evt agent_id (en_ioc en1) gr). tag_fits v"
  shows "\<exists>f. lp = ''traffic'' @ drop 7 lp \<and>
    lp_tags (drop 7 lp) = Some (point_tags evt agent_id (en_ioc en1) gr, f)"
proof -
  obtain en2 t where t: "event_text parse evt agent_id en = (en2, t)" by force
  have "lp = t" using build_spec [OF t, of cap] assms(1,2) by (auto split: if_splits)
  with event_text_decoded [OF t assms(3,4)] show ?thesis by simp
qed

definition demo_event :: json where
  "demo_event = JObject [(''src_ip'', JString ''8.8.8.8''), (''proto'', JString ''T P''), (''port'', JNumber 0)]"

definition plain_enrich :: enrich where
  "plain_enrich = \<lparr>en_geo = None, en_ioc = None, en_abuse = None,
     en_answers = (\<lambda>n. (0, \<lparr>curl_ok = False, http_code = 0, chunks = []\<rparr>)), en_asked = 0\<rparr>"

lemma demo_tags: "point_tags demo_event (Some ''a'') None zero_result =
    [(''agent_id'', ''a''), (''src_ip'', ''8.8.8.8''), (''protocol'', ''T P'')]"
  by (simp add: point_tags_def base_tags_def extra_tags_def opt_tag_def json_get_str_def item_string_def
      demo_event_def event_src_ip_def nta_ioc_match_ip_def zero_result_def)

lemma demo_text: "event_text (\<lambda>s. None) demo_event (Some ''a'') plain_enrich =
    (plain_enrich, ''traffic,agent_id=a,src_ip=8.8.8.8,protocol=T'' @ [backslash] @
       '' P port=0i,bytes=0,is_scan=0'' @ [CHR 0x0A])"
proof -
  have ip: "event_src_ip demo_event = ''8.8.8.8''"
    by (simp add: event_src_ip_def json_get_str_def item_string_def demo_event_def)
  have c0: "char_of (48::nat) = CHR ''0''" by code_simp
  have f: "concat (field_pieces demo_event zero_result) = '' port=0i,bytes=0,is_scan=0''"
    by (simp add: field_pieces_def demo_event_def num_or_def item_number_def zero_result_def cast_llong_def
        int_of_double_def fmt_d_def dec_digits.simps fmt_g6_def c0)
  have p: "concat (List.map put_tag (point_tags demo_event (Some ''a'') None zero_result)) =
      '',agent_id=a,src_ip=8.8.8.8,protocol=T'' @ [backslash] @ '' P''"
    by (simp add: demo_tags put_tag_def lp_escape_def MAX_TAG_LEN_def lp_special_def)
  have t: "concat (point_pieces demo_event (Some ''a'') None ''8.8.8.8'' zero_result) =
      ''traffic,agent_id=a,src_ip=8.8.8.8,protocol=T'' @ [backslash] @ '' P port=0i,bytes=0,is_scan=0''"
    using text_tags [of demo_event "Some ''a''" None zero_result] unfolding ip p f by simp
  have g: "ask_geo plain_enrich ip' = (plain_enrich, zero_result)"
    and a: "ask_abuse parse plain_enrich ip' = (plain_enrich, - 1)" for ip' parse
    by (simp_all add: ask_geo_def ask_abuse_def plain_enrich_def)
  have i: "en_ioc plain_enrich = None" by (simp add: plain_enrich_def)
  show ?thesis by (simp add: event_text_def g a ip i t abuse_piece_def)
qed

theorem point_tags_roundtrip_witness:
  "\<exists>en' lp f. build_traffic_point (\<lambda>s. None) 1000 demo_event (Some ''a'') plain_enrich = (en', lp) \<and>
     lp_tags (drop 7 lp) = Some ([(''agent_id'', ''a''), (''src_ip'', ''8.8.8.8''), (''protocol'', ''T P'')], f)"
proof -
  obtain en' lp where b: "build_traffic_point (\<lambda>s. None) 1000 demo_event (Some ''a'') plain_enrich = (en', lp)" by force
  have "lp \<noteq> []" using build_spec [OF demo_text, of 1000] b by auto
  moreover have g: "ask_geo plain_enrich (event_src_ip demo_event) = (plain_enrich, zero_result)"
    by (simp add: ask_geo_def plain_enrich_def)
  moreover have i: "en_ioc plain_enrich = None" by (simp add: plain_enrich_def)
  moreover have "tag_fits ''a''" "tag_fits ''8.8.8.8''" "tag_fits ''T P''"
    by (simp_all add: tag_fits_def clean_end_def backslash_def MAX_TAG_LEN_def esc_char.simps lp_special_def)
  ultimately show ?thesis
    using point_tags_roundtrip [OF b _ g] b by (auto simp: i demo_tags)
qed

text \<open>
  A batch loses no event as long as its points together stay 64 bytes under the 16 KB buffer:
  then the body posted is the text of every object of the batch in order. In every case the body
  ends with a complete line and stays inside the buffer.
\<close>

theorem batch_complete:
  assumes "batch_text parse agent_id en evts = (en', ws)"
  shows "(length ws + 64 \<le> 16384 \<longrightarrow> traffic_batch parse agent_id en [] evts = (en', ws)) \<and>
    (case traffic_batch parse agent_id en [] evts of (en2, lp) \<Rightarrow> length lp < 16384 \<and> newline_ended lp)"
proof -
  obtain en2 lp where t: "traffic_batch parse agent_id en [] evts = (en2, lp)" by force
  have "length lp < LP_BUF_SIZE \<and> newline_ended lp"
    by (rule batch_bounded [OF _ _ t]) (simp_all add: LP_BUF_SIZE_def newline_ended_def)
  then show ?thesis using batch_fits [OF assms, of "[]"] t by (simp add: LP_BUF_SIZE_def)
qed

theorem batch_complete_witness:
  "\<exists>ws. length ws = 148 \<and>
     traffic_batch (\<lambda>s. None) (Some ''a'') plain_enrich [] [demo_event, JNull, demo_event] = (plain_enrich, ws)"
proof -
  obtain w where w: "event_text (\<lambda>s. None) demo_event (Some ''a'') plain_enrich = (plain_enrich, w)" "length w = 74"
    by (rule that [OF demo_text]) simp
  have "is_object demo_event" by (simp add: demo_event_def)
  then have "batch_text (\<lambda>s. None) (Some ''a'') plain_enrich [demo_event, JNull, demo_event] = (plain_enrich, w @ w)"
    by (simp add: w)
  from batch_complete [OF this] w(2) show ?thesis by (intro exI [of _ "w @ w"]) simp
qed

text \<open>
  A newline inside a tag value is not escaped: with one in the source address the line the data
  base reads first ends inside the tag set and has no field, so the point is malformed. The event's
  strings come from the message and are not checked.
\<close>

theorem newline_breaks_point:
  assumes "build_traffic_point parse cap evt (Some agent) en = (en', lp)" and "lp \<noteq> []"
    and "event_src_ip evt = a @ CHR 0x0A # b" and "tag_fits agent" and "tag_fits (a @ CHR 0x0A # b)"
    and "CHR 0x0A \<notin> set agent" and "CHR 0x0A \<notin> set a"
  shows "takeWhile (\<lambda>c. c \<noteq> CHR 0x0A) lp = ''traffic,agent_id='' @ esc_tag agent @ '',src_ip='' @ esc_tag a \<and>
    lp_tags (drop 7 (takeWhile (\<lambda>c. c \<noteq> CHR 0x0A) lp)) = None"
proof -
  obtain en2 t where t: "event_text parse evt (Some agent) en = (en2, t)" by force
  have lp: "lp = t" using build_spec [OF t, of cap] assms(1,2) by (auto split: if_splits)
  have esc_append: "esc_tag (x @ y) = esc_tag x @ esc_tag y" for x y by (simp add: esc_tag_def)
  have nl: "esc_char (CHR 0x0A) = [CHR 0x0A]" by (simp add: esc_char.simps lp_special_def)
  have esc_nl: "CHR 0x0A \<notin> set (esc_tag x)" if "CHR 0x0A \<notin> set x" for x
    using that by (induction x) (auto simp: esc_char.simps backslash_def)
  let ?h = "''traffic,agent_id='' @ esc_tag agent @ '',src_ip='' @ esc_tag a"
  obtain r where r: "lp = ?h @ CHR 0x0A # r"
    using t assms(3) unfolding lp event_text_def
    by (auto simp: point_pieces_def base_tags_def put_tag_def esc_append nl
        lp_escape_fits [OF assms(4) [unfolded tag_fits_def, THEN conjunct2]]
        lp_escape_fits [OF assms(5) [unfolded tag_fits_def, THEN conjunct2]] split: prod.splits)
  have "takeWhile (\<lambda>c. c \<noteq> CHR 0x0A) lp = ?h"
    unfolding r using esc_nl [OF assms(6)] esc_nl [OF assms(7)] by (simp add: takeWhile_append)
  moreover have "lp_tags ('',agent_id='' @ esc_tag agent @ '',src_ip='' @ esc_tag a) = None"
    using lp_tags_open [of "[(''agent_id'', agent)]" "''src_ip''" a] assms(4)
    by (simp add: tag_text_def plain_def lp_special_def backslash_def tag_fits_def)
  ultimately show ?thesis by simp
qed

definition broken_event :: json where
  "broken_event = JObject [(''src_ip'', JString [CHR ''1'', CHR 0x0A, CHR ''2''])]"

lemma broken_text: "\<exists>w. event_text (\<lambda>s. None) broken_event (Some ''a'') plain_enrich = (plain_enrich, w) \<and>
    length w < 300 \<and> w \<noteq> []"
proof -
  have ip: "event_src_ip broken_event = [CHR ''1'', CHR 0x0A, CHR ''2'']"
    by (simp add: event_src_ip_def json_get_str_def item_string_def broken_event_def)
  have c0: "char_of (48::nat) = CHR ''0''" by code_simp
  have f: "concat (field_pieces broken_event zero_result) = '' port=0i,bytes=0,is_scan=0''"
    by (simp add: field_pieces_def broken_event_def num_or_def item_number_def zero_result_def cast_llong_def
        int_of_double_def fmt_d_def dec_digits.simps fmt_g6_def c0)
  have p: "concat (List.map put_tag (point_tags broken_event (Some ''a'') None zero_result)) =
      '',agent_id=a,src_ip='' @ [CHR ''1'', CHR 0x0A, CHR ''2''] @ '',protocol=UNKNOWN''"
    by (simp add: point_tags_def base_tags_def extra_tags_def opt_tag_def json_get_str_def item_string_def
        broken_event_def event_src_ip_def nta_ioc_match_ip_def zero_result_def put_tag_def lp_escape_def
        MAX_TAG_LEN_def lp_special_def)
  have t: "concat (point_pieces broken_event (Some ''a'') None [CHR ''1'', CHR 0x0A, CHR ''2''] zero_result) =
      ''traffic'' @ '',agent_id=a,src_ip='' @ [CHR ''1'', CHR 0x0A, CHR ''2''] @ '',protocol=UNKNOWN'' @
      '' port=0i,bytes=0,is_scan=0''"
    using text_tags [of broken_event "Some ''a''" None zero_result] unfolding ip p f by simp
  have g: "ask_geo plain_enrich ip' = (plain_enrich, zero_result)"
    and a: "ask_abuse parse plain_enrich ip' = (plain_enrich, - 1)" for ip' parse
    by (simp_all add: ask_geo_def ask_abuse_def plain_enrich_def)
  have i: "en_ioc plain_enrich = None" by (simp add: plain_enrich_def)
  show ?thesis by (simp add: event_text_def g a ip i t abuse_piece_def)
qed

theorem newline_breaks_point_witness:
  "\<exists>en' lp. build_traffic_point (\<lambda>s. None) 1000 broken_event (Some ''a'') plain_enrich = (en', lp) \<and>
     takeWhile (\<lambda>c. c \<noteq> CHR 0x0A) lp = ''traffic,agent_id=a,src_ip=1''"
proof -
  obtain en' lp where b: "build_traffic_point (\<lambda>s. None) 1000 broken_event (Some ''a'') plain_enrich = (en', lp)" by force
  obtain w where w: "event_text (\<lambda>s. None) broken_event (Some ''a'') plain_enrich = (plain_enrich, w)"
    "length w < 300" "w \<noteq> []" using broken_text by blast
  have "lp \<noteq> []" using build_spec [OF w(1), of 1000] b w(2,3) by auto
  moreover have "event_src_ip broken_event = ''1'' @ CHR 0x0A # ''2''"
    by (simp add: event_src_ip_def json_get_str_def item_string_def broken_event_def)
  moreover have "tag_fits ''a''" "tag_fits (''1'' @ CHR 0x0A # ''2'')"
    by (simp_all add: tag_fits_def clean_end_def backslash_def MAX_TAG_LEN_def esc_char.simps lp_special_def)
  ultimately have "takeWhile (\<lambda>c. c \<noteq> CHR 0x0A) lp = ''traffic,agent_id='' @ esc_tag ''a'' @ '',src_ip='' @ esc_tag ''1''"
    by (rule newline_breaks_point [OF b, THEN conjunct1]) simp_all
  then show ?thesis using b by (simp add: esc_char.simps lp_special_def)
qed

section \<open>Narratives\<close>

lemma dec_exp_bound: "\<bar>dec_exp n x\<bar> \<le> int n"
  by (induction n x rule: dec_exp.induct) auto

lemma join_frac_len: "length (join_frac a b) \<le> length a + length b + 1"
  using length_dropWhile_le [of "\<lambda>c. c = CHR ''0''" "rev b"] by (simp add: join_frac_def Let_def)

lemma g6_body_len:
  assumes "length ds = 6" "\<bar>e\<bar> \<le> 999"
  shows "length (g6_body ds e) \<le> 12"
proof -
  have x: "length (dec_digits (nat \<bar>e\<bar>)) \<le> 3" using assms(2) by (intro dec_digits_len) auto
  have 1: "length (join_frac (take 1 ds) (drop 1 ds)) \<le> 7"
    using join_frac_len [of "take 1 ds" "drop 1 ds"] assms(1) by simp
  have 2: "length (join_frac ''0'' (replicate (nat (- e) - 1) (CHR ''0'') @ ds)) \<le> 11" if "- 4 \<le> e"
    using join_frac_len [of "''0''" "replicate (nat (- e) - 1) (CHR ''0'') @ ds"] assms(1) that by simp
  have 3: "length (join_frac (take (nat e + 1) ds) (drop (nat e + 1) ds)) \<le> 7" if "e < 6" "0 \<le> e"
    using join_frac_len [of "take (nat e + 1) ds" "drop (nat e + 1) ds"] assms(1) that by simp
  from x 1 2 3 show ?thesis
    by (cases "e < - 4 \<or> e \<ge> 6"; cases "e < 0") (auto simp: g6_body_def pad0_def)
qed

lemma fmt_g6_len: "length (fmt_g6 x) \<le> 13"
proof -
  let ?e = "dec_exp 400 \<bar>x\<bar>"
  let ?m = "rne (\<bar>x\<bar> * 10 powi (5 - ?e))"
  have e: "\<bar>?e\<bar> \<le> 400" using dec_exp_bound [of 400 "\<bar>x\<bar>"] by simp
  have "length (g6_body ''100000'' (?e + 1)) \<le> 12" by (rule g6_body_len) (use e in auto)
  moreover have "length (g6_body (pad0 6 (dec_digits (nat ?m))) ?e) \<le> 12" if "?m < 1000000"
  proof (rule g6_body_len)
    have "length (dec_digits (nat ?m)) \<le> 6" using that by (intro dec_digits_len) auto
    then show "length (pad0 6 (dec_digits (nat ?m))) = 6" by (simp add: pad0_def)
  qed (use e in simp)
  ultimately have "length (if ?m \<ge> 1000000 then g6_body ''100000'' (?e + 1) else g6_body (pad0 6 (dec_digits (nat ?m))) ?e) \<le> 12"
    by (cases "?m \<ge> 1000000") simp_all
  then show ?thesis unfolding fmt_g6_def Let_def by (cases "x = 0"; cases "x < 0") simp_all
qed

lemma tag_len: "length (lp_escape MAX_TAG_LEN s) \<le> 127" "length (narrative_tag doc k s) \<le> 127"
proof -
  have "length (lp_escape MAX_TAG_LEN s) \<le> 127" for s
    using lp_escape_len [of MAX_TAG_LEN s] by (simp add: MAX_TAG_LEN_def)
  then show "length (lp_escape MAX_TAG_LEN s) \<le> 127" "length (narrative_tag doc k s) \<le> 127"
    by (simp_all only: narrative_tag_def)
qed

lemma narrative_text_len: "length (narrative_text doc narrative agent_id backend) < length narrative * 2 + 16 + 1024"
proof -
  note f = fmt_g6_len [of "case doc of Some (JObject kvs) \<Rightarrow> num_or (JObject kvs) ''kc_score'' 0 | _ \<Rightarrow> 0"]
  note a = tag_len(1) [of "case agent_id of Some a \<Rightarrow> a | None \<Rightarrow> ''unknown''"]
  note b = tag_len(1) [of "case backend of Some b \<Rightarrow> b | None \<Rightarrow> ''unknown''"]
  note t = tag_len(2) [of doc "''src_ip''" "''0.0.0.0''"] tag_len(2) [of doc "''attack_type''" "''UNKNOWN''"]
    tag_len(2) [of doc "''kill_chain_stage''" "''UNKNOWN''"]
  have s: "length (lp_escape_str_field (length narrative * 2 + 16) narrative) \<le> 2 * length narrative"
    by (simp add: lp_escape_str_field_def lp_escape_str_loop_len)
  from f a b t s show ?thesis unfolding narrative_text_def by simp
qed

text \<open>
  A narrative is always written: on a ready handle a non-empty one is posted as one body, whatever
  the event, the agent and the backend (the buffers never overflow), and the quoted field of that body
  decodes to the narrative without its carriage returns, with nothing of it taken for the next field.
\<close>

theorem narrative_roundtrip:
  assumes "inf_ready h" and "narrative \<noteq> []"
    and "nta_influx_write_narrative parse reply event narrative agent_id backend h = (h', r)"
  shows "\<exists>tags content kc. inf_posted h' = inf_posted h @ [tags @ '' narrative='' @ CHR 0x22 # content] \<and>
    str_scan content = Some (filter (\<lambda>c. c \<noteq> CHR 0x0D) narrative, '',kc_score='' @ kc @ [CHR 0x0A]) \<and>
    r = (if curl_ok reply \<and> http_success (http_code reply) then 0 else - 1)"
proof -
  let ?doc = "if event \<noteq> [] then parse event else None"
  let ?kc = "fmt_g6 (case ?doc of Some (JObject kvs) \<Rightarrow> num_or (JObject kvs) ''kc_score'' 0 | _ \<Rightarrow> 0)"
  let ?content = "lp_escape_str_field (length narrative * 2 + 16) narrative @ CHR 0x22 # '',kc_score='' @ ?kc @ [CHR 0x0A]"
  obtain tags where tx: "narrative_text ?doc narrative agent_id backend = tags @ '' narrative='' @ CHR 0x22 # ?content"
    unfolding narrative_text_def append_assoc [symmetric] append_Cons append_Nil by auto
  have "(h', r) = influx_post reply (narrative_text ?doc narrative agent_id backend) h"
    using assms narrative_text_len [of ?doc narrative agent_id backend]
    by (simp add: nta_influx_write_narrative_def Let_def)
  moreover have "str_scan ?content = Some (filter (\<lambda>c. c \<noteq> CHR 0x0D) narrative, '',kc_score='' @ ?kc @ [CHR 0x0A])"
    using str_scan_escape [of 0 narrative "length narrative * 2 + 16"] by (simp add: lp_escape_str_field_def)
  ultimately show ?thesis unfolding tx
    by (intro exI [of _ tags] exI [of _ ?content] exI [of _ ?kc])
      (auto simp: influx_post_def http_success_def Let_def split: if_splits)
qed

definition ready_influx :: influx where
  "ready_influx = \<lparr>inf_endpoint = ''u'', inf_ready = True, inf_posted = []\<rparr>"

theorem narrative_roundtrip_witness:
  "\<exists>body tags content kc. inf_posted (fst (nta_influx_write_narrative (\<lambda>s. None) \<lparr>curl_ok = True, http_code = 204, chunks = []\<rparr>
      [] ''a'' None None ready_influx)) = [body] \<and> body = tags @ '' narrative='' @ CHR 0x22 # content \<and>
     str_scan content = Some (''a'', '',kc_score='' @ kc @ [CHR 0x0A])"
proof -
  obtain h' r where e: "nta_influx_write_narrative (\<lambda>s. None) \<lparr>curl_ok = True, http_code = 204, chunks = []\<rparr>
      [] ''a'' None None ready_influx = (h', r)" by force
  have "inf_ready ready_influx" "''a'' \<noteq> []" by (simp_all add: ready_influx_def)
  from narrative_roundtrip [OF this e] e show ?thesis by (auto simp: ready_influx_def)
qed

section \<open>The life of a handle\<close>

text \<open>
  \<open>g_curl_inited\<close> with the number of calls of \<open>curl_global_init\<close> still to be undone; \<open>init_ok\<close> is what
  libcurl answers.
\<close>

record curl_global =
  g_curl_inited :: bool
  curl_inits :: int

definition nta_influx_global_init :: "bool \<Rightarrow> curl_global \<Rightarrow> curl_global \<times> int" where
  "nta_influx_global_init init_ok g =
     (if g_curl_inited g then (g, 0)
      else if \<not> init_ok then (g, - 1)
      else (g\<lparr>g_curl_inited := True, curl_inits := curl_inits g + 1\<rparr>, 0))"

definition nta_influx_global_cleanup :: "curl_global \<Rightarrow> curl_global" where
  "nta_influx_global_cleanup g =
     (if g_curl_inited g then g\<lparr>g_curl_inited := False, curl_inits := curl_inits g - 1\<rparr> else g)"

text \<open>The headers of every request.\<close>

definition influx_headers :: "nta_config \<Rightarrow> string list" where
  "influx_headers cfg =
     [''Content-Type: text/plain; charset=utf-8'',
      cstr_copy 256 (''Authorization: Token '' @ influx_token cfg),
      ''Accept: application/json'']"

definition nta_influx_close :: "influx \<Rightarrow> influx" where
  "nta_influx_close h = h\<lparr>inf_ready := False\<rparr>"

text \<open>However often the two are called, libcurl is initialised at most once at a time.\<close>

fun curl_calls :: "bool option list \<Rightarrow> curl_global \<Rightarrow> curl_global" where
  "curl_calls [] g = g"
| "curl_calls (Some ok # cs) g = curl_calls cs (fst (nta_influx_global_init ok g))"
| "curl_calls (None # cs) g = curl_calls cs (nta_influx_global_cleanup g)"

lemma curl_inits_once:
  "curl_inits g = (if g_curl_inited g then 1 else 0) \<Longrightarrow>
   curl_inits (curl_calls cs g) = (if g_curl_inited (curl_calls cs g) then 1 else 0)"
  by (induction cs g rule: curl_calls.induct)
    (simp_all add: nta_influx_global_init_def nta_influx_global_cleanup_def split: if_splits)

text \<open>A closed handle, or one that did not open, posts nothing: every write fails and leaves it as it is.\<close>

lemma influx_unready_writes_nothing:
  assumes "\<not> inf_ready h"
  shows "nta_influx_write_traffic parse reply body agent_id h en = (h, en, - 1)"
    "nta_influx_write_metrics parse reply body agent_id h = (h, - 1)"
    "nta_influx_write_narrative parse reply ev narrative agent_id backend h = (h, - 1)"
    "nta_influx_write_pool reply pool_size backlog unacked consumers h = (h, - 1)"
  using assms by (simp_all add: nta_influx_write_traffic_def nta_influx_write_metrics_def
      nta_influx_write_narrative_def nta_influx_write_pool_def)

lemma influx_closed_unready: "\<not> inf_ready (nta_influx_close h)"
  by (simp add: nta_influx_close_def)

text \<open>A token longer than 234 characters is sent cut, since the length of its header is not checked.\<close>

theorem influx_long_token_cut:
  assumes "length (influx_token cfg) > 234"
  shows "influx_headers cfg ! 1 = ''Authorization: Token '' @ take 234 (influx_token cfg) \<and>
    length (influx_headers cfg ! 1) = 255"
  using assms by (simp add: influx_headers_def cstr_copy_def)

theorem influx_long_token_cut_witness:
  "influx_headers ((nta_config_load (\<lambda>k. None))\<lparr>influx_token := replicate 300 CHR ''t''\<rparr>) ! 1 =
     ''Authorization: Token '' @ replicate 234 CHR ''t''"
  using influx_long_token_cut [of "(nta_config_load (\<lambda>k. None))\<lparr>influx_token := replicate 300 CHR ''t''\<rparr>"] by simp

end
