(* ===== verification/Nta_Evpoint.thy ===== *)
theory Nta_Evpoint
  imports Nta_Analyzer Nta_Influx
begin

text \<open>
  The way of an event from the agent's analyzer (\<open>src/agent/analysis/analyzer.c\<close>, \<open>publisher.c\<close>) to the
  data base (\<open>src/server/nta_influx.c\<close>): what an event can hold, the point the server makes of it, and
  how many events fit the buffer of a batch.
\<close>

section \<open>What an event holds\<close>

definition stage_names :: "string list" where
  "stage_names = [''IDLE'', ''RECON'', ''EXPLOIT'', ''EXFIL'', ''COMPLETE'']"

definition event_shape :: "event_slot \<Rightarrow> bool" where
  "event_shape e \<longleftrightarrow> evt_src_ip e \<in> range inet_ntop \<and>
     evt_proto e \<in> set [''ICMP'', ''TCP'', ''UDP'', ''ARP''] \<and>
     evt_attack_type e \<in> set (''NONE'' # attack_names) \<and> evt_kill_chain_stage e \<in> set stage_names \<and>
     evt_mitre e \<in> set ([] # List.map (\<lambda>a. attack_to_mitre (Some a)) attack_names)"

lemma stage_named: "kc_stage_name st \<in> set stage_names"
  by (cases st) (simp_all add: kc_stage_name_def stage_names_def)

text \<open>An event as \<open>publish_packet\<close> makes it for one of the attacks, or for none.\<close>

lemma published_shape:
  assumes "publish_packet rm (Some (inet_ntop src)) port (Some proto) len scan attack (Some (kc_stage_name st)) score
      (Some (if attack \<noteq> None then attack_to_mitre attack else '''')) = Some e"
    and "proto \<in> set [''ICMP'', ''TCP'', ''UDP'', ''ARP'']" "reported attack"
  shows "event_shape e"
proof -
  have "cstr_copy 8 proto = proto" using assms(2) by (intro cstr_copy_id) auto
  moreover have "cstr_copy 16 (kc_stage_name st) = kc_stage_name st" using length_kc_stage_name by (intro cstr_copy_id)
  moreover have "a \<in> set attack_names \<Longrightarrow> cstr_copy 32 a = a \<and> cstr_copy 48 (attack_to_mitre (Some a)) = attack_to_mitre (Some a)" for a
    using attack_fields [of a] by simp
  ultimately show ?thesis using assms stage_named [of st]
    by (cases attack) (auto simp: publish_packet_def Let_def event_shape_def reported_def split: if_splits)
qed

lemma ipv4_event_shape:
  assumes "analyze_ipv4 st packet len now = Some (st', r, Some e)"
  shows "event_shape e"
  using assms
proof (cases rule: analyze_ipv4_cases)
  case (analyzed ss i src res port proto)
  obtain s a where sa: "res = (s, a)" by (cases res)
  have "reported a" using packet_result_attack [OF analyzed(4)] by (cases a) (auto simp: sa reported_def)
  moreover have "proto \<in> set [''ICMP'', ''TCP'', ''UDP'', ''ARP'']" using analyzed(7) by auto
  moreover have "snd (snd (finish_packet (st\<lparr>suspects := ss\<rparr>) i res src port proto len now)) = Some e"
    using analyzed(6) by (metis snd_conv)
  then have "\<exists>rm scan st score. publish_packet rm (Some (inet_ntop src)) port (Some proto) len scan a (Some (kc_stage_name st)) score
      (Some (if a \<noteq> None then attack_to_mitre a else '''')) = Some e"
    unfolding sa finish_packet_def Let_def prod.case snd_conv by blast
  ultimately show ?thesis using published_shape by blast
qed simp_all

lemma arp_event_shape:
  assumes "analyze_arp st packet len now = Some (st', r, Some e)"
  shows "event_shape e"
proof -
  obtain t sp where d: "detect_arp_spoof (arp_table st) packet len = Some (t, sp)"
    using assms by (cases "detect_arp_spoof (arp_table st) packet len") (auto simp: analyze_arp_def)
  then obtain claimed where sp: "sp = Some claimed" using assms by (cases sp) (auto simp: analyze_arp_def)
  have m: "attack_to_mitre (Some ''ARP_SPOOF'') = ''T1557''" by (simp add: attack_to_mitre_def)
  have "publish_packet (g_replay_mode (detections st)) (Some (inet_ntop claimed)) 0 (Some ''ARP'') len 1
      (Some ''ARP_SPOOF'') (Some (kc_stage_name KC_RECON)) 20 (Some ''T1557'') = Some e"
    using assms d sp detect_arp_spoof_cases [OF d] by (auto simp: analyze_arp_def Let_def split: if_splits option.splits)
  then show ?thesis
    by (intro published_shape [where attack = "Some ''ARP_SPOOF''" and proto = "''ARP''" and st = KC_RECON]) (simp_all add: m)
qed

lemma packet_event_shape:
  assumes "analyze_packet st packet len now = Some (st', r, Some e)"
  shows "event_shape e"
  using assms
proof (cases rule: analyze_packet_cases)
  case arp
  then show ?thesis by (rule arp_event_shape)
next
  case ipv4
  from ipv4(2) show ?thesis by (rule ipv4_event_shape)
qed simp_all

section \<open>The tags of its point\<close>

text \<open>What the server adds to the tags of an event.\<close>

definition enrichment_tags :: "ioc option \<Rightarrow> string \<Rightarrow> geo_result \<Rightarrow> (string \<times> string) list" where
  "enrichment_tags ioc src_ip gr = extra_tags (JObject []) ioc src_ip gr"

definition agent_tags :: "string \<Rightarrow> event_slot \<Rightarrow> (string \<times> string) list" where
  "agent_tags agent e =
     [(''agent_id'', agent), (''src_ip'', evt_src_ip e), (''protocol'', evt_proto e),
      (''attack_type'', evt_attack_type e), (''kill_chain_stage'', evt_kill_chain_stage e)] @
     (if evt_mitre e = [] then [] else [(''mitre'', evt_mitre e)])"

lemma event_ip [simp]: "event_src_ip (event_json e) = evt_src_ip e"
  by (simp add: event_src_ip_def json_get_str_def event_json_def item_string_def)

lemma event_tags:
  assumes "evt_attack_type e \<noteq> []" "evt_kill_chain_stage e \<noteq> []"
  shows "point_tags (event_json e) (Some agent) ioc gr = agent_tags agent e @ enrichment_tags ioc (evt_src_ip e) gr"
  using assms unfolding point_tags_def event_ip base_tags_def extra_tags_def enrichment_tags_def agent_tags_def
  by (cases "evt_attack_type e"; cases "evt_kill_chain_stage e"; cases "evt_mitre e")
    (simp_all add: json_get_str_def event_json_def item_string_def opt_tag_def)

lemma plain_esc_tag: "list_all (\<lambda>c. \<not> lp_special c) s \<Longrightarrow> esc_tag s = s"
  by (induction s) (simp_all add: esc_char.simps)

lemma ip_tag_fits: "tag_fits (inet_ntop src)"
proof -
  have d: "list_all is_digit (dec_digits n)" for n by (rule dec_digits_all)
  have "is_digit c \<Longrightarrow> \<not> lp_special c \<and> c \<noteq> backslash" for c by (auto simp: is_digit_def lp_special_def backslash_def)
  then have p: "list_all (\<lambda>c. \<not> lp_special c \<and> c \<noteq> backslash) (dec_digits n)" for n
    using d [of n] by (auto simp: list_all_iff)
  have all: "list_all (\<lambda>c. \<not> lp_special c \<and> c \<noteq> backslash) (inet_ntop src)"
    using p by (simp add: inet_ntop_def) (simp add: lp_special_def backslash_def)
  then have "esc_tag (inet_ntop src) = inet_ntop src" by (intro plain_esc_tag) (auto simp: list_all_iff)
  moreover have "clean_end (inet_ntop src)"
    using all last_in_set [of "inet_ntop src"] by (auto simp: clean_end_def list_all_iff)
  ultimately show ?thesis using length_inet_ntop [of src] by (simp add: tag_fits_def MAX_TAG_LEN_def)
qed

lemma short_tag_fits: "length v \<le> 63 \<Longrightarrow> CHR 0x5C \<notin> set v \<Longrightarrow> tag_fits v"
proof -
  assume v: "length v \<le> 63" "CHR 0x5C \<notin> set v"
  have "length (esc_tag v) \<le> 2 * length v" by (induction v) (auto simp: esc_char.simps)
  moreover have "clean_end v" using v(2) unfolding clean_end_def backslash_def by (metis last_in_set)
  ultimately show ?thesis using v(1) by (simp add: tag_fits_def MAX_TAG_LEN_def)
qed

lemma fixed_tags_short:
  "list_all (\<lambda>v. length v \<le> 63 \<and> \<not> List.member v (CHR 0x5C) \<and> v \<noteq> [])
     ([''ICMP'', ''TCP'', ''UDP'', ''ARP'', ''NONE''] @ stage_names @ attack_names)"
  "list_all (\<lambda>v. length v \<le> 63 \<and> \<not> List.member v (CHR 0x5C)) (List.map (\<lambda>a. attack_to_mitre (Some a)) attack_names)"
  by code_simp+

lemma fixed_tags_fit:
  "v \<in> set ([''ICMP'', ''TCP'', ''UDP'', ''ARP'', ''NONE''] @ stage_names @ attack_names) \<Longrightarrow> tag_fits v \<and> v \<noteq> []"
  "v \<in> set (List.map (\<lambda>a. attack_to_mitre (Some a)) attack_names) \<Longrightarrow> tag_fits v"
  using fixed_tags_short unfolding list_all_iff by (metis List.member_iff short_tag_fits)+

lemma event_shape_tags:
  assumes "event_shape e"
  shows "tag_fits (evt_src_ip e)" "tag_fits (evt_proto e)" "tag_fits (evt_attack_type e)"
    "tag_fits (evt_kill_chain_stage e)" "tag_fits (evt_mitre e)"
    "evt_attack_type e \<noteq> []" "evt_kill_chain_stage e \<noteq> []"
proof -
  show "tag_fits (evt_src_ip e)" using assms ip_tag_fits by (auto simp: event_shape_def)
  have "tag_fits []" by (simp add: tag_fits_def clean_end_def MAX_TAG_LEN_def)
  then show "tag_fits (evt_mitre e)" using assms fixed_tags_fit(2) by (auto simp: event_shape_def)
  have "evt_proto e \<in> set ([''ICMP'', ''TCP'', ''UDP'', ''ARP'', ''NONE''] @ stage_names @ attack_names)"
    "evt_attack_type e \<in> set ([''ICMP'', ''TCP'', ''UDP'', ''ARP'', ''NONE''] @ stage_names @ attack_names)"
    "evt_kill_chain_stage e \<in> set ([''ICMP'', ''TCP'', ''UDP'', ''ARP'', ''NONE''] @ stage_names @ attack_names)"
    using assms by (auto simp: event_shape_def)
  then show "tag_fits (evt_proto e)" "tag_fits (evt_attack_type e)" "tag_fits (evt_kill_chain_stage e)"
    "evt_attack_type e \<noteq> []" "evt_kill_chain_stage e \<noteq> []"
    using fixed_tags_fit(1) by blast+
qed

lemma agent_tags_fit: "event_shape e \<Longrightarrow> tag_fits agent \<Longrightarrow> \<forall>(k, v) \<in> set (agent_tags agent e). tag_fits v"
  using event_shape_tags [of e] by (auto simp: agent_tags_def)

section \<open>From the packet to the data base\<close>

text \<open>
  C7. What the analyzer saw is what the data base reads: for every packet that yields an event, the
  point the server writes of it decodes, under any enrichment with values that fit their tags, to the
  address of the source, the protocol, the attack (or \<open>NONE\<close>), the stage and the technique the analyzer
  put into the event, with the agent's name first and the tags of the enrichment last.
\<close>

theorem packet_to_point:
  assumes "analyze_packet st packet len now = Some (st', r, Some e)"
    and "build_traffic_point parse cap (event_json e) (Some agent) en = (en', lp)" and "lp \<noteq> []"
    and "ask_geo en (evt_src_ip e) = (en1, gr)" and "tag_fits agent"
    and "\<forall>(k, v) \<in> set (enrichment_tags (en_ioc en1) (evt_src_ip e) gr). tag_fits v"
  shows "\<exists>src f. evt_src_ip e = inet_ntop src \<and> evt_attack_type e \<in> set (''NONE'' # attack_names) \<and>
    lp_tags (drop 7 lp) = Some (agent_tags agent e @ enrichment_tags (en_ioc en1) (evt_src_ip e) gr, f)"
proof -
  obtain en2 t where t: "event_text parse (event_json e) (Some agent) en = (en2, t)" by force
  have lp: "lp = t" using build_spec [OF t, of cap] assms(2,3) by (auto split: if_splits)
  have e: "event_shape e" by (rule packet_event_shape [OF assms(1)])
  have tags: "point_tags (event_json e) (Some agent) (en_ioc en1) gr =
      agent_tags agent e @ enrichment_tags (en_ioc en1) (evt_src_ip e) gr"
    using event_shape_tags(6,7) [OF e] by (rule event_tags)
  have "\<forall>(k, v) \<in> set (point_tags (event_json e) (Some agent) (en_ioc en1) gr). tag_fits v"
    using agent_tags_fit [OF e assms(5)] assms(6) by (auto simp: tags)
  from event_text_decoded [OF t _ this] assms(4) e show ?thesis
    by (auto simp: tags event_shape_def lp)
qed

section \<open>How many events a batch holds\<close>

lemma esc_tag_length: "length v \<le> length (esc_tag v)"
  by (induction v) (auto simp: esc_char.simps)

lemma put_tag_length: "tag_fits v \<Longrightarrow> length k + length v + 2 \<le> length (put_tag (k, v))"
  using esc_tag_length [of v] by (simp add: put_tag_text tag_text_def)

lemma ip_text_length: "7 \<le> length (inet_ntop src)"
proof -
  have d: "1 \<le> length (dec_digits n)" for n by (subst dec_digits.simps) simp
  show ?thesis using d [of "unat (raw_byte 0 src)"] d [of "unat (raw_byte (Suc 0) src)"]
      d [of "unat (raw_byte 2 src)"] d [of "unat (raw_byte 3 src)"] by (simp add: inet_ntop_def)
qed

lemma event_name_lengths:
  assumes "event_shape e"
  shows "7 \<le> length (evt_src_ip e)" "3 \<le> length (evt_proto e)" "4 \<le> length (evt_attack_type e)"
    "4 \<le> length (evt_kill_chain_stage e)"
proof -
  have n: "list_all (\<lambda>v. 4 \<le> length v) (stage_names @ ''NONE'' # attack_names)" by code_simp
  show "7 \<le> length (evt_src_ip e)" using assms ip_text_length by (auto simp: event_shape_def)
  show "3 \<le> length (evt_proto e)" using assms by (auto simp: event_shape_def)
  show "4 \<le> length (evt_attack_type e)" "4 \<le> length (evt_kill_chain_stage e)"
    using assms n by (auto simp: event_shape_def list_all_iff)
qed

definition MIN_POINT :: nat where "MIN_POINT = 119"

text \<open>The shortest point: fixed keys, and values of at least the lengths above.\<close>

lemma event_text_length:
  assumes e: "event_shape e" and t: "event_text parse (event_json e) (Some agent) en = (en', text)"
  shows "MIN_POINT \<le> length text"
proof -
  obtain en1 gr where g: "ask_geo en (evt_src_ip e) = (en1, gr)" by force
  note fit = event_shape_tags [OF e]
  note n = event_name_lengths [OF e]
  have tags: "point_tags (event_json e) (Some agent) (en_ioc en1) gr = agent_tags agent e @ enrichment_tags (en_ioc en1) (evt_src_ip e) gr"
    using fit(6,7) by (rule event_tags)
  have "10 \<le> length (put_tag (''agent_id'', agent))" by (simp add: put_tag_def)
  then have "77 \<le> length (concat (List.map put_tag (agent_tags agent e)))"
    using put_tag_length [OF fit(1), of "''src_ip''"] put_tag_length [OF fit(2), of "''protocol''"]
      put_tag_length [OF fit(3), of "''attack_type''"] put_tag_length [OF fit(4), of "''kill_chain_stage''"] n
    by (simp add: agent_tags_def)
  moreover have "34 \<le> length (concat (field_pieces (event_json e) gr))"
  proof -
    have "1 \<le> length (fmt_d k)" for k by (simp add: Suc_le_eq)
    note this [of "cast_llong (of_int (evt_port e))"]
    then show ?thesis by (simp add: field_pieces_def event_json_def item_number_def num_or_def)
  qed
  ultimately show ?thesis using t g
    by (auto simp: event_text_def text_tags [of "event_json e", simplified] tags MIN_POINT_def split: prod.splits)
qed

text \<open>The points of a batch, one after the other; what does not fit is left out.\<close>

fun batch_points ::
  "(string \<Rightarrow> json option) \<Rightarrow> string option \<Rightarrow> enrich \<Rightarrow> string \<Rightarrow> json list \<Rightarrow> string list" where
  "batch_points parse agent_id en lp [] = []"
| "batch_points parse agent_id en lp (evt # evts) =
     (if \<not> is_object evt then batch_points parse agent_id en lp evts
      else case build_traffic_point parse (LP_BUF_SIZE - length lp) evt agent_id en of
             (en1, w) \<Rightarrow> (if w = [] then [] else [w]) @ batch_points parse agent_id en1 (lp @ w) evts)"

lemma batch_points_text: "snd (traffic_batch parse agent_id en lp evts) = lp @ concat (batch_points parse agent_id en lp evts)"
  by (induction parse agent_id en lp evts rule: batch_points.induct) (auto split: prod.splits)

lemma batch_points_count: "length (batch_points parse agent_id en lp evts) \<le> length evts"
  by (induction parse agent_id en lp evts rule: batch_points.induct) (auto split: prod.splits simp: le_SucI)

lemma batch_points_length:
  "\<forall>e \<in> set es. event_shape e \<Longrightarrow>
   \<forall>w \<in> set (batch_points parse (Some agent) en lp (List.map event_json es)). MIN_POINT \<le> length w"
proof (induction es arbitrary: en lp)
  case (Cons e es)
  obtain en1 w where b: "build_traffic_point parse (LP_BUF_SIZE - length lp) (event_json e) (Some agent) en = (en1, w)" by force
  obtain en2 t where t: "event_text parse (event_json e) (Some agent) en = (en2, t)" by force
  have "w = [] \<or> w = t" using build_spec [OF t, of "LP_BUF_SIZE - length lp"] b by (auto split: if_splits)
  moreover have "MIN_POINT \<le> length t" using Cons.prems t by (intro event_text_length) simp_all
  ultimately show ?case using Cons.IH [of en1 "lp @ w"] Cons.prems b
    by (auto simp: event_json_def)
qed simp

text \<open>
  C31. Of a batch at most 137 points are written, however many events it has: no more fit the buffer of
  the server, whatever the enrichment. The rest of the events is dropped, and the write is still
  reported as a success; so a batch of 138 events or more always loses some. Nothing limits
  \<open>AGENT_BATCH_SIZE\<close> to this number.
\<close>

theorem big_batch_loses_events:
  assumes "\<forall>e \<in> set es. \<exists>st packet len now st' r. analyze_packet st packet len now = Some (st', r, Some e)"
    and "inf_ready h" and "body \<noteq> []" and "parse body = Some (batch_json es)"
    and "curl_ok reply" and "http_code reply = 204"
  shows "\<exists>h' en' ps. nta_influx_write_traffic parse reply body (Some agent) h en = (h', en', 0) \<and>
    inf_posted h' = inf_posted h @ (if ps = [] then [] else [concat ps]) \<and>
    ps = batch_points parse (Some agent) en [] (List.map event_json es) \<and> length ps \<le> min 137 (length es)"
proof -
  let ?ps = "batch_points parse (Some agent) en [] (List.map event_json es)"
  have shape: "\<forall>e \<in> set es. event_shape e" using assms(1) packet_event_shape by blast
  obtain en1 lp where lp: "traffic_batch parse (Some agent) en [] (List.map event_json es) = (en1, lp)" by force
  then have c: "lp = concat ?ps" using batch_points_text [of parse "Some agent" en "[]" "List.map event_json es"] by simp
  have "MIN_POINT * length ws \<le> length (concat ws)" if "\<forall>w \<in> set ws. MIN_POINT \<le> length w" for ws
    using that by (induction ws) auto
  from this [OF batch_points_length [OF shape]] have "MIN_POINT * length ?ps \<le> length lp" unfolding c .
  also have "length lp < LP_BUF_SIZE"
    using batch_bounded [OF _ _ lp] by (simp add: LP_BUF_SIZE_def newline_ended_def)
  finally have "length ?ps \<le> min 137 (length es)"
    using batch_points_count [of parse "Some agent" en "[]" "List.map event_json es"] by (simp add: MIN_POINT_def LP_BUF_SIZE_def)
  moreover have e: "lp = [] \<longleftrightarrow> ?ps = []"
    using c batch_points_length [OF shape, of parse agent en "[]"] by (cases ?ps) (auto simp: MIN_POINT_def)
  moreover have post: "influx_post reply lp h = (h\<lparr>inf_posted := inf_posted h @ [lp]\<rparr>, 0)"
    using assms(5,6) by (simp add: influx_post_def Let_def)
  have "nta_influx_write_traffic parse reply body (Some agent) h en =
      (if lp = [] then (h, en1, 0) else (h\<lparr>inf_posted := inf_posted h @ [lp]\<rparr>, en1, 0))"
    using assms(2-4) by (simp add: nta_influx_write_traffic_def batch_json_def lp post)
  ultimately show ?thesis using c by (cases "?ps = []") simp_all
qed

section \<open>Witnesses\<close>

theorem packet_to_point_witness:
  "\<exists>st' r e cap en' lp f. analyze_packet arp_known_ids arp_spoof_packet 42 5 = Some (st', r, Some e) \<and>
     build_traffic_point (\<lambda>s. None) cap (event_json e) (Some ''probe'') plain_enrich = (en', lp) \<and>
     lp_tags (drop 7 lp) = Some (agent_tags ''probe'' e, f)"
proof -
  obtain st' e where a: "analyze_packet arp_known_ids arp_spoof_packet 42 5 = Some (st', 1, Some e)"
    using arp_spoof_detected by blast
  obtain en' line where t: "event_text (\<lambda>s. None) (event_json e) (Some ''probe'') plain_enrich = (en', line)" by force
  have b: "build_traffic_point (\<lambda>s. None) (length line + 64) (event_json e) (Some ''probe'') plain_enrich = (en', line)"
    using build_spec [OF t, of "length line + 64"] by simp
  have ne: "line \<noteq> []" using event_text_length [OF packet_event_shape [OF a] t] by (auto simp: MIN_POINT_def)
  have g: "ask_geo plain_enrich (evt_src_ip e) = (plain_enrich, zero_result)" by (simp add: ask_geo_def plain_enrich_def)
  have n: "enrichment_tags (en_ioc plain_enrich) (evt_src_ip e) zero_result = []"
    by (simp add: enrichment_tags_def extra_tags_def json_get_str_def item_string_def opt_tag_def plain_enrich_def
        nta_ioc_match_ip_def zero_result_def)
  have fits: "tag_fits ''probe''" by (rule short_tag_fits) simp_all
  have "\<forall>(k, v) \<in> set (enrichment_tags (en_ioc plain_enrich) (evt_src_ip e) zero_result). tag_fits v" by (simp add: n)
  from packet_to_point [OF a b ne g fits this] obtain f where
    "lp_tags (drop 7 line) = Some (agent_tags ''probe'' e @ enrichment_tags (en_ioc plain_enrich) (evt_src_ip e) zero_result, f)"
    by blast
  with a b n show ?thesis by (metis append_Nil2)
qed

theorem big_batch_loses_events_witness:
  "\<exists>e h' en' ps. nta_influx_write_traffic (\<lambda>s. Some (batch_json (replicate 200 e))) \<lparr>curl_ok = True, http_code = 204, chunks = []\<rparr>
     ''x'' (Some ''probe'') \<lparr>inf_endpoint = [], inf_ready = True, inf_posted = []\<rparr> plain_enrich = (h', en', 0) \<and>
   length (inf_posted h') \<le> 1 \<and> concat (inf_posted h') = concat ps \<and> length ps \<le> 137"
proof -
  obtain st' e where a: "analyze_packet arp_known_ids arp_spoof_packet 42 5 = Some (st', 1, Some e)"
    using arp_spoof_detected by blast
  have all: "\<forall>e' \<in> set (replicate 200 e). \<exists>st packet len now st' r. analyze_packet st packet len now = Some (st', r, Some e')"
    using a by (metis in_set_replicate)
  let ?h = "\<lparr>inf_endpoint = [], inf_ready = True, inf_posted = []\<rparr> :: influx"
  let ?r = "\<lparr>curl_ok = True, http_code = 204, chunks = []\<rparr> :: http_reply"
  from big_batch_loses_events [OF all, of ?h "''x''" "\<lambda>s. Some (batch_json (replicate 200 e))" ?r "''probe''" plain_enrich]
  obtain h' en' ps where w: "nta_influx_write_traffic (\<lambda>s. Some (batch_json (replicate 200 e))) ?r ''x'' (Some ''probe'') ?h plain_enrich = (h', en', 0)"
    "inf_posted h' = inf_posted ?h @ (if ps = [] then [] else [concat ps])" "length ps \<le> min 137 (length (replicate 200 e))"
    by auto
  then show ?thesis by (intro exI [of _ e] exI [of _ h'] exI [of _ en'] exI [of _ ps]) simp
qed

end
