(* ===== verification/Nta_Whois.thy ===== *)
theory Nta_Whois
  imports Nta_Util
begin

text \<open>
  The WHOIS client (\<open>src/server/nta_whois.c\<close>): the line parser for the \<open>refer\<close> of IANA and for the
  answers of the regional registries, the cache and the lookup. The network is an argument: for a
  server \<open>None\<close> when it cannot be reached (\<open>getaddrinfo\<close>, \<open>socket\<close> or \<open>connect\<close> fails), else what it
  answers to a query, where \<open>None\<close> is a failed \<open>send\<close> or \<open>malloc\<close>. A read past the end of a buffer has
  no value, so a lookup is \<open>None\<close> exactly when it makes one.
\<close>

record whois_info =
  wi_org :: string
  wi_country :: string
  wi_netname :: string
  wi_has_data :: bool

definition zero_info :: whois_info where
  "zero_info = \<lparr>wi_org = [], wi_country = [], wi_netname = [], wi_has_data = False\<rparr>"

record whois =
  wh_timeout_sec :: int
  wh_ttl_sec :: int
  wh_buckets :: "(whois_info \<times> time_t) table"

definition WHOIS_BUCKETS :: nat where "WHOIS_BUCKETS = 2048"
definition WHOIS_RESP_MAX :: nat where "WHOIS_RESP_MAX = 32 * 1024"
definition WHOIS_REFER_MAX :: nat where "WHOIS_REFER_MAX = 128"
definition WHOIS_IANA :: string where "WHOIS_IANA = ''whois.iana.org''"

section \<open>Parsing\<close>

text \<open>A byte range copied into a field and read back as a C string.\<close>

definition cstr :: "string \<Rightarrow> string" where
  "cstr s = takeWhile (\<lambda>c. c \<noteq> CHR 0x00) s"

definition copy_trim :: "nat \<Rightarrow> string \<Rightarrow> string" where
  "copy_trim cap src = cstr (cstr_copy cap (rev (dropWhile is_trailing (rev (dropWhile is_blank src)))))"

text \<open>\<open>line_match_key\<close>: the rest of the line after the key, the colon and the blanks.\<close>

definition line_match_key :: "string \<Rightarrow> string \<Rightarrow> string option" where
  "line_match_key line key =
     (if length line < length key + 1 then None
      else if \<not> strcasecmp_eq (take (length key) line) key then None
      else case dropWhile is_blank (drop (length key) line) of
             [] \<Rightarrow> None
           | c # r \<Rightarrow> if c \<noteq> CHR '':'' then None else Some (dropWhile is_blank r))"

text \<open>The lines both parsers walk over; a final newline does not open another line.\<close>

function buf_lines :: "string \<Rightarrow> string list" where
  "buf_lines buf =
     (if buf = [] then []
      else let l = takeWhile (\<lambda>c. c \<noteq> CHR 0x0A) buf;
               r = dropWhile (\<lambda>c. c \<noteq> CHR 0x0A) buf
           in if r = [] then [l] else l # buf_lines (tl r))"
  by pat_completeness auto
termination
proof (relation "measure length", goal_cases)
  case (2 buf l r)
  then have "length r \<le> length buf" by (simp add: length_dropWhile_le)
  moreover have "0 < length buf" using 2 by simp
  ultimately have "length r - Suc 0 < length buf" by linarith
  with 2 show ?case by simp
qed simp

declare buf_lines.simps [simp del]

fun refer_lines :: "nat \<Rightarrow> string list \<Rightarrow> string option" where
  "refer_lines out_cap [] = None"
| "refer_lines out_cap (l # ls) =
     (case line_match_key l ''refer'' of
        Some v \<Rightarrow>
          (let h = rev (dropWhile (\<lambda>c. c = CHR 0x0D \<or> c = CHR '' '') (rev v))
           in if 0 < length h \<and> length h < out_cap then Some (cstr h) else refer_lines out_cap ls)
      | None \<Rightarrow> refer_lines out_cap ls)"

definition parse_refer :: "string \<Rightarrow> nat \<Rightarrow> string option" where
  "parse_refer buf out_cap = refer_lines out_cap (buf_lines buf)"

definition org_keys :: "string list" where
  "org_keys = [''OrgName'', ''owner'', ''descr'', ''org-name'', ''organisation'']"

definition country_keys :: "string list" where
  "country_keys = [''Country'', ''country'']"

definition netname_keys :: "string list" where
  "netname_keys = [''NetName'', ''netname'']"

text \<open>The inner loops: the first key of the list that matches the line.\<close>

fun match_keys :: "string \<Rightarrow> string list \<Rightarrow> string option" where
  "match_keys l [] = None"
| "match_keys l (k # ks) = (case line_match_key l k of Some v \<Rightarrow> Some v | None \<Rightarrow> match_keys l ks)"

definition fill_field :: "string list \<Rightarrow> nat \<Rightarrow> string \<Rightarrow> string \<Rightarrow> string" where
  "fill_field keys cap l field =
     (if field \<noteq> [] then field
      else case match_keys l keys of Some v \<Rightarrow> copy_trim cap v | None \<Rightarrow> field)"

definition parse_line :: "whois_info \<Rightarrow> string \<Rightarrow> whois_info" where
  "parse_line out l =
     out\<lparr>wi_org := fill_field org_keys 256 l (wi_org out),
         wi_country := fill_field country_keys 8 l (wi_country out),
         wi_netname := fill_field netname_keys 128 l (wi_netname out)\<rparr>"

definition parse_regional :: "string \<Rightarrow> whois_info \<Rightarrow> whois_info" where
  "parse_regional buf out =
     (let out1 = foldl parse_line out (buf_lines buf)
      in if wi_org out1 \<noteq> [] \<or> wi_country out1 \<noteq> [] then out1\<lparr>wi_has_data := True\<rparr> else out1)"

section \<open>Query\<close>

type_synonym whois_net = "string \<Rightarrow> (string \<Rightarrow> string option) option"

text \<open>
  The bytes \<open>send\<close> takes from the 64-byte buffer: \<open>snprintf\<close> returns the untruncated length of
  \<open>"%s\r\n"\<close>, and that many bytes are sent.
\<close>

definition whois_request :: "string \<Rightarrow> string option" where
  "whois_request ip =
     (let text = ip @ [CHR 0x0D, CHR 0x0A]; qlen = length text; query = cstr_copy 64 text @ [CHR 0x00]
      in if qlen \<le> 64 then Some (take qlen query) else None)"

text \<open>\<open>whois_query\<close>: the answer read, at most \<open>WHOIS_RESP_MAX - 1\<close> bytes; inner \<open>None\<close> is -1.\<close>

definition whois_query :: "whois_net \<Rightarrow> string \<Rightarrow> string \<Rightarrow> string option option" where
  "whois_query net server ip =
     (case net server of
        None \<Rightarrow> Some None
      | Some ask \<Rightarrow>
          do { q \<leftarrow> whois_request ip;
               Some (map_option (take (WHOIS_RESP_MAX - 1)) (ask q)) })"

section \<open>Cache and lookup\<close>

definition whois_get_locked :: "whois \<Rightarrow> string \<Rightarrow> time_t \<Rightarrow> whois_info option" where
  "whois_get_locked w ip now =
     (case table_find (wh_buckets w) ip of
        None \<Rightarrow> None
      | Some (info, expires_at) \<Rightarrow> if expires_at < now then None else Some info)"

definition whois_put_locked :: "whois \<Rightarrow> string \<Rightarrow> whois_info \<Rightarrow> time_t \<Rightarrow> whois" where
  "whois_put_locked w ip info expires_at =
     w\<lparr>wh_buckets := put_update (wh_buckets w) ip (info, expires_at)\<rparr>"

definition nta_whois_open :: "int \<Rightarrow> int \<Rightarrow> whois" where
  "nta_whois_open timeout_sec ttl_sec =
     \<lparr>wh_timeout_sec = (if timeout_sec > 0 then timeout_sec else 5),
      wh_ttl_sec = (if ttl_sec > 0 then ttl_sec else 86400), wh_buckets = new_table WHOIS_BUCKETS\<rparr>"

text \<open>
  The two queries: what the registry named by IANA's answer says (nothing without a referral), and
  the information that results, inner \<open>None\<close> when IANA did not answer.
\<close>

definition refer_info :: "whois_net \<Rightarrow> string \<Rightarrow> string \<Rightarrow> whois_info option" where
  "refer_info net ip iana_buf =
     (case parse_refer iana_buf WHOIS_REFER_MAX of
        None \<Rightarrow> Some zero_info
      | Some refer_host \<Rightarrow>
          (case whois_query net refer_host ip of
             None \<Rightarrow> None
           | Some None \<Rightarrow> Some zero_info
           | Some (Some reg_buf) \<Rightarrow>
               Some (if reg_buf = [] then zero_info else parse_regional reg_buf zero_info)))"

definition whois_fetch :: "whois_net \<Rightarrow> string \<Rightarrow> whois_info option option" where
  "whois_fetch net ip =
     (case whois_query net WHOIS_IANA ip of
        None \<Rightarrow> None
      | Some None \<Rightarrow> Some None
      | Some (Some iana_buf) \<Rightarrow>
          if iana_buf = [] then Some None
          else case refer_info net ip iana_buf of
                 None \<Rightarrow> None
               | Some out \<Rightarrow> Some (Some (if wi_has_data out then out else parse_regional iana_buf out)))"

definition nta_whois_lookup ::
  "whois_net \<Rightarrow> time_t \<Rightarrow> whois \<Rightarrow> string \<Rightarrow> (whois \<times> whois_info \<times> int) option" where
  "nta_whois_lookup net now w ip =
     (if is_private_ip ip then Some (w, zero_info, 0)
      else case whois_get_locked w ip now of
             Some out \<Rightarrow> Some (w, out, if wi_has_data out then 1 else 0)
           | None \<Rightarrow>
               do { r \<leftarrow> whois_fetch net ip;
                    case r of
                      None \<Rightarrow> Some (whois_put_locked w ip zero_info (now + 300), zero_info, 0)
                    | Some out \<Rightarrow>
                        Some (whois_put_locked w ip out (if wi_has_data out then now + wh_ttl_sec w else now + 300),
                              out, if wi_has_data out then 1 else 0) })"

section \<open>Lemmas\<close>

lemma whois_request_None: "whois_request ip = None \<longleftrightarrow> 62 < length ip"
  by (simp add: whois_request_def Let_def)

lemma whois_request_line:
  "length ip \<le> 61 \<Longrightarrow> whois_request ip = Some (ip @ [CHR 0x0D, CHR 0x0A])"
  by (simp add: whois_request_def Let_def)

lemma whois_query_None: "whois_query net srv ip = None \<longleftrightarrow> net srv \<noteq> None \<and> 62 < length ip"
  by (cases "whois_request ip") (use whois_request_None [of ip] in \<open>auto simp: whois_query_def split: option.splits\<close>)

text \<open>IANA is asked first, so a query that reads too far does it there, or not at all.\<close>

lemma whois_fetch_None: "whois_fetch net ip = None \<longleftrightarrow> net WHOIS_IANA \<noteq> None \<and> 62 < length ip"
proof (cases "whois_query net WHOIS_IANA ip")
  case None
  then show ?thesis using whois_query_None [of net WHOIS_IANA ip] by (simp add: whois_fetch_def)
next
  case (Some q)
  then have n: "\<not> (net WHOIS_IANA \<noteq> None \<and> 62 < length ip)" using whois_query_None [of net WHOIS_IANA ip] by simp
  show ?thesis
  proof (cases q)
    case None
    with Some n show ?thesis by (simp add: whois_fetch_def)
  next
    case asked: (Some buf)
    then have "net WHOIS_IANA \<noteq> None" using Some by (auto simp: whois_query_def split: option.splits)
    with n have host: "whois_query net host ip \<noteq> None" for host by (simp add: whois_query_None)
    have "refer_info net ip buf \<noteq> None"
    proof (cases "parse_refer buf WHOIS_REFER_MAX")
      case (Some srv)
      with host [of srv] show ?thesis by (auto simp: refer_info_def split: option.split)
    qed (simp add: refer_info_def)
    with Some asked n show ?thesis by (auto simp: whois_fetch_def split: option.splits)
  qed
qed

lemma cstr_copy_len: "length (cstr (cstr_copy cap s)) \<le> cap - 1"
  by (metis cstr_copy_def cstr_def length_take length_takeWhile_le min.cobounded2 order_trans)

definition info_ok :: "whois_info \<Rightarrow> bool" where
  "info_ok i \<longleftrightarrow> length (wi_org i) < 256 \<and> length (wi_country i) < 8 \<and> length (wi_netname i) < 128 \<and>
     (wi_has_data i \<longleftrightarrow> wi_org i \<noteq> [] \<or> wi_country i \<noteq> [])"

lemma zero_info_ok [simp]: "info_ok zero_info"
  by (simp add: info_ok_def zero_info_def)

lemma fill_field_len: "length f < cap \<Longrightarrow> length (fill_field ks cap l f) < cap"
proof -
  assume f: "length f < cap"
  have "length (copy_trim cap v) < cap" for v
    using cstr_copy_len [of cap "rev (dropWhile is_trailing (rev (dropWhile is_blank v)))"] f
    by (simp add: copy_trim_def)
  with f show ?thesis by (auto simp: fill_field_def split: option.splits)
qed

lemma parse_lines_fields:
  "foldl parse_line out ls =
     out\<lparr>wi_org := foldl (\<lambda>f l. fill_field org_keys 256 l f) (wi_org out) ls,
         wi_country := foldl (\<lambda>f l. fill_field country_keys 8 l f) (wi_country out) ls,
         wi_netname := foldl (\<lambda>f l. fill_field netname_keys 128 l f) (wi_netname out) ls\<rparr>"
  by (induction ls arbitrary: out) (simp_all add: parse_line_def)

text \<open>A field that is filled stays; an empty one takes the first value that is not empty.\<close>

definition line_values :: "string list \<Rightarrow> nat \<Rightarrow> string list \<Rightarrow> string list" where
  "line_values keys cap ls = List.map_filter (\<lambda>l. map_option (copy_trim cap) (match_keys l keys)) ls"

definition first_value :: "string list \<Rightarrow> string" where
  "first_value vs = (case filter (\<lambda>v. v \<noteq> []) vs of [] \<Rightarrow> [] | v # _ \<Rightarrow> v)"

lemma fill_fields:
  "foldl (\<lambda>f l. fill_field ks cap l f) f ls = (if f \<noteq> [] then f else first_value (line_values ks cap ls))"
proof (induction ls arbitrary: f)
  case Nil
  then show ?case by (simp add: line_values_def first_value_def map_filter_simps)
next
  case (Cons l ls)
  show ?case
  proof (cases "f = []")
    case True
    then show ?thesis using Cons
      by (cases "match_keys l ks")
        (simp_all add: fill_field_def line_values_def first_value_def map_filter_simps)
  next
    case False
    then show ?thesis using Cons by (simp add: fill_field_def)
  qed
qed

lemma fields_len: "length f < cap \<Longrightarrow> length (foldl (\<lambda>f l. fill_field ks cap l f) f ls) < cap"
  by (induction ls arbitrary: f) (simp_all add: fill_field_len)

lemma parse_regional_ok: "info_ok out \<Longrightarrow> info_ok (parse_regional buf out)"
proof -
  assume ok: "info_ok out"
  let ?o = "foldl parse_line out (buf_lines buf)"
  have "length (wi_org ?o) < 256 \<and> length (wi_country ?o) < 8 \<and> length (wi_netname ?o) < 128"
    using ok by (simp add: parse_lines_fields info_ok_def fields_len)
  moreover have "wi_has_data ?o = wi_has_data out" by (simp add: parse_lines_fields)
  moreover have "wi_has_data out \<Longrightarrow> wi_org ?o \<noteq> [] \<or> wi_country ?o \<noteq> []"
    using ok by (auto simp: parse_lines_fields info_ok_def fill_fields)
  ultimately show ?thesis by (auto simp: parse_regional_def info_ok_def Let_def)
qed

lemma whois_fetch_ok: "whois_fetch net ip = Some (Some out) \<Longrightarrow> info_ok out"
proof -
  have r: "refer_info net ip buf = Some i \<Longrightarrow> info_ok i" for buf i
    unfolding refer_info_def by (auto simp: parse_regional_ok split: option.splits if_splits)
  assume "whois_fetch net ip = Some (Some out)"
  then obtain buf i where "refer_info net ip buf = Some i" "out = (if wi_has_data i then i else parse_regional buf i)"
    unfolding whois_fetch_def by (auto split: option.splits if_splits)
  with r show ?thesis by (simp add: parse_regional_ok)
qed

definition whois_ok :: "whois \<Rightarrow> bool" where
  "whois_ok w \<longleftrightarrow> table_ok (wh_buckets w) \<and> 0 < wh_ttl_sec w \<and> 0 < wh_timeout_sec w \<and>
     (\<forall>ip p. table_find (wh_buckets w) ip = Some p \<longrightarrow> info_ok (fst p))"

lemma whois_open_ok: "whois_ok (nta_whois_open timeout ttl)"
  by (simp add: whois_ok_def nta_whois_open_def WHOIS_BUCKETS_def)

lemma whois_put_ok: "whois_ok w \<Longrightarrow> info_ok i \<Longrightarrow> whois_ok (whois_put_locked w ip i t)"
proof -
  assume ok: "whois_ok w" and i: "info_ok i"
  have "info_ok (fst q)" if "table_find (put_update (wh_buckets w) ip (i, t)) k = Some q" for k q
  proof (rule upd.find_put_all [OF _ _ _ that])
    fix k' v assume "table_find (wh_buckets w) k' = Some v"
    then show "info_ok (fst v)" using ok unfolding whois_ok_def by blast
  qed (use ok i in \<open>simp_all add: whois_ok_def\<close>)
  then show ?thesis using ok by (simp add: whois_ok_def whois_put_locked_def upd.put_inv)
qed

section \<open>Properties\<close>

text \<open>
  Each field of a parsed registry answer is the first value of its keys that is not blank, in
  the order of the lines and with the keys tried in the order of the table on each line, cut to the
  field; the answer counts as data exactly when the organisation or the country was found.
\<close>

theorem parse_regional_first_values:
  "parse_regional buf zero_info =
     \<lparr>wi_org = first_value (line_values org_keys 256 (buf_lines buf)),
      wi_country = first_value (line_values country_keys 8 (buf_lines buf)),
      wi_netname = first_value (line_values netname_keys 128 (buf_lines buf)),
      wi_has_data = (\<not> (first_value (line_values org_keys 256 (buf_lines buf)) = [] \<and>
        first_value (line_values country_keys 8 (buf_lines buf)) = []))\<rparr>"
  by (simp add: parse_regional_def parse_lines_fields fill_fields zero_info_def Let_def)

text \<open>
  C35. A lookup reads past its query buffer exactly when it asks at all and the address is too long: the
  address is neither private nor cached, IANA's server can be reached, and the address has more than 62
  characters. \<open>src_ip\<close> comes from the message and its length is never checked, so whenever the network
  is up a message can make the server send out bytes of its stack.
\<close>

theorem whois_overread:
  "nta_whois_lookup net now w ip = None \<longleftrightarrow>
     \<not> is_private_ip ip \<and> whois_get_locked w ip now = None \<and> net WHOIS_IANA \<noteq> None \<and> 62 < length ip"
  using whois_fetch_None [of net ip]
  by (auto simp: nta_whois_lookup_def split: option.splits)

text \<open>
  C34. For an address of fewer than 46 characters a lookup always has a result; the information fits
  its fields, is marked as data exactly when organisation or country is known, and the cache keeps
  that invariant. Asked again within 300 seconds of an answer (within \<open>ttl_sec\<close> seconds of one with
  data), the lookup gives the same result and leaves the network alone.
\<close>

theorem whois_lookup_cached:
  assumes "whois_ok w" and "length ip < IP_KEY_MAX"
  shows "\<exists>w' out r. nta_whois_lookup net now w ip = Some (w', out, r) \<and> whois_ok w' \<and> info_ok out \<and>
    r = (if wi_has_data out then 1 else 0) \<and>
    (whois_get_locked w ip now = None \<longrightarrow>
      (\<forall>net' now'. now' \<le> now + (if wi_has_data out then wh_ttl_sec w else 300) \<longrightarrow>
         nta_whois_lookup net' now' w' ip = Some (w', out, r)))"
proof (cases "is_private_ip ip")
  case True
  then show ?thesis using assms by (simp add: nta_whois_lookup_def zero_info_def info_ok_def)
next
  case False
  have put: "nta_whois_lookup net' now' (whois_put_locked w ip out t) ip =
      Some (whois_put_locked w ip out t, out, if wi_has_data out then 1 else 0)" if "now' \<le> t" for net' now' out t
    using that False assms by (simp add: nta_whois_lookup_def whois_get_locked_def whois_put_locked_def whois_ok_def)
  show ?thesis
  proof (cases "whois_get_locked w ip now")
    case (Some out)
    then have "info_ok out" using assms(1)
      by (fastforce simp: whois_get_locked_def whois_ok_def split: option.splits prod.splits if_splits)
    then show ?thesis using Some False assms(1) by (simp add: nta_whois_lookup_def)
  next
    case None
    have "whois_fetch net ip \<noteq> None" using assms(2) by (simp add: whois_fetch_None IP_KEY_MAX_def)
    then obtain r where r: "whois_fetch net ip = Some r" by blast
    show ?thesis
    proof (cases r)
      case None
      have "nta_whois_lookup net now w ip = Some (whois_put_locked w ip zero_info (now + 300), zero_info, 0)"
        using False \<open>whois_get_locked w ip now = None\<close> r None by (simp add: nta_whois_lookup_def)
      moreover have "\<not> wi_has_data zero_info" by (simp add: zero_info_def)
      ultimately show ?thesis using put [of _ "now + 300" _ zero_info] whois_put_ok [OF assms(1)] by simp
    next
      case (Some out)
      let ?t = "if wi_has_data out then now + wh_ttl_sec w else now + 300"
      have "info_ok out" using whois_fetch_ok r Some by simp
      moreover have "nta_whois_lookup net now w ip =
          Some (whois_put_locked w ip out ?t, out, if wi_has_data out then 1 else 0)"
        using False \<open>whois_get_locked w ip now = None\<close> r Some by (simp add: nta_whois_lookup_def)
      moreover have "now' \<le> ?t" if "now' \<le> now + (if wi_has_data out then wh_ttl_sec w else 300)" for now'
        using that by (simp split: if_splits)
      ultimately show ?thesis using put [of _ ?t _ out] whois_put_ok [OF assms(1), of out ip ?t]
        by (intro exI conjI) (assumption | rule refl | blast)+
    qed
  qed
qed

theorem whois_lookup_cached_witness:
  "\<exists>w' out r. nta_whois_lookup (\<lambda>s. None) 0 (nta_whois_open 5 86400) ''8.8.8.8'' = Some (w', out, r) \<and>
     nta_whois_lookup (\<lambda>s. Some (\<lambda>q. Some ''country: US'')) 300 w' ''8.8.8.8'' = Some (w', out, r)"
proof -
  have "length ''8.8.8.8'' < IP_KEY_MAX" by (simp add: IP_KEY_MAX_def)
  moreover have "whois_get_locked (nta_whois_open 5 86400) ''8.8.8.8'' 0 = None"
    by (simp add: whois_get_locked_def nta_whois_open_def WHOIS_BUCKETS_def)
  moreover have "(300::int) \<le> 0 + (if b then wh_ttl_sec (nta_whois_open 5 86400) else 300)" for b
    by (simp add: nta_whois_open_def)
  ultimately show ?thesis
    using whois_lookup_cached [OF whois_open_ok [of 5 86400], of "''8.8.8.8''" "\<lambda>s. None" 0] by blast
qed

end
