(* ===== verification/Nta_Narrator.thy ===== *)
theory Nta_Narrator
  imports Nta_Whois Nta_Http
begin

text \<open>
  The incident narrator (\<open>src/server/nta_narrator.c\<close>): its configuration, the prompt built from an
  incident and its WHOIS data, the response buffer with its limit, and the call that turns an answer
  of the service into a narrative. The JSON parser and printer, the WHOIS sockets and what libcurl
  delivers are arguments. Bytes outside ASCII are written in UTF-8, as in the source file.
\<close>

record narrator_cfg =
  nc_api_key :: string
  nc_model :: string
  nc_url :: string
  nc_timeout_sec :: int
  nc_min_score :: int
  nc_enabled :: bool

record narrator =
  nr_cfg :: narrator_cfg
  nr_headers :: "string list"
  nr_ready :: bool

definition MAX_RESP_BYTES :: nat where "MAX_RESP_BYTES = 256 * 1024"

definition SYSTEM_PROMPT :: string where
  "SYSTEM_PROMPT =
     ''Voc'' @ [CHR 0xC3, CHR 0xAA] @ '' '' @ [CHR 0xC3, CHR 0xA9] @ '' um analista de SOC s'' @ [CHR 0xC3, CHR 0xAA] @ ''nior. Recebe um JSON de incidente do IDS '' @
     ''e devolve uma narrativa concisa em PT-BR no formato EXATO abaixo '' @
     ''(sem markdown, sem bullets):'' @ nl @ nl @
     ''INCIDENT | Severidade: <Cr'' @ [CHR 0xC3, CHR 0xAD] @ ''tica|Alta|M'' @ [CHR 0xC3, CHR 0xA9] @ ''dia> (<score>/100)'' @ nl @ nl @
     ''O QUE ACONTECEU:'' @ nl @
     ''<m'' @ [CHR 0xC3, CHR 0xA1] @ ''x 4 linhas t'' @ [CHR 0xC3, CHR 0xA9] @ ''cnicas>'' @ nl @ nl @
     ''POR QUE '' @ [CHR 0xC3, CHR 0x89] @ '' CR'' @ [CHR 0xC3, CHR 0x8D] @ ''TICO:'' @ nl @
     ''<m'' @ [CHR 0xC3, CHR 0xA1] @ ''x 2 linhas, citando t'' @ [CHR 0xC3, CHR 0xA9] @ ''cnica MITRE>'' @ nl @ nl @
     ''A'' @ [CHR 0xC3, CHR 0x87] @ [CHR 0xC3, CHR 0x83] @ ''O RECOMENDADA:'' @ nl @
     ''<um comando concreto: iptables, nft, ip route ou similar>'' @ nl @ nl @
     ''MITRE ATT&CK: <techniques separadas por v'' @ [CHR 0xC3, CHR 0xAD] @ ''rgula>'' @ nl @ nl @
     ''N'' @ [CHR 0xC3, CHR 0xA3] @ ''o invente dados al'' @ [CHR 0xC3, CHR 0xA9] @ ''m do JSON. Seja direto.''"

section \<open>Configuration\<close>

text \<open>
  This module's \<open>strip_inplace\<close> cuts the end before the start. Nothing differs from the other modules
  (\<open>narrator_strip_eq\<close>), so \<open>load_env_file\<close> is shared.
\<close>

definition narrator_strip :: "string \<Rightarrow> string" where
  "narrator_strip s = dropWhile is_blank (rev (dropWhile is_trailing (rev s)))"

definition nta_narrator_load :: "(string \<Rightarrow> string option) \<Rightarrow> string option \<Rightarrow> env \<Rightarrow> narrator_cfg \<times> env" where
  "nta_narrator_load files repo_root e0 =
     (let e = (case repo_root of
                 None \<Rightarrow> e0
               | Some r \<Rightarrow> load_env_file (files (cstr_copy 1024 (r @ ''/deploy/secrets/groq.env''))) e0);
          key = cstr_copy 256 (env_or e ''GROQ_API_KEY'' [])
      in (\<lparr>nc_api_key = key,
           nc_model = cstr_copy 128 (env_or e ''GROQ_MODEL'' ''llama-3.3-70b-versatile''),
           nc_url = cstr_copy 256 (env_or e ''GROQ_URL'' ''https://api.groq.com/openai/v1/chat/completions''),
           nc_timeout_sec = env_nat e ''NARRATOR_TIMEOUT'' 8,
           nc_min_score = env_nat e ''NARRATOR_MIN_SCORE'' 80,
           nc_enabled = (key \<noteq> [])\<rparr>, e))"

definition nta_narrator_backend :: "narrator_cfg \<Rightarrow> string" where
  "nta_narrator_backend cfg = cstr_copy 160 (''groq:'' @ nc_model cfg)"

text \<open>\<open>nta_narrator_open\<close>; \<open>None\<close> is -1, \<open>have_curl\<close> whether there is a handle.\<close>

definition nta_narrator_open :: "bool \<Rightarrow> narrator_cfg \<Rightarrow> narrator option" where
  "nta_narrator_open have_curl cfg =
     (if \<not> nc_enabled cfg then None
      else if \<not> have_curl then None
      else Some \<lparr>nr_cfg = cfg,
                 nr_headers = [cstr_copy 320 (''Authorization: Bearer '' @ nc_api_key cfg),
                               ''Content-Type: application/json'', ''Accept: application/json''],
                 nr_ready = True\<rparr>)"

definition nta_narrator_close :: "narrator \<Rightarrow> narrator" where
  "nta_narrator_close n = n\<lparr>nr_headers := [], nr_ready := False\<rparr>"

section \<open>Response buffer\<close>

definition resp_write_cb :: "resp_buf \<Rightarrow> string \<Rightarrow> resp_buf option" where
  "resp_write_cb b p =
     (if rsp_len b + length p > MAX_RESP_BYTES then None
      else if rsp_len b + length p + 1 > rsp_cap b then
        Some (rsp_append b p (grow (if rsp_cap b \<noteq> 0 then rsp_cap b * 2 else 4096) (rsp_len b + length p + 1)))
      else Some (rsp_append b p (rsp_cap b)))"

section \<open>Prompt\<close>

text \<open>The incident with the agent that reported it, unless it names one already.\<close>

definition with_agent_id :: "json \<Rightarrow> string option \<Rightarrow> json" where
  "with_agent_id evt agent_id =
     (case (evt, agent_id) of
        (JObject kvs, Some a) \<Rightarrow>
          if a \<noteq> [] \<and> get_object_item evt ''agent_id'' = None then JObject (kvs @ [(''agent_id'', JString a)]) else evt
      | _ \<Rightarrow> evt)"

definition whois_line :: "whois_info option \<Rightarrow> string" where
  "whois_line wi =
     (case wi of
        None \<Rightarrow> []
      | Some w \<Rightarrow>
          if \<not> wi_has_data w then []
          else let both = (wi_org w \<noteq> [] \<and> wi_country w \<noteq> []);
                   l1 = cstr_copy 512 (''Origem (WHOIS): '' @ wi_org w @ (if both then '' ('' else []) @ wi_country w @
                          (if both then '')'' else []) @
                          (if wi_netname w \<noteq> [] then '' '' @ em_dash @ '' netname: '' else []) @ nl)
               in if wi_netname w \<noteq> [] then l1 @ cstr_copy (512 - length l1) (wi_netname w @ nl) else l1)"

definition request_json :: "string \<Rightarrow> string \<Rightarrow> json" where
  "request_json model user_prompt =
     JObject [(''model'', JString model),
       (''messages'', JArray
          [JObject [(''role'', JString ''system''), (''content'', JString SYSTEM_PROMPT)],
           JObject [(''role'', JString ''user''), (''content'', JString user_prompt)]])]"

definition build_request_body ::
  "(string \<Rightarrow> json option) \<Rightarrow> (json \<Rightarrow> string option) \<Rightarrow> string \<Rightarrow> string \<Rightarrow> string option \<Rightarrow> whois_info option \<Rightarrow>
   string option" where
  "build_request_body parse print_json model event_json agent_id wi =
     (let evt = (case parse event_json of None \<Rightarrow> JObject [] | Some j \<Rightarrow> j)
      in case print_json (with_agent_id evt agent_id) of
           None \<Rightarrow> None
         | Some evt_str \<Rightarrow>
             (let up_cap = length evt_str + length (whois_line wi) + 32;
                  user_prompt = cstr_copy up_cap (whois_line wi @ ''Incidente:'' @ nl @ evt_str)
              in print_json (request_json model user_prompt)))"

section \<open>Call\<close>

text \<open>The address of the incident that WHOIS is asked about.\<close>

definition incident_ip :: "(string \<Rightarrow> json option) \<Rightarrow> string \<Rightarrow> string option" where
  "incident_ip parse event_json =
     (case parse event_json of Some (JObject kvs) \<Rightarrow> item_string (JObject kvs) ''src_ip'' | _ \<Rightarrow> None)"

text \<open>The text at \<open>choices[0].message.content\<close>.\<close>

definition answer_content :: "json \<Rightarrow> string option" where
  "answer_content doc =
     (case get_item_cs doc ''choices'' of
        Some (JArray (JObject c0 # cs)) \<Rightarrow>
          (case get_item_cs (JObject c0) ''message'' of
             Some (JObject msg) \<Rightarrow> item_string (JObject msg) ''content''
           | _ \<Rightarrow> None)
      | _ \<Rightarrow> None)"

text \<open>The answer of the service to a request: the narrative, if there is one.\<close>

definition narrative_of_reply :: "(string \<Rightarrow> json option) \<Rightarrow> http_reply \<Rightarrow> string option" where
  "narrative_of_reply parse reply =
     (case curl_easy_perform resp_write_cb reply of
        (ok, resp) \<Rightarrow>
          if \<not> ok then None
          else if http_code reply < 200 \<or> http_code reply \<ge> 300 then None
          else if rsp_data resp = None \<or> rsp_len resp = 0 then None
          else case parse_resp parse resp of
                 None \<Rightarrow> None
               | Some doc \<Rightarrow> map_option narrator_strip (answer_content doc))"

text \<open>
  \<open>nta_narrator_call\<close>: the WHOIS cache after it, the request sent (if any) and the narrative; \<open>None\<close> is
  the over-read of the WHOIS client.
\<close>

definition nta_narrator_call ::
  "(string \<Rightarrow> json option) \<Rightarrow> (json \<Rightarrow> string option) \<Rightarrow> whois_net \<Rightarrow> time_t \<Rightarrow> http_reply \<Rightarrow>
   narrator \<Rightarrow> whois option \<Rightarrow> string \<Rightarrow> string option \<Rightarrow> (whois option \<times> string option \<times> string option) option" where
  "nta_narrator_call parse print_json net now reply n wh event_json agent_id =
     (if \<not> nr_ready n then Some (wh, None, None)
      else case (case (wh, incident_ip parse event_json) of
                   (Some w, Some ip) \<Rightarrow> map_option (\<lambda>(w1, wi, r). (Some w1, wi)) (nta_whois_lookup net now w ip)
                 | _ \<Rightarrow> Some (wh, zero_info)) of
             None \<Rightarrow> None
           | Some (wh1, wi) \<Rightarrow>
               (case build_request_body parse print_json (nc_model (nr_cfg n)) event_json agent_id
                       (if wi_has_data wi then Some wi else None) of
                  None \<Rightarrow> Some (wh1, None, None)
                | Some req \<Rightarrow> Some (wh1, Some req, narrative_of_reply parse reply)))"


section \<open>Stripping\<close>

lemma narrator_strip_eq: "narrator_strip s = strip_inplace s"
proof -
  let ?b = "takeWhile is_blank s" and ?d = "dropWhile is_blank s"
  let ?m = "rev (dropWhile is_trailing (rev ?d))"
  have sub: "is_blank c \<Longrightarrow> is_trailing c" for c by (auto simp: is_blank_def is_trailing_def)
  have s: "rev s = rev ?d @ rev ?b" by (metis rev_append takeWhile_dropWhile_id)
  show ?thesis
  proof (cases "\<forall>c\<in>set ?d. is_trailing c")
    case True
    then have "\<forall>c\<in>set s. is_trailing c" using sub set_takeWhileD [of _ is_blank s]
      by (metis Un_iff set_append takeWhile_dropWhile_id)
    then have a: "dropWhile is_trailing (rev s) = []" by simp
    have b: "dropWhile is_trailing (rev ?d) = []" using True by simp
    show ?thesis unfolding narrator_strip_def strip_inplace_def a b by simp
  next
    case False
    then have m: "dropWhile is_trailing (rev s) = dropWhile is_trailing (rev ?d) @ rev ?b" "?m \<noteq> []"
      unfolding s by (auto simp: dropWhile_append)
    have "hd ?m = hd ?d"
    proof -
      have "?d = ?m @ rev (takeWhile is_trailing (rev ?d))"
        by (metis rev_append rev_rev_ident takeWhile_dropWhile_id)
      with m(2) show ?thesis by (metis hd_append2)
    qed
    moreover have "?d \<noteq> []" using False by (metis empty_iff list.set(1))
    ultimately have "\<not> is_blank (hd ?m)" using hd_dropWhile [of is_blank s] by simp
    then have "dropWhile is_blank ?m = ?m" using m(2) by (cases ?m) auto
    moreover have "dropWhile is_blank (?b @ ?m) = dropWhile is_blank ?m"
      by (rule dropWhile_append2) (auto dest: set_takeWhileD)
    ultimately show ?thesis unfolding narrator_strip_def strip_inplace_def m(1) by simp
  qed
qed

section \<open>Delivery\<close>

definition rsp_text :: "resp_buf \<Rightarrow> string" where
  "rsp_text b = (case rsp_data b of None \<Rightarrow> [] | Some s \<Rightarrow> s)"

lemma rsp_len_text: "rsp_len b = length (rsp_text b)"
  by (simp add: rsp_len_def rsp_text_def split: option.splits)

lemma write_cb_some:
  "rsp_len b + length p \<le> MAX_RESP_BYTES \<Longrightarrow>
   \<exists>b'. resp_write_cb b p = Some b' \<and> rsp_data b' = Some (rsp_text b @ p)"
  by (simp add: resp_write_cb_def rsp_append_def rsp_text_def)

lemma write_cb_none: "\<not> rsp_len b + length p \<le> MAX_RESP_BYTES \<Longrightarrow> resp_write_cb b p = None"
  by (simp add: resp_write_cb_def)

lemma deliver_all:
  "rsp_len b \<le> MAX_RESP_BYTES \<Longrightarrow>
   (if length (rsp_text b @ concat ps) \<le> MAX_RESP_BYTES
    then fst (deliver resp_write_cb b ps) \<and>
         rsp_data (snd (deliver resp_write_cb b ps)) = (if ps = [] then rsp_data b else Some (rsp_text b @ concat ps))
    else \<not> fst (deliver resp_write_cb b ps))"
proof (induction ps arbitrary: b)
  case Nil
  then show ?case by (simp add: rsp_len_text)
next
  case (Cons p ps)
  show ?case
  proof (cases "rsp_len b + length p \<le> MAX_RESP_BYTES")
    case False
    with write_cb_none [OF False] show ?thesis by (simp add: rsp_len_text)
  next
    case True
    then obtain b' where b': "resp_write_cb b p = Some b'" "rsp_data b' = Some (rsp_text b @ p)"
      using write_cb_some by blast
    then have t: "rsp_text b' = rsp_text b @ p" by (simp add: rsp_text_def)
    with True have "rsp_len b' \<le> MAX_RESP_BYTES" by (simp add: rsp_len_text)
    from Cons.IH [OF this] show ?thesis using b' t by (cases "ps = []") (auto split: if_splits)
  qed
qed

section \<open>Properties\<close>

text \<open>
  A narrative comes exactly from an answer that was received whole: the transfer and the HTTP
  status are successes, the body is not empty and has at most 256 KB, it parses, and its first choice
  has a text, which is stripped. How the body was cut into chunks does not matter.
\<close>

theorem narrative_of_reply_eq:
  "narrative_of_reply parse reply =
     (let body = concat (chunks reply)
      in if curl_ok reply \<and> http_success (http_code reply) \<and> body \<noteq> [] \<and> length body \<le> MAX_RESP_BYTES
         then (case parse body of None \<Rightarrow> None | Some doc \<Rightarrow> map_option strip_inplace (answer_content doc))
         else None)"
proof -
  let ?r = "deliver resp_write_cb empty_resp (chunks reply)" and ?body = "concat (chunks reply)"
  have e0: "rsp_data empty_resp = None" by (simp add: empty_resp_def)
  have e: "rsp_text empty_resp = []" "rsp_len empty_resp \<le> MAX_RESP_BYTES"
    by (simp_all add: rsp_text_def empty_resp_def rsp_len_def)
  have d: "if length ?body \<le> MAX_RESP_BYTES
     then fst ?r \<and> rsp_data (snd ?r) = (if chunks reply = [] then None else Some ?body) else \<not> fst ?r"
    using deliver_all [OF e(2), of "chunks reply"] by (simp add: e(1) e0)
  have strip: "narrator_strip = strip_inplace" by (rule ext) (rule narrator_strip_eq)
  obtain ok rb where r: "?r = (ok, rb)" by (cases ?r)
  show ?thesis
  proof (cases "length ?body \<le> MAX_RESP_BYTES")
    case False
    with d r show ?thesis by (auto simp: narrative_of_reply_def curl_easy_perform_def Let_def)
  next
    case True
    with d r have ok: "ok" "rsp_data rb = (if chunks reply = [] then None else Some ?body)" by simp_all
    then have l: "rsp_len rb = length ?body" by (simp add: rsp_len_def)
    have p: "parse_resp parse rb = (if chunks reply = [] then None else parse ?body)"
      using ok(2) by (simp add: parse_resp_def)
    show ?thesis using True ok l p r
      by (auto simp: narrative_of_reply_def curl_easy_perform_def Let_def http_success_def strip
          split: option.splits)
  qed
qed

text \<open>
  The prompt is never cut, whatever the incident: the request holds the WHOIS line, the label and
  the printed incident whole, and that incident names an agent: its own, or the one that sent it.
\<close>

theorem narrator_prompt_whole:
  "build_request_body parse print_json model event_json agent_id wi =
     (case print_json (with_agent_id (case parse event_json of None \<Rightarrow> JObject [] | Some j \<Rightarrow> j) agent_id) of
        None \<Rightarrow> None
      | Some s \<Rightarrow> print_json (request_json model (whois_line wi @ ''Incidente:'' @ nl @ s)))
   \<and> (a = [] \<or> get_object_item (with_agent_id (JObject kvs) (Some a)) ''agent_id'' \<noteq> None)"
proof -
  have f: "get_object_item (JObject (kvs @ [(''agent_id'', JString a)])) ''agent_id'' = Some (JString a)"
    if "get_object_item (JObject kvs) ''agent_id'' = None"
    using that by (induction kvs) (auto simp: strcasecmp_eq_def tolower_char_def split: if_splits)
  have "a = [] \<or> get_object_item (with_agent_id (JObject kvs) (Some a)) ''agent_id'' \<noteq> None"
    using f by (simp only: with_agent_id_def prod.case json.case option.case split: if_split) auto
  then show ?thesis
    by (simp add: build_request_body_def Let_def nl_def split: option.splits)
qed


text \<open>
  The netname of the WHOIS line is separated from its label: the first piece of the line already
  ends with a newline, so the label stands alone and the name follows on a line of its own.
\<close>

theorem whois_line_split:
  assumes "wi_has_data w" and "wi_netname w \<noteq> []"
    and "length (wi_org w) + length (wi_country w) + length (wi_netname w) < 400"
  shows "\<exists>pre. whois_line (Some w) = pre @ '' netname: '' @ nl @ wi_netname w @ nl"
proof -
  let ?both = "wi_org w \<noteq> [] \<and> wi_country w \<noteq> []"
  let ?pre = "''Origem (WHOIS): '' @ wi_org w @ (if ?both then '' ('' else []) @ wi_country w @
    (if ?both then '')'' else []) @ '' '' @ em_dash"
  let ?l1 = "?pre @ '' netname: '' @ nl"
  have "length ?l1 + length (wi_netname w @ nl) < 512" using assms(3) by (simp add: em_dash_def nl_def)
  then have "cstr_copy 512 ?l1 = ?l1" "cstr_copy (512 - length ?l1) (wi_netname w @ nl) = wi_netname w @ nl"
    by (auto intro!: cstr_copy_id simp del: append_assoc)
  moreover have "whois_line (Some w) = cstr_copy 512 ?l1 @ cstr_copy (512 - length (cstr_copy 512 ?l1)) (wi_netname w @ nl)"
    using assms(1,2) by (simp add: whois_line_def Let_def)
  ultimately have "whois_line (Some w) = ?l1 @ wi_netname w @ nl" by simp
  then have "whois_line (Some w) = ?pre @ '' netname: '' @ nl @ wi_netname w @ nl" by simp
  then show ?thesis by blast
qed

theorem whois_line_split_witness:
  "\<exists>pre. whois_line (Some \<lparr>wi_org = ''ACME'', wi_country = ''BR'', wi_netname = ''ACME-NET'', wi_has_data = True\<rparr>) =
     pre @ '' netname: '' @ nl @ ''ACME-NET'' @ nl"
  using whois_line_split [of "\<lparr>wi_org = ''ACME'', wi_country = ''BR'', wi_netname = ''ACME-NET'', wi_has_data = True\<rparr>"]
  by simp

end
