(* ===== verification/Nta_Consumer.thy ===== *)
theory Nta_Consumer
  imports Nta_Srvconf Nta_Publisher
begin

text \<open>
  The AMQP side of the server's workers (\<open>src/server/nta_consumer.c\<close>): opening with retries, the
  consume loop, publishing and closing, with the global count of open connections that
  \<open>/health\<close> reads. What the AMQP library returns is an argument; messages handed to the broker are
  appended to a log.
\<close>

record nta_amqp =
  am_conn :: bool
  am_channel :: nat
  am_connected :: bool

definition zero_amqp :: nta_amqp where
  "zero_amqp = \<lparr>am_conn = False, am_channel = 0, am_connected = False\<rparr>"

text \<open>What the calls of one opening return.\<close>

record open_attempt =
  oa_connection :: bool
  oa_socket :: bool
  oa_socket_open :: bool
  oa_login :: bool
  oa_channel :: bool
  oa_declare :: bool
  oa_qos :: bool

text \<open>\<open>nta_amqp_open\<close>; the last component is the change of \<open>g_nta_amqp_connected\<close>.\<close>

definition nta_amqp_open :: "open_attempt \<Rightarrow> nta_amqp \<times> int \<times> int" where
  "nta_amqp_open t =
     (if \<not> oa_connection t then (zero_amqp, - 1, 0)
      else if \<not> oa_socket t then (zero_amqp, - 1, 0)
      else if \<not> oa_socket_open t then (zero_amqp, - 1, 0)
      else if \<not> oa_login t then (zero_amqp, - 1, 0)
      else let a = zero_amqp\<lparr>am_channel := 1\<rparr>
           in if \<not> oa_channel t then (a, - 1, 0)
              else if \<not> oa_declare t then (a, - 1, 0)
              else (a\<lparr>am_conn := True, am_connected := True\<rparr>, 0, 1))"

definition nta_amqp_close :: "nta_amqp \<Rightarrow> nta_amqp \<times> int" where
  "nta_amqp_close a =
     (if \<not> am_conn a then (a, 0)
      else (a\<lparr>am_conn := False, am_connected := False\<rparr>, if am_connected a then - 1 else 0))"

definition amqp_wf :: "nta_amqp \<Rightarrow> bool" where
  "amqp_wf a \<longleftrightarrow> (am_connected a \<longrightarrow> am_conn a)"

lemma open_result:
  "nta_amqp_open t = (a, r, d) \<Longrightarrow>
   amqp_wf a \<and> ((r = 0 \<and> am_connected a \<and> d = 1) \<or> (r = - 1 \<and> \<not> am_conn a \<and> \<not> am_connected a \<and> d = 0))"
  by (auto simp: nta_amqp_open_def zero_amqp_def amqp_wf_def Let_def split: if_splits)

lemma close_result:
  "amqp_wf a \<Longrightarrow> nta_amqp_close a = (a', d) \<Longrightarrow>
   \<not> am_connected a' \<and> amqp_wf a' \<and> d = (if am_connected a then - 1 else 0)"
  by (auto simp: nta_amqp_close_def amqp_wf_def split: if_splits)

section \<open>Opening with retries\<close>

definition RECONNECT_MIN_SEC :: int where "RECONNECT_MIN_SEC = 1"
definition RECONNECT_MAX_SEC :: int where "RECONNECT_MAX_SEC = 30"

definition next_delay :: "int \<Rightarrow> int" where
  "next_delay delay = (if delay * 2 > RECONNECT_MAX_SEC then RECONNECT_MAX_SEC else delay * 2)"

interpretation cons: backoff RECONNECT_MIN_SEC RECONNECT_MAX_SEC next_delay
  by unfold_locales (auto simp: RECONNECT_MIN_SEC_def RECONNECT_MAX_SEC_def next_delay_def)

text \<open>
  One round of the loop: whether a stop is requested at its head, what the opening gives, and after
  how many seconds of the wait a stop is seen (\<open>None\<close>: not during the wait).
\<close>

record retry_round =
  rr_stop :: bool
  rr_attempt :: open_attempt
  rr_stop_after :: "nat option"

definition slept :: "int \<Rightarrow> nat option \<Rightarrow> int" where
  "slept delay stop = (case stop of None \<Rightarrow> delay | Some n \<Rightarrow> min delay (int n))"

text \<open>
  \<open>nta_amqp_open_retry\<close> over the rounds at hand: the handle, the seconds slept, and the result, \<open>None\<close>
  while it is still trying after the last round.
\<close>

fun open_retry_loop :: "int \<Rightarrow> retry_round list \<Rightarrow> nta_amqp \<Rightarrow> int \<Rightarrow> int \<Rightarrow> nta_amqp \<times> int \<times> int \<times> int option" where
  "open_retry_loop delay [] a g secs = (a, g, secs, None)"
| "open_retry_loop delay (r # rs) a g secs =
     (if rr_stop r then (a, g, secs, Some (- 1))
      else case nta_amqp_open (rr_attempt r) of
             (a1, rc, d) \<Rightarrow>
               if rc = 0 then (a1, g + d, secs, Some 0)
               else open_retry_loop (next_delay delay) rs a1 (g + d) (secs + slept delay (rr_stop_after r)))"

definition nta_amqp_open_retry :: "retry_round list \<Rightarrow> nta_amqp \<Rightarrow> int \<Rightarrow> nta_amqp \<times> int \<times> int \<times> int option" where
  "nta_amqp_open_retry rs a g = open_retry_loop RECONNECT_MIN_SEC rs a g 0"

section \<open>Consuming\<close>

text \<open>What \<open>amqp_consume_message\<close> gives; a delivery has a body and perhaps a user id.\<close>

datatype consumed = Timeout | Broken | Delivery string "string option"

definition AGENT_ID_MAX :: nat where "AGENT_ID_MAX = 127"

text \<open>The user id as the C string the handler gets.\<close>

definition agent_of :: "string option \<Rightarrow> string" where
  "agent_of uid =
     (case uid of
        None \<Rightarrow> ''unknown''
      | Some u \<Rightarrow> if u = [] then ''unknown''
                  else takeWhile (\<lambda>c. c \<noteq> CHR 0x00) (take AGENT_ID_MAX u))"

text \<open>
  \<open>nta_amqp_consume_loop\<close>: each round is whether a stop is requested at its head, and what the
  broker gives otherwise. The handler updates the state \<open>s\<close>. The result is \<open>None\<close> while it is still
  consuming after the last round.
\<close>

fun consume_rounds ::
  "(string \<Rightarrow> string \<Rightarrow> 's \<Rightarrow> 's) \<Rightarrow> (bool \<times> consumed) list \<Rightarrow> 's \<Rightarrow> 's \<times> int option" where
  "consume_rounds handler [] s = (s, None)"
| "consume_rounds handler ((stop, c) # rs) s =
     (if stop then (s, Some 0)
      else case c of
             Timeout \<Rightarrow> consume_rounds handler rs s
           | Broken \<Rightarrow> (s, Some (- 1))
           | Delivery body uid \<Rightarrow> consume_rounds handler rs (handler body (agent_of uid) s))"

definition nta_amqp_consume_loop ::
  "(string \<Rightarrow> string \<Rightarrow> 's \<Rightarrow> 's) \<Rightarrow> bool \<Rightarrow> (bool \<times> consumed) list \<Rightarrow> nta_amqp \<Rightarrow> 's \<Rightarrow> 's \<times> int option" where
  "nta_amqp_consume_loop handler consume_ok rs a s =
     (if \<not> am_connected a then (s, Some (- 1))
      else if \<not> consume_ok then (s, Some (- 1))
      else consume_rounds handler rs s)"

text \<open>The deliveries taken before the loop ends, and why it ended.\<close>

fun deliveries :: "(bool \<times> consumed) list \<Rightarrow> (string \<times> string) list" where
  "deliveries [] = []"
| "deliveries ((stop, c) # rs) =
     (if stop then []
      else case c of
             Timeout \<Rightarrow> deliveries rs
           | Broken \<Rightarrow> []
           | Delivery body uid \<Rightarrow> (body, agent_of uid) # deliveries rs)"

lemma consume_rounds_fold:
  "fst (consume_rounds handler rs s) = foldl (\<lambda>s (b, a). handler b a s) s (deliveries rs)"
  by (induction handler rs s rule: consume_rounds.induct) (auto split: consumed.splits)

lemma consume_rounds_result:
  "snd (consume_rounds handler rs s) \<in> {None, Some 0, Some (- 1)}"
  by (induction handler rs s rule: consume_rounds.induct) (auto split: consumed.splits)

section \<open>Publishing\<close>

text \<open>A message as it goes out: the queue, the \<open>x-agent-id\<close> header and the body.\<close>

type_synonym amqp_message = "string \<times> string \<times> string"

definition nta_amqp_declare_queue :: "bool \<Rightarrow> nta_amqp \<Rightarrow> int" where
  "nta_amqp_declare_queue declare_ok a =
     (if \<not> am_connected a then - 1 else if \<not> declare_ok then - 1 else 0)"

definition nta_amqp_publish ::
  "bool \<Rightarrow> string \<Rightarrow> string \<Rightarrow> string \<Rightarrow> nta_amqp \<Rightarrow> amqp_message list \<Rightarrow> amqp_message list \<times> int" where
  "nta_amqp_publish publish_ok queue agent_id body a sent =
     (if \<not> am_connected a then (sent, - 1)
      else if \<not> publish_ok then (sent, - 1)
      else (sent @ [(queue, agent_id, body)], 0))"

section \<open>Lemmas and properties\<close>

lemma retry_delay_sum:
  "\<forall>r \<in> set rs. \<not> rr_stop r \<and> rr_stop_after r = None \<and> fst (snd (nta_amqp_open (rr_attempt r))) \<noteq> 0 \<Longrightarrow>
   \<exists>a' . open_retry_loop delay rs a g secs =
     (a', g, secs + (\<Sum>i < length rs. (next_delay ^^ i) delay), None)"
proof (induction rs arbitrary: delay a g secs)
  case (Cons r rs)
  obtain a1 rc d where o: "nta_amqp_open (rr_attempt r) = (a1, rc, d)" by (cases "nta_amqp_open (rr_attempt r)")
  have rc: "rc \<noteq> 0" "d = 0" using Cons.prems open_result [OF o] by (auto simp: o)
  have s: "(\<Sum>i < length (r # rs). (next_delay ^^ i) delay) =
      delay + (\<Sum>i < length rs. (next_delay ^^ i) (next_delay delay))"
    by (simp add: sum.lessThan_Suc_shift funpow_swap1 del: sum.lessThan_Suc)
  have "slept delay (rr_stop_after r) = delay" "\<not> rr_stop r" using Cons.prems by (simp_all add: slept_def)
  then show ?case unfolding s using Cons.IH [of "next_delay delay" a1 g "secs + delay"] Cons.prems rc
    by (simp add: o add.assoc)
qed simp

text \<open>
  While the broker cannot be reached and nobody asks to stop, the n-th wait of a worker is
  \<open>min (30, 2^n)\<close> seconds, so after \<open>n\<close> failures it has slept the sum of these, and it is still trying.
\<close>

theorem consumer_retry_waits:
  assumes "\<forall>r \<in> set rs. \<not> rr_stop r \<and> rr_stop_after r = None \<and> fst (snd (nta_amqp_open (rr_attempt r))) \<noteq> 0"
  shows "\<exists>a'. nta_amqp_open_retry rs a g = (a', g, \<Sum>i < length rs. min 30 (2 ^ i), None)"
proof -
  have "(next_delay ^^ i) RECONNECT_MIN_SEC = min 30 (2 ^ i)" for i
    using cons.nxt_iter [of i] by (simp add: RECONNECT_MIN_SEC_def RECONNECT_MAX_SEC_def)
  then show ?thesis using retry_delay_sum [OF assms, of RECONNECT_MIN_SEC a g 0]
    by (simp add: nta_amqp_open_retry_def)
qed

definition dead_round :: retry_round where
  "dead_round = \<lparr>rr_stop = False, rr_attempt = \<lparr>oa_connection = True, oa_socket = True, oa_socket_open = False,
     oa_login = True, oa_channel = True, oa_declare = True, oa_qos = True\<rparr>, rr_stop_after = None\<rparr>"

theorem consumer_retry_waits_witness:
  "\<exists>a'. nta_amqp_open_retry (replicate 7 dead_round) zero_amqp 0 = (a', 0, 91, None)"
proof -
  have s: "(\<Sum>i < length (replicate 7 dead_round). min 30 (2 ^ i)) = (91::int)"
    by (simp add: eval_nat_numeral lessThan_Suc)
  have "\<forall>r \<in> set (replicate 7 dead_round).
      \<not> rr_stop r \<and> rr_stop_after r = None \<and> fst (snd (nta_amqp_open (rr_attempt r))) \<noteq> 0"
    by (simp add: dead_round_def nta_amqp_open_def)
  from consumer_retry_waits [OF this, of zero_amqp 0] show ?thesis unfolding s .
qed

text \<open>
  The consume loop hands every delivery to the handler once, in order, with the sender's id cut
  to 127 characters (\<open>unknown\<close> when there is none), and nothing after a stop request or a broken
  connection; it returns 0 for the first and -1 for the second.
\<close>

theorem consume_in_order:
  "fst (nta_amqp_consume_loop handler consume_ok rs a s) =
     (if am_connected a \<and> consume_ok then foldl (\<lambda>s (b, ag). handler b ag s) s (deliveries rs) else s) \<and>
   snd (nta_amqp_consume_loop handler consume_ok rs a s) \<in> {None, Some 0, Some (- 1)}"
  using consume_rounds_fold [of handler rs s] consume_rounds_result [of handler rs s]
  by (auto simp: nta_amqp_consume_loop_def)

section \<open>Replies of the broker\<close>

definition stop_requested :: "bool \<Rightarrow> bool option \<Rightarrow> bool" where
  "stop_requested should_stop worker_stop \<longleftrightarrow> should_stop \<or> worker_stop = Some True"

text \<open>
  What a call left as its reply; a library error comes with its text, an exception with the number of
  the method the server sent, whose documented layout is \<open>method_number\<close>.
\<close>

datatype amqp_rpc_reply = Reply_normal | Reply_none | Reply_library string | Reply_server "32 word" | Reply_other int

definition method_number :: "nat \<Rightarrow> nat \<Rightarrow> 32 word" where
  "method_number class_id method_id = word_of_nat (class_id * 65536 + method_id)"

text \<open>\<open>amqp_reply_ok\<close>: the result and the line it prints after \<open>[AMQP]\<close>.\<close>

definition amqp_reply_ok :: "amqp_rpc_reply \<Rightarrow> string \<Rightarrow> int \<times> string" where
  "amqp_reply_ok r ctx =
     (case r of
        Reply_normal \<Rightarrow> (1, [])
      | Reply_none \<Rightarrow> (0, ctx @ '': resposta vazia'' @ nl)
      | Reply_library err \<Rightarrow> (0, ctx @ '': '' @ err @ nl)
      | Reply_server num \<Rightarrow>
          (0, ctx @ '': server exception (class='' @ dec_digits (unat (and num 0xFFFF)) @ '' method='' @
              dec_digits (unat (drop_bit 16 num)) @ '')'' @ nl)
      | Reply_other t \<Rightarrow> (0, ctx @ '': reply_type='' @ fmt_d t @ nl))"

lemma amqp_reply_ok_normal: "fst (amqp_reply_ok r ctx) = (if r = Reply_normal then 1 else 0)"
  by (simp add: amqp_reply_ok_def split: amqp_rpc_reply.split)

text \<open>
  The line of a server exception shows the two halves of the method number under each other's label:
  a connection closed by the broker (class 10, method 50) is printed as class 50, method 10.
\<close>

theorem server_exception_swapped:
  assumes "class_id < 65536" "method_id < 65536"
  shows "amqp_reply_ok (Reply_server (method_number class_id method_id)) ctx =
    (0, ctx @ '': server exception (class='' @ dec_digits method_id @ '' method='' @ dec_digits class_id @ '')'' @ nl)"
proof -
  have n: "unat (method_number class_id method_id) = class_id * 65536 + method_id"
    by (rule of_nat_inverse [OF method_number_def [symmetric]]) (use assms in simp)
  have "unat (and (method_number class_id method_id) 0xFFFF) = (class_id * 65536 + method_id) mod 65536"
  proof -
    have "and (method_number class_id method_id) 0xFFFF = take_bit 16 (method_number class_id method_id)"
      by (simp add: take_bit_eq_mask mask_numeral)
    moreover have "unat (take_bit 16 (method_number class_id method_id)) = take_bit 16 (class_id * 65536 + method_id)"
      by (simp only: unsigned_take_bit_eq n)
    ultimately show ?thesis by (simp only: take_bit_eq_mod [where ?'a = nat]) simp
  qed
  moreover have "unat (drop_bit 16 (method_number class_id method_id)) = (class_id * 65536 + method_id) div 65536"
    by (simp only: unat_drop_bit_eq n drop_bit_eq_div [where ?'a = nat]) simp
  ultimately show ?thesis using assms by (simp add: amqp_reply_ok_def)
qed

theorem server_exception_swapped_witness:
  "snd (amqp_reply_ok (Reply_server 0x000A0032) ''login'') =
     ''login: server exception (class=50 method=10)'' @ nl"
proof -
  have "method_number 10 50 = 0x000A0032" by (simp add: method_number_def)
  moreover have "dec_digits 10 = ''10''" "dec_digits 50 = ''50''" by code_simp+
  ultimately show ?thesis using server_exception_swapped [of 10 50 "''login''"] by simp
qed

end
