(* ===== verification/Nta_Scaler.thy ===== *)
theory Nta_Scaler
  imports Nta_Srvconf Nta_Influx
begin

text \<open>
  The scaler of the worker pool (\<open>src/server/nta_scaler.c\<close>): configuration, the query of the broker's
  management API, and the loop that asks the pool for one more or one fewer worker. The pool is the
  interface \<open>pool_ctl\<close>, the callbacks \<open>pool_size\<close>, \<open>pool_up\<close> and \<open>pool_down\<close> of \<open>NtaScalerCtx\<close>; what
  the API answers and the clock are arguments of a round.
\<close>

record scaler_cfg =
  sc_mgmt_url :: string
  sc_user :: string
  sc_pass :: string
  sc_queue :: string
  sc_poll_sec :: int
  sc_min_workers :: int
  sc_max_workers :: int
  sc_scale_up_backlog :: int
  sc_scale_down_idle_sec :: int
  sc_enabled :: bool

record queue_stats =
  messages_ready :: int
  messages_unacked :: int
  consumers :: int

section \<open>Configuration\<close>

text \<open>\<open>url_encode_vhost\<close>: \<open>w\<close> bytes are in the buffer of \<open>cap\<close>.\<close>

fun url_encode_loop :: "nat \<Rightarrow> nat \<Rightarrow> string \<Rightarrow> string" where
  "url_encode_loop cap w [] = []"
| "url_encode_loop cap w (c # cs) =
     (if \<not> w + 4 < cap then []
      else if c = CHR ''/'' then ''%2F'' @ url_encode_loop cap (w + 3) cs
      else c # url_encode_loop cap (w + 1) cs)"

definition url_encode_vhost :: "nat \<Rightarrow> string \<Rightarrow> string" where
  "url_encode_vhost cap s = url_encode_loop cap 0 s"

definition nta_scaler_load :: "env \<Rightarrow> nta_config \<Rightarrow> scaler_cfg" where
  "nta_scaler_load e base =
     (let mn0 = env_any_int e ''SCALER_MIN_WORKERS'' 2;
          mx0 = env_any_int e ''SCALER_MAX_WORKERS'' 16;
          poll = env_any_int e ''SCALER_POLL_SEC'' 10;
          mn = (if mn0 < 1 then 1 else mn0);
          mx = (if mx0 < mn then mn else mx0)
      in \<lparr>sc_mgmt_url = cstr_copy 512 (''http://'' @ env_or e ''RABBIT_MGMT_HOST'' (rabbit_host base) @ '':'' @
            fmt_d (env_any_int e ''RABBIT_MGMT_PORT'' 15673) @ ''/api/queues/'' @
            url_encode_vhost 64 (rabbit_vhost base) @ ''/'' @ queue_name base),
          sc_user = cstr_copy 64 (rabbit_user base), sc_pass = cstr_copy 64 (rabbit_pass base),
          sc_queue = cstr_copy 128 (queue_name base), sc_poll_sec = poll, sc_min_workers = mn, sc_max_workers = mx,
          sc_scale_up_backlog = env_any_int e ''SCALER_SCALE_UP_BACKLOG'' 1000,
          sc_scale_down_idle_sec = env_any_int e ''SCALER_SCALE_DOWN_IDLE_SEC'' 60,
          sc_enabled = (poll > 0 \<and> mx > mn)\<rparr>)"

section \<open>Query\<close>

definition resp_cb :: "resp_buf \<Rightarrow> string \<Rightarrow> resp_buf option" where
  "resp_cb b p =
     (if rsp_len b + length p + 1 > rsp_cap b then
        Some (rsp_append b p (grow (if rsp_cap b \<noteq> 0 then rsp_cap b * 2 else 4096) (rsp_len b + length p + 1)))
      else Some (rsp_append b p (rsp_cap b)))"

definition stat_of :: "json \<Rightarrow> string \<Rightarrow> int" where
  "stat_of doc key = (case item_number doc key of Some d \<Rightarrow> cast_int d | None \<Rightarrow> 0)"

text \<open>\<open>nta_scaler_query\<close>; \<open>None\<close> is -1.\<close>

definition nta_scaler_query :: "(string \<Rightarrow> json option) \<Rightarrow> bool \<Rightarrow> http_reply \<Rightarrow> queue_stats option" where
  "nta_scaler_query parse have_curl reply =
     (if \<not> have_curl then None
      else case curl_easy_perform resp_cb reply of
             (ok, buf) \<Rightarrow>
               if \<not> ok \<or> http_code reply < 200 \<or> http_code reply \<ge> 300 \<or> rsp_data buf = None then None
               else (case parse_resp parse buf of
                       Some (JObject kvs) \<Rightarrow>
                         Some \<lparr>messages_ready = stat_of (JObject kvs) ''messages_ready'',
                               messages_unacked = stat_of (JObject kvs) ''messages_unacknowledged'',
                               consumers = stat_of (JObject kvs) ''consumers''\<rparr>
                     | _ \<Rightarrow> None))"

section \<open>The loop\<close>

record 'p scaler =
  s_pool :: 'p
  idle_since :: time_t
  s_backlog :: int
  s_influx :: "influx option"

text \<open>
  What one round meets: the stop flag at its start, the query, the clock when it decides and after
  a worker was removed, the answer of the database, and the outcome \<open>'o\<close> of the system in \<open>pool_up\<close>.
\<close>

record 'o scaler_input =
  si_stop :: bool
  si_curl :: bool
  si_reply :: http_reply
  si_now :: time_t
  si_after :: time_t
  si_influx :: http_reply
  si_create :: 'o

definition scaler_decide ::
  "scaler_cfg \<Rightarrow> ('p \<Rightarrow> int) \<Rightarrow> ('o \<Rightarrow> 'p \<Rightarrow> 'p \<times> int) \<Rightarrow> ('p \<Rightarrow> 'p \<times> int) \<Rightarrow> int \<Rightarrow> 'o scaler_input \<Rightarrow>
   'p scaler \<Rightarrow> 'p scaler" where
  "scaler_decide cfg pool_size pool_up pool_down ready i s =
     (let cur = pool_size (s_pool s)
      in if ready \<ge> sc_scale_up_backlog cfg \<and> cur < sc_max_workers cfg then
           s\<lparr>s_pool := fst (pool_up (si_create i) (s_pool s)), idle_since := 0\<rparr>
         else if ready = 0 \<and> cur > sc_min_workers cfg then
           (if idle_since s = 0 then s\<lparr>idle_since := si_now i\<rparr>
            else if si_now i - idle_since s \<ge> sc_scale_down_idle_sec cfg then
              s\<lparr>s_pool := fst (pool_down (s_pool s)), idle_since := si_after i\<rparr>
            else s)
         else s\<lparr>idle_since := 0\<rparr>)"

definition scaler_round ::
  "scaler_cfg \<Rightarrow> ('p \<Rightarrow> int) \<Rightarrow> ('o \<Rightarrow> 'p \<Rightarrow> 'p \<times> int) \<Rightarrow> ('p \<Rightarrow> 'p \<times> int) \<Rightarrow> (string \<Rightarrow> json option) \<Rightarrow>
   'o scaler_input \<Rightarrow> 'p scaler \<Rightarrow> 'p scaler" where
  "scaler_round cfg pool_size pool_up pool_down parse i s =
     (case nta_scaler_query parse (si_curl i) (si_reply i) of
        None \<Rightarrow> s
      | Some st \<Rightarrow>
          scaler_decide cfg pool_size pool_up pool_down (messages_ready st) i
            (s\<lparr>s_backlog := messages_ready st,
               s_influx := map_option (\<lambda>h. fst (nta_influx_write_pool (si_influx i) (pool_size (s_pool s))
                 (messages_ready st) (messages_unacked st) (consumers st) h)) (s_influx s)\<rparr>))"

fun nta_scaler_thread_main ::
  "scaler_cfg \<Rightarrow> ('p \<Rightarrow> int) \<Rightarrow> ('o \<Rightarrow> 'p \<Rightarrow> 'p \<times> int) \<Rightarrow> ('p \<Rightarrow> 'p \<times> int) \<Rightarrow> (string \<Rightarrow> json option) \<Rightarrow>
   'o scaler_input list \<Rightarrow> 'p scaler \<Rightarrow> 'p scaler" where
  "nta_scaler_thread_main cfg pool_size pool_up pool_down parse [] s = s"
| "nta_scaler_thread_main cfg pool_size pool_up pool_down parse (i # ins) s =
     (if \<not> sc_enabled cfg \<or> si_stop i then s
      else nta_scaler_thread_main cfg pool_size pool_up pool_down parse ins
             (scaler_round cfg pool_size pool_up pool_down parse i s))"

section \<open>What the scaler relies on\<close>

text \<open>
  The contract of the callbacks: a step up adds one worker or none, a step down removes one, and the
  size is what both count.
\<close>

locale pool_ctl =
  fixes pool_size :: "'p \<Rightarrow> int"
    and pool_up :: "'o \<Rightarrow> 'p \<Rightarrow> 'p \<times> int"
    and pool_down :: "'p \<Rightarrow> 'p \<times> int"
    and ok :: "'p \<Rightarrow> bool"
  assumes up_ok: "ok p \<Longrightarrow> ok (fst (pool_up t p))"
    and up_size: "ok p \<Longrightarrow> pool_size p \<le> pool_size (fst (pool_up t p)) \<and> pool_size (fst (pool_up t p)) \<le> pool_size p + 1"
    and down_ok: "ok p \<Longrightarrow> ok (fst (pool_down p))"
    and down_size: "ok p \<Longrightarrow> 0 < pool_size p \<Longrightarrow> pool_size (fst (pool_down p)) = pool_size p - 1"
begin

lemma round_keeps:
  assumes "ok (s_pool s)" "lo \<le> pool_size (s_pool s)" "pool_size (s_pool s) \<le> hi"
    and "lo \<le> sc_min_workers cfg" "sc_max_workers cfg \<le> hi" "0 \<le> sc_min_workers cfg"
  shows "let s' = scaler_round cfg pool_size pool_up pool_down parse i s
         in ok (s_pool s') \<and> lo \<le> pool_size (s_pool s') \<and> pool_size (s_pool s') \<le> hi"
proof -
  have u: "ok (fst (pool_up t (s_pool s)))" "pool_size (s_pool s) \<le> pool_size (fst (pool_up t (s_pool s)))"
    "pool_size (fst (pool_up t (s_pool s))) \<le> pool_size (s_pool s) + 1" for t
    using up_ok up_size assms(1) by blast+
  have d: "ok (fst (pool_down (s_pool s)))" using down_ok assms(1) by blast
  have d1: "pool_size (fst (pool_down (s_pool s))) = pool_size (s_pool s) - 1"
    if "sc_min_workers cfg < pool_size (s_pool s)" using down_size assms(1,6) that by auto
  show ?thesis
    using assms(1-6) u(1) u(2,3) [of "si_create i"] d d1
    by (auto simp: scaler_round_def scaler_decide_def Let_def split: option.splits)
qed

lemma thread_keeps:
  assumes "lo \<le> sc_min_workers cfg" "sc_max_workers cfg \<le> hi" "0 \<le> sc_min_workers cfg"
  shows "ok (s_pool s) \<Longrightarrow> lo \<le> pool_size (s_pool s) \<Longrightarrow> pool_size (s_pool s) \<le> hi \<Longrightarrow>
    ok (s_pool (nta_scaler_thread_main cfg pool_size pool_up pool_down parse ins s)) \<and>
    lo \<le> pool_size (s_pool (nta_scaler_thread_main cfg pool_size pool_up pool_down parse ins s)) \<and>
    pool_size (s_pool (nta_scaler_thread_main cfg pool_size pool_up pool_down parse ins s)) \<le> hi"
proof (induction ins arbitrary: s)
  case Nil
  then show ?case by simp
next
  case (Cons i ins)
  show ?case
  proof (cases "\<not> sc_enabled cfg \<or> si_stop i")
    case True
    then show ?thesis using Cons.prems by auto
  next
    case False
    with Cons.IH [of "scaler_round cfg pool_size pool_up pool_down parse i s"]
      round_keeps [OF Cons.prems assms, of parse i] show ?thesis by (simp add: Let_def)
  qed
qed

end

end
