(* ===== verification/Nta_Pool.thy ===== *)
theory Nta_Pool
  imports Nta_Scaler
begin

text \<open>
  The pool of traffic workers (\<open>src/server/nta_server.c\<close>) and its life under three kinds of threads:
  the workers, the scaler, and \<open>main\<close>, which joins the pool and then frees it. An operation under the
  pool's lock is one step; \<open>pthread_join\<close> is a wait until the thread is no longer live. A thread is
  named by the number of its creation.
\<close>

section \<open>The pool\<close>

record pool_worker =
  worker_id :: int
  w_stop :: bool
  w_abuse_min :: int

record traffic_pool =
  pool_slots :: "pool_worker list"
  pool_tids :: "nat list"
  pool_active :: "bool list"
  pool_max :: nat
  pool_count :: int
  pool_abuse_min :: int
  pool_next_id :: int
  g_nta_pool_size :: int

definition zero_worker :: pool_worker where
  "zero_worker = \<lparr>worker_id = 0, w_stop = False, w_abuse_min = 0\<rparr>"

definition pool_init :: "int \<Rightarrow> nat \<Rightarrow> traffic_pool" where
  "pool_init abuse_min mx =
     \<lparr>pool_slots = replicate mx zero_worker, pool_tids = replicate mx 0, pool_active = replicate mx False,
      pool_max = mx, pool_count = 0, pool_abuse_min = abuse_min, pool_next_id = 0, g_nta_pool_size = 0\<rparr>"

text \<open>The two searches: the first free slot, the last active one.\<close>

fun first_free :: "nat \<Rightarrow> bool list \<Rightarrow> nat option" where
  "first_free i [] = None"
| "first_free i (a # as) = (if \<not> a then Some i else first_free (i + 1) as)"

fun last_active :: "nat \<Rightarrow> bool list \<Rightarrow> nat option" where
  "last_active 0 as = None"
| "last_active (Suc i) as = (if as ! i then Some i else last_active i as)"

text \<open>\<open>created\<close>: the new thread, when \<open>pthread_create\<close> succeeds.\<close>

definition pool_spawn_one_locked :: "nat option \<Rightarrow> traffic_pool \<Rightarrow> traffic_pool \<times> int" where
  "pool_spawn_one_locked created p =
     (case first_free 0 (pool_active p) of
        None \<Rightarrow> (p, - 1)
      | Some idx \<Rightarrow>
          (let w = \<lparr>worker_id = pool_next_id p, w_stop = False, w_abuse_min = pool_abuse_min p\<rparr>;
               p1 = p\<lparr>pool_slots := (pool_slots p)[idx := w], pool_next_id := pool_next_id p + 1\<rparr>
           in case created of
                None \<Rightarrow> (p1, - 1)
              | Some t \<Rightarrow>
                  (p1\<lparr>pool_tids := (pool_tids p1)[idx := t], pool_active := (pool_active p1)[idx := True],
                      pool_count := pool_count p1 + 1, g_nta_pool_size := pool_count p1 + 1\<rparr>,
                   pool_count p1 + 1)))"

definition pool_size_cb :: "traffic_pool \<Rightarrow> int" where
  "pool_size_cb p = pool_count p"

definition pool_up_cb :: "nat option \<Rightarrow> traffic_pool \<Rightarrow> traffic_pool \<times> int" where
  "pool_up_cb created p =
     (let n = pool_count p
      in if n < int (pool_max p) then
           (case pool_spawn_one_locked created p of (p1, r) \<Rightarrow> (p1, if r > 0 then r else n))
         else (p, n))"

text \<open>\<open>pool_down_cb\<close> before and after its join: the victim is stopped, then its slot is given back.\<close>

definition pool_down_pick :: "traffic_pool \<Rightarrow> traffic_pool \<times> (nat \<times> nat) option" where
  "pool_down_pick p =
     (case last_active (pool_max p) (pool_active p) of
        None \<Rightarrow> (p, None)
      | Some idx \<Rightarrow>
          (p\<lparr>pool_slots := (pool_slots p)[idx := (pool_slots p ! idx)\<lparr>w_stop := True\<rparr>]\<rparr>,
           Some (idx, pool_tids p ! idx)))"

definition pool_down_end :: "nat \<Rightarrow> traffic_pool \<Rightarrow> traffic_pool \<times> int" where
  "pool_down_end idx p =
     (p\<lparr>pool_active := (pool_active p)[idx := False], pool_count := pool_count p - 1,
        g_nta_pool_size := pool_count p - 1\<rparr>, pool_count p - 1)"

definition pool_down_cb :: "traffic_pool \<Rightarrow> traffic_pool \<times> int" where
  "pool_down_cb p =
     (case pool_down_pick p of (p1, None) \<Rightarrow> (p1, 0) | (p1, Some (idx, t)) \<Rightarrow> pool_down_end idx p1)"

text \<open>The end of \<open>pool_join_all\<close>.\<close>

definition pool_join_end :: "traffic_pool \<Rightarrow> traffic_pool" where
  "pool_join_end p = p\<lparr>pool_active := List.map (\<lambda>_. False) (pool_active p), pool_count := 0\<rparr>"

section \<open>Consistency\<close>

definition actives :: "traffic_pool \<Rightarrow> nat" where
  "actives p = length (filter id (pool_active p))"

definition pool_ok :: "traffic_pool \<Rightarrow> bool" where
  "pool_ok p \<longleftrightarrow> length (pool_slots p) = pool_max p \<and> length (pool_tids p) = pool_max p \<and>
     length (pool_active p) = pool_max p \<and> pool_count p = int (actives p) \<and> g_nta_pool_size p = pool_count p"

lemma first_free_some: "first_free i as = Some j \<Longrightarrow> i \<le> j \<and> j < i + length as \<and> \<not> as ! (j - i)"
proof (induction i as rule: first_free.induct)
  case (2 i a as)
  then show ?case by (auto simp: nth_Cons' split: if_splits)
qed simp

lemma first_free_none: "first_free i as = None \<longleftrightarrow> list_all id as"
  by (induction i as rule: first_free.induct) auto

lemma last_active_some: "last_active n as = Some j \<Longrightarrow> j < n \<and> as ! j"
  by (induction n as rule: last_active.induct) (auto split: if_splits)

lemma last_active_none: "last_active n as = None \<longleftrightarrow> (\<forall>j<n. \<not> as ! j)"
  by (induction n as rule: last_active.induct) (auto simp: less_Suc_eq)

lemma filter_update_count:
  "i < length as \<Longrightarrow> length (filter id (as[i := b])) + (if as ! i then 1 else 0) = length (filter id as) + (if b then 1 else 0)"
proof (induction as arbitrary: i)
  case (Cons a as)
  show ?case
  proof (cases i)
    case (Suc j)
    with Cons.IH [of j] Cons.prems show ?thesis by (auto split: if_splits)
  qed auto
qed simp

lemma actives_le: "actives p \<le> length (pool_active p)"
  by (simp add: actives_def)

lemma actives_full: "list_all id as \<Longrightarrow> length (filter id as) = length as"
  by (induction as) auto

lemma actives_zero: "(\<forall>j<length as. \<not> as ! j) \<Longrightarrow> length (filter id as) = 0"
  by (auto simp: filter_empty_conv in_set_conv_nth)

lemma pool_init_ok [simp]: "pool_ok (pool_init a n)"
  by (simp add: pool_ok_def pool_init_def actives_def)

lemma spawn_cases:
  assumes "pool_ok p"
  shows "(first_free 0 (pool_active p) = None \<and> pool_spawn_one_locked created p = (p, - 1) \<and> pool_count p = int (pool_max p)) \<or>
    (\<exists>idx. first_free 0 (pool_active p) = Some idx \<and> idx < pool_max p \<and> \<not> pool_active p ! idx)"
proof (cases "first_free 0 (pool_active p)")
  case None
  then have "length (filter id (pool_active p)) = length (pool_active p)"
    using first_free_none actives_full by blast
  with None assms show ?thesis by (simp add: pool_spawn_one_locked_def pool_ok_def actives_def)
next
  case (Some idx)
  with first_free_some [OF Some] assms show ?thesis by (auto simp: pool_ok_def)
qed

lemma spawn_ok: "pool_ok p \<Longrightarrow> pool_ok (fst (pool_spawn_one_locked created p))"
proof -
  assume ok: "pool_ok p"
  from spawn_cases [OF ok, of created] show ?thesis
  proof (elim disjE exE conjE)
    fix idx
    assume i: "first_free 0 (pool_active p) = Some idx" "idx < pool_max p" "\<not> pool_active p ! idx"
    then have "length (filter id ((pool_active p)[idx := True])) = Suc (length (filter id (pool_active p)))"
      using filter_update_count [of idx "pool_active p" True] ok by (simp add: pool_ok_def)
    with i ok show ?thesis
      by (simp add: pool_spawn_one_locked_def pool_ok_def actives_def Let_def split: option.split)
  qed (use ok in simp)
qed

lemma spawn_count:
  "pool_ok p \<Longrightarrow> pool_count (fst (pool_spawn_one_locked created p)) =
     (if created \<noteq> None \<and> pool_count p < int (pool_max p) then pool_count p + 1 else pool_count p)"
proof -
  assume ok: "pool_ok p"
  from spawn_cases [OF ok, of created] show ?thesis
  proof (elim disjE exE conjE)
    fix idx
    assume i: "first_free 0 (pool_active p) = Some idx" "idx < pool_max p" "\<not> pool_active p ! idx"
    then have "length (filter id ((pool_active p)[idx := True])) = Suc (length (filter id (pool_active p)))"
      using filter_update_count [of idx "pool_active p" True] ok by (simp add: pool_ok_def)
    moreover have "length (filter id ((pool_active p)[idx := True])) \<le> pool_max p"
      using length_filter_le [of id "(pool_active p)[idx := True]"] ok by (simp add: pool_ok_def)
    ultimately have "pool_count p < int (pool_max p)" using ok by (simp add: pool_ok_def actives_def)
    with i show ?thesis by (auto simp: pool_spawn_one_locked_def Let_def split: option.split)
  qed (use ok in simp)
qed

lemma up_ok: "pool_ok p \<Longrightarrow> pool_ok (fst (pool_up_cb created p))"
  using spawn_ok [of p created] by (auto simp: pool_up_cb_def Let_def split: prod.splits)

lemma up_count:
  "pool_ok p \<Longrightarrow> pool_count (fst (pool_up_cb created p)) =
     (if created \<noteq> None \<and> pool_count p < int (pool_max p) then pool_count p + 1 else pool_count p)"
  using spawn_count [of p created] by (auto simp: pool_up_cb_def Let_def split: prod.splits)

lemma pick_ok: "pool_ok p \<Longrightarrow> pool_ok (fst (pool_down_pick p))"
  by (simp add: pool_down_pick_def pool_ok_def actives_def split: option.split)

lemma pick_frame [simp]:
  "pool_active (fst (pool_down_pick p)) = pool_active p" "pool_tids (fst (pool_down_pick p)) = pool_tids p"
  "pool_max (fst (pool_down_pick p)) = pool_max p" "pool_count (fst (pool_down_pick p)) = pool_count p"
  by (simp_all add: pool_down_pick_def split: option.splits)

lemma pick_some:
  "pool_down_pick p = (p1, Some (idx, t)) \<Longrightarrow> idx < pool_max p \<and> pool_active p ! idx \<and> t = pool_tids p ! idx"
  by (auto simp: pool_down_pick_def split: option.splits dest: last_active_some)

lemma down_end_ok:
  "pool_ok p \<Longrightarrow> idx < pool_max p \<Longrightarrow> pool_active p ! idx \<Longrightarrow> pool_ok (fst (pool_down_end idx p))"
  using filter_update_count [of idx "pool_active p" False]
  by (simp add: pool_down_end_def pool_ok_def actives_def)

lemma down_ok: "pool_ok p \<Longrightarrow> pool_ok (fst (pool_down_cb p))"
proof -
  assume ok: "pool_ok p"
  obtain p1 r where pk: "pool_down_pick p = (p1, r)" by (cases "pool_down_pick p")
  have "pool_ok p1" using pick_ok [OF ok] by (simp add: pk)
  with pk show ?thesis
    using pick_some [of p p1] pick_frame [of p] by (cases r) (auto simp: pool_down_cb_def intro!: down_end_ok)
qed

lemma down_count:
  assumes ok: "pool_ok p" and pos: "0 < pool_count p"
  shows "pool_count (fst (pool_down_cb p)) = pool_count p - 1"
proof -
  have "last_active (pool_max p) (pool_active p) \<noteq> None"
    using ok pos actives_zero [of "pool_active p"] by (auto simp: last_active_none pool_ok_def actives_def)
  then show ?thesis by (auto simp: pool_down_cb_def pool_down_pick_def pool_down_end_def)
qed

interpretation pool: pool_ctl pool_size_cb pool_up_cb pool_down_cb pool_ok
  by unfold_locales (simp_all add: up_ok up_count down_ok down_count pool_size_cb_def)


section \<open>The threads\<close>

text \<open>
  Where \<open>main\<close> is: in \<open>pool_join_all\<close> before slot \<open>i\<close> or waiting for its thread, past it waiting for the
  metrics and narrator workers (which end only when the server stops), waiting for the scaler, or done
  with the pool freed. The scaler is in its loop or in the join of \<open>pool_down_cb\<close>.
\<close>

datatype main_pc = M_Join nat | M_Wait nat nat | M_Fixed | M_Scaler | M_Destroyed
datatype scaler_pc = S_Loop | S_Down nat nat | S_Exit

record server_threads =
  sv_pool :: traffic_pool
  sv_live :: "nat set"
  sv_joined :: "nat set"
  sv_next :: nat
  sv_stop :: bool
  sv_main :: main_pc
  sv_scaler :: scaler_pc
  sv_double_join :: bool

definition join_thread :: "nat \<Rightarrow> server_threads \<Rightarrow> server_threads" where
  "join_thread t s = s\<lparr>sv_joined := insert t (sv_joined s), sv_double_join := (sv_double_join s \<or> t \<in> sv_joined s)\<rparr>"

inductive server_step :: "server_threads \<Rightarrow> server_threads \<Rightarrow> bool" where
  stop: "server_step s (s\<lparr>sv_stop := True\<rparr>)"
| worker_ends: "t \<in> sv_live s \<Longrightarrow> server_step s (s\<lparr>sv_live := sv_live s - {t}\<rparr>)"
| scale_up: "sv_scaler s = S_Loop \<Longrightarrow> sv_main s \<noteq> M_Destroyed \<Longrightarrow> pool_count (sv_pool s) < int (pool_max (sv_pool s)) \<Longrightarrow>
    server_step s (s\<lparr>sv_pool := fst (pool_up_cb (Some (sv_next s)) (sv_pool s)),
      sv_live := insert (sv_next s) (sv_live s), sv_next := sv_next s + 1\<rparr>)"
| scale_up_fails: "sv_scaler s = S_Loop \<Longrightarrow> sv_main s \<noteq> M_Destroyed \<Longrightarrow>
    server_step s (s\<lparr>sv_pool := fst (pool_up_cb None (sv_pool s))\<rparr>)"
| scale_down: "sv_scaler s = S_Loop \<Longrightarrow> sv_main s \<noteq> M_Destroyed \<Longrightarrow> pool_down_pick (sv_pool s) = (p, Some (idx, t)) \<Longrightarrow>
    server_step s (s\<lparr>sv_pool := p, sv_scaler := S_Down idx t\<rparr>)"
| scale_down_joined: "sv_scaler s = S_Down idx t \<Longrightarrow> t \<notin> sv_live s \<Longrightarrow>
    server_step s ((join_thread t s)\<lparr>sv_pool := fst (pool_down_end idx (sv_pool s)), sv_scaler := S_Loop\<rparr>)"
| scaler_ends: "sv_scaler s = S_Loop \<Longrightarrow> sv_stop s \<Longrightarrow> server_step s (s\<lparr>sv_scaler := S_Exit\<rparr>)"
| main_skips: "sv_main s = M_Join i \<Longrightarrow> i < pool_max (sv_pool s) \<Longrightarrow> \<not> pool_active (sv_pool s) ! i \<Longrightarrow>
    server_step s (s\<lparr>sv_main := M_Join (i + 1)\<rparr>)"
| main_waits: "sv_main s = M_Join i \<Longrightarrow> i < pool_max (sv_pool s) \<Longrightarrow> pool_active (sv_pool s) ! i \<Longrightarrow>
    server_step s (s\<lparr>sv_main := M_Wait i (pool_tids (sv_pool s) ! i)\<rparr>)"
| main_joined: "sv_main s = M_Wait i t \<Longrightarrow> t \<notin> sv_live s \<Longrightarrow>
    server_step s ((join_thread t s)\<lparr>sv_main := M_Join (i + 1)\<rparr>)"
| main_clears: "sv_main s = M_Join i \<Longrightarrow> \<not> i < pool_max (sv_pool s) \<Longrightarrow>
    server_step s (s\<lparr>sv_pool := pool_join_end (sv_pool s), sv_main := M_Fixed\<rparr>)"
| fixed_end: "sv_main s = M_Fixed \<Longrightarrow> sv_stop s \<Longrightarrow> server_step s (s\<lparr>sv_main := M_Scaler\<rparr>)"
| main_destroys: "sv_main s = M_Scaler \<Longrightarrow> sv_scaler s = S_Exit \<Longrightarrow> server_step s (s\<lparr>sv_main := M_Destroyed\<rparr>)"

text \<open>\<open>main\<close> spawns the first workers, before the scaler exists.\<close>

fun spawn_initial :: "nat \<Rightarrow> server_threads \<Rightarrow> server_threads" where
  "spawn_initial 0 s = s"
| "spawn_initial (Suc k) s =
     spawn_initial k (s\<lparr>sv_pool := fst (pool_spawn_one_locked (Some (sv_next s)) (sv_pool s)),
       sv_live := insert (sv_next s) (sv_live s), sv_next := sv_next s + 1\<rparr>)"

definition server_start :: "int \<Rightarrow> nat \<Rightarrow> nat \<Rightarrow> server_threads" where
  "server_start abuse_min mx n =
     spawn_initial (min n mx)
       \<lparr>sv_pool = pool_init abuse_min mx, sv_live = {}, sv_joined = {}, sv_next = 0, sv_stop = False,
        sv_main = M_Join 0, sv_scaler = S_Loop, sv_double_join = False\<rparr>"

section \<open>Reachable states\<close>

text \<open>Every live worker is the thread of an active slot, and so is the one the scaler waits for.\<close>

definition covered :: "traffic_pool \<Rightarrow> nat \<Rightarrow> bool" where
  "covered p t \<longleftrightarrow> (\<exists>i<pool_max p. pool_active p ! i \<and> pool_tids p ! i = t)"

definition joining :: "main_pc \<Rightarrow> bool" where
  "joining m \<longleftrightarrow> (case m of M_Join i \<Rightarrow> True | M_Wait i t \<Rightarrow> True | _ \<Rightarrow> False)"

definition threads_ok :: "server_threads \<Rightarrow> bool" where
  "threads_ok s \<longleftrightarrow> pool_ok (sv_pool s) \<and> (\<forall>t\<in>sv_live s. covered (sv_pool s) t) \<and>
     (case sv_scaler s of
        S_Down idx t \<Rightarrow> idx < pool_max (sv_pool s) \<and> pool_active (sv_pool s) ! idx \<and> pool_tids (sv_pool s) ! idx = t
      | _ \<Rightarrow> True)"

definition server_inv :: "server_threads \<Rightarrow> bool" where
  "server_inv s \<longleftrightarrow> (joining (sv_main s) \<longrightarrow> threads_ok s)"

lemma spawn_covered:
  assumes ok: "pool_ok p" and room: "pool_count p < int (pool_max p)"
    and p1_def: "p1 = fst (pool_spawn_one_locked (Some t) p)"
  shows "covered p1 t" and "covered p u \<Longrightarrow> covered p1 u" and "pool_max p1 = pool_max p"
proof -
  from spawn_cases [OF ok, of "Some t"] room obtain idx where
    i: "first_free 0 (pool_active p) = Some idx" "idx < pool_max p" "\<not> pool_active p ! idx" by auto
  then have p1: "pool_active p1 = (pool_active p)[idx := True]" "pool_tids p1 = (pool_tids p)[idx := t]"
    "pool_max p1 = pool_max p"
    by (simp_all add: p1_def pool_spawn_one_locked_def Let_def)
  show "pool_max p1 = pool_max p" by (rule p1)
  show "covered p1 t" unfolding covered_def using p1 i ok
    by (intro exI [of _ idx]) (simp add: pool_ok_def)
  show "covered p1 u" if "covered p u"
  proof -
    from that obtain j where j: "j < pool_max p" "pool_active p ! j" "pool_tids p ! j = u"
      unfolding covered_def by blast
    then have "j \<noteq> idx" using i by blast
    with j p1 show ?thesis unfolding covered_def by (intro exI [of _ j]) simp
  qed
qed

lemma up_is_spawn:
  "pool_count p < int (pool_max p) \<Longrightarrow> fst (pool_up_cb c p) = fst (pool_spawn_one_locked c p)"
  by (simp add: pool_up_cb_def case_prod_beta)

lemma up_none_frame [simp]:
  "pool_active (fst (pool_up_cb None p)) = pool_active p" "pool_tids (fst (pool_up_cb None p)) = pool_tids p"
  "pool_max (fst (pool_up_cb None p)) = pool_max p"
  by (simp_all add: pool_up_cb_def pool_spawn_one_locked_def Let_def case_prod_beta split: option.split)

lemma covered_frame:
  "pool_active p1 = pool_active p \<Longrightarrow> pool_tids p1 = pool_tids p \<Longrightarrow> pool_max p1 = pool_max p \<Longrightarrow> covered p1 = covered p"
  by (simp add: covered_def fun_eq_iff)


lemma threads_up:
  assumes ok: "threads_ok s" and l: "sv_scaler s = S_Loop" and room: "pool_count (sv_pool s) < int (pool_max (sv_pool s))"
  shows "threads_ok (s\<lparr>sv_pool := fst (pool_up_cb (Some t) (sv_pool s)), sv_live := insert t (sv_live s), sv_next := n\<rparr>)"
proof -
  have p: "pool_ok (sv_pool s)" using ok by (simp add: threads_ok_def)
  have c: "covered (fst (pool_spawn_one_locked (Some t) (sv_pool s))) u" if "u = t \<or> covered (sv_pool s) u" for u
    using spawn_covered(1,2) [OF p room refl] that by blast
  show ?thesis using ok l c up_ok [OF p, of "Some t"] unfolding up_is_spawn [OF room]
    by (simp add: threads_ok_def)
qed

lemma threads_down_end:
  assumes ok: "threads_ok s" and d: "sv_scaler s = S_Down idx t" and dead: "t \<notin> sv_live s"
  shows "threads_ok ((join_thread t s)\<lparr>sv_pool := fst (pool_down_end idx (sv_pool s)), sv_scaler := S_Loop\<rparr>)"
proof -
  let ?p = "sv_pool s"
  have p: "pool_ok ?p" "idx < pool_max ?p" "pool_active ?p ! idx" "pool_tids ?p ! idx = t"
    and live: "\<And>u. u \<in> sv_live s \<Longrightarrow> covered ?p u" using ok d by (auto simp: threads_ok_def)
  have "covered (fst (pool_down_end idx ?p)) u" if u: "u \<in> sv_live s" for u
  proof -
    from live [OF u] obtain j where j: "j < pool_max ?p" "pool_active ?p ! j" "pool_tids ?p ! j = u"
      unfolding covered_def by blast
    with p(4) u dead have "j \<noteq> idx" by blast
    with j show ?thesis by (auto simp: covered_def pool_down_end_def)
  qed
  with down_end_ok [OF p(1-3)] show ?thesis by (simp add: threads_ok_def join_thread_def)
qed

lemma server_step_inv: "server_step s s' \<Longrightarrow> server_inv s \<Longrightarrow> server_inv s'"
proof (induction rule: server_step.induct)
  case (scale_up s)
  then show ?case using threads_up [where t = "sv_next s" and n = "sv_next s + 1"] by (auto simp: server_inv_def)
next
  case (scale_up_fails s)
  have "covered (fst (pool_up_cb None (sv_pool s))) = covered (sv_pool s)" by (rule covered_frame) simp_all
  with scale_up_fails show ?case using up_ok [of "sv_pool s" None]
    by (auto simp: server_inv_def threads_ok_def)
next
  case (scale_down s p idx t)
  then have f: "pool_active p = pool_active (sv_pool s)" "pool_tids p = pool_tids (sv_pool s)" "pool_max p = pool_max (sv_pool s)"
    using pick_frame [of "sv_pool s"] by simp_all
  have "covered p = covered (sv_pool s)" by (rule covered_frame) (simp_all add: f)
  moreover have "pool_ok (sv_pool s) \<Longrightarrow> pool_ok p" using pick_ok [of "sv_pool s"] scale_down by simp
  ultimately show ?case using scale_down.prems pick_some [OF scale_down.hyps(3)]
    by (auto simp: server_inv_def threads_ok_def f)
next
  case (scale_down_joined s idx t)
  then show ?case using threads_down_end [of s idx t] by (auto simp: server_inv_def join_thread_def)
qed (auto simp: server_inv_def threads_ok_def joining_def join_thread_def split: scaler_pc.splits)

interpretation server: step_system server_step server_inv
  by unfold_locales (rule server_step_inv)

lemma spawn_initial_ok:
  "threads_ok s \<Longrightarrow> sv_scaler s = S_Loop \<Longrightarrow> int k + pool_count (sv_pool s) \<le> int (pool_max (sv_pool s)) \<Longrightarrow>
   threads_ok (spawn_initial k s) \<and> sv_scaler (spawn_initial k s) = S_Loop \<and> sv_main (spawn_initial k s) = sv_main s \<and>
   pool_count (sv_pool (spawn_initial k s)) = pool_count (sv_pool s) + int k \<and>
   pool_max (sv_pool (spawn_initial k s)) = pool_max (sv_pool s)"
proof (induction k arbitrary: s)
  case 0
  then show ?case by simp
next
  case (Suc k)
  let ?s = "s\<lparr>sv_pool := fst (pool_spawn_one_locked (Some (sv_next s)) (sv_pool s)),
     sv_live := insert (sv_next s) (sv_live s), sv_next := sv_next s + 1\<rparr>"
  have room: "pool_count (sv_pool s) < int (pool_max (sv_pool s))" using Suc.prems(3) by simp
  have p: "pool_ok (sv_pool s)" using Suc.prems(1) by (simp add: threads_ok_def)
  have t: "threads_ok ?s" using threads_up [OF Suc.prems(1,2) room, where t = "sv_next s" and n = "sv_next s + 1"] by (simp add: up_is_spawn [OF room])
  have "pool_max (sv_pool ?s) = pool_max (sv_pool s)" using spawn_covered(3) [OF p room refl] by simp
  moreover have "pool_count (sv_pool ?s) = pool_count (sv_pool s) + 1" using spawn_count [OF p] room by simp
  ultimately show ?case using Suc.IH [OF t] Suc.prems by simp
qed

lemma server_start_inv:
  "threads_ok (server_start a mx n) \<and> sv_main (server_start a mx n) = M_Join 0 \<and>
   sv_scaler (server_start a mx n) = S_Loop \<and>
   pool_count (sv_pool (server_start a mx n)) = int (min n mx) \<and> pool_max (sv_pool (server_start a mx n)) = mx"
proof -
  let ?s = "\<lparr>sv_pool = pool_init a mx, sv_live = {}, sv_joined = {}, sv_next = 0, sv_stop = False,
        sv_main = M_Join 0, sv_scaler = S_Loop, sv_double_join = False\<rparr>"
  have "threads_ok ?s" by (simp add: threads_ok_def)
  from spawn_initial_ok [OF this, of "min n mx"] show ?thesis
    by (simp add: server_start_def pool_init_def)
qed


section \<open>Properties\<close>

text \<open>
  C15. As long as \<open>main\<close> is joining the pool, every interleaving of workers, scaler and \<open>main\<close> keeps the
  pool consistent: the size it reports is the number of active slots, at most its maximum, the gauge of
  the health endpoint shows it, and every worker thread that runs has an active slot.
\<close>

theorem pool_consistent:
  assumes "server_step\<^sup>*\<^sup>* (server_start abuse_min mx n) s" and "joining (sv_main s)"
  shows "pool_size_cb (sv_pool s) = int (actives (sv_pool s)) \<and> actives (sv_pool s) \<le> pool_max (sv_pool s) \<and>
     g_nta_pool_size (sv_pool s) = pool_size_cb (sv_pool s) \<and> (\<forall>t\<in>sv_live s. covered (sv_pool s) t)"
proof -
  have "server_inv (server_start abuse_min mx n)" using server_start_inv by (simp add: server_inv_def)
  with server.steps_inv [OF assms(1)] assms(2) have "threads_ok s" by (simp add: server_inv_def)
  then show ?thesis using actives_le [of "sv_pool s"] by (auto simp: threads_ok_def pool_ok_def pool_size_cb_def)
qed

theorem pool_consistent_witness:
  "pool_size_cb (sv_pool (server_start 75 4 2)) = int (actives (sv_pool (server_start 75 4 2))) \<and>
   actives (sv_pool (server_start 75 4 2)) \<le> 4"
  using pool_consistent [of 75 4 2 "server_start 75 4 2"] server_start_inv [of 75 4 2] by (simp add: joining_def)

text \<open>
  The scaler keeps the pool between its bounds: from any pool, however many rounds run and whatever
  the broker answers, the size never goes above the maximum (or the initial size, if that is larger)
  nor below the minimum (or the initial size, if that is smaller).
\<close>

theorem scaler_keeps_bounds:
  assumes "pool_ok (s_pool s)" and "0 \<le> sc_min_workers cfg"
  shows "let p = s_pool (nta_scaler_thread_main cfg pool_size_cb pool_up_cb pool_down_cb parse ins s)
         in pool_ok p \<and> min (sc_min_workers cfg) (pool_size_cb (s_pool s)) \<le> pool_size_cb p \<and>
            pool_size_cb p \<le> max (sc_max_workers cfg) (pool_size_cb (s_pool s))"
  using pool.thread_keeps [of "min (sc_min_workers cfg) (pool_size_cb (s_pool s))" cfg
      "max (sc_max_workers cfg) (pool_size_cb (s_pool s))" s parse ins] assms
  by (simp add: Let_def)

text \<open>
  A scaler that is past its stop test can start a worker \<open>main\<close> never joins: after the stop, with
  the pool already joined and cleared, one more step up spawns a thread, and the pool is freed while
  that thread is live and owns one of its slots.
\<close>

theorem shutdown_leaves_worker:
  "\<exists>s. server_step\<^sup>*\<^sup>* (server_start abuse_min 2 1) s \<and> sv_main s = M_Destroyed \<and> sv_live s \<noteq> {}"
proof -
  let ?s0 = "\<lparr>sv_pool = \<lparr>pool_slots = [\<lparr>worker_id = 0, w_stop = False, w_abuse_min = abuse_min\<rparr>, zero_worker],
       pool_tids = [0, 0], pool_active = [True, False], pool_max = 2, pool_count = 1, pool_abuse_min = abuse_min,
       pool_next_id = 1, g_nta_pool_size = 1\<rparr>, sv_live = {0}, sv_joined = {}, sv_next = 1, sv_stop = False,
     sv_main = M_Join 0, sv_scaler = S_Loop, sv_double_join = False\<rparr>"
  let ?s1 = "?s0\<lparr>sv_stop := True\<rparr>"
  let ?s2 = "?s1\<lparr>sv_live := sv_live ?s1 - {0}\<rparr>"
  let ?s3 = "?s2\<lparr>sv_main := M_Wait 0 (pool_tids (sv_pool ?s2) ! 0)\<rparr>"
  let ?s4 = "(join_thread 0 ?s3)\<lparr>sv_main := M_Join 1\<rparr>"
  let ?s5 = "?s4\<lparr>sv_main := M_Join 2\<rparr>"
  let ?s6 = "?s5\<lparr>sv_pool := pool_join_end (sv_pool ?s5), sv_main := M_Fixed\<rparr>"
  let ?s7 = "?s6\<lparr>sv_pool := fst (pool_up_cb (Some (sv_next ?s6)) (sv_pool ?s6)),
      sv_live := insert (sv_next ?s6) (sv_live ?s6), sv_next := sv_next ?s6 + 1\<rparr>"
  let ?s8 = "?s7\<lparr>sv_scaler := S_Exit\<rparr>"
  let ?s9 = "?s8\<lparr>sv_main := M_Scaler\<rparr>"
  have start: "server_start abuse_min 2 1 = ?s0"
    by (simp add: server_start_def pool_init_def pool_spawn_one_locked_def Let_def numeral_2_eq_2)
  note st = join_thread_def pool_join_end_def
  have "server_step ?s0 ?s1" by (rule server_step.stop)
  moreover have "server_step ?s1 ?s2" by (rule server_step.worker_ends) (simp add: st)
  moreover have "server_step ?s2 ?s3" by (rule server_step.main_waits) (simp_all add: st)
  moreover have "server_step ?s3 ?s4" using server_step.main_joined [of ?s3 0 0] by (simp add: st)
  moreover have "server_step ?s4 ?s5" using server_step.main_skips [of ?s4 1] by (simp add: st numeral_2_eq_2)
  moreover have "server_step ?s5 ?s6" using server_step.main_clears [of ?s5 2] by (simp add: st)
  moreover have "server_step ?s6 ?s7" by (rule server_step.scale_up) (simp_all add: st)
  moreover have "server_step ?s7 ?s8" by (rule server_step.scaler_ends) (simp_all add: st)
  moreover have "server_step ?s8 ?s9" by (rule server_step.fixed_end) (simp_all add: st)
  moreover have "server_step ?s9 (?s9\<lparr>sv_main := M_Destroyed\<rparr>)" by (rule server_step.main_destroys) simp_all
  ultimately have "server_step\<^sup>*\<^sup>* ?s0 (?s9\<lparr>sv_main := M_Destroyed\<rparr>)"
    by (meson converse_rtranclp_into_rtranclp rtranclp.rtrancl_refl)
  moreover have "sv_live (?s9\<lparr>sv_main := M_Destroyed\<rparr>) \<noteq> {}" by simp
  ultimately show ?thesis unfolding start by (intro exI [of _ "?s9\<lparr>sv_main := M_Destroyed\<rparr>"]) simp
qed


text \<open>
  C40. When the stop meets a scale-down, one worker is joined twice and the pool counts minus one: \<open>main\<close>
  still sees the victim's slot as active and joins it, clears the count, and then the scaler's own join
  returns and takes one more away.
\<close>

theorem shutdown_joins_twice:
  "\<exists>s. server_step\<^sup>*\<^sup>* (server_start abuse_min 2 2) s \<and> sv_double_join s \<and> pool_size_cb (sv_pool s) = - 1"
proof -
  let ?s0 = "\<lparr>sv_pool = \<lparr>pool_slots = [\<lparr>worker_id = 0, w_stop = False, w_abuse_min = abuse_min\<rparr>,
         \<lparr>worker_id = 1, w_stop = False, w_abuse_min = abuse_min\<rparr>],
       pool_tids = [0, 1], pool_active = [True, True], pool_max = 2, pool_count = 2, pool_abuse_min = abuse_min,
       pool_next_id = 2, g_nta_pool_size = 2\<rparr>, sv_live = {0, 1}, sv_joined = {}, sv_next = 2, sv_stop = False,
     sv_main = M_Join 0, sv_scaler = S_Loop, sv_double_join = False\<rparr>"
  let ?s1 = "?s0\<lparr>sv_pool := fst (pool_down_pick (sv_pool ?s0)), sv_scaler := S_Down 1 1\<rparr>"
  let ?s2 = "?s1\<lparr>sv_stop := True\<rparr>"
  let ?s3 = "?s2\<lparr>sv_live := sv_live ?s2 - {0}\<rparr>"
  let ?s4 = "?s3\<lparr>sv_live := sv_live ?s3 - {1}\<rparr>"
  let ?s5 = "?s4\<lparr>sv_main := M_Wait 0 (pool_tids (sv_pool ?s4) ! 0)\<rparr>"
  let ?s6 = "(join_thread 0 ?s5)\<lparr>sv_main := M_Join 1\<rparr>"
  let ?s7 = "?s6\<lparr>sv_main := M_Wait 1 (pool_tids (sv_pool ?s6) ! 1)\<rparr>"
  let ?s8 = "(join_thread 1 ?s7)\<lparr>sv_main := M_Join 2\<rparr>"
  let ?s9 = "?s8\<lparr>sv_pool := pool_join_end (sv_pool ?s8), sv_main := M_Fixed\<rparr>"
  let ?t = "(join_thread 1 ?s9)\<lparr>sv_pool := fst (pool_down_end 1 (sv_pool ?s9)), sv_scaler := S_Loop\<rparr>"
  have la: "last_active 2 [True, True] = Some 1" by (simp add: numeral_2_eq_2)
  have start: "server_start abuse_min 2 2 = ?s0"
    by (auto simp: server_start_def pool_init_def pool_spawn_one_locked_def Let_def numeral_2_eq_2)
  note st = pool_down_pick_def join_thread_def pool_join_end_def pool_down_end_def la pool_size_cb_def
  have "server_step ?s0 ?s1" by (rule server_step.scale_down) (simp_all add: st)
  moreover have "server_step ?s1 ?s2" by (rule server_step.stop)
  moreover have "server_step ?s2 ?s3" by (rule server_step.worker_ends) (simp add: st)
  moreover have "server_step ?s3 ?s4" by (rule server_step.worker_ends) (simp add: st)
  moreover have "server_step ?s4 ?s5" by (rule server_step.main_waits) (simp_all add: st)
  moreover have "server_step ?s5 ?s6" using server_step.main_joined [of ?s5 0 0] by (simp add: st)
  moreover have "server_step ?s6 ?s7" by (rule server_step.main_waits) (simp_all add: st)
  moreover have "server_step ?s7 ?s8" using server_step.main_joined [of ?s7 1 1] by (simp add: st numeral_2_eq_2)
  moreover have "server_step ?s8 ?s9" using server_step.main_clears [of ?s8 2] by (simp add: st)
  moreover have "server_step ?s9 ?t" by (rule server_step.scale_down_joined) (simp_all add: st)
  ultimately have "server_step\<^sup>*\<^sup>* ?s0 ?t"
    by (meson converse_rtranclp_into_rtranclp rtranclp.rtrancl_refl)
  moreover have "sv_double_join ?t \<and> pool_size_cb (sv_pool ?t) = - 1" by (simp add: st)
  ultimately show ?thesis unfolding start by blast
qed

definition demo_scaler :: scaler_cfg where
  "demo_scaler = nta_scaler_load (\<lambda>k. None) (nta_config_load (\<lambda>k. None))"

definition busy_queue :: "string \<Rightarrow> json option" where
  "busy_queue s = Some (JObject [(''messages_ready'', JNumber 5000)])"

definition busy_round :: "nat option scaler_input" where
  "busy_round = \<lparr>si_stop = False, si_curl = True, si_reply = \<lparr>curl_ok = True, http_code = 200, chunks = [''x'']\<rparr>, si_now = 100,
     si_after = 100, si_influx = \<lparr>curl_ok = True, http_code = 204, chunks = []\<rparr>, si_create = Some 0\<rparr>"

theorem scaler_keeps_bounds_witness:
  "pool_ok (s_pool (nta_scaler_thread_main demo_scaler pool_size_cb pool_up_cb pool_down_cb busy_queue [busy_round, busy_round]
     \<lparr>s_pool = pool_init 75 16, idle_since = 0, s_backlog = 0, s_influx = None\<rparr>))"
proof -
  have "0 \<le> sc_min_workers demo_scaler" by (simp add: demo_scaler_def nta_scaler_load_def Let_def)
  then show ?thesis
    using scaler_keeps_bounds [of "\<lparr>s_pool = pool_init 75 16, idle_since = 0, s_backlog = 0, s_influx = None\<rparr>"
        demo_scaler busy_queue "[busy_round, busy_round]"]
    by (simp add: Let_def del: nta_scaler_thread_main.simps)
qed

end
