(* ===== verification/Nta_Server.thy ===== *)
theory Nta_Server
  imports Nta_Narrator Nta_Consumer Nta_Pool
begin

text \<open>
  The server (\<open>src/server/nta_server.c\<close>): the handlers of its three queues, the worker threads that run
  them over a broker connection, and the decisions of \<open>main\<close> before the threads start. The enrichers,
  the consumer, the writer and the pool are the theories imported; the answers of the network are
  arguments, one per use.
\<close>

section \<open>Traffic\<close>

text \<open>
  The context of a traffic worker. \<open>tc_replies\<close> and \<open>tc_accepts\<close> give the database's answer to the
  n-th body and the broker's to the n-th publish; \<open>tc_sent\<close> are the messages published.
\<close>

record traffic_ctx =
  tc_influx :: influx
  tc_enrich :: enrich
  tc_amqp :: nta_amqp
  tc_narrator_queue :: string
  tc_min_score :: int
  tc_abuse_min :: int
  tc_replies :: "nat \<Rightarrow> http_reply"
  tc_bodies :: nat
  tc_accepts :: "nat \<Rightarrow> bool"
  tc_tries :: nat
  tc_sent :: "amqp_message list"

text \<open>Whether an event is republished: its own score, else the abuse score of its source.\<close>

definition republish_trigger ::
  "(string \<Rightarrow> json option) \<Rightarrow> json \<Rightarrow> traffic_ctx \<Rightarrow> traffic_ctx \<times> bool" where
  "republish_trigger parse evt ctx =
     (let kc_hit = (tc_min_score ctx > 0 \<and>
                    (case item_number evt ''kc_score'' of Some kc \<Rightarrow> kc \<ge> of_int (tc_min_score ctx) | None \<Rightarrow> False))
      in if kc_hit then (ctx, True)
         else if en_abuse (tc_enrich ctx) \<noteq> None \<and> tc_abuse_min ctx > 0 then
           (case item_string evt ''src_ip'' of
              None \<Rightarrow> (ctx, False)
            | Some src \<Rightarrow>
                (case ask_abuse parse (tc_enrich ctx) src of
                   (en1, s) \<Rightarrow> (ctx\<lparr>tc_enrich := en1\<rparr>, s \<ge> tc_abuse_min ctx)))
         else (ctx, False))"

definition republish_if_high ::
  "(string \<Rightarrow> json option) \<Rightarrow> (json \<Rightarrow> string option) \<Rightarrow> string \<Rightarrow> json \<Rightarrow> traffic_ctx \<Rightarrow> traffic_ctx" where
  "republish_if_high parse print_json agent_id evt ctx =
     (case republish_trigger parse evt ctx of
        (ctx1, trigger) \<Rightarrow>
          if \<not> trigger then ctx1
          else case print_json evt of
                 None \<Rightarrow> ctx1
               | Some s \<Rightarrow>
                   ctx1\<lparr>tc_sent := fst (nta_amqp_publish (tc_accepts ctx1 (tc_tries ctx1)) (tc_narrator_queue ctx1) agent_id s
                                       (tc_amqp ctx1) (tc_sent ctx1)),
                        tc_tries := tc_tries ctx1 + 1\<rparr>)"

fun republish_items ::
  "(string \<Rightarrow> json option) \<Rightarrow> (json \<Rightarrow> string option) \<Rightarrow> string \<Rightarrow> json list \<Rightarrow> traffic_ctx \<Rightarrow> traffic_ctx" where
  "republish_items parse print_json agent_id [] ctx = ctx"
| "republish_items parse print_json agent_id (j # js) ctx =
     republish_items parse print_json agent_id js
       (if is_object j then republish_if_high parse print_json agent_id j ctx else ctx)"

definition traffic_handler ::
  "(string \<Rightarrow> json option) \<Rightarrow> (json \<Rightarrow> string option) \<Rightarrow> string \<Rightarrow> string \<Rightarrow> traffic_ctx \<Rightarrow> traffic_ctx" where
  "traffic_handler parse print_json body agent_id ctx =
     (case nta_influx_write_traffic parse (tc_replies ctx (tc_bodies ctx)) body (Some agent_id) (tc_influx ctx) (tc_enrich ctx) of
        (h, en, rc) \<Rightarrow>
          (let ctx1 = ctx\<lparr>tc_influx := h, tc_enrich := en, tc_bodies := tc_bodies ctx + 1\<rparr>
           in if rc \<noteq> 0 then ctx1
              else if tc_min_score ctx1 \<le> 0 \<and> (tc_abuse_min ctx1 \<le> 0 \<or> en_abuse (tc_enrich ctx1) = None) then ctx1
              else case parse body of
                     Some (JArray items) \<Rightarrow> republish_items parse print_json agent_id items ctx1
                   | Some (JObject kvs) \<Rightarrow> republish_if_high parse print_json agent_id (JObject kvs) ctx1
                   | _ \<Rightarrow> ctx1))"

section \<open>Metrics and narratives\<close>

record metrics_ctx =
  mc_influx :: influx
  mc_replies :: "nat \<Rightarrow> http_reply"
  mc_bodies :: nat

definition metrics_handler :: "(string \<Rightarrow> json option) \<Rightarrow> string \<Rightarrow> string \<Rightarrow> metrics_ctx \<Rightarrow> metrics_ctx" where
  "metrics_handler parse body agent_id ctx =
     ctx\<lparr>mc_influx := fst (nta_influx_write_metrics parse (mc_replies ctx (mc_bodies ctx)) body (Some agent_id) (mc_influx ctx)),
         mc_bodies := mc_bodies ctx + 1\<rparr>"

text \<open>
  The context of the narrator worker; \<open>xc_answers\<close> gives the clock, the answer of the language model and
  that of the database for the n-th incident, \<open>xc_overread\<close> records an over-read of the WHOIS client.
\<close>

record narrator_ctx =
  xc_influx :: influx
  xc_narrator :: narrator
  xc_whois :: "whois option"
  xc_cfg :: narrator_cfg
  xc_answers :: "nat \<Rightarrow> time_t \<times> http_reply \<times> http_reply"
  xc_bodies :: nat
  xc_overread :: bool

definition narrator_handler ::
  "(string \<Rightarrow> json option) \<Rightarrow> (json \<Rightarrow> string option) \<Rightarrow> whois_net \<Rightarrow> string \<Rightarrow> string \<Rightarrow> narrator_ctx \<Rightarrow> narrator_ctx" where
  "narrator_handler parse print_json net body agent_id ctx =
     (case xc_answers ctx (xc_bodies ctx) of
        (now, llm, db) \<Rightarrow>
          (case nta_narrator_call parse print_json net now llm (xc_narrator ctx) (xc_whois ctx) body (Some agent_id) of
             None \<Rightarrow> ctx\<lparr>xc_overread := True\<rparr>
           | Some (wh, req, narrative) \<Rightarrow>
               (let ctx1 = ctx\<lparr>xc_whois := wh, xc_bodies := xc_bodies ctx + 1\<rparr>
                in case narrative of
                     None \<Rightarrow> ctx1
                   | Some t \<Rightarrow>
                       ctx1\<lparr>xc_influx := fst (nta_influx_write_narrative parse db body t (Some agent_id)
                              (Some (nta_narrator_backend (xc_cfg ctx1))) (xc_influx ctx1))\<rparr>)))"

section \<open>Worker threads\<close>

text \<open>
  One connection of a worker: the attempts to open it, whether the narrator queue could be declared,
  and what the consume loop meets.
\<close>

record session =
  ss_open :: "retry_round list"
  ss_declare :: bool
  ss_consume :: bool
  ss_rounds :: "(bool \<times> consumed) list"

text \<open>
  The loop the three workers share: open with retries, consume with a handler, close, and again until a
  stop (\<open>Some 0\<close> or a stop during the retries). The state is the context, the handle and the gauge
  \<open>g_nta_amqp_connected\<close>; \<open>prepare\<close> is what a worker does after opening. The flag tells whether it ended.
\<close>

fun worker_loop ::
  "(session \<Rightarrow> nta_amqp \<Rightarrow> 'c \<Rightarrow> 'c) \<Rightarrow> (string \<Rightarrow> string \<Rightarrow> 'c \<Rightarrow> 'c) \<Rightarrow> session list \<Rightarrow> 'c \<Rightarrow> nta_amqp \<Rightarrow> int \<Rightarrow>
   'c \<times> nta_amqp \<times> int \<times> bool" where
  "worker_loop prepare handler [] c a g = (c, a, g, False)"
| "worker_loop prepare handler (s # ss) c a g =
     (case nta_amqp_open_retry (ss_open s) a g of
        (a1, g1, secs, r) \<Rightarrow>
          if r = None then (c, a1, g1, False)
          else if r \<noteq> Some 0 then (c, a1, g1, True)
          else (case nta_amqp_consume_loop handler (ss_consume s) (ss_rounds s) a1 (prepare s a1 c) of
                  (c1, rc) \<Rightarrow>
                    if rc = None then (c1, a1, g1, False)
                    else (case nta_amqp_close a1 of
                            (a2, d) \<Rightarrow>
                              if rc = Some 0 then (c1, a2, g1 + d, True)
                              else worker_loop prepare handler ss c1 a2 (g1 + d))))"

text \<open>The traffic worker disables republishing on a connection where the queue cannot be declared.\<close>

definition traffic_prepare :: "nta_config \<Rightarrow> int \<Rightarrow> session \<Rightarrow> nta_amqp \<Rightarrow> traffic_ctx \<Rightarrow> traffic_ctx" where
  "traffic_prepare cfg abuse_min s a c =
     (let can_narrate = (if narrator_min_score cfg > 0 then nta_amqp_declare_queue (ss_declare s) a = 0 else True)
      in c\<lparr>tc_amqp := a, tc_narrator_queue := narrator_queue cfg,
           tc_min_score := (if can_narrate then narrator_min_score cfg else 0),
           tc_abuse_min := (if can_narrate then abuse_min else 0)\<rparr>)"

definition worker_main ::
  "(string \<Rightarrow> json option) \<Rightarrow> (json \<Rightarrow> string option) \<Rightarrow> nta_config \<Rightarrow> int \<Rightarrow> bool \<Rightarrow> session list \<Rightarrow> traffic_ctx \<Rightarrow> int \<Rightarrow>
   traffic_ctx \<times> nta_amqp \<times> int \<times> bool" where
  "worker_main parse print_json cfg abuse_min have_curl ss c g =
     (case nta_influx_open have_curl cfg of
        (h, rc) \<Rightarrow>
          if rc \<noteq> 0 then (c\<lparr>tc_influx := h\<rparr>, zero_amqp, g, True)
          else worker_loop (traffic_prepare cfg abuse_min) (traffic_handler parse print_json) ss (c\<lparr>tc_influx := h\<rparr>) zero_amqp g)"

definition metrics_worker_main ::
  "(string \<Rightarrow> json option) \<Rightarrow> nta_config \<Rightarrow> bool \<Rightarrow> session list \<Rightarrow> metrics_ctx \<Rightarrow> int \<Rightarrow>
   metrics_ctx \<times> nta_amqp \<times> int \<times> bool" where
  "metrics_worker_main parse cfg have_curl ss c g =
     (case nta_influx_open have_curl cfg of
        (h, rc) \<Rightarrow>
          if rc \<noteq> 0 then (c\<lparr>mc_influx := h\<rparr>, zero_amqp, g, True)
          else worker_loop (\<lambda>s a c. c) (metrics_handler parse) ss (c\<lparr>mc_influx := h\<rparr>) zero_amqp g)"

definition narrator_worker_main ::
  "(string \<Rightarrow> json option) \<Rightarrow> (json \<Rightarrow> string option) \<Rightarrow> whois_net \<Rightarrow> nta_config \<Rightarrow> bool \<Rightarrow> bool \<Rightarrow> session list \<Rightarrow>
   narrator_ctx \<Rightarrow> int \<Rightarrow> narrator_ctx \<times> nta_amqp \<times> int \<times> bool" where
  "narrator_worker_main parse print_json net cfg have_curl have_curl2 ss c g =
     (case nta_influx_open have_curl cfg of
        (h, rc) \<Rightarrow>
          if rc \<noteq> 0 then (c\<lparr>xc_influx := h\<rparr>, zero_amqp, g, True)
          else case nta_narrator_open have_curl2 (xc_cfg c) of
                 None \<Rightarrow> (c\<lparr>xc_influx := h\<rparr>, zero_amqp, g, True)
               | Some n \<Rightarrow>
                   worker_loop (\<lambda>s a c. c) (narrator_handler parse print_json net) ss
                     (c\<lparr>xc_influx := h, xc_narrator := n\<rparr>) zero_amqp g)"

section \<open>\<open>main\<close>\<close>

record server_setup =
  su_cfg :: nta_config
  su_abuse_cfg :: abuse_cfg
  su_whois :: "whois option"
  su_narrator_cfg :: narrator_cfg
  su_scaler_cfg :: scaler_cfg
  su_pool_max :: int

text \<open>
  What \<open>main\<close> reads before it starts threads; the two files of secrets complete the environment in
  their order, after the configuration itself was read.
\<close>

definition server_setup_of :: "(string \<Rightarrow> string option) \<Rightarrow> env \<Rightarrow> server_setup" where
  "server_setup_of files e0 =
     (let cfg = nta_config_load e0;
          (acfg, e1) = nta_abuse_load files (Some ''.'') e0;
          wh = (if e1 ''WHOIS_ENABLED'' = Some ''0'' then None
                else Some (nta_whois_open (env_nat e1 ''WHOIS_TIMEOUT'' 5) (env_nat e1 ''WHOIS_TTL'' 86400)));
          (ncfg, e2) = nta_narrator_load files (Some ''.'') e1;
          scfg = nta_scaler_load e2 cfg
      in \<lparr>su_cfg = cfg, su_abuse_cfg = acfg, su_whois = wh, su_narrator_cfg = ncfg, su_scaler_cfg = scfg,
          su_pool_max = (if sc_max_workers scfg < num_workers cfg then num_workers cfg else sc_max_workers scfg)\<rparr>)"

text \<open>The threads \<open>main\<close> starts with.\<close>

definition server_threads_of :: "server_setup \<Rightarrow> server_threads" where
  "server_threads_of su =
     server_start (ac_min_republish_score (su_abuse_cfg su)) (nat (su_pool_max su)) (nat (num_workers (su_cfg su)))"


section \<open>The gauge of connections\<close>

lemma open_retry_gauge:
  "open_retry_loop delay rs a g secs = (a', g', secs', r) \<Longrightarrow> \<not> am_connected a \<Longrightarrow> amqp_wf a \<Longrightarrow>
   amqp_wf a' \<and> am_connected a' = (r = Some 0) \<and> g' = g + (if r = Some 0 then 1 else 0)"
proof (induction delay rs a g secs arbitrary: a' g' secs' r rule: open_retry_loop.induct)
  case (1 delay a g secs)
  then show ?case by auto
next
  case (2 delay ro rs a g secs)
  show ?case
  proof (cases "rr_stop ro")
    case True
    with 2 show ?thesis by auto
  next
    case False
    obtain a1 rc d where o: "nta_amqp_open (rr_attempt ro) = (a1, rc, d)" by (cases "nta_amqp_open (rr_attempt ro)")
    from open_result [OF o] have c: "amqp_wf a1" "(rc = 0 \<and> am_connected a1 \<and> d = 1) \<or> (rc = - 1 \<and> \<not> am_connected a1 \<and> d = 0)"
      by auto
    show ?thesis
    proof (cases "rc = 0")
      case True
      with 2(2) c o False show ?thesis by auto
    next
      case F: False
      with 2(2) o False have
        "open_retry_loop (next_delay delay) rs a1 (g + d) (secs + slept delay (rr_stop_after ro)) = (a', g', secs', r)"
        by simp
      from "2.IH" [OF False o [symmetric] refl F this] c F show ?thesis by auto
    qed
  qed
qed

lemma worker_loop_gauge:
  "worker_loop prepare handler ss c a g = (c', a', g', ended) \<Longrightarrow> \<not> am_connected a \<Longrightarrow> amqp_wf a \<Longrightarrow>
   g' = g + (if am_connected a' then 1 else 0) \<and> \<not> (ended \<and> am_connected a')"
proof (induction ss arbitrary: c a g)
  case Nil
  then show ?case by auto
next
  case (Cons s ss)
  obtain a1 g1 secs r where o: "nta_amqp_open_retry (ss_open s) a g = (a1, g1, secs, r)"
    by (cases "nta_amqp_open_retry (ss_open s) a g")
  from open_retry_gauge [OF o [unfolded nta_amqp_open_retry_def] Cons.prems(2,3)]
  have a1: "amqp_wf a1" "am_connected a1 = (r = Some 0)" "g1 = g + (if r = Some 0 then 1 else 0)" by auto
  show ?case
  proof (cases "r = Some 0")
    case False
    with Cons.prems(1) o a1 show ?thesis by (auto split: if_splits)
  next
    case True
    obtain c1 rc where l: "nta_amqp_consume_loop handler (ss_consume s) (ss_rounds s) a1 (prepare s a1 c) = (c1, rc)"
      by (cases "nta_amqp_consume_loop handler (ss_consume s) (ss_rounds s) a1 (prepare s a1 c)")
    obtain a2 d where cl: "nta_amqp_close a1 = (a2, d)" by (cases "nta_amqp_close a1")
    from close_result [OF a1(1) cl] a1 True have a2: "\<not> am_connected a2" "amqp_wf a2" "d = - 1" by auto
    show ?thesis
    proof (cases "rc = None \<or> rc = Some 0")
      case ends: True
      with Cons.prems(1) o a1 True l cl a2 show ?thesis by auto
    next
      case again: False
      then obtain y where y: "rc = Some y" "y \<noteq> 0" by auto
      have "g1 + d = g" using a1(3) a2(3) True by simp
      with Cons.prems(1) o True l cl y have "worker_loop prepare handler ss c1 a2 g = (c', a', g', ended)" by simp
      from Cons.IH [OF this a2(1,2)] show ?thesis .
    qed
  qed
qed

lemma zero_amqp_wf [simp]: "amqp_wf zero_amqp" "\<not> am_connected zero_amqp"
  by (simp_all add: zero_amqp_def amqp_wf_def)

section \<open>Republishing\<close>

text \<open>The score alone asks for a narrative.\<close>

definition high_score :: "int \<Rightarrow> json \<Rightarrow> bool" where
  "high_score mn evt \<longleftrightarrow> is_object evt \<and> (case item_number evt ''kc_score'' of Some kc \<Rightarrow> kc \<ge> of_int mn | None \<Rightarrow> False)"

definition alerts :: "(json \<Rightarrow> string option) \<Rightarrow> string \<Rightarrow> string \<Rightarrow> json list \<Rightarrow> amqp_message list" where
  "alerts print_json queue agent_id evts =
     concat (List.map (\<lambda>e. case print_json e of None \<Rightarrow> [] | Some s \<Rightarrow> [(queue, agent_id, s)]) evts)"

definition ready_to_publish :: "traffic_ctx \<Rightarrow> bool" where
  "ready_to_publish ctx \<longleftrightarrow> am_connected (tc_amqp ctx) \<and> (\<forall>n. tc_accepts ctx n) \<and> 0 < tc_min_score ctx \<and> tc_abuse_min ctx \<le> 0"

lemma republish_one:
  assumes "ready_to_publish ctx" "is_object evt" and c1_def: "c1 = republish_if_high parse print_json agent_id evt ctx"
  shows "tc_sent c1 = tc_sent ctx @ (if high_score (tc_min_score ctx) evt
           then alerts print_json (tc_narrator_queue ctx) agent_id [evt] else []) \<and>
         ready_to_publish c1 \<and> tc_min_score c1 = tc_min_score ctx \<and> tc_narrator_queue c1 = tc_narrator_queue ctx"
  using assms
  by (auto simp: c1_def republish_if_high_def republish_trigger_def ready_to_publish_def high_score_def alerts_def
      nta_amqp_publish_def Let_def split: option.splits)

lemma republish_all:
  "ready_to_publish ctx \<Longrightarrow>
   tc_sent (republish_items parse print_json agent_id items ctx) =
     tc_sent ctx @ alerts print_json (tc_narrator_queue ctx) agent_id (filter (high_score (tc_min_score ctx)) items)"
proof (induction items arbitrary: ctx)
  case Nil
  then show ?case by (simp add: alerts_def)
next
  case (Cons j js)
  show ?case
  proof (cases "is_object j")
    case False
    with Cons show ?thesis by (simp add: high_score_def)
  next
    case True
    note one = republish_one [OF Cons.prems True refl, of parse print_json agent_id]
    with Cons.IH [of "republish_if_high parse print_json agent_id j ctx"] True show ?thesis
      by (auto simp: alerts_def)
  qed
qed


lemma traffic_items_alerts:
  assumes "ready_to_publish ctx" and "parse body = Some (JArray items)"
    and "nta_influx_write_traffic parse (tc_replies ctx (tc_bodies ctx)) body (Some agent_id) (tc_influx ctx) (tc_enrich ctx) = (h, en, rc)"
  shows "tc_sent (traffic_handler parse print_json body agent_id ctx) = tc_sent ctx @
    (if rc = 0 then alerts print_json (tc_narrator_queue ctx) agent_id (filter (high_score (tc_min_score ctx)) items) else [])"
proof -
  let ?c1 = "ctx\<lparr>tc_influx := h, tc_enrich := en, tc_bodies := tc_bodies ctx + 1\<rparr>"
  have r: "ready_to_publish ?c1" "0 < tc_min_score ctx" using assms(1) by (simp_all add: ready_to_publish_def)
  from republish_all [OF r(1), of parse print_json agent_id items] r(2) assms(2,3) show ?thesis
    by (simp add: traffic_handler_def Let_def)
qed

section \<open>Properties\<close>

text \<open>
  The gauge behind the health endpoint counts connections: whatever the broker does over however
  many connections, a traffic worker adds one to it exactly while it is connected, and nothing once it
  has ended.
\<close>

theorem worker_gauge:
  assumes "worker_main parse print_json cfg abuse_min have_curl ss c g = (c', a', g', ended)"
  shows "g' = g + (if am_connected a' then 1 else 0) \<and> \<not> (ended \<and> am_connected a')"
proof -
  obtain h rc where h: "nta_influx_open have_curl cfg = (h, rc)" by (cases "nta_influx_open have_curl cfg")
  show ?thesis
  proof (cases "rc = 0")
    case False
    with assms h show ?thesis by (auto simp: worker_main_def)
  next
    case True
    with assms h have "worker_loop (traffic_prepare cfg abuse_min) (traffic_handler parse print_json) ss
        (c\<lparr>tc_influx := h\<rparr>) zero_amqp g = (c', a', g', ended)" by (simp add: worker_main_def)
    from worker_loop_gauge [OF this] show ?thesis by simp
  qed
qed

text \<open>
  C16. The alerts of a batch are exact: with the score trigger alone and a working connection, a batch
  that was written makes one message for each event whose score reaches the minimum, in the order of
  the batch, under the agent's name and with the event's own JSON; a batch the database did not take
  makes none, so an outage of the database silences the narrator too.
\<close>

theorem traffic_alerts:
  assumes "ready_to_publish ctx" and "parse body = Some (JArray items)"
    and "nta_influx_write_traffic parse (tc_replies ctx (tc_bodies ctx)) body (Some agent_id) (tc_influx ctx) (tc_enrich ctx) = (h, en, rc)"
  shows "tc_sent (traffic_handler parse print_json body agent_id ctx) = tc_sent ctx @
    (if rc = 0 then alerts print_json (tc_narrator_queue ctx) agent_id (filter (high_score (tc_min_score ctx)) items) else [])"
  by (rule traffic_items_alerts) (fact assms)+

text \<open>
  The initial workers always fit: whatever the environment and the files of secrets, the pool is
  large enough for the configured workers, at least one and at most 32, and \<open>main\<close> starts them all.
\<close>

theorem initial_workers_fit:
  "let su = server_setup_of files e; p = sv_pool (server_threads_of su)
   in 1 \<le> num_workers (su_cfg su) \<and> num_workers (su_cfg su) \<le> 32 \<and>
      pool_size_cb p = num_workers (su_cfg su) \<and> pool_size_cb p \<le> int (pool_max p)"
proof -
  let ?su = "server_setup_of files e"
  have c: "su_cfg ?su = nta_config_load e" and m: "num_workers (su_cfg ?su) \<le> su_pool_max ?su"
    by (simp_all add: server_setup_of_def Let_def case_prod_beta)
  have w: "1 \<le> num_workers (su_cfg ?su)" "num_workers (su_cfg ?su) \<le> 32"
    using workers_range [of e] by (simp_all add: c)
  from server_start_inv [of "ac_min_republish_score (su_abuse_cfg ?su)" "nat (su_pool_max ?su)" "nat (num_workers (su_cfg ?su))"]
  have "pool_count (sv_pool (server_threads_of ?su)) = int (min (nat (num_workers (su_cfg ?su))) (nat (su_pool_max ?su)))"
    "pool_max (sv_pool (server_threads_of ?su)) = nat (su_pool_max ?su)"
    by (simp_all add: server_threads_of_def)
  with w m show ?thesis by (simp add: Let_def pool_size_cb_def)
qed


section \<open>Witnesses\<close>

definition demo_open :: open_attempt where
  "demo_open = \<lparr>oa_connection = True, oa_socket = True, oa_socket_open = True, oa_login = True, oa_channel = True, oa_declare = True, oa_qos = True\<rparr>"

definition demo_session :: "(bool \<times> consumed) list \<Rightarrow> session" where
  "demo_session rs = \<lparr>ss_open = [\<lparr>rr_stop = False, rr_attempt = demo_open, rr_stop_after = None\<rparr>], ss_declare = True,
     ss_consume = True, ss_rounds = rs\<rparr>"

definition accepted_reply :: http_reply where
  "accepted_reply = \<lparr>curl_ok = True, http_code = 204, chunks = []\<rparr>"

definition demo_ctx :: traffic_ctx where
  "demo_ctx = \<lparr>tc_influx = \<lparr>inf_endpoint = ''http://db'', inf_ready = True, inf_posted = []\<rparr>,
     tc_enrich = \<lparr>en_geo = None, en_ioc = None, en_abuse = None, en_answers = (\<lambda>n. (0, accepted_reply)), en_asked = 0\<rparr>,
     tc_amqp = zero_amqp\<lparr>am_conn := True, am_connected := True\<rparr>, tc_narrator_queue = ''narrator_queue'',
     tc_min_score = 80, tc_abuse_min = 0, tc_replies = (\<lambda>n. accepted_reply), tc_bodies = 0, tc_accepts = (\<lambda>n. True),
     tc_tries = 0, tc_sent = []\<rparr>"

theorem worker_gauge_witness:
  "\<exists>c' a' g'. worker_main (\<lambda>s. None) (\<lambda>j. None) (nta_config_load (\<lambda>k. None)) 75 True
     [demo_session [(False, Timeout), (True, Timeout)]] demo_ctx 0 = (c', a', g', True) \<and> g' = 0"
proof -
  obtain c' a' g' ended where
    w: "worker_main (\<lambda>s. None) (\<lambda>j. None) (nta_config_load (\<lambda>k. None)) 75 True
      [demo_session [(False, Timeout), (True, Timeout)]] demo_ctx 0 = (c', a', g', ended)"
    by (metis surj_pair)
  moreover have ended
    using w by (auto simp: worker_main_def nta_influx_open_def nta_config_load_def env_or_def Let_def demo_session_def
        demo_open_def nta_amqp_open_retry_def nta_amqp_open_def zero_amqp_def nta_amqp_consume_loop_def
        nta_amqp_close_def split: if_splits prod.splits)
  ultimately show ?thesis using worker_gauge [OF w] by auto
qed

definition demo_alert :: json where
  "demo_alert = JObject [(''src_ip'', JString ''8.8.8.8''), (''kc_score'', JNumber 95)]"


lemma write_traffic_ok:
  assumes "inf_ready h" "body \<noteq> []" "parse body = Some doc" "curl_ok reply" "http_code reply = 204"
  shows "\<exists>h' en'. nta_influx_write_traffic parse reply body agent h en = (h', en', 0)"
  using assms by (auto simp: nta_influx_write_traffic_def influx_post_def Let_def split: prod.splits)

theorem traffic_alerts_witness:
  "tc_sent (traffic_handler (\<lambda>s. Some (JArray [demo_alert, JNumber 5])) (\<lambda>j. Some ''{}'') ''x'' ''agent'' demo_ctx) =
     [(''narrator_queue'', ''agent'', ''{}'')]"
proof -
  have r: "ready_to_publish demo_ctx" by (simp add: ready_to_publish_def demo_ctx_def)
  have "inf_ready (tc_influx demo_ctx)" "curl_ok (tc_replies demo_ctx 0)" "http_code (tc_replies demo_ctx 0) = 204"
    by (simp_all add: demo_ctx_def accepted_reply_def)
  then obtain h en where w: "nta_influx_write_traffic (\<lambda>s. Some (JArray [demo_alert, JNumber 5]))
      (tc_replies demo_ctx (tc_bodies demo_ctx)) ''x'' (Some ''agent'') (tc_influx demo_ctx) (tc_enrich demo_ctx) = (h, en, 0)"
    using write_traffic_ok [of "tc_influx demo_ctx" "''x''" "\<lambda>s. Some (JArray [demo_alert, JNumber 5])"]
    by (fastforce simp: demo_ctx_def)
  show ?thesis using traffic_alerts [OF r refl w, of "\<lambda>j. Some ''{}''"]
    by (simp add: demo_ctx_def alerts_def high_score_def demo_alert_def item_number_def)
qed

end
