(* ===== verification/Nta_Narrated.thy ===== *)
theory Nta_Narrated
  imports Nta_Evpoint Nta_Server
begin

text \<open>
  The second half of an incident's way: the message the traffic worker publishes for it
  (\<open>nta_amqp_publish\<close> in \<open>src/server/nta_consumer.c\<close>), its delivery to the narrator worker
  (\<open>narrator_handler\<close> in \<open>nta_server.c\<close>), and the narrative in the data base
  (\<open>nta_influx_write_narrative\<close> in \<open>nta_influx.c\<close>). The broker delivers a message with the properties it
  was published with.
\<close>

section \<open>Message properties\<close>

record amqp_props =
  pr_content_type :: string
  pr_delivery_mode :: nat
  pr_user_id :: "string option"
  pr_headers :: "(string \<times> string) list"

text \<open>The agent's batches: persistent, with the user the broker checks against the login.\<close>

definition batch_props :: "publisher \<Rightarrow> amqp_props" where
  "batch_props p = \<lparr>pr_content_type = ''application/json'', pr_delivery_mode = 2, pr_user_id = Some (g_agent_id p), pr_headers = []\<rparr>"

definition metrics_props :: "publisher \<Rightarrow> amqp_props" where
  "metrics_props p = \<lparr>pr_content_type = ''application/json'', pr_delivery_mode = 1, pr_user_id = Some (g_agent_id p), pr_headers = []\<rparr>"

text \<open>The server's alerts: the agent is in a header, and there is no user id.\<close>

definition alert_props :: "string option \<Rightarrow> amqp_props" where
  "alert_props agent_id =
     \<lparr>pr_content_type = ''application/json'', pr_delivery_mode = 2, pr_user_id = None,
      pr_headers = [(''x-agent-id'', case agent_id of Some a \<Rightarrow> a | None \<Rightarrow> ''unknown'')]\<rparr>"

definition delivered :: "amqp_props \<Rightarrow> string \<Rightarrow> consumed" where
  "delivered props body = Delivery body (pr_user_id props)"

section \<open>The agent of a message\<close>

text \<open>A batch is handled under its agent's name.\<close>

lemma batch_agent:
  assumes "g_agent_id p \<noteq> []" "CHR 0x00 \<notin> set (g_agent_id p)" "length (g_agent_id p) \<le> AGENT_ID_MAX"
  shows "deliveries [(False, delivered (batch_props p) body)] = [(body, g_agent_id p)]"
proof -
  have "takeWhile (\<lambda>c. c \<noteq> CHR 0x00) (g_agent_id p) = g_agent_id p"
    using assms(2) by (simp add: takeWhile_eq_all_conv) metis
  with assms show ?thesis by (simp add: delivered_def batch_props_def agent_of_def)
qed

lemma alert_agent: "deliveries [(False, delivered (alert_props a) body)] = [(body, ''unknown'')]"
  by (simp add: delivered_def alert_props_def agent_of_def)

section \<open>The point of a narrative\<close>






section \<open>From the alert to the narrative\<close>








end
