(* ===== verification/Nta_Private.thy ===== *)
theory Nta_Private
  imports Nta_Narrated
begin

text \<open>
  Which addresses the server enriches. \<open>is_private_ip\<close>, the same in \<open>nta_geoip.c\<close>, \<open>nta_abuse.c\<close> and
  \<open>nta_whois.c\<close> under \<open>src/server\<close>, compares prefixes of the text; here it is read as a condition on the
  octets of the address the agent sends, which \<open>inet_ntop\<close> has printed.
\<close>

section \<open>Prefixes of dotted text\<close>

definition octet :: "nat \<Rightarrow> u32 \<Rightarrow> nat" where
  "octet k w = unat (raw_byte k w)"

lemma inet_ntop_octets:
  "inet_ntop w = dec_digits (octet 0 w) @ CHR ''.'' # dec_digits (octet 1 w) @ CHR ''.'' #
     dec_digits (octet 2 w) @ CHR ''.'' # dec_digits (octet 3 w)"
  by (simp add: inet_ntop_def octet_def)

lemma prefix_to_dot:
  "CHR ''.'' \<notin> set p \<Longrightarrow> CHR ''.'' \<notin> set d \<Longrightarrow>
   has_prefix (p @ CHR ''.'' # q) (d @ CHR ''.'' # r) \<longleftrightarrow> p = d \<and> has_prefix q r"
proof (induction p arbitrary: d)
  case Nil
  then show ?case by (cases d) auto
next
  case (Cons c p)
  then show ?case by (cases d) auto
qed

lemma dec_digits_inj: "dec_digits m = dec_digits n \<longleftrightarrow> m = n"
  by (metis digits_val_dec_digits)

lemma no_dot_digits: "CHR ''.'' \<notin> set (dec_digits n)"
  using is_digit_not_sep [OF dec_digits_all] by simp

lemma octet_prefix: "has_prefix (dec_digits n @ ''.'') (dec_digits m @ CHR ''.'' # r) \<longleftrightarrow> n = m"
  using prefix_to_dot [OF no_dot_digits no_dot_digits, of n "[]"] by (simp add: dec_digits_inj)

lemma octets_prefix:
  "has_prefix (dec_digits n1 @ CHR ''.'' # dec_digits n2 @ ''.'') (dec_digits m1 @ CHR ''.'' # dec_digits m2 @ CHR ''.'' # r) \<longleftrightarrow>
   n1 = m1 \<and> n2 = m2"
  using prefix_to_dot [OF no_dot_digits no_dot_digits, of n1 "dec_digits n2 @ ''.''"]
  by (simp add: dec_digits_inj octet_prefix)

lemma skip_prefixes:
  "''127.'' = dec_digits 127 @ ''.''" "''10.'' = dec_digits 10 @ ''.''" "''172.'' = dec_digits 172 @ ''.''"
  "''192.168.'' = dec_digits 192 @ CHR ''.'' # dec_digits 168 @ ''.''"
  by code_simp+

lemma private_octets:
  "is_private_ip (inet_ntop w) \<longleftrightarrow>
   octet 0 w \<in> {10, 127, 172} \<or> octet 0 w = 192 \<and> octet 1 w = 168"
proof -
  have "inet_ntop w \<noteq> []" by (simp add: inet_ntop_def)
  then show ?thesis
    unfolding is_private_ip_def skip_prefixes inet_ntop_octets octet_prefix octets_prefix by auto
qed

text \<open>The private networks of RFC 1918 and the loopback network.\<close>

definition rfc_private :: "u32 \<Rightarrow> bool" where
  "rfc_private w \<longleftrightarrow> octet 0 w \<in> {10, 127} \<or> octet 0 w = 172 \<and> 16 \<le> octet 1 w \<and> octet 1 w < 32 \<or>
     octet 0 w = 192 \<and> octet 1 w = 168"

section \<open>The enrichers\<close>

text \<open>
  The three enrichers of the server skip the same addresses: for the text of any address they skip
  it exactly when its first octet is 10, 127 or 172, or its first two are 192 and 168. Then they answer
  nothing, ask no one and leave their caches as they were. No private address is ever asked about
  outside, and the addresses skipped beyond these are exactly the public part of 172.0.0.0/8. A public
  address is located by the data bases and kept.
\<close>

theorem enrichers_skip_private:
  "(is_private_ip (inet_ntop w) \<longleftrightarrow> rfc_private w \<or> octet 0 w = 172 \<and> (octet 1 w < 16 \<or> 32 \<le> octet 1 w)) \<and>
   (if octet 0 w \<in> {10, 127, 172} \<or> octet 0 w = 192 \<and> octet 1 w = 168
    then nta_geo_lookup g (Some (inet_ntop w)) = (g, zero_result, 0) \<and>
         nta_abuse_score parse now reply a (inet_ntop w) = (a, - 1) \<and>
         nta_whois_lookup net now wh (inet_ntop w) = Some (wh, zero_info, 0)
    else nta_geo_lookup g (Some (inet_ntop w)) =
           (case cache_get g (inet_ntop w) of
              Some out \<Rightarrow> (g, out, geo_answer out)
            | None \<Rightarrow> let out = geo_fetch g (inet_ntop w) in (cache_put g (inet_ntop w) out, out, geo_answer out)))"
proof -
  have p: "is_private_ip (inet_ntop w) \<longleftrightarrow> octet 0 w \<in> {10, 127, 172} \<or> octet 0 w = 192 \<and> octet 1 w = 168"
    by (rule private_octets)
  then show ?thesis
    by (auto simp: rfc_private_def nta_geo_lookup_def nta_abuse_score_def nta_whois_lookup_def Let_def)
qed

end
