(* ===== verification/Nta_Health.thy ===== *)
theory Nta_Health
  imports Nta_Util
begin

text \<open>
  The health endpoint of the server (\<open>src/server/nta_health.c\<close>): the three routes over the global
  counters, the response text, and one request handled. A byte outside ASCII is written by its UTF-8
  bytes. The socket calls are arguments: what \<open>read\<close> gives and what each \<open>write\<close> returns.
\<close>

record health_globals =
  g_nta_pool_size :: int
  g_nta_pool_backlog :: int
  g_start_time :: time_t
  g_nta_stop :: bool
  g_nta_amqp_connected :: int

definition crlf :: string where "crlf = [CHR 0x0D, CHR 0x0A]"

section \<open>Responses\<close>

text \<open>\<open>send_all\<close>: the bytes that go out when the calls of \<open>write\<close> return the given numbers.\<close>

fun send_all :: "int list \<Rightarrow> string \<Rightarrow> string" where
  "send_all [] buf = []"
| "send_all (w # ws) buf =
     (if buf = [] \<or> w \<le> 0 then [] else take (nat w) buf @ send_all ws (drop (nat w) buf))"

definition reason_of :: "int \<Rightarrow> string" where
  "reason_of code = (if code = 200 then ''OK'' else if code = 404 then ''Not Found''
     else if code = 503 then ''Service Unavailable'' else ''Internal Server Error'')"

definition header_text :: "int \<Rightarrow> string \<Rightarrow> nat \<Rightarrow> string" where
  "header_text code ctype blen =
     ''HTTP/1.0 '' @ fmt_d code @ '' '' @ reason_of code @ crlf @
     ''Content-Type: '' @ ctype @ crlf @
     ''Content-Length: '' @ dec_digits blen @ crlf @
     ''Cache-Control: no-store'' @ crlf @ ''Connection: close'' @ crlf @ crlf"

text \<open>
  \<open>respond\<close>: the header and the body as handed to \<open>send_all\<close>; \<open>None\<close> when the header overflows its
  256 bytes, since \<open>snprintf\<close>'s count would then send bytes past it.
\<close>

definition respond :: "int \<Rightarrow> string \<Rightarrow> string \<Rightarrow> (string \<times> string) option" where
  "respond code ctype body =
     (let hdr = header_text code ctype (length body)
      in if length hdr < 256 then Some (hdr, body) else None)"

section \<open>Routes\<close>

definition member_text :: "string \<Rightarrow> string \<Rightarrow> string" where
  "member_text k v = ''  '' @ dq @ k @ dq @ '': '' @ v @ '','' @ nl"

definition health_body :: "time_t \<Rightarrow> health_globals \<Rightarrow> string" where
  "health_body now g =
     ''{'' @ nl @
     member_text ''status'' (dq @ (if g_nta_stop g then ''draining''
       else if g_nta_amqp_connected g = 0 then ''degraded'' else ''ok'') @ dq) @
     member_text ''version'' (dq @ ''v8.0'' @ dq) @
     member_text ''uptime_s'' (fmt_d (now - g_start_time g)) @
     member_text ''workers'' (fmt_d (g_nta_pool_size g)) @
     member_text ''amqp_connected'' (fmt_d (g_nta_amqp_connected g)) @
     member_text ''queue_backlog'' (fmt_d (g_nta_pool_backlog g)) @
     ''  '' @ dq @ ''shutting_down'' @ dq @ '': '' @ (if g_nta_stop g then ''true'' else ''false'') @ nl @
     ''}'' @ nl"

definition route_health :: "time_t \<Rightarrow> health_globals \<Rightarrow> (string \<times> string) option" where
  "route_health now g =
     (let degraded = (\<not> g_nta_stop g \<and> g_nta_amqp_connected g = 0)
      in respond (if degraded then 503 else 200) ''application/json'' (cstr_copy 512 (health_body now g)))"

definition gauge_text :: "string \<Rightarrow> string \<Rightarrow> string \<Rightarrow> string \<Rightarrow> string" where
  "gauge_text name help kind v =
     ''# HELP '' @ name @ '' '' @ help @ nl @ ''# TYPE '' @ name @ '' '' @ kind @ nl @ name @ '' '' @ v @ nl"

definition metrics_body :: "time_t \<Rightarrow> health_globals \<Rightarrow> string" where
  "metrics_body now g =
     gauge_text ''nta_uptime_seconds'' ''nta-server uptime in seconds'' ''counter'' (fmt_d (now - g_start_time g)) @
     gauge_text ''nta_workers_active'' ''Current traffic worker count'' ''gauge'' (fmt_d (g_nta_pool_size g)) @
     gauge_text ''nta_amqp_connected'' ''Consumers with an open AMQP connection'' ''gauge''
       (fmt_d (g_nta_amqp_connected g)) @
     gauge_text ''nta_queue_backlog'' ''RabbitMQ traffic_queue depth (from scaler)'' ''gauge''
       (fmt_d (g_nta_pool_backlog g)) @
     gauge_text ''nta_shutting_down'' ''1 if SIGTERM received'' ''gauge'' (if g_nta_stop g then ''1'' else ''0'')"

definition route_metrics :: "time_t \<Rightarrow> health_globals \<Rightarrow> (string \<times> string) option" where
  "route_metrics now g =
     respond 200 ''text/plain; version=0.0.4'' (cstr_copy 1024 (metrics_body now g))"

definition index_body :: string where
  "index_body =
     ''<!doctype html><html><head><meta charset=utf-8>'' @
     ''<title>nta-server v8.0</title>'' @
     ''<style>body{font-family:monospace;padding:2em;max-width:600px;}'' @
     ''a{color:#0a7;}code{background:#eee;padding:0.1em 0.3em;}</style>'' @
     ''</head><body>'' @
     ''<h1>nta-server v8.0</h1>'' @
     ''<p>Network Traffic Analyzer '' @ em_dash @ '' Threat Intelligence pipeline em C.</p>'' @
     ''<ul>'' @
     ''<li><a href='' @ dq @ ''/health'' @ dq @ ''>/health</a> '' @ em_dash @ '' JSON liveness</li>'' @
     ''<li><a href='' @ dq @ ''/metrics'' @ dq @ ''>/metrics</a> '' @ em_dash @ '' Prometheus exposition</li>'' @
     ''</ul>'' @
     ''<p>Repo: <a href='' @ dq @ ''https://github.com/EduardoMartins-Dev/Network-Traffic-Analyzer'' @ dq @
     ''>github.com/EduardoMartins-Dev/Network-Traffic-Analyzer</a></p>'' @
     ''</body></html>'' @ nl"

definition route_index :: "(string \<times> string) option" where
  "route_index = respond 200 ''text/html; charset=utf-8'' index_body"

definition route_404 :: "(string \<times> string) option" where
  "route_404 = respond 404 ''text/plain'' (''not found'' @ nl)"

section \<open>Requests\<close>

text \<open>
  \<open>handle_request\<close>: \<open>received\<close> is what one \<open>read\<close> of at most 2047 bytes gives, empty on an error or a
  closed connection, for which nothing is sent (inner \<open>None\<close>). The buffer is a C string, so a NUL
  ends the path as well.
\<close>

definition request_path :: "string \<Rightarrow> string" where
  "request_path s = takeWhile (\<lambda>c. c \<noteq> CHR 0x00 \<and> c \<noteq> CHR '' '' \<and> c \<noteq> CHR 0x0D \<and> c \<noteq> CHR 0x0A) s"

definition handle_request :: "time_t \<Rightarrow> health_globals \<Rightarrow> string \<Rightarrow> (string \<times> string) option option" where
  "handle_request now g received =
     (let buf = take 2047 received
      in if buf = [] then Some None
         else let path = request_path (drop 4 buf);
                  reply = (if \<not> has_prefix ''GET '' buf then route_404
                           else if path = ''/health'' then route_health now g
                           else if path = ''/metrics'' then route_metrics now g
                           else if path = ''/'' then route_index
                           else route_404)
              in map_option Some reply)"

text \<open>The settings of \<open>nta_health_start\<close>; the thread and the sockets are not modelled.\<close>

record health_cfg =
  h_enabled :: bool
  h_port :: int
  h_bind_addr :: string

definition nta_health_start :: "env \<Rightarrow> health_cfg" where
  "nta_health_start e =
     (if e ''NTA_HEALTH_ENABLED'' = Some ''0'' then \<lparr>h_enabled = False, h_port = 0, h_bind_addr = []\<rparr>
      else let p0 = (case e ''NTA_HEALTH_PORT'' of Some (c # cs) \<Rightarrow> atoi (c # cs) | _ \<Rightarrow> 9091);
               p = (if p0 \<le> 0 \<or> p0 > 65535 then 9091 else p0)
           in \<lparr>h_enabled = True, h_port = p,
               h_bind_addr = cstr_copy 64 (case e ''NTA_HEALTH_BIND'' of Some (c # cs) \<Rightarrow> c # cs | _ \<Rightarrow> ''127.0.0.1'')\<rparr>)"

section \<open>Lemmas\<close>

lemma send_all_prefix: "\<exists>rest. buf = send_all ws buf @ rest"
proof (induction ws buf rule: send_all.induct)
  case (2 w ws buf)
  then show ?case
    by (cases "buf = [] \<or> w \<le> 0") (auto, metis append.assoc append_take_drop_id)
qed simp

lemma send_all_all: "\<forall>w \<in> set ws. 0 < w \<Longrightarrow> int (length buf) \<le> sum_list ws \<Longrightarrow> send_all ws buf = buf"
proof (induction ws buf rule: send_all.induct)
  case (2 w ws buf)
  show ?case
  proof (cases "buf = []")
    case False
    have "int (length (drop (nat w) buf)) \<le> sum_list ws"
    proof (cases "nat w \<le> length buf")
      case False
      moreover have "0 \<le> sum_list ws" using 2(2) by (intro sum_list_nonneg) auto
      ultimately show ?thesis by simp
    qed (use 2 in simp)
    then show ?thesis using 2 False by simp
  qed simp
qed simp

definition int_range :: "int \<Rightarrow> bool" where
  "int_range n \<longleftrightarrow> \<bar>n\<bar> < 10 ^ 19"

text \<open>Every counter prints in at most twenty characters: a 64-bit number and its sign.\<close>

lemma fmt_d_len: "int_range n \<Longrightarrow> length (fmt_d n) \<le> 20"
proof -
  assume "int_range n"
  then have "nat \<bar>n\<bar> < 10 ^ 19" by (simp add: int_range_def nat_less_iff)
  from dec_digits_len [OF this] show ?thesis by (auto simp: fmt_d_def)
qed

definition globals_ok :: "time_t \<Rightarrow> health_globals \<Rightarrow> bool" where
  "globals_ok now g \<longleftrightarrow> int_range (now - g_start_time g) \<and> int_range (g_nta_pool_size g) \<and>
     int_range (g_nta_amqp_connected g) \<and> int_range (g_nta_pool_backlog g)"

lemma fmt_d_small [simp]: "fmt_d 200 = ''200''" "fmt_d 404 = ''404''" "fmt_d 503 = ''503''"
  by (simp_all add: fmt_d_def dec_digits.simps, code_simp+)

lemma header_fits:
  "code \<in> {200, 404, 503} \<Longrightarrow> length ctype \<le> 40 \<Longrightarrow> blen < 10000 \<Longrightarrow> length (header_text code ctype blen) < 256"
  using dec_digits_len [of blen 4] by (auto simp: header_text_def reason_of_def crlf_def)

lemma respond_fits:
  "code \<in> {200, 404, 503} \<Longrightarrow> length ctype \<le> 40 \<Longrightarrow> length body < 10000 \<Longrightarrow>
   respond code ctype body = Some (header_text code ctype (length body), body)"
  using header_fits by (simp add: respond_def Let_def)

lemma cstr_copy_short: "length (cstr_copy n s) \<le> n - 1"
  by (simp add: cstr_copy_def)

lemma body_lens:
  "globals_ok now g \<Longrightarrow> length (health_body now g) < 512 \<and> length (metrics_body now g) < 1024"
  using fmt_d_len [of "now - g_start_time g"] fmt_d_len [of 0] fmt_d_len [of "g_nta_pool_size g"]
    fmt_d_len [of "g_nta_amqp_connected g"] fmt_d_len [of "g_nta_pool_backlog g"]
  by (simp add: globals_ok_def int_range_def [of 0] health_body_def metrics_body_def member_text_def gauge_text_def dq_def nl_def)

lemma route_health_reply:
  "globals_ok now g \<Longrightarrow> route_health now g =
     Some (header_text (if \<not> g_nta_stop g \<and> g_nta_amqp_connected g = 0 then 503 else 200) ''application/json''
             (length (health_body now g)), health_body now g)"
  using body_lens [of now g] unfolding route_health_def Let_def
  by (subst respond_fits) auto

lemma route_metrics_reply:
  "globals_ok now g \<Longrightarrow> route_metrics now g =
     Some (header_text 200 ''text/plain; version=0.0.4'' (length (metrics_body now g)), metrics_body now g)"
  using body_lens [of now g] unfolding route_metrics_def by (subst respond_fits) auto

lemma index_body_len: "length index_body < 10000"
  by (simp add: index_body_def em_dash_def dq_def nl_def)

lemma route_index_reply:
  "route_index = Some (header_text 200 ''text/html; charset=utf-8'' (length index_body), index_body)"
  unfolding route_index_def by (rule respond_fits) (use index_body_len in simp_all)

lemma route_404_reply:
  "route_404 = Some (header_text 404 ''text/plain'' (length (''not found'' @ nl)), ''not found'' @ nl)"
  unfolding route_404_def by (rule respond_fits) (simp_all add: nl_def)

section \<open>Properties\<close>

text \<open>The status and the media type of the reply to a request, and its body.\<close>

definition reply_of :: "time_t \<Rightarrow> health_globals \<Rightarrow> string \<Rightarrow> int \<times> string \<times> string" where
  "reply_of now g buf =
     (if \<not> has_prefix ''GET '' buf then (404, ''text/plain'', ''not found'' @ nl)
      else if request_path (drop 4 buf) = ''/health'' then
        (if \<not> g_nta_stop g \<and> g_nta_amqp_connected g = 0 then 503 else 200, ''application/json'', health_body now g)
      else if request_path (drop 4 buf) = ''/metrics'' then (200, ''text/plain; version=0.0.4'', metrics_body now g)
      else if request_path (drop 4 buf) = ''/'' then (200, ''text/html; charset=utf-8'', index_body)
      else (404, ''text/plain'', ''not found'' @ nl))"

text \<open>
  Every request that arrives gets a complete answer: the status line and the body of its route,
  with the body's true length in the header, no text ever cut by its buffer and no read past the
  header buffer, for any counters of 64 bits. \<open>/health\<close> answers 503 exactly when no consumer is
  connected and no stop has been requested.
\<close>

theorem health_reply:
  assumes "globals_ok now g" and "received \<noteq> []" and "reply_of now g (take 2047 received) = (code, ctype, body)"
  shows "handle_request now g received = Some (Some (header_text code ctype (length body), body)) \<and>
    (code = 503 \<longleftrightarrow> has_prefix ''GET '' (take 2047 received) \<and>
       request_path (drop 4 (take 2047 received)) = ''/health'' \<and> \<not> g_nta_stop g \<and> g_nta_amqp_connected g = 0)"
proof -
  have "take 2047 received \<noteq> []" using assms(2) by simp
  then show ?thesis using assms(3)
    by (auto simp: handle_request_def reply_of_def Let_def route_health_reply [OF assms(1)]
        route_metrics_reply [OF assms(1)] route_index_reply route_404_reply split: if_splits)
qed

definition idle_globals :: health_globals where
  "idle_globals = \<lparr>g_nta_pool_size = 4, g_nta_pool_backlog = 0, g_start_time = 100, g_nta_stop = False,
     g_nta_amqp_connected = 0\<rparr>"

theorem health_reply_witness:
  "\<exists>hdr body. handle_request 160 idle_globals (''GET /health HTTP/1.1'' @ crlf) = Some (Some (hdr, body)) \<and>
     take 12 hdr = ''HTTP/1.0 503''"
proof -
  let ?r = "''GET /health HTTP/1.1'' @ crlf"
  have ok: "globals_ok 160 idle_globals" by (simp add: globals_ok_def idle_globals_def int_range_def)
  have r: "reply_of 160 idle_globals (take 2047 ?r) = (503, ''application/json'', health_body 160 idle_globals)"
    by (simp add: reply_of_def request_path_def crlf_def idle_globals_def)
  from health_reply [OF ok _ r] show ?thesis by (simp add: header_text_def crlf_def)
qed

end
