(* ===== verification/Nta_Healthsrv.thy ===== *)
theory Nta_Healthsrv
  imports Nta_Health Nta_Homenet
begin

text \<open>
  The thread of the health endpoint (\<open>server_main\<close>, \<open>nta_health_start\<close> and \<open>nta_health_stop\<close> of
  \<open>src/server/nta_health.c\<close>): the set-up of its socket, the accept loop over the requests of
  \<open>Nta_Health\<close>, and its end. What the socket calls return is an argument, one entry per turn of the
  loop. The last part runs the end of the thread against \<open>nta_health_stop\<close>, one access at a time.
\<close>

section \<open>The accept loop\<close>

datatype errno = EAGAIN | EWOULDBLOCK | EINTR | ECONNABORTED | EMFILE | EINVAL | Other_errno int

text \<open>What \<open>accept\<close> gives: a connection, with what its one \<open>read\<close> receives, or an error.\<close>

datatype accept_result = Accept_conn string | Accept_error errno

text \<open>One turn: whether its test sees the stop, the time and the counters a reply shows, and \<open>accept\<close>.\<close>

record health_turn =
  hl_stop :: bool
  hl_now :: time_t
  hl_globals :: health_globals
  hl_accept :: accept_result

datatype health_end = Health_running | Health_stopped | Health_accept_failed | Health_no_socket

text \<open>The replies in order (\<open>None\<close> for a connection that sends nothing) and why the loop ended.\<close>

fun health_loop :: "health_turn list \<Rightarrow> ((string \<times> string) option list \<times> health_end) option" where
  "health_loop [] = Some ([], Health_running)"
| "health_loop (t # ts) =
     (if hl_stop t then Some ([], Health_stopped)
      else case hl_accept t of
             Accept_error e \<Rightarrow>
               (if e = EAGAIN \<or> e = EWOULDBLOCK then health_loop ts
                else if e = EINTR then health_loop ts
                else Some ([], Health_accept_failed))
           | Accept_conn received \<Rightarrow>
               (case handle_request (hl_now t) (hl_globals t) received of
                  None \<Rightarrow> None
                | Some reply \<Rightarrow> map_option (\<lambda>(rs, e). (reply # rs, e)) (health_loop ts)))"

section \<open>The thread\<close>

record health_sockets =
  hs_socket :: int
  hs_bind :: int
  hs_listen :: int

record health_thread =
  ht_ready :: bool
  ht_srv_fd :: int
  ht_open :: "int list"

definition health_idle :: health_thread where
  "health_idle = \<lparr>ht_ready = False, ht_srv_fd = - 1, ht_open = []\<rparr>"

definition server_main ::
  "health_cfg \<Rightarrow> health_sockets \<Rightarrow> health_turn list \<Rightarrow> (health_thread \<times> (string \<times> string) option list \<times> health_end) option" where
  "server_main cfg s turns =
     (let srv = hs_socket s;
          h = health_idle
      in if srv < 0 then Some (h, [], Health_no_socket)
         else let h1 = h\<lparr>ht_open := [srv]\<rparr>
         in if inet_pton (h_bind_addr cfg) = None then Some (h1\<lparr>ht_open := []\<rparr>, [], Health_no_socket)
            else if hs_bind s \<noteq> 0 then Some (h1\<lparr>ht_open := []\<rparr>, [], Health_no_socket)
            else if hs_listen s \<noteq> 0 then Some (h1\<lparr>ht_open := []\<rparr>, [], Health_no_socket)
            else let h2 = h1\<lparr>ht_ready := True, ht_srv_fd := srv\<rparr>
                 in map_option (\<lambda>(rs, e).
                      (if e = Health_running then h2 else h2\<lparr>ht_srv_fd := - 1, ht_open := []\<rparr>, rs, e))
                      (health_loop turns))"

text \<open>\<open>nta_health_start\<close> with what \<open>pthread_create\<close> returns.\<close>

definition health_start_thread :: "int \<Rightarrow> env \<Rightarrow> health_cfg \<times> int" where
  "health_start_thread rc e =
     (let h = nta_health_start e
      in if \<not> h_enabled h then (h, 0)
         else if rc \<noteq> 0 then (h\<lparr>h_enabled := False\<rparr>, - 1)
         else (h, 0))"

section \<open>The loop answers\<close>

definition turn_again :: "health_turn \<Rightarrow> bool" where
  "turn_again t \<longleftrightarrow> \<not> hl_stop t \<and>
     (case hl_accept t of Accept_error e \<Rightarrow> e \<in> {EAGAIN, EWOULDBLOCK, EINTR} | Accept_conn r \<Rightarrow> globals_ok (hl_now t) (hl_globals t))"

fun turn_reply :: "health_turn \<Rightarrow> (string \<times> string) option list" where
  "turn_reply t =
     (case hl_accept t of
        Accept_error e \<Rightarrow> []
      | Accept_conn received \<Rightarrow> [if received = [] then None else
          (case reply_of (hl_now t) (hl_globals t) (take 2047 received) of
             (code, ctype, body) \<Rightarrow> Some (header_text code ctype (length body), body))])"

lemma handle_request_reply:
  assumes "globals_ok now g"
  shows "handle_request now g received = Some (if received = [] then None else
    (case reply_of now g (take 2047 received) of (code, ctype, body) \<Rightarrow> Some (header_text code ctype (length body), body)))"
proof (cases "received = []")
  case True
  then show ?thesis by (simp add: handle_request_def)
next
  case False
  then show ?thesis
    by (auto simp: handle_request_def reply_of_def Let_def route_health_reply [OF assms]
        route_metrics_reply [OF assms] route_index_reply route_404_reply)
qed

lemma health_loop_append:
  assumes "\<forall>t \<in> set ts. turn_again t"
  shows "health_loop (ts @ us) = map_option (\<lambda>(rs, e). (concat (List.map turn_reply ts) @ rs, e)) (health_loop us)"
  using assms
proof (induction ts)
  case Nil
  then show ?case by (simp add: option.map_ident case_prod_beta)
next
  case (Cons t ts)
  have t: "turn_again t" using Cons.prems by simp
  show ?case
  proof (cases "hl_accept t")
    case (Accept_conn received)
    with t have "globals_ok (hl_now t) (hl_globals t)" by (simp add: turn_again_def)
    then show ?thesis using t Cons Accept_conn
      by (cases "health_loop us") (auto simp: turn_again_def handle_request_reply)
  next
    case (Accept_error e)
    then show ?thesis using t Cons by (auto simp: turn_again_def)
  qed
qed

lemma health_loop_runs:
  "\<forall>t \<in> set ts. turn_again t \<Longrightarrow> health_loop ts = Some (concat (List.map turn_reply ts), Health_running)"
  using health_loop_append [of ts "[]"] by simp

text \<open>
  However the thread goes, its socket is closed when it ends: the descriptor is open, published
  and ready exactly while the loop runs, and no set-up failure leaves it behind.
\<close>

theorem health_socket_closed:
  assumes "server_main cfg s turns = Some (h, rs, e)"
  shows "ht_open h = (if e = Health_running then [hs_socket s] else []) \<and>
    (ht_srv_fd h \<ge> 0 \<longleftrightarrow> e = Health_running) \<and> (ht_ready h \<longleftrightarrow> e \<noteq> Health_no_socket)"
proof -
  have "e' \<noteq> Health_no_socket" if "health_loop us = Some (rs', e')" for us rs' e'
    using that by (induction us arbitrary: rs' rule: health_loop.induct)
      (auto split: if_splits accept_result.splits option.splits)
  then show ?thesis using assms
    by (auto simp: server_main_def health_idle_def Let_def split: if_splits)
qed

definition probe_turn :: health_turn where
  "probe_turn = \<lparr>hl_stop = False, hl_now = 160, hl_globals = idle_globals, hl_accept = Accept_conn ''GET /health HTTP/1.1''\<rparr>"

definition local_cfg :: health_cfg where
  "local_cfg = \<lparr>h_enabled = True, h_port = 9091, h_bind_addr = inet_ntop 0x7F000001\<rparr>"

definition good_sockets :: health_sockets where
  "good_sockets = \<lparr>hs_socket = 5, hs_bind = 0, hs_listen = 0\<rparr>"

lemma local_main:
  "server_main local_cfg good_sockets turns =
     map_option (\<lambda>(rs, e). (\<lparr>ht_ready = True, ht_srv_fd = if e = Health_running then 5 else - 1,
       ht_open = if e = Health_running then [5] else []\<rparr>, rs, e)) (health_loop turns)"
  by (cases "health_loop turns")
    (auto simp: server_main_def local_cfg_def good_sockets_def health_idle_def inet_pton_ntop Let_def)

theorem health_socket_closed_witness:
  "\<exists>h. server_main local_cfg good_sockets [probe_turn\<lparr>hl_stop := True\<rparr>] = Some (h, [], Health_stopped) \<and> ht_open h = []"
proof -
  have m: "server_main local_cfg good_sockets [probe_turn\<lparr>hl_stop := True\<rparr>] =
      Some (\<lparr>ht_ready = True, ht_srv_fd = - 1, ht_open = []\<rparr>, [], Health_stopped)"
    by (simp add: local_main)
  show ?thesis using health_socket_closed [OF m] m by auto
qed

text \<open>
  An \<open>accept\<close> that fails with anything but a time-out or a signal ends the endpoint for good: every
  request before it was answered, none after it is, although no stop was requested. A client that
  gives up before it is accepted (\<open>ECONNABORTED\<close>) or a process short of descriptors (\<open>EMFILE\<close>) is
  enough.
\<close>

theorem health_endpoint_dies:
  assumes "\<forall>t \<in> set before. turn_again t" and "\<not> hl_stop t" and "hl_accept t = Accept_error e"
    and "e \<notin> {EAGAIN, EWOULDBLOCK, EINTR}"
  shows "health_loop (before @ t # later) = Some (concat (List.map turn_reply before), Health_accept_failed)"
  using assms(2-4) by (simp add: health_loop_append [OF assms(1)])

theorem health_endpoint_dies_witness:
  "health_loop ([probe_turn] @ probe_turn\<lparr>hl_accept := Accept_error ECONNABORTED\<rparr> # replicate 100 probe_turn) =
     Some (concat (List.map turn_reply [probe_turn]), Health_accept_failed)"
  by (rule health_endpoint_dies [where e = ECONNABORTED])
    (simp_all add: turn_again_def probe_turn_def globals_ok_def idle_globals_def int_range_def)

section \<open>Stopping the endpoint\<close>

text \<open>
  The end of the thread against \<open>nta_health_stop\<close>, which \<open>main\<close> calls once the stop was requested. The
  thread closes its socket and then resets \<open>srv_fd\<close>; \<open>nta_health_stop\<close> reads \<open>srv_fd\<close>, shuts the socket
  down when it is not negative, and joins. \<open>closed_fd_used\<close> records a \<open>shutdown\<close> of a descriptor that
  is no longer the endpoint's.
\<close>

datatype health_pc = Hs_loop | Hs_close | Hs_reset | Hs_end
datatype stop_pc = St_test | St_shutdown int | St_join | St_done

record health_stopping =
  hp_thread :: health_thread
  hp_pc :: health_pc
  hp_stop :: stop_pc
  hp_woken :: bool
  closed_fd_used :: bool

definition stopping_start :: "health_thread \<Rightarrow> health_stopping" where
  "stopping_start h = \<lparr>hp_thread = h, hp_pc = Hs_loop, hp_stop = St_test, hp_woken = False, closed_fd_used = False\<rparr>"

inductive stopping_step :: "health_stopping \<Rightarrow> health_stopping \<Rightarrow> bool" where
  loop_ends: "hp_pc s = Hs_loop \<Longrightarrow> stopping_step s (s\<lparr>hp_pc := Hs_close\<rparr>)"
| closes: "hp_pc s = Hs_close \<Longrightarrow> stopping_step s (s\<lparr>hp_thread := (hp_thread s)\<lparr>ht_open := []\<rparr>, hp_pc := Hs_reset\<rparr>)"
| resets: "hp_pc s = Hs_reset \<Longrightarrow> stopping_step s (s\<lparr>hp_thread := (hp_thread s)\<lparr>ht_srv_fd := - 1\<rparr>, hp_pc := Hs_end\<rparr>)"
| stop_reads: "hp_stop s = St_test \<Longrightarrow>
    stopping_step s (s\<lparr>hp_stop := (if ht_srv_fd (hp_thread s) \<ge> 0 then St_shutdown (ht_srv_fd (hp_thread s)) else St_join)\<rparr>)"
| stop_shuts: "hp_stop s = St_shutdown fd \<Longrightarrow>
    stopping_step s (s\<lparr>hp_stop := St_join, hp_woken := (hp_woken s \<or> fd \<in> set (ht_open (hp_thread s))),
      closed_fd_used := (closed_fd_used s \<or> fd \<notin> set (ht_open (hp_thread s)))\<rparr>)"
| stop_joins: "hp_stop s = St_join \<Longrightarrow> hp_pc s = Hs_end \<Longrightarrow> stopping_step s (s\<lparr>hp_stop := St_done\<rparr>)"

inductive_cases stopping_stepE: "stopping_step s t"

text \<open>What is true of the descriptor at each point of the thread.\<close>

definition stopping_ok :: "health_thread \<Rightarrow> health_stopping \<Rightarrow> bool" where
  "stopping_ok h s \<longleftrightarrow>
     (hp_pc s \<in> {Hs_loop, Hs_close} \<longrightarrow> hp_thread s = h) \<and>
     (hp_pc s \<in> {Hs_reset, Hs_end} \<longrightarrow> ht_open (hp_thread s) = []) \<and>
     (hp_stop s = St_done \<longrightarrow> hp_pc s = Hs_end) \<and>
     (hp_pc s \<in> {Hs_loop, Hs_close} \<longrightarrow> \<not> closed_fd_used s) \<and>
     (hp_pc s \<in> {Hs_loop, Hs_close} \<longrightarrow> (\<forall>fd. hp_stop s = St_shutdown fd \<longrightarrow> fd \<in> set (ht_open h)))"

lemma stopping_step_ok:
  assumes "ht_srv_fd h \<ge> 0 \<Longrightarrow> ht_srv_fd h \<in> set (ht_open h)"
  shows "stopping_step s t \<Longrightarrow> stopping_ok h s \<Longrightarrow> stopping_ok h t"
  using assms by (elim stopping_stepE) (auto simp: stopping_ok_def split: if_splits)

interpretation health_stopping: step_system stopping_step "stopping_ok \<lparr>ht_ready = True, ht_srv_fd = 5, ht_open = [5]\<rparr>"
  by unfold_locales (auto intro: stopping_step_ok)

text \<open>
  \<open>nta_health_stop\<close> returns only after the thread has ended, with its socket closed; but nothing
  orders its \<open>shutdown\<close> before the thread's \<open>close\<close>: it can act on a descriptor that is already closed,
  and by then may belong to another connection of the process.
\<close>

theorem health_stop_after_end:
  assumes "stopping_step\<^sup>*\<^sup>* (stopping_start \<lparr>ht_ready = True, ht_srv_fd = 5, ht_open = [5]\<rparr>) s" "hp_stop s = St_done"
  shows "hp_pc s = Hs_end \<and> ht_open (hp_thread s) = []"
  using health_stopping.steps_inv [OF assms(1)] assms(2) by (auto simp: stopping_ok_def stopping_start_def)

theorem health_stop_closed_fd:
  "\<exists>s. stopping_step\<^sup>*\<^sup>* (stopping_start \<lparr>ht_ready = True, ht_srv_fd = 5, ht_open = [5]\<rparr>) s \<and> hp_stop s = St_done \<and> closed_fd_used s"
proof -
  let ?h = "\<lparr>ht_ready = True, ht_srv_fd = 5, ht_open = [5]\<rparr> :: health_thread"
  let ?s0 = "stopping_start ?h"
  let ?s1 = "?s0\<lparr>hp_pc := Hs_close\<rparr>"
  let ?s2 = "?s1\<lparr>hp_stop := St_shutdown 5\<rparr>"
  let ?s3 = "?s2\<lparr>hp_thread := ?h\<lparr>ht_open := []\<rparr>, hp_pc := Hs_reset\<rparr>"
  let ?s4 = "?s3\<lparr>hp_stop := St_join, closed_fd_used := True\<rparr>"
  let ?s5 = "?s4\<lparr>hp_thread := ?h\<lparr>ht_open := [], ht_srv_fd := - 1\<rparr>, hp_pc := Hs_end\<rparr>"
  let ?s6 = "?s5\<lparr>hp_stop := St_done\<rparr>"
  have "stopping_step ?s0 ?s1" using loop_ends [of ?s0] by (simp add: stopping_start_def)
  moreover have "stopping_step ?s1 ?s2" using stop_reads [of ?s1] by (simp add: stopping_start_def)
  moreover have "stopping_step ?s2 ?s3" using closes [of ?s2] by (simp add: stopping_start_def)
  moreover have "stopping_step ?s3 ?s4" using stop_shuts [of ?s3 5] by (simp add: stopping_start_def)
  moreover have "stopping_step ?s4 ?s5" using resets [of ?s4] by (simp add: stopping_start_def)
  moreover have "stopping_step ?s5 ?s6" using stop_joins [of ?s5] by (simp add: stopping_start_def)
  ultimately have "stopping_step\<^sup>*\<^sup>* ?s0 ?s6" by (meson converse_rtranclp_into_rtranclp rtranclp.rtrancl_refl)
  then show ?thesis by (intro exI [of _ ?s6]) simp
qed

end
