(* ===== verification/Nta_Servermain.thy ===== *)
theory Nta_Servermain
  imports Nta_Server Nta_Healthsrv
begin

text \<open>
  The server as a process (\<open>main\<close>, \<open>nta_config_print\<close> and \<open>pool_destroy\<close> of \<open>src/server/nta_server.c\<close>):
  what it opens or fails to open, the threads it creates, its signal mask, the joins and the closes, as
  the list of these actions in their order, with the exit status. What the allocations, the libraries and
  \<open>pthread_create\<close> return is an argument, and so is the pool as main finds it while it joins, because a
  scaler may add and remove workers meanwhile: \<open>Nta_Pool\<close> has these interleavings.
\<close>

section \<open>The configuration as it is printed\<close>

text \<open>The bytes of the sign the line starts with.\<close>

definition play_sign :: string where "play_sign = [CHR 0xE2, CHR 0x96, CHR 0xB6]"

definition nta_config_print :: "nta_config \<Rightarrow> string" where
  "nta_config_print cfg =
     play_sign @ '' nta-server config:'' @ nl @
     ''    InfluxDB  url='' @ influx_url cfg @ '' org='' @ influx_org cfg @ '' bucket='' @ influx_bucket cfg @
     '' token='' @ tok_masked (influx_token cfg) @ nl @
     ''    RabbitMQ  host='' @ rabbit_host cfg @ '' port='' @ fmt_d (rabbit_port cfg) @ '' user='' @ rabbit_user cfg @
     '' vhost='' @ rabbit_vhost cfg @ nl @
     ''    Queues    traffic='' @ queue_name cfg @ '' metrics='' @ metrics_queue cfg @ '' narrator='' @
     narrator_queue cfg @ nl @
     ''    Narrator  min_score='' @ fmt_d (narrator_min_score cfg) @ nl @
     ''    GeoIP     city='' @ geoip_db_path cfg @ '' asn='' @ geoip_asn_db_path cfg @ nl @
     ''    IoC       path='' @ ioc_path cfg @ nl @
     ''    Workers   '' @ fmt_d (num_workers cfg) @ nl"

text \<open>What the mask lets through: nothing of a token of at most four characters, else its last four.\<close>

definition token_shown :: "string \<Rightarrow> string option" where
  "token_shown tok = (if length tok \<le> 4 then None else Some (drop (length tok - 4) tok))"

lemma tok_masked_shown: "tok_masked tok = ''****'' @ (case token_shown tok of None \<Rightarrow> [] | Some t \<Rightarrow> t)"
  by (simp add: tok_masked_def token_shown_def Let_def cstr_copy_def)

text \<open>
  The configuration is printed without its secrets: two configurations that differ only in their
  passwords and in the hidden part of their tokens print the same text.
\<close>

theorem config_print_hides_secrets:
  assumes "token_shown t1 = token_shown t2"
  shows "nta_config_print (cfg\<lparr>influx_token := t1, rabbit_pass := p1\<rparr>) =
    nta_config_print (cfg\<lparr>influx_token := t2, rabbit_pass := p2\<rparr>)"
  using assms by (simp add: nta_config_print_def tok_masked_shown)

theorem config_print_hides_secrets_witness:
  "nta_config_print ((nta_config_load (\<lambda>k. None))\<lparr>influx_token := ''key-one-9876'', rabbit_pass := ''guest''\<rparr>) =
   nta_config_print ((nta_config_load (\<lambda>k. None))\<lparr>influx_token := ''other-key-9876'', rabbit_pass := ''s3cret''\<rparr>)"
  by (rule config_print_hides_secrets) (simp add: token_shown_def)

section \<open>The actions of \<open>main\<close>\<close>

datatype server_module = M_curl | M_geo | M_ioc | M_abuse | M_whois | M_pool
datatype server_thread = T_traffic nat | T_metrics | T_narrator | T_health | T_scaler

datatype main_event =
    Ev_open server_module | Ev_fail server_module | Ev_close server_module
  | Ev_block | Ev_unblock | Ev_stop
  | Ev_create server_thread | Ev_join server_thread

text \<open>
  What \<open>main\<close> finds and what its calls return: \<open>mi_memory\<close> the allocations of the modules,
  \<open>mi_pool_arrays\<close> the three of the pool, \<open>mi_worker i\<close> the creation of the \<open>i\<close>-th worker,
  \<open>mi_pool_found i\<close> the pool when \<open>pool_join_all\<close> looks at its slot \<open>i\<close>, if a scaler runs.
\<close>

record main_inputs =
  mi_env :: env
  mi_files :: "string \<Rightarrow> string option"
  mi_parse :: "string \<Rightarrow> json option"
  mi_city :: "city_db option"
  mi_asn :: "asn_db option"
  mi_curl :: bool
  mi_abuse_curl :: bool
  mi_memory :: "server_module \<Rightarrow> bool"
  mi_pool_arrays :: "bool \<times> bool \<times> bool"
  mi_worker :: "nat \<Rightarrow> bool"
  mi_metrics :: bool
  mi_narrator :: bool
  mi_health :: int
  mi_scaler :: bool
  mi_pool_found :: "nat \<Rightarrow> traffic_pool"

text \<open>The first workers, one after the other until one cannot be created; the flag is the stop.\<close>

fun spawn_workers :: "(nat \<Rightarrow> bool) \<Rightarrow> nat \<Rightarrow> nat \<Rightarrow> traffic_pool \<Rightarrow> traffic_pool \<times> bool" where
  "spawn_workers ok 0 i p = (p, False)"
| "spawn_workers ok (Suc n) i p =
     (case pool_spawn_one_locked (if ok i then Some i else None) p of
        (p1, r) \<Rightarrow> if r < 0 then (p1, True) else spawn_workers ok n (i + 1) p1)"

text \<open>The workers the first spawn left in the pool.\<close>

definition active_tids :: "traffic_pool \<Rightarrow> nat list" where
  "active_tids p = List.map snd (filter fst (zip (pool_active p) (pool_tids p)))"

text \<open>
  The threads \<open>pool_join_all\<close> waits for, slot by slot: that of each slot active in the pool found when
  main comes to it.
\<close>

definition pool_join_tids :: "nat \<Rightarrow> (nat \<Rightarrow> traffic_pool) \<Rightarrow> nat list" where
  "pool_join_tids mx found = List.map (\<lambda>i. pool_tids (found i) ! i) (filter (\<lambda>i. pool_active (found i) ! i) [0..<mx])"

definition event_if :: "bool \<Rightarrow> main_event \<Rightarrow> main_event list" where
  "event_if b e = (if b then [e] else [])"

definition open_event :: "bool \<Rightarrow> server_module \<Rightarrow> main_event" where
  "open_event b M = (if b then Ev_open M else Ev_fail M)"

definition all_arrays :: "bool \<times> bool \<times> bool \<Rightarrow> bool" where
  "all_arrays arrays = (case arrays of (slots, tids, active) \<Rightarrow> slots \<and> tids \<and> active)"

text \<open>The environment after the two files of secrets.\<close>

definition server_env :: "main_inputs \<Rightarrow> env" where
  "server_env m = snd (nta_narrator_load (mi_files m) (Some ''.'') (snd (nta_abuse_load (mi_files m) (Some ''.'') (mi_env m))))"

definition server_main_events :: "main_inputs \<Rightarrow> main_event list \<times> int" where
  "server_main_events m =
     (let su = server_setup_of (mi_files m) (mi_env m);
          cfg = su_cfg su;
          geo = (mi_memory m M_geo \<and> nta_geo_open (mi_city m) (mi_asn m) \<noteq> None);
          ioc = (mi_memory m M_ioc \<and> nta_ioc_load (mi_files m) (mi_parse m) (Some (ioc_path cfg)) \<noteq> None);
          abuse = (mi_memory m M_abuse \<and> nta_abuse_open (mi_abuse_curl m) (Some (su_abuse_cfg su)) \<noteq> None);
          whois_on = (su_whois su \<noteq> None);
          whois = (whois_on \<and> mi_memory m M_whois);
          opens = [Ev_open M_curl, open_event geo M_geo, open_event ioc M_ioc, open_event abuse M_abuse] @
                  event_if whois_on (open_event whois M_whois);
          closes = event_if whois (Ev_close M_whois) @ event_if abuse (Ev_close M_abuse) @
                   event_if ioc (Ev_close M_ioc) @ event_if geo (Ev_close M_geo) @ [Ev_close M_curl]
      in if \<not> mi_curl m then ([Ev_fail M_curl], 1)
         else if \<not> all_arrays (mi_pool_arrays m) then (opens @ [Ev_fail M_pool] @ closes, 1)
         else
           (let (p, stop) = spawn_workers (mi_worker m) (nat (num_workers cfg)) 0
                              (pool_init (ac_min_republish_score (su_abuse_cfg su)) (nat (su_pool_max su)));
                narrator_ok = (nc_enabled (su_narrator_cfg su) \<and> mi_narrator m);
                health = h_enabled (fst (health_start_thread (mi_health m) (server_env m)));
                scaler_ok = (sc_enabled (su_scaler_cfg su) \<and> mi_scaler m);
                found = (if scaler_ok then mi_pool_found m else (\<lambda>i. p))
            in (opens @ [Ev_open M_pool, Ev_block] @
                List.map (\<lambda>t. Ev_create (T_traffic t)) (active_tids p) @ event_if stop Ev_stop @
                event_if (mi_metrics m) (Ev_create T_metrics) @ event_if narrator_ok (Ev_create T_narrator) @
                event_if health (Ev_create T_health) @ event_if scaler_ok (Ev_create T_scaler) @ [Ev_unblock] @
                List.map (\<lambda>t. Ev_join (T_traffic t)) (pool_join_tids (pool_max p) found) @
                event_if (mi_metrics m) (Ev_join T_metrics) @ event_if narrator_ok (Ev_join T_narrator) @
                event_if scaler_ok (Ev_join T_scaler) @ event_if health (Ev_join T_health) @
                [Ev_close M_pool] @ closes, 0)))"

section \<open>The first workers\<close>

definition spawned :: "nat \<Rightarrow> nat \<Rightarrow> traffic_pool \<Rightarrow> bool" where
  "spawned k mx p \<longleftrightarrow> pool_max p = mx \<and> k \<le> mx \<and> pool_active p = replicate k True @ replicate (mx - k) False \<and>
     length (pool_tids p) = mx \<and> length (pool_slots p) = mx \<and> take k (pool_tids p) = [0..<k] \<and> pool_count p = int k"

lemma spawned_init: "spawned 0 mx (pool_init a mx)"
  by (simp add: spawned_def pool_init_def)

lemma first_free_at: "first_free i (replicate k True @ False # bs) = Some (i + k)"
  by (induction k arbitrary: i) auto

lemma spawned_step:
  assumes "spawned k mx p" "k < mx"
  shows "\<exists>p1. pool_spawn_one_locked (if b then Some k else None) p = (p1, if b then int k + 1 else - 1) \<and>
    spawned (if b then k + 1 else k) mx p1"
proof -
  obtain j where j: "mx - k = Suc j" using assms(2) by (cases "mx - k") auto
  have ff: "first_free 0 (pool_active p) = Some k"
    using assms(1) first_free_at [of 0 k "replicate j False"] by (simp add: spawned_def j)
  have "(replicate k True @ replicate (mx - k) False)[k := True] = replicate (Suc k) True @ replicate (mx - Suc k) False"
    using j by (simp add: list_update_append replicate_app_Cons_same)
  moreover have "take (Suc k) ((pool_tids p)[k := k]) = [0..<Suc k]"
    using assms by (simp add: spawned_def take_Suc_conv_app_nth)
  ultimately show ?thesis using assms ff
    by (auto simp: pool_spawn_one_locked_def spawned_def Let_def)
qed

lemma spawn_workers_spawned:
  assumes "spawned i mx p" "i + n \<le> mx"
  shows "\<exists>p1 k stop. spawn_workers ok n i p = (p1, stop) \<and> spawned k mx p1 \<and> i \<le> k \<and> k \<le> i + n \<and>
    (\<forall>j. i \<le> j \<and> j < k \<longrightarrow> ok j) \<and> (if stop then k < i + n \<and> \<not> ok k else k = i + n)"
  using assms
proof (induction n arbitrary: i p)
  case 0
  then show ?case by (intro exI [of _ p] exI [of _ i] exI [of _ False]) auto
next
  case (Suc n)
  have "i < mx" using Suc.prems(2) by simp
  from spawned_step [OF Suc.prems(1) this, of "ok i"]
  obtain p1 where p1: "pool_spawn_one_locked (if ok i then Some i else None) p = (p1, if ok i then int i + 1 else - 1)"
      "spawned (if ok i then i + 1 else i) mx p1"
    by blast
  show ?case
  proof (cases "ok i")
    case False
    then have "spawn_workers ok (Suc n) i p = (p1, True)" "spawned i mx p1" using p1 by simp_all
    then show ?thesis using False by (intro exI [of _ p1] exI [of _ i] exI [of _ True]) auto
  next
    case True
    then have run: "spawn_workers ok (Suc n) i p = spawn_workers ok n (i + 1) p1" and s1: "spawned (i + 1) mx p1"
      using p1 by simp_all
    have "i + 1 + n \<le> mx" using Suc.prems(2) by simp
    from Suc.IH [OF s1 this] obtain p2 k stop where
      k: "spawn_workers ok n (i + 1) p1 = (p2, stop)" "spawned k mx p2" "i + 1 \<le> k" "k \<le> i + 1 + n"
        "\<forall>j. i + 1 \<le> j \<and> j < k \<longrightarrow> ok j" "if stop then k < i + 1 + n \<and> \<not> ok k else k = i + 1 + n"
      by blast
    have "ok j" if "i \<le> j" "j < k" for j
      using True k(5) that by (cases "j = i") simp_all
    moreover have "if stop then k < i + Suc n \<and> \<not> ok k else k = i + Suc n" using k(6) by (cases stop) simp_all
    ultimately show ?thesis using run k by (intro exI [of _ p2] exI [of _ k] exI [of _ stop]) simp
  qed
qed

lemma spawn_first_workers:
  assumes "n \<le> mx"
  shows "\<exists>p k stop. spawn_workers ok n 0 (pool_init a mx) = (p, stop) \<and> spawned k mx p \<and> k \<le> n \<and>
    (\<forall>j<k. ok j) \<and> stop = (k < n) \<and> (stop \<longrightarrow> \<not> ok k)"
proof -
  from spawn_workers_spawned [OF spawned_init, of n mx ok a] assms
  obtain p k stop where k: "spawn_workers ok n 0 (pool_init a mx) = (p, stop)" "spawned k mx p" "k \<le> 0 + n"
      "\<forall>j. 0 \<le> j \<and> j < k \<longrightarrow> ok j" "if stop then k < 0 + n \<and> \<not> ok k else k = 0 + n"
    by auto
  then show ?thesis by (intro exI [of _ p] exI [of _ k] exI [of _ stop]) (auto split: if_splits)
qed

lemma active_tids_spawned: "spawned k mx p \<Longrightarrow> active_tids p = [0..<k]"
proof -
  assume s: "spawned k mx p"
  have "zip (pool_active p) (pool_tids p) =
      zip (replicate k True) (take k (pool_tids p)) @ zip (replicate (mx - k) False) (drop k (pool_tids p))"
    using s by (simp add: spawned_def zip_append1)
  moreover have "filter fst (zip (replicate n False) xs) = []" for n and xs :: "nat list"
    by (auto simp: filter_empty_conv set_zip)
  moreover have "filter fst (zip (replicate k True) xs) = zip (replicate k True) xs" for xs :: "nat list"
    by (auto simp: filter_id_conv set_zip)
  ultimately show ?thesis using s by (simp add: active_tids_def spawned_def)
qed

text \<open>A pool nobody else changes is joined as it was spawned.\<close>

lemma join_tids_spawned:
  assumes "spawned k mx p"
  shows "pool_join_tids mx (\<lambda>i. p) = [0..<k]"
proof -
  have k: "k \<le> mx" "length (pool_tids p) = mx" "take k (pool_tids p) = [0..<k]" using assms by (simp_all add: spawned_def)
  have "filter (\<lambda>i. pool_active p ! i) [0..<mx] = filter (\<lambda>i. i < k) [0..<mx]"
    using assms by (intro filter_cong) (auto simp: spawned_def nth_append)
  also have "\<dots> = [0..<k]"
  proof -
    have "[0..<mx] = [0..<k] @ [k..<mx]" using k(1) by (metis le_add_diff_inverse upt_add_eq_append zero_le)
    then show ?thesis by (simp add: filter_id_conv)
  qed
  finally have "pool_join_tids mx (\<lambda>i. p) = List.map (\<lambda>i. pool_tids p ! i) [0..<k]" by (simp add: pool_join_tids_def)
  also have "\<dots> = take k (pool_tids p)"
    using k(1,2) by (intro nth_equalityI) simp_all
  finally show ?thesis by (simp add: k(3))
qed

section \<open>The order of the actions\<close>

fun phase :: "main_event \<Rightarrow> nat" where
  "phase (Ev_open x) = 0"
| "phase (Ev_fail x) = 0"
| "phase Ev_block = 1"
| "phase (Ev_create t) = 2"
| "phase Ev_stop = 2"
| "phase Ev_unblock = 3"
| "phase (Ev_join t) = 4"
| "phase (Ev_close x) = 5"

lemma set_event_if [simp]: "set (event_if b e) = {x. b \<and> x = e}"
  by (simp add: event_if_def)

lemma phase_open_event [simp]: "phase (open_event b M) = 0"
  by (simp add: open_event_def)

lemma count_event_if [simp]: "count_list (event_if b e) x = (if b \<and> e = x then 1 else 0)"
  by (simp add: event_if_def)

lemma count_list_image:
  "inj f \<Longrightarrow> count_list (List.map f [0..<k]) x = (if \<exists>t<k. x = f t then 1 else 0)"
proof (induction k)
  case (Suc k)
  have "\<not> (\<exists>t<k. f k = f t)" using Suc.prems by (auto dest: injD)
  then show ?case using Suc by (auto simp: less_Suc_eq)
qed simp

lemma count_thread_events [simp]:
  "count_list (List.map (\<lambda>t. Ev_create (T_traffic t)) [0..<k]) x = (if \<exists>t<k. x = Ev_create (T_traffic t) then 1 else 0)"
  "count_list (List.map (\<lambda>t. Ev_join (T_traffic t)) [0..<k]) x = (if \<exists>t<k. x = Ev_join (T_traffic t) then 1 else 0)"
  by (rule count_list_image, simp add: inj_def)+

text \<open>Phases that rise from \<open>n\<close> on.\<close>

definition rising :: "nat \<Rightarrow> main_event list \<Rightarrow> bool" where
  "rising n es \<longleftrightarrow> sorted (n # List.map phase es)"

lemma rising_weaken: "rising n es \<Longrightarrow> m \<le> n \<Longrightarrow> rising m es"
  by (auto simp: rising_def)

lemma rising_simps [simp]:
  "rising n []"
  "rising n (e # es) \<longleftrightarrow> n \<le> phase e \<and> rising (phase e) es"
  by (auto simp: rising_def)

lemma rising_event_if: "n \<le> phase e \<Longrightarrow> rising (phase e) es \<Longrightarrow> rising n (event_if b e @ es)"
  by (cases b) (auto simp: event_if_def intro: rising_weaken)

lemma rising_threads:
  "n \<le> 2 \<Longrightarrow> rising 2 es \<Longrightarrow> rising n (List.map (\<lambda>t. Ev_create (T_traffic t)) ts @ es)"
  "n \<le> 4 \<Longrightarrow> rising 4 es \<Longrightarrow> rising n (List.map (\<lambda>t. Ev_join (T_traffic t)) ts @ es)"
  by (induction ts arbitrary: n) (auto intro: rising_weaken)

lemma rising_sorted: "rising 0 es \<Longrightarrow> sorted (List.map phase es)"
  by (simp add: rising_def)

text \<open>The three runs \<open>main\<close> has: without libcurl, without the pool's memory, and with threads.\<close>

lemma server_main_cases:
  assumes "server_main_events m = (evs, status)"
  obtains (none) "\<not> mi_curl m" "evs = [Ev_fail M_curl]" "status = 1"
  | (nopool) g i a w wm where "mi_curl m" "\<not> all_arrays (mi_pool_arrays m)" "status = 1"
      "evs = [Ev_open M_curl, open_event g M_geo, open_event i M_ioc, open_event a M_abuse] @
         event_if w (open_event (w \<and> wm) M_whois) @ [Ev_fail M_pool] @ event_if (w \<and> wm) (Ev_close M_whois) @
         event_if a (Ev_close M_abuse) @ event_if i (Ev_close M_ioc) @ event_if g (Ev_close M_geo) @ [Ev_close M_curl]"
  | (threads) g i a w wm k js stop me na he sc where "mi_curl m" "all_arrays (mi_pool_arrays m)" "status = 0"
      "evs = [Ev_open M_curl, open_event g M_geo, open_event i M_ioc, open_event a M_abuse] @
         event_if w (open_event (w \<and> wm) M_whois) @ [Ev_open M_pool, Ev_block] @
         List.map (\<lambda>t. Ev_create (T_traffic t)) [0..<k] @ event_if stop Ev_stop @ event_if me (Ev_create T_metrics) @
         event_if na (Ev_create T_narrator) @ event_if he (Ev_create T_health) @ event_if sc (Ev_create T_scaler) @
         [Ev_unblock] @ List.map (\<lambda>t. Ev_join (T_traffic t)) js @ event_if me (Ev_join T_metrics) @
         event_if na (Ev_join T_narrator) @ event_if sc (Ev_join T_scaler) @ event_if he (Ev_join T_health) @
         [Ev_close M_pool] @ event_if (w \<and> wm) (Ev_close M_whois) @ event_if a (Ev_close M_abuse) @
         event_if i (Ev_close M_ioc) @ event_if g (Ev_close M_geo) @ [Ev_close M_curl]"
      "int k \<le> num_workers (nta_config_load (mi_env m))"
      "stop \<longleftrightarrow> int k < num_workers (nta_config_load (mi_env m))"
      "\<forall>j<k. mi_worker m j" "stop \<Longrightarrow> \<not> mi_worker m k"
      "js = (if sc then pool_join_tids (nat (su_pool_max (server_setup_of (mi_files m) (mi_env m)))) (mi_pool_found m) else [0..<k])"
proof -
  let ?su = "server_setup_of (mi_files m) (mi_env m)"
  let ?n = "num_workers (nta_config_load (mi_env m))"
  have cfg: "su_cfg ?su = nta_config_load (mi_env m)" and mx: "?n \<le> su_pool_max ?su"
    by (simp_all add: server_setup_of_def Let_def case_prod_beta)
  have n: "1 \<le> ?n" using workers_range [of "mi_env m"] by simp
  have "nat ?n \<le> nat (su_pool_max ?su)" using mx by simp
  from spawn_first_workers [OF this, of "mi_worker m" "ac_min_republish_score (su_abuse_cfg ?su)"]
  obtain p k stop where sp:
    "spawn_workers (mi_worker m) (nat ?n) 0 (pool_init (ac_min_republish_score (su_abuse_cfg ?su)) (nat (su_pool_max ?su))) = (p, stop)"
    "spawned k (nat (su_pool_max ?su)) p" "k \<le> nat ?n" "\<forall>j<k. mi_worker m j" "stop = (k < nat ?n)"
    "stop \<longrightarrow> \<not> mi_worker m k"
    by blast
  have k: "int k \<le> ?n" "stop \<longleftrightarrow> int k < ?n" using sp(3,5) n by linarith+
  have pm: "pool_max p = nat (su_pool_max ?su)" using sp(2) by (simp add: spawned_def)
  show thesis
  proof (cases "mi_curl m \<and> all_arrays (mi_pool_arrays m)")
    case True
    let ?sc = "sc_enabled (su_scaler_cfg ?su) \<and> mi_scaler m"
    have "pool_join_tids (pool_max p) (if ?sc then mi_pool_found m else (\<lambda>i. p)) =
        (if ?sc then pool_join_tids (nat (su_pool_max ?su)) (mi_pool_found m) else [0..<k])"
      by (simp add: pm join_tids_spawned [OF sp(2)])
    then show thesis
      using True assms
      by (intro threads [where g = "mi_memory m M_geo \<and> nta_geo_open (mi_city m) (mi_asn m) \<noteq> None"
            and i = "mi_memory m M_ioc \<and> nta_ioc_load (mi_files m) (mi_parse m) (Some (ioc_path (su_cfg ?su))) \<noteq> None"
            and a = "mi_memory m M_abuse \<and> nta_abuse_open (mi_abuse_curl m) (Some (su_abuse_cfg ?su)) \<noteq> None"
            and w = "su_whois ?su \<noteq> None" and wm = "mi_memory m M_whois" and me = "mi_metrics m"
            and na = "nc_enabled (su_narrator_cfg ?su) \<and> mi_narrator m"
            and he = "h_enabled (fst (health_start_thread (mi_health m) (server_env m)))" and sc = ?sc,
          OF _ _ _ _ k sp(4) _ refl])
        (simp_all add: server_main_events_def Let_def cfg sp(1) active_tids_spawned [OF sp(2)] sp(6) del: not_None_eq)
  next
    case False
    then show thesis
      using assms none nopool by (auto simp: server_main_events_def Let_def split: if_splits)
  qed
qed

text \<open>The workers created, and those joined, in order.\<close>

fun created_worker :: "main_event \<Rightarrow> nat list" where
  "created_worker (Ev_create (T_traffic t)) = [t]"
| "created_worker _ = []"

fun joined_worker :: "main_event \<Rightarrow> nat list" where
  "joined_worker (Ev_join (T_traffic t)) = [t]"
| "joined_worker _ = []"

definition workers_created :: "main_event list \<Rightarrow> nat list" where
  "workers_created evs = concat (List.map created_worker evs)"

definition workers_joined :: "main_event list \<Rightarrow> nat list" where
  "workers_joined evs = concat (List.map joined_worker evs)"

lemma workers_events [simp]:
  "concat (List.map created_worker (event_if b e)) = (if b then created_worker e else [])"
  "concat (List.map joined_worker (event_if b e)) = (if b then joined_worker e else [])"
  "created_worker (open_event b M) = []" "joined_worker (open_event b M) = []"
  "concat (List.map created_worker (List.map (\<lambda>t. Ev_create (T_traffic t)) ts)) = ts"
  "concat (List.map joined_worker (List.map (\<lambda>t. Ev_create (T_traffic t)) ts)) = []"
  "concat (List.map created_worker (List.map (\<lambda>t. Ev_join (T_traffic t)) ts)) = []"
  "concat (List.map joined_worker (List.map (\<lambda>t. Ev_join (T_traffic t)) ts)) = ts"
  by (simp_all add: event_if_def open_event_def comp_def)

lemma open_event_eq [simp]: "Ev_create t \<noteq> open_event b M" "Ev_join t \<noteq> open_event b M" "Ev_stop \<noteq> open_event b M"
  by (simp_all add: open_event_def)

text \<open>Modules: opened and closed alike, and none opened that failed.\<close>

lemma none_threads [simp]:
  "count_list (List.map (\<lambda>t. Ev_create (T_traffic t)) ts) (Ev_open x) = 0"
  "count_list (List.map (\<lambda>t. Ev_create (T_traffic t)) ts) (Ev_fail x) = 0"
  "count_list (List.map (\<lambda>t. Ev_create (T_traffic t)) ts) (Ev_close x) = 0"
  "count_list (List.map (\<lambda>t. Ev_create (T_traffic t)) ts) (Ev_join u) = 0"
  "count_list (List.map (\<lambda>t. Ev_join (T_traffic t)) ts) (Ev_open x) = 0"
  "count_list (List.map (\<lambda>t. Ev_join (T_traffic t)) ts) (Ev_fail x) = 0"
  "count_list (List.map (\<lambda>t. Ev_join (T_traffic t)) ts) (Ev_close x) = 0"
  "count_list (List.map (\<lambda>t. Ev_join (T_traffic t)) ts) (Ev_create u) = 0"
  "u \<notin> range T_traffic \<Longrightarrow> count_list (List.map (\<lambda>t. Ev_join (T_traffic t)) ts) (Ev_join u) = 0"
  "u \<notin> range T_traffic \<Longrightarrow> count_list (List.map (\<lambda>t. Ev_create (T_traffic t)) ts) (Ev_create u) = 0"
  by (auto simp: count_list_0_iff)

lemma not_traffic [simp]:
  "T_metrics \<notin> range T_traffic" "T_narrator \<notin> range T_traffic" "T_health \<notin> range T_traffic" "T_scaler \<notin> range T_traffic"
  by auto

text \<open>
  C5. \<open>main\<close> is orderly in every run, whatever its calls return: the shared modules are opened before
  any thread exists, every thread is created while the signals are blocked, every join comes before any
  module is closed; a module is tried at most once and closed exactly when it was opened, exactly
  once; the metrics, narrator, health and scaler threads are joined exactly when they were created,
  exactly once. The status is 1 exactly when libcurl or the pool's memory is missing, and then there is
  no thread. Otherwise the traffic workers that start are the first ones up to the configured number,
  and the stop is requested exactly when one of these could not be created. Without a running scaler
  the workers joined are those created, each once, in their order; with one, \<open>main\<close> joins the thread of
  each slot that is active when it comes to that slot, whichever these are.
\<close>

theorem server_main_orderly:
  assumes "server_main_events m = (evs, status)"
  shows "sorted (List.map phase evs) \<and>
    (\<forall>x. count_list evs (Ev_close x) = count_list evs (Ev_open x) \<and>
         count_list evs (Ev_open x) + count_list evs (Ev_fail x) \<le> 1) \<and>
    (\<forall>t. t \<notin> range T_traffic \<longrightarrow>
         count_list evs (Ev_join t) = count_list evs (Ev_create t) \<and> count_list evs (Ev_create t) \<le> 1) \<and>
    (status = 1 \<longleftrightarrow> \<not> (mi_curl m \<and> all_arrays (mi_pool_arrays m))) \<and>
    (if status = 1 then \<forall>t. Ev_create t \<notin> set evs \<and> Ev_join t \<notin> set evs
     else \<exists>k. workers_created evs = [0..<k] \<and> int k \<le> num_workers (nta_config_load (mi_env m)) \<and>
            (Ev_stop \<in> set evs \<longleftrightarrow> int k < num_workers (nta_config_load (mi_env m))) \<and>
            (Ev_stop \<in> set evs \<longrightarrow> \<not> mi_worker m k) \<and>
            workers_joined evs =
              (if Ev_create T_scaler \<in> set evs
               then pool_join_tids (nat (su_pool_max (server_setup_of (mi_files m) (mi_env m)))) (mi_pool_found m)
               else [0..<k]))"
  using assms
proof (cases rule: server_main_cases)
  case none
  then show ?thesis by simp
next
  case (nopool g i a w wm)
  have "rising 0 evs" by (simp add: nopool(4) rising_event_if)
  then have "sorted (List.map phase evs)" by (rule rising_sorted)
  moreover have "count_list evs (Ev_close x) = count_list evs (Ev_open x) \<and>
      count_list evs (Ev_open x) + count_list evs (Ev_fail x) \<le> 1" for x
    by (cases x) (simp_all add: nopool(4) count_list_append open_event_def)
  moreover have "count_list evs (Ev_join t) = 0 \<and> count_list evs (Ev_create t) = 0" for t
    by (simp add: nopool(4) count_list_append open_event_def)
  ultimately show ?thesis using nopool(1-3) by (simp add: count_list_0_iff)
next
  case (threads g i a w wm k js stop me na he sc)
  have "rising 0 evs" by (simp add: threads(4) rising_event_if rising_threads)
  then have "sorted (List.map phase evs)" by (rule rising_sorted)
  moreover have "count_list evs (Ev_close x) = count_list evs (Ev_open x) \<and>
      count_list evs (Ev_open x) + count_list evs (Ev_fail x) \<le> 1" for x
    by (cases x) (simp_all add: threads(4) count_list_append open_event_def)
  moreover have "count_list evs (Ev_join t) = count_list evs (Ev_create t) \<and> count_list evs (Ev_create t) \<le> 1"
    if "t \<notin> range T_traffic" for t
    using that by (cases t) (simp_all add: threads(4) count_list_append open_event_def)
  moreover have "workers_created evs = [0..<k]" "workers_joined evs = js"
    unfolding threads(4) workers_created_def workers_joined_def by (simp_all del: map_map)
  moreover have "Ev_stop \<in> set evs \<longleftrightarrow> stop" "Ev_create T_scaler \<in> set evs \<longleftrightarrow> sc"
    by (auto simp: threads(4) open_event_def)
  ultimately show ?thesis using threads(1-3,5-9) by auto
qed

definition quiet_inputs :: main_inputs where
  "quiet_inputs = \<lparr>mi_env = (\<lambda>k. None), mi_files = (\<lambda>p. None), mi_parse = (\<lambda>s. None), mi_city = None, mi_asn = None,
     mi_curl = True, mi_abuse_curl = True, mi_memory = (\<lambda>M. True), mi_pool_arrays = (True, True, True),
     mi_worker = (\<lambda>i. i < 2), mi_metrics = True, mi_narrator = True, mi_health = 0, mi_scaler = False,
     mi_pool_found = (\<lambda>i. pool_init 0 0)\<rparr>"

theorem server_main_orderly_witness:
  "\<exists>evs. server_main_events quiet_inputs = (evs, 0) \<and> sorted (List.map phase evs) \<and> workers_joined evs = workers_created evs \<and>
     count_list evs (Ev_join T_metrics) = count_list evs (Ev_create T_metrics)"
proof -
  obtain evs status where e: "server_main_events quiet_inputs = (evs, status)"
    by (cases "server_main_events quiet_inputs")
  note o = server_main_orderly [OF e]
  have "status = 0" "Ev_create T_scaler \<notin> set evs"
    using e by (auto simp: server_main_events_def quiet_inputs_def all_arrays_def Let_def case_prod_beta)
  then show ?thesis using e o by auto
qed

section \<open>Signals and the end of the pool\<close>

definition on_signal :: "health_globals \<Rightarrow> health_globals" where
  "on_signal g = g\<lparr>g_nta_stop := True\<rparr>"

text \<open>\<open>pool_destroy\<close> zeroes the pool; the gauge is a global of its own and keeps its value.\<close>

definition pool_destroy :: "traffic_pool \<Rightarrow> traffic_pool" where
  "pool_destroy p = \<lparr>pool_slots = [], pool_tids = [], pool_active = [], pool_max = 0, pool_count = 0,
     pool_abuse_min = 0, pool_next_id = 0, g_nta_pool_size = Nta_Pool.g_nta_pool_size p\<rparr>"

text \<open>From the signal on the endpoint never answers 503: a server that drains its queues is not restarted.\<close>

lemma draining_not_degraded: "reply_of now (on_signal g) buf = (code, ctype, body) \<Longrightarrow> code \<noteq> 503"
  by (auto simp: reply_of_def on_signal_def split: if_splits)

text \<open>A pool that was freed starts no worker and stops none, if the scaler still asks it.\<close>

lemma pool_destroyed_idle:
  "pool_up_cb created (pool_destroy p) = (pool_destroy p, 0)" "pool_down_cb (pool_destroy p) = (pool_destroy p, 0)"
  "pool_size_cb (pool_destroy p) = 0"
  by (simp_all add: pool_up_cb_def pool_down_cb_def pool_down_pick_def pool_size_cb_def pool_destroy_def)

end
