(* ===== verification/Nta_Lifetime.thy ===== *)
theory Nta_Lifetime
  imports Nta_Servermain
begin

text \<open>
  What the server's modules hold: memory, files, locks, data bases, libcurl handles and headers, from
  their open functions to their close functions (\<open>src/server/nta_geoip.c\<close>, \<open>nta_ioc.c\<close>, \<open>nta_abuse.c\<close>,
  \<open>nta_whois.c\<close>, \<open>nta_narrator.c\<close>, \<open>nta_influx.c\<close>), as the list of what they take and give back on every
  path, given what the calls return. The entries of the caches are freed in the order \<open>Nta_Chain\<close> has.
\<close>

section \<open>Taking and giving back\<close>

datatype 'h usage = Take 'h | Give 'h

text \<open>What is held after a list of uses; taking a handle twice or giving back one not held has no value.\<close>

fun holding :: "'h usage list \<Rightarrow> 'h set \<Rightarrow> 'h set option" where
  "holding [] H = Some H"
| "holding (Take h # us) H = (if h \<in> H then None else holding us (insert h H))"
| "holding (Give h # us) H = (if h \<in> H then holding us (H - {h}) else None)"

fun_cases holding_TakeE: "holding (Take h # us) H = Some K"
fun_cases holding_GiveE: "holding (Give h # us) H = Some K"

definition use_if :: "bool \<Rightarrow> 'h usage \<Rightarrow> 'h usage list" where
  "use_if b u = (if b then [u] else [])"

lemma holding_append: "holding (us @ vs) H = (case holding us H of None \<Rightarrow> None | Some K \<Rightarrow> holding vs K)"
  by (induction us H rule: holding.induct) auto

lemma holding_takes: "distinct hs \<Longrightarrow> set hs \<inter> H = {} \<Longrightarrow> holding (List.map Take hs) H = Some (set hs \<union> H)"
  by (induction hs arbitrary: H) auto

lemma holding_gives: "distinct hs \<Longrightarrow> set hs \<subseteq> H \<Longrightarrow> holding (List.map Give hs) H = Some (H - set hs)"
proof (induction hs arbitrary: H)
  case (Cons h hs)
  then have "holding (List.map Give hs) (H - {h}) = Some (H - {h} - set hs)" by (intro Cons.IH) auto
  moreover have "H - {h} - set hs = H - set (h # hs)" by auto
  ultimately show ?case using Cons.prems(2) by simp
qed simp

lemma holding_use_if:
  "holding (use_if b (Take h) @ us) H = (if b then holding (Take h # us) H else holding us H)"
  "holding (use_if b (Give h) @ us) H = (if b then holding (Give h # us) H else holding us H)"
  by (simp_all add: use_if_def)

text \<open>What is not touched stays held.\<close>

fun used :: "'h usage \<Rightarrow> 'h" where
  "used (Take h) = h"
| "used (Give h) = h"

lemma holding_frame:
  "holding us H = Some K \<Longrightarrow> used ` set us \<inter> X = {} \<Longrightarrow> holding us (H \<union> X) = Some (K \<union> X)"
proof (induction us H rule: holding.induct)
  case (2 h us H)
  from "2.prems"(1) show ?case by (rule holding_TakeE) (use 2 in auto)
next
  case (3 h us H)
  then have "H \<union> X - {h} = (H - {h}) \<union> X" by auto
  with 3 show ?case by (auto elim: holding_GiveE)
qed simp

lemma holding_map:
  "inj f \<Longrightarrow> holding (List.map (map_usage f) us) (f ` H) = map_option (image f) (holding us H)"
proof (induction us H rule: holding.induct)
  case (3 h us H)
  then have "f ` H - {f h} = f ` (H - {h})" by (auto dest: injD)
  with 3 show ?case by (auto simp: inj_image_mem_iff)
qed (auto simp: inj_image_mem_iff)

section \<open>The modules\<close>

datatype handle =
    Struct | City_db | Asn_db | Lock | Curl_easy | Header nat | Entry nat | Name_table | Name nat
  | File | Buffer | Json_doc | Slots | Tids | Active | Curl_global

text \<open>
  \<open>curl_slist_append\<close>, call after call, each assigned to the one pointer: a call that fails returns
  null, and the pointer to the list so far is lost. The result has the headers it still points to.
\<close>

fun slist_uses :: "nat \<Rightarrow> bool list \<Rightarrow> nat list \<Rightarrow> handle usage list \<times> nat list" where
  "slist_uses i [] cur = ([], cur)"
| "slist_uses i (ok # oks) cur =
     (if ok then (case slist_uses (i + 1) oks (cur @ [i]) of (us, c) \<Rightarrow> (Take (Header i) # us, c))
      else slist_uses (i + 1) oks [])"

definition geo_open_uses :: "bool \<Rightarrow> bool \<Rightarrow> bool \<Rightarrow> handle usage list \<times> bool" where
  "geo_open_uses memory city asn =
     (if \<not> memory then ([], False)
      else let us = Take Struct # use_if city (Take City_db) @ use_if asn (Take Asn_db)
           in if \<not> city \<and> \<not> asn then (us @ [Give Struct], False) else (us @ [Take Lock], True))"

definition geo_close_uses :: "bool \<Rightarrow> bool \<Rightarrow> nat list \<Rightarrow> handle usage list" where
  "geo_close_uses city asn es =
     use_if city (Give City_db) @ use_if asn (Give Asn_db) @ List.map (\<lambda>i. Give (Entry i)) es @ [Give Lock, Give Struct]"

definition abuse_open_uses :: "bool \<Rightarrow> bool \<Rightarrow> bool \<Rightarrow> bool list \<Rightarrow> handle usage list \<times> nat list option" where
  "abuse_open_uses enabled memory curl headers =
     (if \<not> enabled then ([], None)
      else if \<not> memory then ([], None)
      else if \<not> curl then ([Take Struct, Give Struct], None)
      else case slist_uses 0 headers [] of
             (us, hs) \<Rightarrow> ([Take Struct, Take Curl_easy] @ us @ [Take Lock], Some hs))"

definition abuse_close_uses :: "nat list \<Rightarrow> nat list \<Rightarrow> handle usage list" where
  "abuse_close_uses hs es =
     List.map (\<lambda>i. Give (Header i)) hs @ [Give Curl_easy] @ List.map (\<lambda>i. Give (Entry i)) es @ [Give Lock, Give Struct]"

definition whois_open_uses :: "bool \<Rightarrow> handle usage list \<times> bool" where
  "whois_open_uses memory = (if \<not> memory then ([], False) else ([Take Struct, Take Lock], True))"

definition whois_close_uses :: "nat list \<Rightarrow> handle usage list" where
  "whois_close_uses es = List.map (\<lambda>i. Give (Entry i)) es @ [Give Lock, Give Struct]"

text \<open>The handles of a worker's thread, for InfluxDB and for the narrator.\<close>

definition influx_open_uses :: "bool \<Rightarrow> bool \<Rightarrow> bool list \<Rightarrow> handle usage list \<times> nat list option" where
  "influx_open_uses url_fits curl headers =
     (if \<not> url_fits then ([], None)
      else if \<not> curl then ([], None)
      else case slist_uses 0 headers [] of (us, hs) \<Rightarrow> (Take Curl_easy # us, Some hs))"

definition narrator_open_uses :: "bool \<Rightarrow> bool \<Rightarrow> bool list \<Rightarrow> handle usage list \<times> nat list option" where
  "narrator_open_uses enabled curl headers =
     (if \<not> enabled then ([], None)
      else if \<not> curl then ([], None)
      else case slist_uses 0 headers [] of (us, hs) \<Rightarrow> (Take Curl_easy # us, Some hs))"

definition curl_close_uses :: "nat list \<Rightarrow> handle usage list" where
  "curl_close_uses hs = List.map (\<lambda>i. Give (Header i)) hs @ [Give Curl_easy]"

text \<open>
  Loading the indicators: what the file, the parser and the allocations give. \<open>io_kept\<close> are the lists
  that were named, each with the entries inserted for it.
\<close>

record ioc_outcome =
  io_opened :: bool
  io_size_ok :: bool
  io_buffer :: bool
  io_doc :: "bool option"       \<comment> \<open>parsed at all, and then an object\<close>
  io_lists :: "nat option"      \<comment> \<open>the size, when it is an array\<close>
  io_struct :: bool
  io_table :: bool
  io_kept :: "(nat \<times> nat list) list"

definition slurp_uses :: "ioc_outcome \<Rightarrow> handle usage list \<times> bool" where
  "slurp_uses io =
     (if \<not> io_opened io then ([], False)
      else if \<not> io_size_ok io then ([Take File, Give File], False)
      else if \<not> io_buffer io then ([Take File, Give File], False)
      else ([Take File, Take Buffer, Give File], True))"

definition kept_entries :: "ioc_outcome \<Rightarrow> nat list" where
  "kept_entries io = concat (List.map snd (io_kept io))"

definition ioc_close_uses :: "ioc_outcome \<Rightarrow> handle usage list" where
  "ioc_close_uses io =
     List.map (\<lambda>i. Give (Entry i)) (kept_entries io) @
     (if the (io_lists io) > 0 then List.map (\<lambda>(n, es). Give (Name n)) (io_kept io) @ [Give Name_table] else []) @ [Give Struct]"

definition ioc_load_uses :: "ioc_outcome \<Rightarrow> handle usage list \<times> bool" where
  "ioc_load_uses io =
     (case slurp_uses io of
        (us, False) \<Rightarrow> (us, False)
      | (us, True) \<Rightarrow>
          let us1 = us @ use_if (io_doc io \<noteq> None) (Take Json_doc) @ [Give Buffer]
          in if io_doc io \<noteq> Some True then (us1 @ use_if (io_doc io \<noteq> None) (Give Json_doc), False)
             else case io_lists io of
                    None \<Rightarrow> (us1 @ [Give Json_doc], False)
                  | Some n \<Rightarrow>
                      if \<not> io_struct io then (us1 @ [Give Json_doc], False)
                      else if n > 0 \<and> \<not> io_table io then (us1 @ [Take Struct, Give Struct, Give Json_doc], False)
                      else let us2 = us1 @ [Take Struct] @ use_if (n > 0) (Take Name_table) @
                                 concat (List.map (\<lambda>(n, es). Take (Name n) # List.map (\<lambda>i. Take (Entry i)) es) (io_kept io)) @
                                 [Give Json_doc]
                           in if kept_entries io = [] then (us2 @ ioc_close_uses io, False) else (us2, True))"

text \<open>The pool's three arrays; a missing one fails the call and leaves the others.\<close>

definition pool_init_uses :: "bool \<Rightarrow> bool \<Rightarrow> bool \<Rightarrow> handle usage list \<times> bool" where
  "pool_init_uses slots tids active =
     (let us = use_if slots (Take Slots) @ use_if tids (Take Tids) @ use_if active (Take Active)
      in if \<not> slots \<or> \<not> tids \<or> \<not> active then (us, False) else (us @ [Take Lock], True))"

definition pool_destroy_uses :: "handle usage list" where
  "pool_destroy_uses = [Give Lock, Give Slots, Give Tids, Give Active]"

text \<open>The calls the models of the modules make are the ones that succeed here.\<close>

lemma opens_as_modelled:
  "nta_geo_open city asn \<noteq> None \<longleftrightarrow> snd (geo_open_uses True (city \<noteq> None) (asn \<noteq> None))"
  "nta_abuse_open curl (Some acfg) \<noteq> None \<longleftrightarrow> snd (abuse_open_uses (ac_enabled acfg) True curl hs) \<noteq> None"
  "nta_narrator_open curl ncfg \<noteq> None \<longleftrightarrow> snd (narrator_open_uses (nc_enabled ncfg) curl hs) \<noteq> None"
  by (auto simp: nta_geo_open_def geo_open_uses_def nta_abuse_open_def abuse_open_uses_def nta_narrator_open_def
      narrator_open_uses_def Let_def split: prod.splits)

section \<open>The headers\<close>

text \<open>The headers made before a call that failed: nothing points to them any more.\<close>

definition lost_headers :: "bool list \<Rightarrow> nat set" where
  "lost_headers oks = {j. j < length oks \<and> oks ! j \<and> (\<exists>k<length oks. j < k \<and> \<not> oks ! k)}"

definition made_headers :: "bool list \<Rightarrow> nat set" where
  "made_headers oks = {j. j < length oks \<and> oks ! j}"

lemma no_lost_headers: "\<forall>ok\<in>set oks. ok \<Longrightarrow> lost_headers oks = {}"
  by (auto simp: lost_headers_def)

lemma made_headers_Cons: "made_headers (ok # oks) = (if ok then {0} else {}) \<union> Suc ` made_headers oks"
  by (auto simp: made_headers_def nth_Cons image_iff split: nat.splits)
    (metis gr0_conv_Suc less_Suc_eq_0_disj nat.exhaust)+

lemma lost_headers_Cons:
  "lost_headers (ok # oks) = (if ok \<and> \<not> (\<forall>b\<in>set oks. b) then {0} else {}) \<union> Suc ` lost_headers oks"
proof (rule set_eqI)
  fix j
  show "j \<in> lost_headers (ok # oks) \<longleftrightarrow> j \<in> (if ok \<and> \<not> (\<forall>b\<in>set oks. b) then {0} else {}) \<union> Suc ` lost_headers oks"
    by (cases j) (auto simp: lost_headers_def Ex_less_Suc2 all_set_conv_all_nth image_iff)
qed

lemma lost_made: "lost_headers oks \<subseteq> made_headers oks"
  by (auto simp: lost_headers_def made_headers_def)

text \<open>What the calls take, and what the pointer has at the end.\<close>

lemma slist_holding:
  "slist_uses i oks cur = (us, hs) \<Longrightarrow> \<forall>j\<ge>i. Header j \<notin> H \<Longrightarrow>
   holding us H = Some (H \<union> (\<lambda>j. Header (j + i)) ` made_headers oks)"
proof (induction oks arbitrary: i cur us hs H)
  case Nil
  then show ?case by (simp add: made_headers_def)
next
  case (Cons ok oks)
  show ?case
  proof (cases ok)
    case True
    obtain vs where v: "slist_uses (i + 1) oks (cur @ [i]) = (vs, hs)" "us = Take (Header i) # vs"
      using Cons.prems(1) True by (auto split: prod.splits)
    have "holding vs (insert (Header i) H) = Some (insert (Header i) H \<union> (\<lambda>j. Header (j + (i + 1))) ` made_headers oks)"
      using Cons.prems(2) by (intro Cons.IH [OF v(1)]) auto
    then show ?thesis using v Cons.prems(2) True by (simp add: made_headers_Cons image_Un image_image)
  next
    case False
    have "holding us H = Some (H \<union> (\<lambda>j. Header (j + (i + 1))) ` made_headers oks)"
      using Cons.prems False by (intro Cons.IH [of "i + 1" "[]"]) auto
    then show ?thesis using False by (simp add: made_headers_Cons image_image)
  qed
qed

lemma slist_pointer:
  "slist_uses i oks cur = (us, hs) \<Longrightarrow> distinct cur \<Longrightarrow> \<forall>j\<in>set cur. j < i \<Longrightarrow>
   distinct hs \<and> set hs = (if \<forall>ok\<in>set oks. ok then set cur else {}) \<union> (\<lambda>j. j + i) ` (made_headers oks - lost_headers oks)"
proof (induction oks arbitrary: i cur us hs)
  case Nil
  then show ?case by (simp add: made_headers_def)
next
  case (Cons ok oks)
  show ?case
  proof (cases ok)
    case True
    obtain vs where v: "slist_uses (i + 1) oks (cur @ [i]) = (vs, hs)"
      using Cons.prems(1) True by (auto split: prod.splits)
    have "distinct hs \<and> set hs = (if \<forall>ok\<in>set oks. ok then set (cur @ [i]) else {}) \<union>
        (\<lambda>j. j + (i + 1)) ` (made_headers oks - lost_headers oks)"
      using Cons.prems(2,3) by (intro Cons.IH [OF v]) auto
    then show ?thesis using True
      by (auto simp: made_headers_Cons lost_headers_Cons image_iff)
  next
    case False
    have "distinct hs \<and> set hs = (if \<forall>ok\<in>set oks. ok then set [] else {}) \<union>
        (\<lambda>j. j + (i + 1)) ` (made_headers oks - lost_headers oks)"
      using Cons.prems(1) False by (intro Cons.IH) auto
    then show ?thesis using False
      by (auto simp: made_headers_Cons lost_headers_Cons image_iff)
  qed
qed

text \<open>From an empty pointer, as the open functions have it.\<close>

lemma slist_from_null:
  assumes "slist_uses 0 oks [] = (us, hs)" "range Header \<inter> H = {}"
  shows "holding us H = Some (H \<union> Header ` made_headers oks)" "distinct hs" "set hs = made_headers oks - lost_headers oks"
  using slist_holding [OF assms(1), of H] slist_pointer [OF assms(1)] assms(2) by auto

section \<open>Each module gives back what it took\<close>

lemma holding_gives_by:
  "inj f \<Longrightarrow> distinct xs \<Longrightarrow> f ` set xs \<subseteq> H \<Longrightarrow> holding (List.map (\<lambda>i. Give (f i)) xs) H = Some (H - f ` set xs)"
  using holding_gives [of "List.map f xs" H] by (simp add: distinct_map inj_on_subset comp_def)

lemma holding_takes_by:
  "inj f \<Longrightarrow> distinct xs \<Longrightarrow> f ` set xs \<inter> H = {} \<Longrightarrow> holding (List.map (\<lambda>i. Take (f i)) xs) H = Some (f ` set xs \<union> H)"
  using holding_takes [of "List.map f xs" H] by (simp add: distinct_map inj_on_subset comp_def)

lemma inj_handles [simp]: "inj Header" "inj Entry" "inj Name"
  by (simp_all add: inj_def)

lemma entries_held:
  "distinct es \<Longrightarrow> \<forall>i. Entry i \<notin> H \<Longrightarrow> holding (List.map (\<lambda>i. Take (Entry i)) es) H = Some (Entry ` set es \<union> H)"
  "distinct es \<Longrightarrow> \<forall>i. Entry i \<notin> H \<Longrightarrow> holding (List.map (\<lambda>i. Give (Entry i)) es) (Entry ` set es \<union> H) = Some H"
  by (subst holding_takes_by, auto)+ (subst holding_gives_by, auto)

lemma geo_balanced:
  assumes "geo_open_uses memory city asn = (us, ok)" "distinct es"
  shows "holding (us @ (if ok then List.map (\<lambda>i. Take (Entry i)) es @ geo_close_uses city asn es else [])) {} = Some {}"
  using assms
  by (cases city; cases asn)
    (auto simp: geo_open_uses_def geo_close_uses_def use_if_def holding_append entries_held
      Let_def insert_Diff_if Un_Diff image_iff simp del: Un_insert_right split: if_splits)

lemma whois_balanced:
  assumes "whois_open_uses memory = (us, ok)" "distinct es"
  shows "holding (us @ (if ok then List.map (\<lambda>i. Take (Entry i)) es @ whois_close_uses es else [])) {} = Some {}"
  using assms
  by (auto simp: whois_open_uses_def whois_close_uses_def holding_append entries_held insert_Diff_if
      simp del: Un_insert_right split: if_splits)

theorem pool_balanced:
  "pool_init_uses s t a = (us, ok) \<Longrightarrow>
   holding (us @ (if ok then pool_destroy_uses else [])) {} =
     Some (if ok then {} else {h. h = Slots \<and> s \<or> h = Tids \<and> t \<or> h = Active \<and> a})"
  by (auto simp: pool_init_uses_def pool_destroy_uses_def use_if_def Let_def split: if_splits)

text \<open>The curl handles and their headers: what an append that failed dropped is never freed.\<close>

lemma headers_given:
  "distinct hs \<Longrightarrow> set hs = made_headers oks - lost_headers oks \<Longrightarrow> range Header \<inter> H = {} \<Longrightarrow>
   holding (List.map (\<lambda>i. Give (Header i)) hs) (H \<union> Header ` made_headers oks) = Some (H \<union> Header ` lost_headers oks)"
proof -
  assume h: "distinct hs" "set hs = made_headers oks - lost_headers oks" "range Header \<inter> H = {}"
  have "(H \<union> Header ` made_headers oks) - Header ` set hs = H \<union> Header ` lost_headers oks"
    using h lost_made [of oks] by auto
  then show ?thesis using h by (subst holding_gives_by) auto
qed

lemma curl_balanced:
  assumes "slist_uses 0 oks [] = (us, hs)"
  shows "holding (Take Curl_easy # us @ curl_close_uses hs) {} = Some (Header ` lost_headers oks)"
proof -
  have r: "range Header \<inter> {Curl_easy} = {}" by auto
  note s = slist_from_null [OF assms r]
  have "Header ` lost_headers oks - {Curl_easy} = Header ` lost_headers oks" by auto
  then show ?thesis using headers_given [OF s(2,3) r] s(1)
    by (simp add: curl_close_uses_def holding_append)
qed

lemma influx_balanced:
  assumes "influx_open_uses fits curl oks = (us, r)"
  shows "holding (us @ (case r of None \<Rightarrow> [] | Some hs \<Rightarrow> curl_close_uses hs)) {} =
    Some (if r = None then {} else Header ` lost_headers oks)"
  using assms curl_balanced [of oks] by (auto simp: influx_open_uses_def split: if_splits prod.splits)

lemma narrator_balanced:
  assumes "narrator_open_uses en curl oks = (us, r)"
  shows "holding (us @ (case r of None \<Rightarrow> [] | Some hs \<Rightarrow> curl_close_uses hs)) {} =
    Some (if r = None then {} else Header ` lost_headers oks)"
  using assms curl_balanced [of oks] by (auto simp: narrator_open_uses_def split: if_splits prod.splits)

lemma abuse_balanced:
  assumes "abuse_open_uses en mem curl oks = (us, r)" "distinct es"
  shows "holding (us @ (case r of None \<Rightarrow> []
      | Some hs \<Rightarrow> List.map (\<lambda>i. Take (Entry i)) es @ abuse_close_uses hs es)) {} =
    Some (if r = None then {} else Header ` lost_headers oks)"
proof (cases r)
  case None
  then show ?thesis using assms by (auto simp: abuse_open_uses_def split: if_splits prod.splits)
next
  case (Some hs)
  obtain vs where v: "slist_uses 0 oks [] = (vs, hs)" "us = [Take Struct, Take Curl_easy] @ vs @ [Take Lock]"
    using assms(1) Some by (auto simp: abuse_open_uses_def split: if_splits prod.splits)
  let ?E = "Entry ` set es"
  have r1: "range Header \<inter> {Curl_easy, Struct} = {}" and r2: "range Header \<inter> (?E \<union> {Lock, Curl_easy, Struct}) = {}"
    by auto
  note s = slist_from_null [OF v(1) r1]
  have e: "holding (List.map (\<lambda>i. Take (Entry i)) es) (insert Lock ({Curl_easy, Struct} \<union> Header ` made_headers oks)) =
      Some ((?E \<union> {Lock, Curl_easy, Struct}) \<union> Header ` made_headers oks)"
    using assms(2) by (subst holding_takes_by) auto
  have g: "holding (List.map (\<lambda>i. Give (Entry i)) es) ((?E \<union> {Lock, Curl_easy, Struct} \<union> Header ` lost_headers oks) - {Curl_easy}) =
      Some ({Lock, Struct} \<union> Header ` lost_headers oks)"
    using assms(2) by (subst holding_gives_by) auto
  have "insert Lock (Header ` lost_headers oks) - {Lock} = Header ` lost_headers oks"
     "insert Struct (Header ` lost_headers oks) - {Struct} = Header ` lost_headers oks" by auto
  moreover have "Lock \<notin> {Curl_easy, Struct} \<union> Header ` made_headers oks" by auto
  moreover have "({Lock, Struct} \<union> Header ` lost_headers oks) - {Lock} = {Struct} \<union> Header ` lost_headers oks" by auto
  ultimately show ?thesis
    using Some v(2) s(1) e g headers_given [OF s(2,3) r2]
    by (simp add: abuse_close_uses_def holding_append)
qed

text \<open>
  The indicators: the outcomes a run can have give each name and each entry once, and none for an
  empty array, which has no elements to walk.
\<close>

definition ioc_outcome_ok :: "ioc_outcome \<Rightarrow> bool" where
  "ioc_outcome_ok io \<longleftrightarrow> distinct (List.map fst (io_kept io)) \<and> distinct (kept_entries io) \<and>
     (io_lists io = Some 0 \<longrightarrow> io_kept io = [])"

definition kept_handles :: "(nat \<times> nat list) list \<Rightarrow> handle list" where
  "kept_handles kept = concat (List.map (\<lambda>(n, es). Name n # List.map Entry es) kept)"

lemma kept_takes:
  "concat (List.map (\<lambda>(n, es). Take (Name n) # List.map (\<lambda>i. Take (Entry i)) es) kept) = List.map Take (kept_handles kept)"
  by (induction kept) (auto simp: kept_handles_def)

lemma set_kept_handles:
  "set (kept_handles kept) = Name ` set (List.map fst kept) \<union> Entry ` set (concat (List.map snd kept))"
  by (induction kept) (auto simp: kept_handles_def)

lemma distinct_kept_handles:
  "distinct (List.map fst kept) \<Longrightarrow> distinct (concat (List.map snd kept)) \<Longrightarrow> distinct (kept_handles kept)"
proof (induction kept)
  case (Cons p kept)
  obtain n es where p: "p = (n, es)" by (cases p)
  have "distinct (kept_handles kept)" using Cons by simp
  moreover have "kept_handles (p # kept) = Name n # List.map Entry es @ kept_handles kept" by (simp add: kept_handles_def p)
  ultimately show ?case using Cons.prems by (auto simp: p set_kept_handles distinct_map inj_on_def)
qed (simp add: kept_handles_def)

definition ioc_held :: "ioc_outcome \<Rightarrow> handle set" where
  "ioc_held io = set (kept_handles (io_kept io)) \<union> (if the (io_lists io) > 0 then {Name_table, Struct} else {Struct})"

lemma ioc_closes:
  assumes "ioc_outcome_ok io" "io_lists io = Some n"
  shows "holding (ioc_close_uses io) (ioc_held io) = Some {}"
proof -
  let ?N = "Name ` set (List.map fst (io_kept io))" and ?S = "if n > 0 then {Name_table, Struct} else {Struct}"
  have e: "holding (List.map (\<lambda>i. Give (Entry i)) (kept_entries io)) (ioc_held io) = Some (?N \<union> ?S)"
    using assms entries_held(2) [of "kept_entries io" "?N \<union> ?S"]
    by (simp add: ioc_outcome_ok_def ioc_held_def set_kept_handles kept_entries_def image_iff Un_ac)
  have m: "List.map (\<lambda>(k, es). Give (Name k)) (io_kept io) = List.map (\<lambda>k. Give (Name k)) (List.map fst (io_kept io))"
    by (simp add: comp_def case_prod_beta)
  have g: "holding (List.map (\<lambda>k. Give (Name k)) (List.map fst (io_kept io))) (?N \<union> ?S) = Some ?S"
    using assms by (subst holding_gives_by) (auto simp: ioc_outcome_ok_def)
  show ?thesis
  proof (cases "n > 0")
    case True
    then show ?thesis using e g assms(2) by (simp add: ioc_close_uses_def m holding_append)
  next
    case False
    then have "?N = {}" using assms by (simp add: ioc_outcome_ok_def)
    then show ?thesis using False e assms(2) by (simp add: ioc_close_uses_def holding_append)
  qed
qed

lemma slurp_holds: "slurp_uses io = (us, ok) \<Longrightarrow> holding us {} = Some (if ok then {Buffer} else {})"
  by (auto simp: slurp_uses_def split: if_splits)

text \<open>Loading, once the document has its list: the table, the names and the entries, then the document goes.\<close>

lemma ioc_loads:
  assumes "ioc_outcome_ok io" "io_lists io = Some n"
  shows "holding ([Take Struct] @ use_if (n > 0) (Take Name_table) @ List.map Take (kept_handles (io_kept io)) @ [Give Json_doc])
    {Json_doc} = Some (ioc_held io)"
proof -
  let ?K = "kept_handles (io_kept io)" and ?S = "if n > 0 then {Name_table, Struct} else {Struct}"
  have d: "distinct ?K" using assms by (simp add: ioc_outcome_ok_def kept_entries_def distinct_kept_handles)
  have "set ?K \<inter> insert Json_doc ?S = {}" by (auto simp: set_kept_handles)
  from holding_takes [OF d this]
  have t: "holding (List.map Take ?K) (insert Json_doc ?S) = Some (set ?K \<union> insert Json_doc ?S)" .
  have "set ?K \<union> insert Json_doc ?S - {Json_doc} = ioc_held io"
    using assms(2) by (auto simp: ioc_held_def set_kept_handles)
  moreover have "holding ([Take Struct] @ use_if (n > 0) (Take Name_table)) {Json_doc} = Some (insert Json_doc ?S)"
    by (simp add: use_if_def insert_commute)
  ultimately show ?thesis using t by (simp only: append_assoc [symmetric] holding_append) simp
qed

lemma ioc_balanced:
  assumes "ioc_load_uses io = (us, ok)" "ioc_outcome_ok io"
  shows "holding us {} = Some (if ok then ioc_held io else {}) \<and> (ok \<longrightarrow> holding (ioc_close_uses io) (ioc_held io) = Some {})"
proof -
  obtain vs o1 where s: "slurp_uses io = (vs, o1)" by (cases "slurp_uses io")
  note h = slurp_holds [OF s]
  show ?thesis
  proof (cases "o1 \<and> io_doc io = Some True \<and> io_lists io \<noteq> None \<and> io_struct io \<and> \<not> (the (io_lists io) > 0 \<and> \<not> io_table io)")
    case True
    then obtain n where n: "io_lists io = Some n" by auto
    let ?T = "[Take Struct] @ use_if (n > 0) (Take Name_table) @ List.map Take (kept_handles (io_kept io)) @ [Give Json_doc]"
    have "us = (vs @ [Take Json_doc, Give Buffer]) @ ?T @ (if kept_entries io = [] then ioc_close_uses io else [])"
         "ok \<longleftrightarrow> kept_entries io \<noteq> []"
      using assms(1) True n s by (auto simp: ioc_load_uses_def Let_def use_if_def kept_takes split: if_splits)
    moreover have "holding (vs @ [Take Json_doc, Give Buffer]) {} = Some {Json_doc}"
      using h True by (auto simp: holding_append)
    ultimately show ?thesis
      using ioc_loads [OF assms(2) n] ioc_closes [OF assms(2) n]
      by (simp only: holding_append) simp
  next
    case False
    then have "holding us {} = Some {} \<and> \<not> ok"
      using assms(1) s h
      by (cases o1; cases "io_doc io"; cases "io_lists io")
        (auto simp: ioc_load_uses_def Let_def use_if_def holding_append split: if_splits)
    then show ?thesis by simp
  qed
qed

section \<open>A run of the server\<close>

text \<open>
  What the modules of one run met: whether libcurl could be initialised, the memory for their structures and for the pool's three arrays, the
  data bases, the indicators, the key and handle of the abuse client with its headers, the entries of
  the caches.
\<close>

record module_run =
  mr_curl :: bool
  mr_memory :: "server_module \<Rightarrow> bool"
  mr_pool :: "bool \<times> bool \<times> bool"
  mr_city :: bool
  mr_asn :: bool
  mr_geo_entries :: "nat list"
  mr_ioc :: ioc_outcome
  mr_abuse_enabled :: bool
  mr_abuse_curl :: bool
  mr_abuse_headers :: "bool list"
  mr_abuse_entries :: "nat list"
  mr_whois_entries :: "nat list"

definition module_run_ok :: "module_run \<Rightarrow> bool" where
  "module_run_ok r \<longleftrightarrow> distinct (mr_geo_entries r) \<and> ioc_outcome_ok (mr_ioc r) \<and>
     distinct (mr_abuse_entries r) \<and> distinct (mr_whois_entries r)"

definition abuse_opened :: "module_run \<Rightarrow> handle usage list \<times> nat list option" where
  "abuse_opened r = abuse_open_uses (mr_abuse_enabled r) (mr_memory r M_abuse) (mr_abuse_curl r) (mr_abuse_headers r)"

fun module_open :: "module_run \<Rightarrow> server_module \<Rightarrow> handle usage list \<times> bool" where
  "module_open r M_curl = (if mr_curl r then ([Take Curl_global], True) else ([], False))"
| "module_open r M_geo = geo_open_uses (mr_memory r M_geo) (mr_city r) (mr_asn r)"
| "module_open r M_ioc = ioc_load_uses (mr_ioc r)"
| "module_open r M_abuse = (case abuse_opened r of (us, hs) \<Rightarrow> (us, hs \<noteq> None))"
| "module_open r M_whois = whois_open_uses (mr_memory r M_whois)"
| "module_open r M_pool = (case mr_pool r of (slots, tids, active) \<Rightarrow> pool_init_uses slots tids active)"

text \<open>The close, after what the threads put into the module's cache.\<close>

fun module_close :: "module_run \<Rightarrow> server_module \<Rightarrow> handle usage list" where
  "module_close r M_curl = [Give Curl_global]"
| "module_close r M_geo = List.map (\<lambda>i. Take (Entry i)) (mr_geo_entries r) @ geo_close_uses (mr_city r) (mr_asn r) (mr_geo_entries r)"
| "module_close r M_ioc = ioc_close_uses (mr_ioc r)"
| "module_close r M_abuse = List.map (\<lambda>i. Take (Entry i)) (mr_abuse_entries r) @
     abuse_close_uses (the (snd (abuse_opened r))) (mr_abuse_entries r)"
| "module_close r M_whois = List.map (\<lambda>i. Take (Entry i)) (mr_whois_entries r) @ whois_close_uses (mr_whois_entries r)"
| "module_close r M_pool = pool_destroy_uses"

fun module_lost :: "module_run \<Rightarrow> server_module \<Rightarrow> handle set" where
  "module_lost r M_abuse = Header ` lost_headers (mr_abuse_headers r)"
| "module_lost r _ = {}"

lemma holding_split: "holding (us @ vs) H = Some L \<Longrightarrow> \<exists>K. holding us H = Some K \<and> holding vs K = Some L"
  by (auto simp: holding_append split: option.splits)

lemma module_balanced:
  assumes "module_run_ok r" "snd (module_open r M)"
  shows "\<exists>K. holding (fst (module_open r M)) {} = Some K \<and> holding (module_close r M) K = Some (module_lost r M)"
proof (cases M)
  case M_curl
  then show ?thesis using assms(2) by (simp split: if_splits)
next
  case M_geo
  obtain us where g: "geo_open_uses (mr_memory r M_geo) (mr_city r) (mr_asn r) = (us, True)" using assms M_geo by (metis module_open.simps(2) prod.collapse)
  have "distinct (mr_geo_entries r)" using assms(1) by (simp add: module_run_ok_def)
  from geo_balanced [OF g this] M_geo g show ?thesis by (auto dest: holding_split simp del: append_assoc)
next
  case M_ioc
  obtain us where i: "ioc_load_uses (mr_ioc r) = (us, True)" using assms M_ioc by (metis module_open.simps(3) prod.collapse)
  from ioc_balanced [OF i] assms(1) M_ioc i show ?thesis by (auto simp: module_run_ok_def)
next
  case M_abuse
  obtain us hs where a: "abuse_opened r = (us, Some hs)"
    using assms(2) M_abuse by (cases "abuse_opened r") auto
  have "distinct (mr_abuse_entries r)" using assms(1) by (simp add: module_run_ok_def)
  from abuse_balanced [OF a [unfolded abuse_opened_def] this] M_abuse a show ?thesis
    by (auto dest: holding_split simp del: append_assoc)
next
  case M_whois
  obtain us where w: "whois_open_uses (mr_memory r M_whois) = (us, True)"
    using assms M_whois by (metis module_open.simps(5) prod.collapse)
  have "distinct (mr_whois_entries r)" using assms(1) by (simp add: module_run_ok_def)
  from whois_balanced [OF w this] M_whois w show ?thesis by (auto dest: holding_split simp del: append_assoc)
next
  case M_pool
  obtain s t a where sta: "mr_pool r = (s, t, a)" by (cases "mr_pool r")
  obtain us where p: "pool_init_uses s t a = (us, True)" using assms M_pool sta by (cases "pool_init_uses s t a") auto
  from pool_balanced [OF p] M_pool p sta show ?thesis by (auto dest: holding_split)
qed

text \<open>A failed open holds nothing, but that of the pool keeps the arrays it got.\<close>

fun failed_keeps :: "module_run \<Rightarrow> server_module \<Rightarrow> handle set" where
  "failed_keeps r M_pool = (case mr_pool r of (s, t, a) \<Rightarrow> {h. h = Slots \<and> s \<or> h = Tids \<and> t \<or> h = Active \<and> a})"
| "failed_keeps r _ = {}"

lemma failed_open_holds:
  assumes "module_run_ok r" "\<not> snd (module_open r M)"
  shows "holding (fst (module_open r M)) {} = Some (failed_keeps r M)"
proof (cases M)
  case M_curl
  then show ?thesis using assms(2) by (simp split: if_splits)
next
  case M_geo
  then show ?thesis using assms(2) geo_balanced [of "mr_memory r M_geo" "mr_city r" "mr_asn r" _ _ "[]"]
    by (cases "module_open r M") auto
next
  case M_ioc
  then show ?thesis using assms ioc_balanced [of "mr_ioc r"] by (cases "module_open r M") (auto simp: module_run_ok_def)
next
  case M_abuse
  then obtain us where a: "abuse_opened r = (us, None)" using assms(2) by (cases "abuse_opened r") auto
  from abuse_balanced [OF a [unfolded abuse_opened_def], of "[]"] show ?thesis using M_abuse a by simp
next
  case M_whois
  then show ?thesis using assms(2) whois_balanced [of "mr_memory r M_whois" _ _ "[]"] by (cases "module_open r M") auto
next
  case M_pool
  obtain s t a where sta: "mr_pool r = (s, t, a)" by (cases "mr_pool r")
  obtain us where p: "pool_init_uses s t a = (us, False)" using assms(2) M_pool sta by (cases "pool_init_uses s t a") auto
  from pool_balanced [OF p] M_pool p sta show ?thesis by simp
qed

text \<open>The uses of the whole run, each handle with its module.\<close>

fun event_uses :: "module_run \<Rightarrow> main_event \<Rightarrow> (server_module \<times> handle) usage list" where
  "event_uses r (Ev_open M) = List.map (map_usage (Pair M)) (fst (module_open r M))"
| "event_uses r (Ev_fail M) = List.map (map_usage (Pair M)) (fst (module_open r M))"
| "event_uses r (Ev_close M) = List.map (map_usage (Pair M)) (module_close r M)"
| "event_uses r _ = []"

definition run_uses :: "module_run \<Rightarrow> main_event list \<Rightarrow> (server_module \<times> handle) usage list" where
  "run_uses r evs = concat (List.map (event_uses r) evs)"

definition own :: "server_module \<Rightarrow> (server_module \<times> handle) set" where
  "own M = {M} \<times> UNIV"

lemma tagged_holding:
  assumes "holding us K = Some L" "X \<inter> own M = {}"
  shows "holding (List.map (map_usage (Pair M)) us) (Pair M ` K \<union> X) = Some (Pair M ` L \<union> X)"
proof (rule holding_frame)
  show "holding (List.map (map_usage (Pair M)) us) (Pair M ` K) = Some (Pair M ` L)"
    using holding_map [of "Pair M" us K] assms(1) by (simp add: inj_def)
  have "used (map_usage (Pair M) u) \<in> own M" for u by (cases u) (auto simp: own_def)
  then show "used ` set (List.map (map_usage (Pair M)) us) \<inter> X = {}" using assms(2) by auto
qed

definition module_held :: "module_run \<Rightarrow> server_module \<Rightarrow> handle set" where
  "module_held r M = the (holding (fst (module_open r M)) {})"

lemma event_holding:
  assumes "module_run_ok r" "X \<inter> own M = {}"
  shows "holding (event_uses r (open_event b M)) X = Some (Pair M ` module_held r M \<union> X)"
    "snd (module_open r M) \<Longrightarrow> holding (event_uses r (Ev_close M)) (Pair M ` module_held r M \<union> X) = Some (Pair M ` module_lost r M \<union> X)"
proof -
  obtain K where K: "holding (fst (module_open r M)) {} = Some K"
      "snd (module_open r M) \<Longrightarrow> holding (module_close r M) K = Some (module_lost r M)"
    using module_balanced [OF assms(1)] failed_open_holds [OF assms(1)] by blast
  show "holding (event_uses r (open_event b M)) X = Some (Pair M ` module_held r M \<union> X)"
    using tagged_holding [OF K(1) assms(2)] by (simp add: module_held_def K(1) open_event_def)
  show "holding (event_uses r (Ev_close M)) (Pair M ` module_held r M \<union> X) = Some (Pair M ` module_lost r M \<union> X)"
    if "snd (module_open r M)"
    using tagged_holding [OF K(2) [OF that] assms(2)] by (simp add: module_held_def K(1))
qed

lemma failed_held: "module_run_ok r \<Longrightarrow> \<not> snd (module_open r M) \<Longrightarrow> module_held r M = failed_keeps r M"
  using failed_open_holds [of r M] by (simp add: module_held_def)

lemma run_uses_append: "run_uses r (us @ vs) = run_uses r us @ run_uses r vs"
  by (simp add: run_uses_def)

lemma own_image [simp]: "M \<noteq> N \<Longrightarrow> Pair M ` A \<inter> own N = {}"
  by (auto simp: own_def)

text \<open>The modules tried, each with whether its open worked.\<close>

definition tried :: "(server_module \<times> bool) list \<Rightarrow> main_event list" where
  "tried ts = List.map (\<lambda>(M, b). open_event b M) ts"

definition opened :: "(server_module \<times> bool) list \<Rightarrow> server_module list" where
  "opened ts = List.map fst (filter snd ts)"

lemma opens_hold:
  "module_run_ok r \<Longrightarrow> distinct (List.map fst ts) \<Longrightarrow> \<forall>M\<in>fst ` set ts. X \<inter> own M = {} \<Longrightarrow>
   holding (run_uses r (tried ts)) X = Some ((\<Union>M\<in>fst ` set ts. Pair M ` module_held r M) \<union> X)"
proof (induction ts arbitrary: X)
  case (Cons p ts)
  obtain M b where p: "p = (M, b)" by (cases p)
  have "holding (run_uses r (tried ts)) (Pair M ` module_held r M \<union> X) =
      Some ((\<Union>M\<in>fst ` set ts. Pair M ` module_held r M) \<union> (Pair M ` module_held r M \<union> X))"
    using Cons.prems by (intro Cons.IH) (force simp: own_def p)+
  then show ?case using event_holding(1) [of r X M b] Cons.prems
    by (simp add: p tried_def run_uses_def holding_append Un_ac)
qed (simp add: run_uses_def tried_def)

lemma closes_hold:
  "module_run_ok r \<Longrightarrow> distinct ms \<Longrightarrow> \<forall>M\<in>set ms. snd (module_open r M) \<and> X \<inter> own M = {} \<Longrightarrow>
   holding (run_uses r (List.map Ev_close (rev ms))) ((\<Union>M\<in>set ms. Pair M ` module_held r M) \<union> X) =
     Some ((\<Union>M\<in>set ms. Pair M ` module_lost r M) \<union> X)"
proof (induction ms arbitrary: X)
  case (Cons M ms)
  have ih: "holding (run_uses r (List.map Ev_close (rev ms))) ((\<Union>M\<in>set ms. Pair M ` module_held r M) \<union> (Pair M ` module_held r M \<union> X)) =
      Some ((\<Union>M\<in>set ms. Pair M ` module_lost r M) \<union> (Pair M ` module_held r M \<union> X))"
    using Cons.prems by (intro Cons.IH) (auto simp: own_def)
  let ?L = "(\<Union>M\<in>set ms. Pair M ` module_lost r M) \<union> X"
  have "?L \<inter> own M = {}" using Cons.prems by (auto simp: own_def)
  then have "holding (event_uses r (Ev_close M)) (Pair M ` module_held r M \<union> ?L) = Some (Pair M ` module_lost r M \<union> ?L)"
    using Cons.prems by (intro event_holding(2)) auto
  then show ?case using ih
    by (simp add: run_uses_append holding_append Un_ac) (simp add: run_uses_def)
qed (simp add: run_uses_def)

text \<open>Every run of \<open>main\<close> is the tries, the threads' part, and the closes of what was opened, in reverse.\<close>

lemma tried_append: "tried (xs @ ys) = tried xs @ tried ys"
  by (simp add: tried_def)

definition whois_try :: "bool \<Rightarrow> bool \<Rightarrow> (server_module \<times> bool) list" where
  "whois_try w wm = (if w then [(M_whois, wm)] else [])"

definition run_tries :: "bool \<Rightarrow> bool \<Rightarrow> bool \<Rightarrow> bool \<Rightarrow> bool \<Rightarrow> bool \<Rightarrow> (server_module \<times> bool) list" where
  "run_tries g i a w wm p = [(M_curl, True), (M_geo, g), (M_ioc, i), (M_abuse, a)] @ whois_try w wm @ [(M_pool, p)]"

lemma run_tries_events:
  "tried (run_tries g i a w wm p) = [Ev_open M_curl, open_event g M_geo, open_event i M_ioc, open_event a M_abuse] @
     event_if w (open_event (w \<and> wm) M_whois) @ [open_event p M_pool]"
  "List.map Ev_close (rev (opened (run_tries g i a w wm p))) = event_if p (Ev_close M_pool) @ event_if (w \<and> wm) (Ev_close M_whois) @
     event_if a (Ev_close M_abuse) @ event_if i (Ev_close M_ioc) @ event_if g (Ev_close M_geo) @ [Ev_close M_curl]"
  by (simp_all add: run_tries_def whois_try_def tried_def opened_def event_if_def open_event_def)

lemma run_tries_distinct: "distinct (List.map fst (run_tries g i a w wm p))"
  by (simp add: run_tries_def whois_try_def)

lemma open_event_is:
  "Ev_open M = open_event b N \<longleftrightarrow> b \<and> N = M" "Ev_fail M = open_event b N \<longleftrightarrow> \<not> b \<and> N = M"
  by (auto simp: open_event_def)

lemma tried_mem:
  "Ev_open M \<in> set (tried ts) \<longleftrightarrow> (M, True) \<in> set ts"
  "Ev_fail M \<in> set (tried ts) \<longleftrightarrow> (M, False) \<in> set ts"
  by (induction ts) (auto simp: tried_def open_event_is)

lemma main_nested:
  assumes "server_main_events m = (evs, status)"
  obtains ts mid where "evs = tried ts @ mid @ List.map Ev_close (rev (opened ts))" "distinct (List.map fst ts)" "run_uses r mid = []"
    "\<And>M. Ev_open M \<notin> set mid \<and> Ev_fail M \<notin> set mid"
  using assms
proof (cases rule: server_main_cases)
  case none
  show thesis by (rule that [of "[(M_curl, False)]" "[]"]) (simp_all add: none(2) tried_def opened_def open_event_def run_uses_def)
next
  case (nopool g i a w wm)
  show thesis
  proof (rule that [OF _ run_tries_distinct])
    show "evs = tried (run_tries g i a w wm False) @ [] @ List.map Ev_close (rev (opened (run_tries g i a w wm False)))"
      by (simp add: nopool(4) run_tries_events event_if_def open_event_def)
  qed (simp_all add: run_uses_def)
next
  case (threads g i a w wm k js stop me na he sc)
  let ?mid = "[Ev_block] @
         List.map (\<lambda>t. Ev_create (T_traffic t)) [0..<k] @ event_if stop Ev_stop @ event_if me (Ev_create T_metrics) @
         event_if na (Ev_create T_narrator) @ event_if he (Ev_create T_health) @ event_if sc (Ev_create T_scaler) @
         [Ev_unblock] @ List.map (\<lambda>t. Ev_join (T_traffic t)) js @ event_if me (Ev_join T_metrics) @
         event_if na (Ev_join T_narrator) @ event_if sc (Ev_join T_scaler) @ event_if he (Ev_join T_health)"
  show thesis
  proof (rule that [OF _ run_tries_distinct])
    show "evs = tried (run_tries g i a w wm True) @ ?mid @ List.map Ev_close (rev (opened (run_tries g i a w wm True)))"
      by (simp add: threads(4) run_tries_events event_if_def [of True] open_event_def [of True])
    show "run_uses r ?mid = []" by (auto simp: run_uses_def event_if_def)
  qed auto
qed

text \<open>
  C36. What the server gives back, over every run of \<open>main\<close>, whatever its calls return and whatever its
  threads put into the caches, failed opens included: no handle is taken twice and none is given back
  that is not held; at the end what is still held is exactly the headers of the abuse client that were
  made before a \<open>curl_slist_append\<close> that failed, to which nothing points any more, and, when
  \<open>pool_init\<close> failed, the arrays it had already got.
\<close>

theorem server_releases_all:
  assumes "server_main_events m = (evs, status)" "module_run_ok r"
    and "\<forall>M. (Ev_open M \<in> set evs \<longrightarrow> snd (module_open r M)) \<and> (Ev_fail M \<in> set evs \<longrightarrow> \<not> snd (module_open r M))"
  shows "holding (run_uses r evs) {} =
      Some ((if Ev_open M_abuse \<in> set evs then Pair M_abuse ` Header ` lost_headers (mr_abuse_headers r) else {}) \<union>
        (if Ev_fail M_pool \<in> set evs
         then (case mr_pool r of (s, t, a) \<Rightarrow> Pair M_pool ` {h. h = Slots \<and> s \<or> h = Tids \<and> t \<or> h = Active \<and> a}) else {}))"
proof -
  obtain ts mid where ts: "evs = tried ts @ mid @ List.map Ev_close (rev (opened ts))" "distinct (List.map fst ts)"
    "run_uses r mid = []" "\<And>M. Ev_open M \<notin> set mid \<and> Ev_fail M \<notin> set mid"
    by (rule main_nested [OF assms(1), of r]) blast
  have mem: "Ev_open M \<in> set evs \<longleftrightarrow> M \<in> set (opened ts)" "Ev_fail M \<in> set evs \<longleftrightarrow> (M, False) \<in> set ts" for M
    using tried_mem [of M ts] ts(4) by (auto simp: ts(1) opened_def image_iff)
  let ?F = "{M. (M, False) \<in> set ts}"
  let ?X = "\<Union>M\<in>?F. Pair M ` module_held r M"
  have o: "distinct (opened ts)" using ts(2) by (simp add: opened_def distinct_map_filter)
  have disj: "M \<notin> set (opened ts)" if "M \<in> ?F" for M
    using that ts(2) by (force simp: opened_def distinct_map inj_on_def)
  have "fst ` set ts = set (opened ts) \<union> ?F" by (force simp: opened_def image_iff)
  then have h1: "holding (run_uses r (tried ts)) {} = Some ((\<Union>M\<in>set (opened ts). Pair M ` module_held r M) \<union> ?X)"
    using opens_hold [OF assms(2) ts(2), of "{}"] by (simp add: UN_Un)
  have "\<forall>M\<in>set (opened ts). snd (module_open r M) \<and> ?X \<inter> own M = {}"
    using assms(3) mem disj by (force simp: own_def)
  from closes_hold [OF assms(2) o this]
  have h2: "holding (run_uses r evs) {} = Some ((\<Union>M\<in>set (opened ts). Pair M ` module_lost r M) \<union> ?X)"
    using h1 ts(1,3) by (simp add: run_uses_append holding_append)
  have "module_lost r M = (if M = M_abuse then Header ` lost_headers (mr_abuse_headers r) else {})" for M by (cases M) simp_all
  then have l: "(\<Union>M\<in>set (opened ts). Pair M ` module_lost r M) =
      (if Ev_open M_abuse \<in> set evs then Pair M_abuse ` Header ` lost_headers (mr_abuse_headers r) else {})"
    using mem(1) by (auto split: if_splits)
  have "module_held r M = (if M = M_pool then failed_keeps r M_pool else {})" if "M \<in> ?F" for M
    using failed_held [OF assms(2)] assms(3) mem(2) that by (cases M) auto
  then have "?X = (if Ev_fail M_pool \<in> set evs then Pair M_pool ` failed_keeps r M_pool else {})"
    using mem(2) by (auto split: if_splits)
  with h2 l show ?thesis by (auto split: prod.splits)
qed

text \<open>
  A run whose pool gets two of its three arrays, and whose second header fails: the first header and
  the two arrays are left.
\<close>

definition quiet_run :: module_run where
  "quiet_run = \<lparr>mr_curl = True, mr_memory = (\<lambda>M. True), mr_pool = (True, True, False), mr_city = False, mr_asn = False, mr_geo_entries = [],
     mr_ioc = \<lparr>io_opened = False, io_size_ok = True, io_buffer = True, io_doc = None, io_lists = None, io_struct = True,
               io_table = True, io_kept = []\<rparr>,
     mr_abuse_enabled = True, mr_abuse_curl = True, mr_abuse_headers = [True, False], mr_abuse_entries = [0], mr_whois_entries = [0, 1]\<rparr>"

definition keyed_inputs :: main_inputs where
  "keyed_inputs = quiet_inputs\<lparr>mi_env := (\<lambda>k. if k = ''ABUSEIPDB_API_KEY'' then Some ''key'' else None), mi_pool_arrays := (True, True, False)\<rparr>"

lemma keyed_events:
  assumes "server_main_events keyed_inputs = (evs, status)"
  shows "evs = [Ev_open M_curl, Ev_fail M_geo, Ev_fail M_ioc, Ev_open M_abuse, Ev_open M_whois, Ev_fail M_pool,
      Ev_close M_whois, Ev_close M_abuse, Ev_close M_curl]" "status = 1"
proof -
  have "nta_geo_open None None = None" by (simp add: nta_geo_open_def)
  moreover have "nta_ioc_load (\<lambda>p. None) prs (Some path) = None" for prs path
    by (simp add: nta_ioc_load_def slurp_file_def)
  moreover have "ac_enabled (fst (nta_abuse_load (\<lambda>p. None) (Some ''.'') (mi_env keyed_inputs)))"
    by (simp add: nta_abuse_load_def Let_def keyed_inputs_def quiet_inputs_def load_env_file_def env_or_def cstr_copy_def)
  then have "nta_abuse_open True (Some (su_abuse_cfg (server_setup_of (\<lambda>p. None) (mi_env keyed_inputs)))) \<noteq> None"
    by (simp add: nta_abuse_open_def server_setup_of_def Let_def case_prod_beta)
  moreover have "su_whois (server_setup_of (\<lambda>p. None) (mi_env keyed_inputs)) \<noteq> None"
    by (simp add: server_setup_of_def keyed_inputs_def quiet_inputs_def Let_def case_prod_beta nta_abuse_load_def load_env_file_def)
  ultimately show "evs = [Ev_open M_curl, Ev_fail M_geo, Ev_fail M_ioc, Ev_open M_abuse, Ev_open M_whois, Ev_fail M_pool,
      Ev_close M_whois, Ev_close M_abuse, Ev_close M_curl]" "status = 1"
    using assms by (auto simp: server_main_events_def keyed_inputs_def quiet_inputs_def all_arrays_def event_if_def open_event_def Let_def)
qed

theorem server_releases_all_witness:
  "\<exists>evs. server_main_events keyed_inputs = (evs, 1) \<and>
     holding (run_uses quiet_run evs) {} = Some {(M_abuse, Header 0), (M_pool, Slots), (M_pool, Tids)}"
proof -
  obtain evs status where e: "server_main_events keyed_inputs = (evs, status)" by (cases "server_main_events keyed_inputs")
  note k = keyed_events [OF e]
  have "module_run_ok quiet_run" by (simp add: quiet_run_def module_run_ok_def ioc_outcome_ok_def kept_entries_def)
  moreover have "\<forall>M. (Ev_open M \<in> set evs \<longrightarrow> snd (module_open quiet_run M)) \<and> (Ev_fail M \<in> set evs \<longrightarrow> \<not> snd (module_open quiet_run M))"
    by (auto simp: k(1) quiet_run_def whois_open_uses_def pool_init_uses_def abuse_opened_def abuse_open_uses_def geo_open_uses_def
        ioc_load_uses_def slurp_uses_def Let_def split: prod.splits)
  ultimately have "holding (run_uses quiet_run evs) {} =
      Some (Pair M_abuse ` Header ` lost_headers [True, False] \<union> Pair M_pool ` {h. h = Slots \<or> h = Tids})"
    using server_releases_all [OF e] k(1) by (simp add: quiet_run_def)
  moreover have "lost_headers [True, False] = {0}" by (auto simp: lost_headers_def less_Suc_eq)
  moreover have "Pair M_pool ` {h. h = Slots \<or> h = Tids} = {(M_pool, Slots), (M_pool, Tids)}" by auto
  ultimately show ?thesis using e k(2) by auto
qed

end
