(* ===== verification/Spec2Isabelle.thy ===== *)
theory Spec2Isabelle
  imports Nta_Spsc Nta_Relacq Nta_Agentmain Nta_Netifwin Nta_Host Nta_Console Nta_Wire Nta_Chain Nta_Evpoint Nta_Narrated
    Nta_Private Nta_Lifetime
begin

text \<open>
  Network Traffic Analyzer: an intrusion detection agent and the server that stores and enriches what
  its agents report. This development translates both programs from \<open>src/\<close> into executable definitions
  and proves what makes them correct, and where they are not, what goes wrong.

  \<^bold>\<open>The program.\<close> The agent (\<open>src/agent\<close>) captures packets, analyses them and publishes telemetry over
  AMQP. On Windows it can run as a service (\<open>platform/service_win32.c\<close>). \<open>main.c\<close> and \<open>cli.c\<close> choose a
  mode; in live mode \<open>core/pipeline.c\<close> runs four threads joined by two ring buffers (\<open>core/ringbuf.c\<close>):
  capture, analysis (\<open>analysis/analyzer.c\<close>), publication in batches (\<open>output/publisher.c\<close>) and metrics.
  In replay mode \<open>replay/replay.c\<close> runs capture files through the same analyzer and compares what
  \<open>analysis/collector.c\<close> kept with an answer key. The server (\<open>src/server\<close>) consumes the queues
  (\<open>nta_consumer.c\<close>), enriches events with the location, the indicators of compromise and the abuse
  score of their source (\<open>nta_geoip.c\<close>, \<open>nta_ioc.c\<close>, \<open>nta_abuse.c\<close>), writes them to InfluxDB
  (\<open>nta_influx.c\<close>), republishes the serious ones to a narrator (\<open>nta_narrator.c\<close> with \<open>nta_whois.c\<close>),
  scales its worker pool (\<open>nta_scaler.c\<close>, \<open>nta_server.c\<close>) and answers health checks (\<open>nta_health.c\<close>).

  \<^bold>\<open>Shared theories.\<close> \<open>Nta_Prelude\<close>: words, bounded C strings, \<open>strtol\<close>, lists updated by index, the
  \<open>backoff\<close> interface, and \<open>step_system\<close>, a transition system with an inductive invariant.
  \<open>Nta_Double\<close>: binary64 as exact arithmetic followed by rounding to nearest, ties to even; no overflow
  to infinity, since no value of the code comes near. \<open>Nta_Json\<close>: the tree of the vendored JSON library
  and its item access. \<open>Nta_Util\<close>: environment, \<open>.env\<close> files, chained hash tables (locales \<open>kv_store\<close>
  and \<open>kv_first\<close>). \<open>Nta_Chain\<close>: these tables as the modules build them, with allocated entries and next
  pointers over a memory map, refine them, and freeing them leaves nothing. \<open>Nta_Http\<close>: what libcurl
  delivers, as the chunks of a reply.

  \<^bold>\<open>The agent.\<close> \<open>Nta_Ringbuf\<close> has the operations of the ring buffer over 64-bit counters and shows that
  any run of them is a bounded FIFO with an exact overflow count; \<open>Nta_Spsc\<close> splits push and pop at
  every shared access and shows the same for one producer and one consumer in every interleaving.
  \<open>Nta_Relacq\<close> drops the assumption that the threads see every store at once: a load returns any store
  not older than what the thread knows, knowledge travels along release stores and acquire loads as in
  C11, and a slot access that is not ordered with the last one of the other thread is a race; it shows
  that there is none, and what \<open>rb_size\<close> can return to a third thread. \<open>Nta_Homenet\<close> (CIDR lists, interface discovery), \<open>Nta_Baseline\<close>
  (the moving baseline and its adaptive thresholds, in rounded arithmetic), \<open>Nta_Killchain\<close> (stages,
  score, techniques), \<open>Nta_Detect\<close> (the detectors, the DNS name parser), \<open>Nta_Collector\<close> and
  \<open>Nta_Analyzer\<close> (one packet against the suspect and ARP tables) model \<open>analyzer.c\<close>; \<open>Nta_Wire\<close> has the
  headers of \<open>nta_net.h\<close> with their bytes on the wire, and follows frames and a whole port scan from
  these bytes to the event. A packet is a list of bytes and a length; a read beyond the list is \<open>None\<close>,
  so that \<open>analyzer_safe\<close> is memory safety. The invariant \<open>ids_ok\<close> bounds tables and counters.
  \<open>Nta_Publisher\<close> has the connection with its backoff and the messages sent. \<open>Nta_Pipeline\<close> is the
  interleaving of capture, analysis and publication as a step relation with ghost histories, in which
  every event is accounted for (overflowed, sent, in hand, buffered, or discarded with a last batch);
  \<open>Nta_Agentmain\<close> adds the stop request racing with the capture thread, the metrics thread,
  \<open>pipeline_run\<close> and the modes of \<open>main\<close>. \<open>Nta_Agentcfg\<close> is the configuration file and the command
  line, \<open>Nta_Replay\<close> the replay framework, whose score is compared with the exact share of detections.
  The Windows build: \<open>Nta_Netifwin\<close> is the discovery of home networks (\<open>netif_win32.c\<close>), compared with
  the POSIX one; \<open>Nta_Service\<close> the service under its manager, whose control handler runs beside the
  pipeline, as a step relation, one store into the shared status at a time, with the history of the
  statuses it reports; \<open>Nta_Winmain\<close> installing and removing the service, the command line it is
  started with, and the Windows branches of \<open>main.c\<close> and \<open>config.c\<close>; \<open>Nta_Replaydir\<close> the directory
  replay. \<open>Nta_Host\<close> has what differs between the platforms: the clock in milliseconds with the width of \<open>long\<close>, the probe of privileges, the priority of the capture
  thread, the loading of Npcap. \<open>Nta_Console\<close> has the texts of the replay mode, the usage message, the
  home networks and the errors of the service commands.

  \<^bold>\<open>The server.\<close> \<open>Nta_Abuse\<close>, \<open>Nta_Geo\<close>, \<open>Nta_Ioc\<close> and \<open>Nta_Whois\<close> are the enrichers with their caches:
  transparency of the caches, ranges of the values, expiry. \<open>Nta_Lineproto\<close> and \<open>Nta_Influx\<close> have the
  line protocol, where decoders of the protocol are the specification of the escapes, and bounded
  buffers are lists with a capacity. \<open>Nta_Srvconf\<close> is the configuration, \<open>Nta_Consumer\<close> the AMQP
  consumer, \<open>Nta_Health\<close> the requests of the health endpoint and \<open>Nta_Healthsrv\<close> its thread (accept
  loop, and its end against \<open>nta_health_stop\<close>), \<open>Nta_Narrator\<close> the narrator. \<open>Nta_Scaler\<close> states what
  it needs of a pool as the locale \<open>pool_ctl\<close>; \<open>Nta_Pool\<close> has the pool, interprets that locale, and
  runs workers, scaler and \<open>main\<close> as a step relation from start to the free of the pool. \<open>Nta_Server\<close>
  has the three handlers, the three worker loops and the decisions of \<open>main\<close>; \<open>Nta_Servermain\<close> has
  \<open>main\<close> as the list of its actions, from what it opens or fails to open to what it closes, and its
  exit status; the pool it finds while it joins is an argument there when a scaler runs.
  \<open>Nta_Lifetime\<close> has what the modules of the server take and give back, as lists of uses of handles on
  every path of their open and close functions, and adds them up over the runs of \<open>main\<close>, failed opens
  included.
  \<open>Nta_Private\<close> reads \<open>is_private_ip\<close> as a condition on the octets of an address. \<open>Nta_Evpoint\<close> follows an
  event from the packet to its point in the data base and counts how many fit a batch; this theory
  follows it to the narrator, and \<open>Nta_Narrated\<close>, with the properties the messages are published
  with, from there to the narrative that is stored.

  \<^bold>\<open>Arguments of the model.\<close> Everything outside \<open>src/\<close>, and the vendored JSON parser and printer, is an
  argument: libpcap gives packets, the AMQP library the result of each call, libcurl the chunks and the
  status of a reply, libmaxminddb a map, the sockets of WHOIS whether a server is reached and what it then answers to a query, a socket
  of the health endpoint the results of its calls, the Windows calls what they return, and every clock
  reading a number. The service manager starts a service with the command line it stored, which the C
  runtime splits by its documented rules. \<open>malloc\<close> succeeds unless an argument says otherwise.
  Conversions C leaves undefined (a double out of the range of an integer, an overflowing product of
  \<open>int\<close>s) take what the common x86-64 code gives.

  \<^bold>\<open>Bounds.\<close> Machine integers are words or carry their range; lists stand for arrays together with the
  constant of their size (\<open>MAX_SUSPECTS\<close>, \<open>MAX_DETECTIONS\<close>, \<open>LP_BUF_SIZE\<close>, ...). Loops are structural
  or have a termination proof; the only fuel is the 400 steps of \<open>dec_exp\<close>, more than the decimal
  exponent of any double. Loops that run until the outside ends them (consume, retry, scaler, capture)
  run over the list of what they meet, and say when they are still running after it.

  \<^bold>\<open>Not modelled.\<close> The remaining console output (progress and log lines); the options set on libcurl and
  socket handles; the opening of databases; a memory model weaker than release and acquire of one
  producer and one consumer (the relaxed overflow counter is a plain counter, and the compiler is taken
  to keep the order the model fixes); \<open>SetServiceStatus\<close> takes the status structure at one moment; the
  vendored JSON library; tests, scripts and deployment files.
\<close>

section \<open>From the agent to the narrator\<close>

lemma ensure_frame:
  "fst (ensure_connected_locked now a p) = p1 \<Longrightarrow> amqp_log p1 = amqp_log p \<and> g_queue_name p1 = g_queue_name p"
proof -
  obtain q r where c: "connect_locked a p = (q, r)" by (cases "connect_locked a p")
  from connect_result [OF c] show "fst (ensure_connected_locked now a p) = p1 \<Longrightarrow> ?thesis"
    by (auto simp: ensure_connected_locked_def c)
qed

lemma send_batch_log:
  assumes "publisher_send_batch print_json n1 a1 n2 a2 published evs p = (p', 0)" and "evs \<noteq> []"
  shows "\<exists>msg. print_json (batch_json evs) = Some msg \<and> amqp_log p' = amqp_log p @ [(g_queue_name p, msg)]"
proof -
  obtain p1 r1 where e1: "ensure_connected_locked n1 a1 p = (p1, r1)" by (cases "ensure_connected_locked n1 a1 p")
  obtain p2 r2 where e2: "ensure_connected_locked n2 a2 p1 = (p2, r2)" by (cases "ensure_connected_locked n2 a2 p1")
  have f: "amqp_log p1 = amqp_log p" "g_queue_name p1 = g_queue_name p" "amqp_log p2 = amqp_log p1"
    using ensure_frame [of n1 a1 p p1] ensure_frame [of n2 a2 p1 p2] e1 e2 by simp_all
  from assms e1 e2 f show ?thesis
    by (auto simp: publisher_send_batch_def publish_to_def split: if_splits option.splits)
qed

lemma event_high_score: "high_score mn (event_json e) \<longleftrightarrow> mn \<le> evt_kc_score e"
  by (simp add: high_score_def event_json_def item_number_def)

lemma incident_of_event: "parse s = Some (event_json e) \<Longrightarrow> incident_ip parse s = Some (evt_src_ip e)"
  by (simp add: incident_ip_def event_json_def item_string_def)

text \<open>
  C6. End to end: a batch the agent sends successfully is one message on its queue; the server that
  takes this message writes it and publishes to the narrator one incident for each event of the batch
  whose kill-chain score reaches the minimum, in order, under the agent's name; and the address the
  narrator looks up in each incident is the source address of that event. The JSON library is assumed
  to read back what it prints.
\<close>

theorem alerts_reach_narrator:
  assumes json: "\<And>j s. print_json j = Some s \<Longrightarrow> s \<noteq> [] \<and> parse s = Some j"
    and sent: "publisher_send_batch print_json n1 a1 n2 a2 published evs p = (p', 0)" "evs \<noteq> []"
    and ctx: "ready_to_publish ctx" "inf_ready (tc_influx ctx)"
    and db: "curl_ok (tc_replies ctx (tc_bodies ctx))" "http_code (tc_replies ctx (tc_bodies ctx)) = 204"
  shows "\<exists>msg. amqp_log p' = amqp_log p @ [(g_queue_name p, msg)] \<and>
     tc_sent (traffic_handler parse print_json msg agent ctx) = tc_sent ctx @
       alerts print_json (tc_narrator_queue ctx) agent (List.map event_json (filter (\<lambda>e. tc_min_score ctx \<le> evt_kc_score e) evs)) \<and>
     (\<forall>e\<in>set evs. \<forall>s. print_json (event_json e) = Some s \<longrightarrow> incident_ip parse s = Some (evt_src_ip e))"
proof -
  obtain msg where msg: "print_json (batch_json evs) = Some msg" "amqp_log p' = amqp_log p @ [(g_queue_name p, msg)]"
    using send_batch_log [OF sent] by blast
  then have m: "msg \<noteq> []" "parse msg = Some (JArray (List.map event_json evs))"
    using json by (auto simp: batch_json_def)
  obtain h en where w: "nta_influx_write_traffic parse (tc_replies ctx (tc_bodies ctx)) msg (Some agent) (tc_influx ctx)
      (tc_enrich ctx) = (h, en, 0)"
    using write_traffic_ok [where parse = parse, OF ctx(2) m db] by blast
  have "filter (high_score (tc_min_score ctx)) (List.map event_json evs) =
      List.map event_json (filter (\<lambda>e. tc_min_score ctx \<le> evt_kc_score e) evs)"
    by (simp add: filter_map o_def event_high_score)
  with traffic_items_alerts [OF ctx(1) m(2) w] msg(2) incident_of_event json show ?thesis by auto
qed

definition demo_event :: event_slot where
  "demo_event = \<lparr>evt_src_ip = ''8.8.8.8'', evt_port = 22, evt_proto = ''TCP'', evt_bytes = 60, evt_is_scan = 1,
     evt_attack_type = ''BRUTE_FORCE'', evt_kill_chain_stage = ''EXPLOIT'', evt_kc_score = 90, evt_mitre = ''T1110''\<rparr>"

definition demo_print :: "json \<Rightarrow> string option" where
  "demo_print j = (if j = batch_json [demo_event] then Some ''[e]'' else if j = event_json demo_event then Some ''e'' else None)"

definition demo_read :: "string \<Rightarrow> json option" where
  "demo_read s = (if s = ''[e]'' then Some (batch_json [demo_event]) else if s = ''e'' then Some (event_json demo_event) else None)"

definition online :: publisher where
  "online = initial_publisher\<lparr>conn := True, g_connected := True\<rparr>"

theorem alerts_reach_narrator_witness:
  "tc_sent (traffic_handler demo_read demo_print ''[e]'' ''agent'' demo_ctx) = [(''narrator_queue'', ''agent'', ''e'')]"
proof -
  let ?a = "\<lparr>new_connection_ok = True, ssl_socket_ok = True, set_key_ok = True, tcp_socket_ok = True, socket_open_ok = True,
     login_ok = True, channel_open_ok = True, queue_declare_ok = True, metrics_declare_ok = True\<rparr>"
  have j: "\<And>j s. demo_print j = Some s \<Longrightarrow> s \<noteq> [] \<and> demo_read s = Some j"
    by (auto simp: demo_print_def demo_read_def split: if_splits)
  have s: "publisher_send_batch demo_print 0 ?a 0 ?a True [demo_event] online =
     (online\<lparr>amqp_log := amqp_log online @ [(g_queue_name online, ''[e]'')]\<rparr>, 0)"
    by (simp add: publisher_send_batch_def publish_to_def ensure_connected_locked_def online_def demo_print_def)
  have c: "ready_to_publish demo_ctx" "inf_ready (tc_influx demo_ctx)" "curl_ok (tc_replies demo_ctx (tc_bodies demo_ctx))"
    "http_code (tc_replies demo_ctx (tc_bodies demo_ctx)) = 204"
    by (simp_all add: ready_to_publish_def demo_ctx_def accepted_reply_def)
  have ne: "event_json demo_event \<noteq> batch_json [demo_event]" by (simp add: event_json_def batch_json_def)
  from alerts_reach_narrator [of demo_print demo_read 0 ?a 0 ?a True "[demo_event]" online _ demo_ctx "''agent''",
      OF j s _ c] ne show ?thesis
    by (simp add: demo_ctx_def alerts_def demo_event_def demo_print_def)
qed

end
